(* ===== verification/Prelude.thy ===== *)
theory Prelude
  imports Main "HOL-Library.Word" "HOL-Library.Monad_Syntax"
begin

unbundle bit_operations_syntax

text \<open>
  The vocabulary every component shares: the machine types of the i386 kernel, the error
  numbers of its system calls, C's truncating division, and the few generic lemmas on options,
  function updates and lists that carry the component proofs.

  A kernel function that may fail to return (a dereference of \<open>NULL\<close> or of an unmapped
  address in kernel mode, \<open>BUG()\<close>, \<open>panic()\<close>, a loop that never ends) has a result of type
  \<open>'a option\<close>: \<open>None\<close> is ``does not return'', \<open>Some\<close> its result and the state it leaves.
\<close>

section \<open>Machine types\<close>

type_synonym byte = "8 word"
type_synonym u32 = "32 word"
type_synonym addr = "32 word"

text \<open>One flat 32-bit address space; an address with no byte is not mapped.\<close>
type_synonym mem = "addr \<Rightarrow> byte option"

section \<open>Error numbers (include/asm-i386/errno.h)\<close>

definition EPERM :: int where "EPERM = 1"
definition ESRCH :: int where "ESRCH = 3"
definition EBADF :: int where "EBADF = 9"
definition ECHILD :: int where "ECHILD = 10"
definition EAGAIN :: int where "EAGAIN = 11"
definition ENOMEM :: int where "ENOMEM = 12"
definition EFAULT :: int where "EFAULT = 14"
definition EEXIST :: int where "EEXIST = 17"
definition EINVAL :: int where "EINVAL = 22"
definition ENOTTY :: int where "ENOTTY = 25"
definition ECONNREFUSED :: int where "ECONNREFUSED = 111"
definition EHOSTDOWN :: int where "EHOSTDOWN = 112"
definition ERESTARTSYS :: int where "ERESTARTSYS = 512"

lemmas errno_defs = EPERM_def ESRCH_def EBADF_def ECHILD_def EAGAIN_def ENOMEM_def EFAULT_def
  EEXIST_def EINVAL_def ENOTTY_def ECONNREFUSED_def EHOSTDOWN_def ERESTARTSYS_def

section \<open>C arithmetic\<close>

text \<open>Division of signed integers truncates towards zero.\<close>
definition cdiv :: "int \<Rightarrow> int \<Rightarrow> int" where
  "cdiv a b = sgn a * sgn b * (\<bar>a\<bar> div \<bar>b\<bar>)"

lemma cdiv_nonneg: "0 \<le> a \<Longrightarrow> 0 < b \<Longrightarrow> cdiv a b = a div b"
  by (cases "a = 0") (auto simp: cdiv_def)

section \<open>Generic lemmas\<close>

lemma length_removeAll_distinct:
  "distinct xs \<Longrightarrow> x \<in> set xs \<Longrightarrow> Suc (length (removeAll x xs)) = length xs"
  by (induction xs) (auto simp: removeAll_id)

lemma of_nat_u32_eq_0: "n < 2 ^ 32 \<Longrightarrow> (of_nat n :: u32) = 0 \<longleftrightarrow> n = 0"
  by (auto simp: word_of_nat_eq_0_iff dest: dvd_imp_le)

lemma sint_pos_iff: "0 < sint (w :: u32) \<longleftrightarrow> 0 < unat w \<and> unat w < 2 ^ 31"
proof -
  have u: "0 \<le> uint w" "uint w < 2 ^ 32" using uint_bounded [of w] by simp_all
  have "sint w = (uint w + 2 ^ 31) mod 2 ^ 32 - 2 ^ 31"
    by (simp add: sint_uint signed_take_bit_eq_take_bit_shift take_bit_eq_mod)
  also have "\<dots> = (if uint w < 2 ^ 31 then uint w else uint w - 2 ^ 32)"
  proof (cases "uint w < 2 ^ 31")
    case True
    with u show ?thesis by (simp add: mod_pos_pos_trivial)
  next
    case False
    have e: "uint w + 2 ^ 31 = uint w - 2 ^ 31 + 2 ^ 32" by simp
    have "(uint w + 2 ^ 31) mod 2 ^ 32 = (uint w - 2 ^ 31 + 2 ^ 32) mod 2 ^ 32" by (simp only: e)
    also have "\<dots> = (uint w - 2 ^ 31) mod 2 ^ 32" by (rule mod_add_self2)
    also have "\<dots> = uint w - 2 ^ 31" using u False by (intro mod_pos_pos_trivial) simp_all
    finally show ?thesis using False by simp
  qed
  finally have s: "sint w = (if uint w < 2 ^ 31 then uint w else uint w - 2 ^ 32)" .
  have n: "int (unat w) = uint w" by simp
  have "(0 < (if k < 2 ^ 31 then k else k - 2 ^ 32)) = (0 < n \<and> n < 2 ^ 31)"
    if "int n = k" "k < 2 ^ 32" for k n using that by auto
  from this [OF n u(2)] show ?thesis unfolding s .
qed

lemma bind_eq_Some [simp]: "Option.bind m f = Some y \<longleftrightarrow> (\<exists>x. m = Some x \<and> f x = Some y)"
  by (cases m) auto

end
