(* ===== verification/Klist.thy ===== *)
theory Klist
  imports Prelude
begin

text \<open>
  The circular doubly linked lists of \<open>include/linux/list.h\<close>, as pointer operations on a heap of
  \<open>next\<close> and \<open>prev\<close> fields, in the order of assignments the header makes. A list is described
  by \<open>dlist h q xs\<close>: starting at the head \<open>q\<close> the \<open>next\<close> fields visit \<open>xs\<close> and come back,
  the \<open>prev\<close> fields run the other way, and no node occurs twice. The lemmas show what every
  primitive does to such a list and what it leaves alone; the locale \<open>kernel_list\<close> is the
  interface the queues of the scheduler, the wait queues and the stolen-secret lists rely on.
  The type of nodes is a parameter; \<open>list_entry\<close> is the choice of a node type whose
  constructors tell which structure a node is embedded in.
\<close>

section \<open>The heap of list nodes\<close>

record 'n lheap =
  nxt :: "'n \<Rightarrow> 'n"
  prv :: "'n \<Rightarrow> 'n"

definition INIT_LIST_HEAD :: "'n \<Rightarrow> 'n lheap \<Rightarrow> 'n lheap" where
  "INIT_LIST_HEAD p h =
     (let h = h\<lparr>nxt := (nxt h)(p := p)\<rparr> in h\<lparr>prv := (prv h)(p := p)\<rparr>)"

definition list_add_raw :: "'n \<Rightarrow> 'n \<Rightarrow> 'n \<Rightarrow> 'n lheap \<Rightarrow> 'n lheap" where
  "list_add_raw new prev next h =
     (let h = h\<lparr>prv := (prv h)(next := new)\<rparr>;
          h = h\<lparr>nxt := (nxt h)(new := next)\<rparr>;
          h = h\<lparr>prv := (prv h)(new := prev)\<rparr>
      in h\<lparr>nxt := (nxt h)(prev := new)\<rparr>)"

definition list_add :: "'n \<Rightarrow> 'n \<Rightarrow> 'n lheap \<Rightarrow> 'n lheap" where
  "list_add new head h = list_add_raw new head (nxt h head) h"

definition list_add_tail :: "'n \<Rightarrow> 'n \<Rightarrow> 'n lheap \<Rightarrow> 'n lheap" where
  "list_add_tail new head h = list_add_raw new (prv h head) head h"

definition list_del_raw :: "'n \<Rightarrow> 'n \<Rightarrow> 'n lheap \<Rightarrow> 'n lheap" where
  "list_del_raw prev next h =
     (let h = h\<lparr>prv := (prv h)(next := prev)\<rparr> in h\<lparr>nxt := (nxt h)(prev := next)\<rparr>)"

definition list_del :: "'n \<Rightarrow> 'n lheap \<Rightarrow> 'n lheap" where
  "list_del entry h = list_del_raw (prv h entry) (nxt h entry) h"

definition list_del_init :: "'n \<Rightarrow> 'n lheap \<Rightarrow> 'n lheap" where
  "list_del_init entry h = INIT_LIST_HEAD entry (list_del_raw (prv h entry) (nxt h entry) h)"

definition list_empty :: "'n \<Rightarrow> 'n lheap \<Rightarrow> bool" where
  "list_empty head h = (nxt h head = head)"

definition list_splice :: "'n \<Rightarrow> 'n \<Rightarrow> 'n lheap \<Rightarrow> 'n lheap" where
  "list_splice list head h =
     (let first = nxt h list in
      if first \<noteq> list then
        (let last = prv h list; at = nxt h head;
             h = h\<lparr>prv := (prv h)(first := head)\<rparr>;
             h = h\<lparr>nxt := (nxt h)(head := first)\<rparr>;
             h = h\<lparr>nxt := (nxt h)(last := at)\<rparr>
         in h\<lparr>prv := (prv h)(at := last)\<rparr>)
      else h)"

partial_function (option) list_for_each :: "'n lheap \<Rightarrow> 'n \<Rightarrow> 'n \<Rightarrow> 'n list option" where
  "list_for_each h head pos =
     (if pos = head then Some []
      else do { rest \<leftarrow> list_for_each h head (nxt h pos); Some (pos # rest) })"

partial_function (option) list_for_each_prev :: "'n lheap \<Rightarrow> 'n \<Rightarrow> 'n \<Rightarrow> 'n list option" where
  "list_for_each_prev h head pos =
     (if pos = head then Some []
      else do { rest \<leftarrow> list_for_each_prev h head (prv h pos); Some (pos # rest) })"

section \<open>Well-formed circular lists\<close>

primrec chain :: "'n lheap \<Rightarrow> 'n \<Rightarrow> 'n list \<Rightarrow> 'n \<Rightarrow> bool" where
  "chain h a [] b = (nxt h a = b \<and> prv h b = a)"
| "chain h a (x # xs) b = (nxt h a = x \<and> prv h x = a \<and> chain h x xs b)"

definition dlist :: "'n lheap \<Rightarrow> 'n \<Rightarrow> 'n list \<Rightarrow> bool" where
  "dlist h q xs = (distinct (q # xs) \<and> chain h q xs q)"

lemma chain_append: "chain h a (xs @ x # ys) b = (chain h a xs x \<and> chain h x ys b)"
  by (induction xs arbitrary: a) auto

lemma chain_cong:
  assumes "\<And>x. x \<in> set (a # xs) \<Longrightarrow> nxt h' x = nxt h x"
    and "\<And>x. x \<in> set (xs @ [b]) \<Longrightarrow> prv h' x = prv h x"
  shows "chain h' a xs b = chain h a xs b"
  using assms by (induction xs arbitrary: a) auto

lemma chain_ends:
  assumes "chain h a xs b"
  shows "nxt h a = hd (xs @ [b])" "prv h b = last (a # xs)"
  using assms by (induction xs arbitrary: a) auto

lemma list_add_raw_sel:
  "nxt (list_add_raw n a b h) = (nxt h)(n := b, a := n)"
  "prv (list_add_raw n a b h) = (prv h)(b := n, n := a)"
  by (simp_all add: list_add_raw_def Let_def)

lemma list_del_raw_sel:
  "nxt (list_del_raw a b h) = (nxt h)(a := b)"
  "prv (list_del_raw a b h) = (prv h)(b := a)"
  by (simp_all add: list_del_raw_def Let_def)

lemma dlist_cong:
  assumes "\<And>x. x \<in> set (q # xs) \<Longrightarrow> nxt h' x = nxt h x"
    and "\<And>x. x \<in> set (q # xs) \<Longrightarrow> prv h' x = prv h x"
  shows "dlist h' q xs = dlist h q xs"
  unfolding dlist_def using chain_cong [of q xs h' h q] assms by auto

text \<open>A chain with a last edge, cut before it (\<open>chain_upto\<close>) or after its first (\<open>chain_from\<close>).\<close>

lemma chain_upto:
  assumes "chain h a (ys @ zs) b" "chain h' a ys c = chain h' a ys c"
    and "\<And>x. x \<in> set (butlast (a # ys)) \<Longrightarrow> nxt h' x = nxt h x"
    and "\<And>x. x \<in> set ys \<Longrightarrow> prv h' x = prv h x"
    and "nxt h' (last (a # ys)) = c" "prv h' c = last (a # ys)"
  shows "chain h' a ys c"
  using assms by (induction ys arbitrary: a) (auto split: if_splits)

lemma chain_from:
  assumes "chain h a (ys @ zs) b"
    and "\<And>x. x \<in> set zs \<Longrightarrow> nxt h' x = nxt h x"
    and "\<And>x. x \<in> set (tl (zs @ [b])) \<Longrightarrow> prv h' x = prv h x"
    and "nxt h' c = hd (zs @ [b])" "prv h' (hd (zs @ [b])) = c"
  shows "chain h' c zs b"
proof (cases zs)
  case Nil
  with assms show ?thesis by simp
next
  case (Cons z zs')
  with assms(1) have "chain h z zs' b" by (simp add: chain_append)
  moreover have "chain h' z zs' b = chain h z zs' b"
    by (rule chain_cong) (use assms Cons in auto)
  ultimately show ?thesis using assms Cons by simp
qed

lemma dlist_list_add_raw:
  assumes "dlist h q (ys @ zs)" "n \<notin> set (q # ys @ zs)"
  shows "dlist (list_add_raw n (last (q # ys)) (hd (zs @ [q])) h) q (ys @ n # zs)"
proof -
  let ?p = "last (q # ys)" and ?s = "hd (zs @ [q])"
  let ?h = "list_add_raw n ?p ?s h"
  from assms have c: "chain h q (ys @ zs) q" and d: "distinct (q # ys @ zs)"
    by (auto simp: dlist_def)
  have p: "?p \<in> set (q # ys)" "?p \<notin> set zs" "?p \<noteq> n" "?p \<notin> set (butlast (q # ys))"
    using d assms(2) by (cases ys rule: rev_cases; auto)+
  have s: "?s \<in> set (q # zs)" "?s \<notin> set ys" "?s \<noteq> n" "?s \<notin> set (tl (zs @ [q]))"
    using d assms(2) by (cases zs; auto)+
  have b: "x \<noteq> n" if "x \<in> set (butlast (q # ys))" for x
    using in_set_butlastD [OF that] assms(2) by auto
  have "chain ?h q ys n"
    by (rule chain_upto [OF c refl])
      (use p s b assms(2) in \<open>auto simp: list_add_raw_sel\<close>)
  moreover have "chain ?h n zs q"
    by (rule chain_from [OF c])
      (use p s d assms(2) in \<open>cases zs; auto simp: list_add_raw_sel\<close>)+
  ultimately show ?thesis using d assms(2) by (auto simp: dlist_def chain_append)
qed

lemma dlist_list_del:
  assumes "dlist h q (ys @ e # zs)"
  shows "dlist (list_del e h) q (ys @ zs)"
proof -
  let ?p = "last (q # ys)" and ?s = "hd (zs @ [q])"
  from assms have c: "chain h q (ys @ e # zs) q" and d: "distinct (q # ys @ e # zs)"
    by (auto simp: dlist_def)
  from c have ce: "chain h q ys e" "chain h e zs q" by (auto simp: chain_append)
  have eq: "list_del e h = list_del_raw ?p ?s h"
    using chain_ends [OF ce(1)] chain_ends [OF ce(2)] by (simp add: list_del_def)
  let ?h = "list_del_raw ?p ?s h"
  have p: "?p \<in> set (q # ys)" "?p \<notin> set zs" "?p \<notin> set (butlast (q # ys))"
    using d by (cases ys rule: rev_cases; auto)+
  have s: "?s \<in> set (q # zs)" "?s \<notin> set ys" "?s \<notin> set (tl (zs @ [q]))"
    using d by (cases zs; auto)+
  show ?thesis
  proof (cases ys rule: rev_cases)
    case Nil
    have "chain ?h q zs q"
      by (rule chain_from [of h e "[]"])
        (use p s d ce Nil in \<open>cases zs; auto simp: list_del_raw_sel\<close>)+
    with d Nil show ?thesis by (simp add: eq dlist_def)
  next
    case (snoc ys' y)
    have "chain ?h q ys' y"
      by (rule iffD2 [OF chain_cong [of q ys' _ h y]])
        (use p s d c snoc in \<open>auto simp: list_del_raw_sel chain_append\<close>)
    moreover have "chain ?h y zs q"
      by (rule chain_from [of h e "[]"])
        (use p s d ce snoc in \<open>cases zs; auto simp: list_del_raw_sel\<close>)+
    ultimately show ?thesis using d snoc by (auto simp: eq dlist_def chain_append)
  qed
qed

lemma dlist_INIT_LIST_HEAD: "dlist (INIT_LIST_HEAD q h) q []"
  by (simp add: INIT_LIST_HEAD_def dlist_def Let_def)

lemma dlist_nxt_prv:
  assumes "dlist h q xs"
  shows "nxt h q = hd (xs @ [q])" "prv h q = last (q # xs)"
  using assms chain_ends [of h q xs q] by (simp_all add: dlist_def)

lemma dlist_neighbours:
  assumes "dlist h q (ys @ e # zs)"
  shows "prv h e = last (q # ys)" "nxt h e = hd (zs @ [q])"
proof -
  from assms have "chain h q ys e" "chain h e zs q" by (auto simp: dlist_def chain_append)
  then show "prv h e = last (q # ys)" "nxt h e = hd (zs @ [q])"
    by (simp_all only: chain_ends)
qed

lemma dlist_list_add:
  assumes "dlist h q xs" "n \<notin> set (q # xs)"
  shows "dlist (list_add n q h) q (n # xs)"
  using dlist_list_add_raw [of h q "[]" xs n] dlist_nxt_prv [OF assms(1)] assms
  by (simp add: list_add_def)

lemma dlist_list_add_after:
  assumes "dlist h q (ys @ e # zs)" "n \<notin> set (q # ys @ e # zs)"
  shows "dlist (list_add n e h) q (ys @ e # n # zs)"
  using dlist_list_add_raw [of h q "ys @ [e]" zs n] dlist_neighbours [OF assms(1)] assms
  by (simp add: list_add_def)

lemma dlist_list_add_tail:
  assumes "dlist h q xs" "n \<notin> set (q # xs)"
  shows "dlist (list_add_tail n q h) q (xs @ [n])"
  using dlist_list_add_raw [of h q xs "[]" n] dlist_nxt_prv [OF assms(1)] assms
  by (simp add: list_add_tail_def)

lemma dlist_empty_iff:
  assumes "dlist h q xs"
  shows "list_empty q h \<longleftrightarrow> xs = []"
  using assms by (cases xs) (auto simp: list_empty_def dlist_def)

lemma dlist_unique:
  assumes "dlist h q xs" "dlist h q ys"
  shows "xs = ys"
proof -
  have "chain h a xs q \<Longrightarrow> chain h a ys q \<Longrightarrow> q \<notin> set xs \<Longrightarrow> q \<notin> set ys \<Longrightarrow> xs = ys" for a
  proof (induction xs arbitrary: a ys)
    case Nil
    then show ?case by (cases ys) auto
  next
    case (Cons x xs)
    then show ?case by (cases ys) auto
  qed
  with assms show ?thesis by (auto simp: dlist_def)
qed

text \<open>What the primitives leave alone: every circular list whose nodes they do not touch.\<close>

lemma dlist_frame_add_raw:
  assumes "n \<notin> set (q # xs)" "a \<notin> set (q # xs)" "b \<notin> set (q # xs)"
  shows "dlist (list_add_raw n a b h) q xs = dlist h q xs"
  by (rule dlist_cong) (use assms in \<open>auto simp: list_add_raw_sel\<close>)

lemma dlist_frame_init:
  assumes "n \<notin> set (q # xs)"
  shows "dlist (INIT_LIST_HEAD n h) q xs = dlist h q xs"
  by (rule dlist_cong) (use assms in \<open>auto simp: INIT_LIST_HEAD_def Let_def\<close>)

lemma dlist_frame_add:
  assumes "dlist h r ys" "dlist h q xs" "set (r # ys) \<inter> set (q # xs) = {}" "n \<notin> set (q # xs)"
  shows "dlist (list_add n r h) q xs" "dlist (list_add_tail n r h) q xs"
proof -
  have "nxt h r \<in> set (r # ys)" "prv h r \<in> set (r # ys)"
    using dlist_nxt_prv [OF assms(1)] by (cases ys; auto)+
  with assms have "nxt h r \<notin> set (q # xs)" "prv h r \<notin> set (q # xs)" "r \<notin> set (q # xs)"
    by auto
  then show "dlist (list_add n r h) q xs" "dlist (list_add_tail n r h) q xs"
    using assms(2,4) by (simp_all add: list_add_def list_add_tail_def dlist_frame_add_raw)
qed

lemma dlist_frame_del:
  assumes "dlist h r ys" "e \<in> set ys" "dlist h q xs" "set (r # ys) \<inter> set (q # xs) = {}"
  shows "dlist (list_del e h) q xs"
proof -
  from \<open>e \<in> set ys\<close> obtain us vs where ys: "ys = us @ e # vs" by (meson split_list)
  have "prv h e \<in> set (r # ys)" "nxt h e \<in> set (r # ys)"
    using dlist_neighbours [of h r us e vs] assms(1) ys by (cases vs; auto)+
  with assms(4) have "prv h e \<notin> set (q # xs)" "nxt h e \<notin> set (q # xs)" by auto
  then have "dlist (list_del e h) q xs = dlist h q xs"
    by (intro dlist_cong) (auto simp: list_del_def list_del_raw_sel)
  with assms(3) show ?thesis by simp
qed

lemma dlist_list_del_member:
  assumes "dlist h q xs" "e \<in> set xs"
  shows "dlist (list_del e h) q (removeAll e xs)"
proof -
  from \<open>e \<in> set xs\<close> obtain us vs where xs: "xs = us @ e # vs" by (meson split_list)
  with assms(1) have "e \<notin> set us" "e \<notin> set vs" by (auto simp: dlist_def)
  with dlist_list_del [of h q us e vs] assms(1) xs show ?thesis by simp
qed

lemma dlist_list_del_init:
  assumes "dlist h q xs" "e \<in> set xs"
  shows "dlist (list_del_init e h) q (removeAll e xs)" "dlist (list_del_init e h) e []"
proof -
  have "e \<noteq> q" using assms by (auto simp: dlist_def)
  then have "dlist (INIT_LIST_HEAD e (list_del e h)) q (removeAll e xs)"
    using dlist_list_del_member [OF assms] by (simp add: dlist_frame_init)
  then show "dlist (list_del_init e h) q (removeAll e xs)"
    by (simp add: list_del_init_def list_del_def)
  show "dlist (list_del_init e h) e []"
    by (simp add: list_del_init_def dlist_INIT_LIST_HEAD)
qed

lemma list_splice_sel:
  assumes "nxt h l \<noteq> l"
  shows "nxt (list_splice l q h) = (nxt h)(q := nxt h l, prv h l := nxt h q)"
    "prv (list_splice l q h) = (prv h)(nxt h l := q, nxt h q := prv h l)"
  using assms by (simp_all add: list_splice_def Let_def)

text \<open>\<open>list_splice\<close> puts the members of one list at the front of another.\<close>

lemma dlist_list_splice:
  assumes l: "dlist h l ys" and q: "dlist h q xs" and dis: "set (l # ys) \<inter> set (q # xs) = {}"
  shows "dlist (list_splice l q h) q (ys @ xs)"
proof (cases "ys = []")
  case True
  with dlist_empty_iff [OF l] q show ?thesis
    by (simp add: list_splice_def list_empty_def)
next
  case False
  let ?h = "list_splice l q h"
  have n: "nxt h l = hd ys" "prv h l = last ys" "nxt h q = hd (xs @ [q])"
    using dlist_nxt_prv [OF l] dlist_nxt_prv [OF q] False by auto
  have ne: "nxt h l \<noteq> l" using dlist_empty_iff [OF l] False by (simp add: list_empty_def)
  define w where "w = hd (xs @ [q])"
  note sel = list_splice_sel [OF ne, of q, unfolded n, folded w_def]
  from l q have cl: "chain h l ys l" and dl: "distinct (l # ys)"
    and cq: "chain h q xs q" and dq: "distinct (q # xs)" by (auto simp: dlist_def)
  have w: "w \<in> set (q # xs)" "w \<notin> set (tl (xs @ [q]))"
    using dq by (cases xs; auto simp: w_def)+
  obtain y ys' where ys: "ys = ys' @ [y]" using False by (cases ys rule: rev_cases) auto
  have y: "y \<notin> set ys'" "y \<notin> set (q # xs)" "y \<noteq> w" "set ys' \<inter> set (q # xs) = {}"
    using dl dis ys w(1) by auto
  have hd: "hd ys = hd (ys' @ [y])" "hd ys \<notin> set (tl (ys' @ [y]))" "hd ys \<notin> set (q # xs)"
    "hd ys \<noteq> w" "last ys = y"
    using dl dis ys w(1) by (cases ys'; auto)+
  have "chain ?h q ys' y"
  proof (rule chain_from [of h l "[]" ys' y])
    show "chain h l ([] @ ys') y" using cl ys by (simp add: chain_append)
    show "nxt ?h x = nxt h x" if "x \<in> set ys'" for x using that y by (auto simp: sel hd)
    show "prv ?h x = prv h x" if "x \<in> set (tl (ys' @ [y]))" for x
      using that y w(1) hd(2) by (cases ys') (auto simp: sel)
    show "nxt ?h q = hd (ys' @ [y])" using y by (auto simp: sel hd(1,5))
    show "prv ?h (hd (ys' @ [y])) = q" using hd by (simp add: sel)
  qed
  moreover have "chain ?h y xs q"
  proof (rule chain_from [of h q "[]" xs q])
    show "chain h q ([] @ xs) q" using cq by simp
    show "nxt ?h x = nxt h x" if "x \<in> set xs" for x using that y dq by (auto simp: sel hd(5))
    show "prv ?h x = prv h x" if "x \<in> set (tl (xs @ [q]))" for x
      using that w(2) hd(3) by (cases xs) (auto simp: sel)
    show "nxt ?h y = hd (xs @ [q])" by (simp add: sel hd(5) w_def)
    show "prv ?h (hd (xs @ [q])) = y" by (simp add: sel hd(5) flip: w_def)
  qed
  ultimately show ?thesis using dl dq dis ys by (auto simp: dlist_def chain_append)
qed

lemma list_for_each_dlist:
  assumes "dlist h q xs"
  shows "list_for_each h q (nxt h q) = Some xs"
proof -
  have "chain h a xs q \<Longrightarrow> q \<notin> set xs \<Longrightarrow> list_for_each h q (nxt h a) = Some xs" for a
  proof (induction xs arbitrary: a)
    case Nil
    then show ?case by (subst list_for_each.simps) simp
  next
    case (Cons x xs)
    then show ?case by (subst list_for_each.simps) auto
  qed
  with assms show ?thesis by (simp add: dlist_def)
qed


lemma list_for_each_prev_dlist:
  assumes "dlist h q xs"
  shows "list_for_each_prev h q (prv h q) = Some (rev xs)"
proof -
  have "chain h q xs b \<Longrightarrow> q \<notin> set xs \<Longrightarrow> list_for_each_prev h q (prv h b) = Some (rev xs)" for b
  proof (induction xs arbitrary: b rule: rev_induct)
    case Nil
    then show ?case by (subst list_for_each_prev.simps) simp
  next
    case (snoc x xs)
    then show ?case by (subst list_for_each_prev.simps) (auto simp: chain_append)
  qed
  with assms show ?thesis by (simp add: dlist_def)
qed

section \<open>The interface its clients use\<close>

text \<open>
  The scheduler's queues, the wait queues and the stolen-secret lists are clients of the list
  primitives through these laws only: \<open>lst h q xs\<close> says that the list headed by \<open>q\<close> has the
  members \<open>xs\<close> in this order.
\<close>

locale kernel_list =
  fixes lst :: "'h \<Rightarrow> 'n \<Rightarrow> 'n list \<Rightarrow> bool"
    and init :: "'n \<Rightarrow> 'h \<Rightarrow> 'h"
    and add_tail :: "'n \<Rightarrow> 'n \<Rightarrow> 'h \<Rightarrow> 'h"
    and del :: "'n \<Rightarrow> 'h \<Rightarrow> 'h"
    and empty :: "'n \<Rightarrow> 'h \<Rightarrow> bool"
    and first :: "'h \<Rightarrow> 'n \<Rightarrow> 'n"
  assumes lst_distinct: "lst h q xs \<Longrightarrow> distinct (q # xs)"
    and lst_init: "lst (init q h) q []"
    and lst_add_tail: "lst h q xs \<Longrightarrow> n \<notin> set (q # xs) \<Longrightarrow> lst (add_tail n q h) q (xs @ [n])"
    and lst_del: "lst h q xs \<Longrightarrow> e \<in> set xs \<Longrightarrow> lst (del e h) q (removeAll e xs)"
    and lst_empty: "lst h q xs \<Longrightarrow> empty q h = (xs = [])"
    and lst_first: "lst h q (x # xs) \<Longrightarrow> first h q = x"
    and frame_init: "lst h q xs \<Longrightarrow> n \<notin> set (q # xs) \<Longrightarrow> lst (init n h) q xs"
    and frame_add_tail: "lst h r ys \<Longrightarrow> lst h q xs \<Longrightarrow> set (r # ys) \<inter> set (q # xs) = {} \<Longrightarrow>
      n \<notin> set (q # xs) \<Longrightarrow> lst (add_tail n r h) q xs"
    and frame_del: "lst h r ys \<Longrightarrow> e \<in> set ys \<Longrightarrow> lst h q xs \<Longrightarrow>
      set (r # ys) \<inter> set (q # xs) = {} \<Longrightarrow> lst (del e h) q xs"
begin

lemma add_tail_all:
  assumes "lst h q xs" "distinct ns" "set ns \<inter> set (q # xs) = {}"
  shows "lst (fold (\<lambda>n. add_tail n q) ns h) q (xs @ ns)"
  using assms
proof (induction ns arbitrary: h xs)
  case Nil
  then show ?case by simp
next
  case (Cons n ns)
  then have "lst (add_tail n q h) q (xs @ [n])" by (intro lst_add_tail) auto
  with Cons show ?case by force
qed

lemma rotate_to_tail:
  assumes "lst h q xs" "e \<in> set xs"
  shows "lst (add_tail e q (del e h)) q (removeAll e xs @ [e])"
  using lst_add_tail [OF lst_del [OF assms], of e] lst_distinct [OF assms(1)] assms(2) by auto

lemma move_to_tail:
  assumes q: "lst h q xs" and r: "lst h r ys" and dis: "set (q # xs) \<inter> set (r # ys) = {}"
    and e: "e \<in> set xs"
  shows "lst (add_tail e r (del e h)) r (ys @ [e])"
    "lst (add_tail e r (del e h)) q (removeAll e xs)"
proof -
  have r': "lst (del e h) r ys" by (rule frame_del [OF q e r dis])
  have q': "lst (del e h) q (removeAll e xs)" by (rule lst_del [OF q e])
  have ne: "e \<noteq> q" using lst_distinct [OF q] e by auto
  show "lst (add_tail e r (del e h)) r (ys @ [e])"
    using lst_add_tail [OF r', of e] dis e by auto
  show "lst (add_tail e r (del e h)) q (removeAll e xs)"
    by (rule frame_add_tail [OF r' q']) (use dis e ne in auto)
qed

lemma del_all:
  assumes "lst h q xs"
  shows "lst (fold del xs h) q []"
  using assms
proof (induction xs arbitrary: h)
  case Nil
  then show ?case by simp
next
  case (Cons x xs)
  have "lst (del x h) q (removeAll x (x # xs))" by (rule lst_del [OF Cons.prems]) simp
  moreover have "x \<notin> set xs" using lst_distinct [OF Cons.prems] by auto
  ultimately show ?case using Cons.IH by simp
qed

lemma frame_del_all:
  assumes "lst h r ys" "lst h q xs" "set (r # ys) \<inter> set (q # xs) = {}"
  shows "lst (fold del ys h) q xs"
  using assms
proof (induction ys arbitrary: h)
  case Nil
  then show ?case by simp
next
  case (Cons y ys)
  have "lst (del y h) r (removeAll y (y # ys))" by (rule lst_del [OF Cons.prems(1)]) simp
  moreover have "y \<notin> set ys" using lst_distinct [OF Cons.prems(1)] by auto
  moreover have "lst (del y h) q xs" by (rule frame_del [OF Cons.prems(1)]) (use Cons.prems in auto)
  ultimately show ?case using Cons by simp
qed

end

interpretation kl: kernel_list dlist INIT_LIST_HEAD list_add_tail list_del list_empty nxt
proof unfold_locales
  show "distinct (q # xs)" if "dlist h q xs" for h :: "'a lheap" and q xs
    using that by (simp add: dlist_def)
  show "dlist (INIT_LIST_HEAD n h) q xs" if "dlist h q xs" "n \<notin> set (q # xs)"
    for h :: "'a lheap" and n q xs
    using that by (simp add: dlist_frame_init)
  show "nxt h q = x" if "dlist h q (x # xs)" for h :: "'a lheap" and q x xs
    using dlist_nxt_prv(1) [OF that] by simp
qed (fact dlist_INIT_LIST_HEAD dlist_list_add_tail dlist_list_del_member dlist_empty_iff
      dlist_frame_add(2) dlist_frame_del)+

end
