(* ===== verification/Bitmap.thy ===== *)
theory Bitmap
  imports Prelude
begin

text \<open>
  The priority bitmap of \<open>kernel/sched.c\<close> and the bit operations of
  \<open>include/asm-i386/bitops.h\<close> the scheduler calls. A bitmap of \<open>MAX_PRIO + 1\<close> bits is
  \<open>BITMAP_SIZE = 5\<close> words of 32 bits. \<open>bsfl\<close> leaves its target undefined on a zero word, so
  \<open>ffs\<close> has no result there.
\<close>

type_synonym bitmap = "u32 list"

definition bitmap_set :: "nat \<Rightarrow> bitmap \<Rightarrow> bitmap" where
  "bitmap_set nr b = b[nr div 32 := b ! (nr div 32) OR push_bit (nr mod 32) 1]"

definition bitmap_clear :: "nat \<Rightarrow> bitmap \<Rightarrow> bitmap" where
  "bitmap_clear nr b = b[nr div 32 := b ! (nr div 32) AND NOT (push_bit (nr mod 32) 1)]"

definition test_bit :: "bitmap \<Rightarrow> nat \<Rightarrow> bool" where
  "test_bit b nr = bit (b ! (nr div 32)) (nr mod 32)"

definition ffs :: "u32 \<Rightarrow> nat option" where
  "ffs w = find (bit w) [0..<32]"

definition sched_find_first_bit :: "bitmap \<Rightarrow> nat option" where
  "sched_find_first_bit b =
     (if b ! 0 \<noteq> 0 then ffs (b ! 0)
      else if b ! 1 \<noteq> 0 then map_option (\<lambda>i. i + 32) (ffs (b ! 1))
      else if b ! 2 \<noteq> 0 then map_option (\<lambda>i. i + 64) (ffs (b ! 2))
      else if b ! 3 \<noteq> 0 then map_option (\<lambda>i. i + 96) (ffs (b ! 3))
      else map_option (\<lambda>i. i + 128) (ffs (b ! 4)))"

lemma length_bitmap [simp]:
  "length (bitmap_set nr b) = length b" "length (bitmap_clear nr b) = length b"
  by (simp_all add: bitmap_set_def bitmap_clear_def)

lemma div_mod_32_eq: "(m::nat) div 32 = n div 32 \<Longrightarrow> m mod 32 = n mod 32 \<longleftrightarrow> m = n"
  by (metis div_mult_mod_eq)

lemma test_bit_set:
  assumes "nr < 32 * length b"
  shows "test_bit (bitmap_set nr b) i \<longleftrightarrow> test_bit b i \<or> i = nr"
proof (cases "i div 32 = nr div 32")
  case True
  moreover have "nr div 32 < length b" using assms by (simp add: less_mult_imp_div_less mult.commute)
  ultimately show ?thesis using div_mod_32_eq [OF True]
    by (auto simp: test_bit_def bitmap_set_def bit_or_iff bit_exp_iff)
next
  case False
  then show ?thesis by (auto simp: test_bit_def bitmap_set_def nth_list_update)
qed

lemma test_bit_clear:
  assumes "nr < 32 * length b"
  shows "test_bit (bitmap_clear nr b) i \<longleftrightarrow> test_bit b i \<and> i \<noteq> nr"
proof (cases "i div 32 = nr div 32")
  case True
  moreover have "nr div 32 < length b" using assms by (simp add: less_mult_imp_div_less mult.commute)
  ultimately show ?thesis using div_mod_32_eq [OF True]
    by (auto simp: test_bit_def bitmap_clear_def bit_and_iff bit_not_iff bit_exp_iff)
next
  case False
  then show ?thesis by (auto simp: test_bit_def bitmap_clear_def nth_list_update)
qed

lemma ffs_eq_None: "ffs w = None \<longleftrightarrow> w = 0"
  by (auto simp: ffs_def find_None_iff bit_eq_iff)

lemma ffs_SomeD: "ffs w = Some i \<Longrightarrow> i < 32 \<and> bit w i \<and> (\<forall>j < i. \<not> bit w j)"
  by (auto simp: ffs_def find_Some_iff)

text \<open>The unrolled search finds the least bit set among the 160 of the map.\<close>

definition is_first_bit :: "bitmap \<Rightarrow> nat \<Rightarrow> bool" where
  "is_first_bit b i = (i < 160 \<and> test_bit b i \<and> (\<forall>j < i. \<not> test_bit b j))"

lemma is_first_bit_unique: "is_first_bit b i \<Longrightarrow> is_first_bit b j \<Longrightarrow> i = j"
  by (metis is_first_bit_def nat_neq_iff)

lemma is_first_bit_word:
  assumes "k < 5" "ffs (b ! k) = Some i" "\<And>j. j < k \<Longrightarrow> b ! j = 0"
  shows "is_first_bit b (i + 32 * k)"
proof -
  from ffs_SomeD [OF assms(2)] have i: "i < 32" "bit (b ! k) i" "\<And>j. j < i \<Longrightarrow> \<not> bit (b ! k) j"
    by auto
  have dm: "(i + 32 * k) div 32 = k" "(i + 32 * k) mod 32 = i" using i(1) by simp_all
  have "\<not> test_bit b j" if "j < i + 32 * k" for j
  proof (cases "j div 32 < k")
    case True
    then show ?thesis by (simp add: test_bit_def assms(3))
  next
    case False
    have "j div 32 \<le> (i + 32 * k) div 32" using that by (intro div_le_mono) simp
    with False have jk: "j div 32 = k" by (simp add: dm)
    with that have "j mod 32 < i" by (metis add.commute add_less_cancel_left div_mult_mod_eq mult.commute)
    then show ?thesis using i(3) jk by (simp add: test_bit_def)
  qed
  then show ?thesis using i(1,2) assms(1) by (auto simp: is_first_bit_def test_bit_def dm)
qed

lemma sched_find_first_bit_Some:
  assumes "sched_find_first_bit b = Some i"
  shows "is_first_bit b i"
proof -
  note w0 = is_first_bit_word [of 0 b, simplified]
    and w1 = is_first_bit_word [of 1 b, simplified]
    and w2 = is_first_bit_word [of 2 b, simplified less_2_cases_iff, simplified]
  have w3: "is_first_bit b (j + 96)" if "ffs (b ! 3) = Some j" "b ! 0 = 0" "b ! 1 = 0" "b ! 2 = 0" for j
    using is_first_bit_word [of 3 b j] that by (auto simp: less_Suc_eq eval_nat_numeral)
  have w4: "is_first_bit b (j + 128)"
    if "ffs (b ! 4) = Some j" "b ! 0 = 0" "b ! 1 = 0" "b ! 2 = 0" "b ! 3 = 0" for j
    using is_first_bit_word [of 4 b j] that by (auto simp: less_Suc_eq eval_nat_numeral)
  from assms show ?thesis
    by (auto simp: sched_find_first_bit_def split: if_splits intro: w0 w1 w2 w3 w4)
qed

lemma sched_find_first_bit_None:
  assumes "sched_find_first_bit b = None" "i < 160"
  shows "\<not> test_bit b i"
proof -
  have "b ! 0 = 0 \<and> b ! 1 = 0 \<and> b ! 2 = 0 \<and> b ! 3 = 0 \<and> b ! 4 = 0"
    using assms(1) by (auto simp: sched_find_first_bit_def ffs_eq_None split: if_splits)
  moreover have "i div 32 \<in> {0, 1, 2, 3, 4}" using assms(2) by auto
  ultimately have "b ! (i div 32) = 0" by auto
  then show ?thesis by (simp add: test_bit_def)
qed

lemma sched_find_first_bit_iff: "sched_find_first_bit b = Some i \<longleftrightarrow> is_first_bit b i"
proof
  show "is_first_bit b i" if "sched_find_first_bit b = Some i"
    using that by (rule sched_find_first_bit_Some)
  show "sched_find_first_bit b = Some i" if "is_first_bit b i"
  proof (cases "sched_find_first_bit b")
    case None
    with that sched_find_first_bit_None show ?thesis by (auto simp: is_first_bit_def)
  next
    case (Some j)
    with that sched_find_first_bit_Some is_first_bit_unique show ?thesis by metis
  qed
qed

end
