(* ===== verification/Task.thy ===== *)
theory Task
  imports Klist Bitmap
begin

text \<open>
  The data model of the kernel: \<open>struct task_struct\<close> with the fields the modelled code reads or
  writes (\<open>include/linux/sched.h\<close> of the second assignment, the wand fields of the first
  included), the runqueue of \<open>kernel/sched.c\<close>, and one record \<open>kst\<close> for the state of the
  machine. The kernel is built for one processor (\<open>CONFIG_SMP\<close> is not set in the
  configuration), so there is one runqueue, the spin locks are no operations and the \<open>cpu\<close>
  fields do not occur.

  A task is its address, a number; \<open>NULL\<close> is \<open>None\<close>. The list nodes embedded in structures are
  the constructors of \<open>node\<close>. \<open>long\<close> and \<open>int\<close> are 32 bits wide; fields whose wrap-around or
  sign conversion the code can meet are words, small counters and flags are integers.
\<close>

section \<open>Tasks\<close>

type_synonym task = nat

text \<open>The head of a wait queue, and what a \<open>pidhash_pprev\<close> points to.\<close>

datatype wq_head =
    WaitChldexit task        \<comment> \<open>\<open>p->wait_chldexit\<close>\<close>
  | CompletionWait nat       \<comment> \<open>\<open>wait\<close> of a \<open>struct completion\<close>\<close>
  | WaitQueue nat            \<comment> \<open>any other\<close>

datatype pprev =
    Htable nat               \<comment> \<open>\<open>&pidhash[i]\<close>\<close>
  | NextOf task              \<comment> \<open>\<open>&p->pidhash_next\<close>\<close>

datatype node =
    QHead nat nat            \<comment> \<open>\<open>rq->arrays[a].queue[i]\<close>\<close>
  | RunList task             \<comment> \<open>\<open>p->run_list\<close>\<close>
  | ThreadGroup task         \<comment> \<open>\<open>p->thread_group\<close>\<close>
  | SecHead addr             \<comment> \<open>the \<open>struct list_head\<close> \<open>secrets_ptr\<close> points to\<close>
  | SecNode addr             \<comment> \<open>\<open>list\<close> of the \<open>struct secrets_list\<close> at this address\<close>
  | WqHead wq_head           \<comment> \<open>\<open>task_list\<close> of a \<open>wait_queue_head_t\<close>\<close>
  | WqNode nat               \<comment> \<open>\<open>task_list\<close> of a \<open>wait_queue_t\<close>\<close>

record task_struct =
  state :: u32
  flags :: u32
  sigpending :: int
  addr_limit :: u32
  need_resched :: int
  ptrace :: u32
  lock_depth :: int
  prio :: int
  static_prio :: int
  array :: "nat option"
  sleep_avg :: u32
  sleep_timestamp :: u32
  policy :: u32
  cpus_allowed :: u32
  time_slice :: u32
  first_time_slice :: u32
  next_task :: task
  prev_task :: task
  mm :: "nat option"
  active_mm :: "nat option"
  exit_code :: u32
  exit_signal :: int
  pdeath_signal :: int
  pid :: int
  pgrp :: int
  session :: int
  tgid :: int
  leader :: int
  p_opptr :: task
  p_pptr :: task
  p_cptr :: "task option"
  p_ysptr :: "task option"
  p_osptr :: "task option"
  pidhash_next :: "task option"
  pidhash_pprev :: pprev
  vfork_done :: "nat option"
  rt_priority :: u32
  tms_utime :: u32
  tms_stime :: u32
  tms_cutime :: u32
  tms_cstime :: u32
  uid :: u32
  euid :: u32
  cap_effective :: u32
  rlim_nproc :: u32
  user :: nat
  files :: "nat option"
  fs :: "nat option"
  sig :: "nat option"
  cpus_allowed_mask :: u32
  parent_exec_id :: u32
  self_exec_id :: u32
  holding_wand :: int
  health :: u32
  power :: u32
  my_secret :: addr
  secrets_ptr :: addr
  magic_time :: u32
  started_magic :: int
  magic_call_time :: u32


abbreviation (input) TASK_RUNNING :: u32 where "TASK_RUNNING \<equiv> 0"
abbreviation (input) TASK_INTERRUPTIBLE :: u32 where "TASK_INTERRUPTIBLE \<equiv> 1"
abbreviation (input) TASK_UNINTERRUPTIBLE :: u32 where "TASK_UNINTERRUPTIBLE \<equiv> 2"
abbreviation (input) TASK_ZOMBIE :: u32 where "TASK_ZOMBIE \<equiv> 4"
abbreviation (input) TASK_STOPPED :: u32 where "TASK_STOPPED \<equiv> 8"

abbreviation (input) SCHED_OTHER :: u32 where "SCHED_OTHER \<equiv> 0"
abbreviation (input) SCHED_FIFO :: u32 where "SCHED_FIFO \<equiv> 1"
abbreviation (input) SCHED_RR :: u32 where "SCHED_RR \<equiv> 2"

abbreviation (input) MAX_RT_PRIO :: int where "MAX_RT_PRIO \<equiv> 100"
abbreviation (input) MAX_USER_RT_PRIO :: int where "MAX_USER_RT_PRIO \<equiv> 100"
abbreviation (input) MAX_PRIO :: int where "MAX_PRIO \<equiv> 140"

abbreviation (input) PF_SUPERPRIV :: u32 where "PF_SUPERPRIV \<equiv> 0x100"
abbreviation (input) CAP_SYS_NICE :: nat where "CAP_SYS_NICE \<equiv> 23"

text \<open>\<open>CONFIG_HZ\<close> of the configuration.\<close>
abbreviation (input) HZ :: u32 where "HZ \<equiv> 512"

section \<open>The runqueue and the machine\<close>

text \<open>The queues of a \<open>struct prio_array\<close> are the lists headed by \<open>QHead a i\<close>.\<close>

record prio_array =
  nr_active :: int
  bitmap :: bitmap

record runqueue =
  nr_running :: u32
  nr_switches :: u32
  expired_timestamp :: u32
  nr_uninterruptible :: u32
  rq_curr :: task
  rq_idle :: task
  active :: nat
  expired :: nat
  arrays :: "nat \<Rightarrow> prio_array"

text \<open>
  A \<open>wait_queue_t\<close>; the flags \<open>done\<close> of completions, the counters of \<open>struct user_struct\<close> objects, the
  counters of processes and process numbers, the process that inherits orphans, and the \<open>task_struct\<close>
  objects that are allocated.
\<close>

record wait_queue =
  wq_flags :: u32
  wq_task :: task

record sysst =
  waitq :: "nat \<Rightarrow> wait_queue"
  completion_done :: "nat \<Rightarrow> u32"
  processes :: "nat \<Rightarrow> u32"
  user_count :: "nat \<Rightarrow> u32"
  child_reaper :: task
  task_used :: "task \<Rightarrow> bool"
  nr_threads :: int
  max_threads :: int
  last_pid :: int
  next_safe :: int
  total_forks :: u32

record kst =
  cur :: task
  tasks :: "task \<Rightarrow> task_struct"
  lists :: "node lheap"
  mem :: mem
  rq :: runqueue
  jiffies :: u32
  local_bh_count :: int
  local_irq_count :: int
  kstat_user :: u32
  kstat_nice :: u32
  kstat_system :: u32
  mm_count :: "nat \<Rightarrow> int"
  mm_freed :: "nat \<Rightarrow> bool"
  pidhash :: "nat \<Rightarrow> task option"
  magicDuration :: u32
  idle_from_magic :: int
  magicProcess :: "task option"
  magic_sleep_flag :: int
  MAGICTIME :: u32
  bugblocker :: int
  magic_was_called :: int
  global_magic_call_time :: u32
  sys :: sysst

definition upd_task :: "task \<Rightarrow> (task_struct \<Rightarrow> task_struct) \<Rightarrow> kst \<Rightarrow> kst" where
  "upd_task t f st = st\<lparr>tasks := (tasks st)(t := f (tasks st t))\<rparr>"

definition upd_sys :: "(sysst \<Rightarrow> sysst) \<Rightarrow> kst \<Rightarrow> kst" where
  "upd_sys f st = st\<lparr>sys := f (sys st)\<rparr>"

definition upd_rq :: "(runqueue \<Rightarrow> runqueue) \<Rightarrow> kst \<Rightarrow> kst" where
  "upd_rq f st = st\<lparr>rq := f (rq st)\<rparr>"

definition upd_array :: "nat \<Rightarrow> (prio_array \<Rightarrow> prio_array) \<Rightarrow> kst \<Rightarrow> kst" where
  "upd_array a f = upd_rq (\<lambda>r. r\<lparr>arrays := (arrays r)(a := f (arrays r a))\<rparr>)"

definition upd_lists :: "(node lheap \<Rightarrow> node lheap) \<Rightarrow> kst \<Rightarrow> kst" where
  "upd_lists f st = st\<lparr>lists := f (lists st)\<rparr>"

abbreviation tsk :: "kst \<Rightarrow> task_struct" where "tsk st \<equiv> tasks st (cur st)"

lemma tasks_upd [simp]:
  "tasks (upd_task t f st) = (tasks st)(t := f (tasks st t))"
  "tasks (upd_rq g st) = tasks st" "tasks (upd_array a k st) = tasks st"
  "tasks (upd_lists l st) = tasks st"
  by (simp_all add: upd_task_def upd_rq_def upd_array_def upd_lists_def)

lemma rq_upd [simp]:
  "rq (upd_task t f st) = rq st" "rq (upd_rq g st) = g (rq st)"
  "rq (upd_array a k st) = (rq st)\<lparr>arrays := (arrays (rq st))(a := k (arrays (rq st) a))\<rparr>"
  "rq (upd_lists l st) = rq st"
  by (simp_all add: upd_task_def upd_rq_def upd_array_def upd_lists_def)

lemma lists_upd [simp]:
  "lists (upd_task t f st) = lists st" "lists (upd_rq g st) = lists st"
  "lists (upd_array a k st) = lists st" "lists (upd_lists l st) = l (lists st)"
  by (simp_all add: upd_task_def upd_rq_def upd_array_def upd_lists_def)

lemma kst_upd [simp]:
  "cur (upd_task t g st) = cur st" "cur (upd_rq r st) = cur st"
  "cur (upd_array a k st) = cur st" "cur (upd_lists l st) = cur st"
  "mem (upd_task t g st) = mem st" "mem (upd_rq r st) = mem st"
  "mem (upd_array a k st) = mem st" "mem (upd_lists l st) = mem st"
  "jiffies (upd_task t g st) = jiffies st" "jiffies (upd_rq r st) = jiffies st"
  "jiffies (upd_array a k st) = jiffies st" "jiffies (upd_lists l st) = jiffies st"
  "local_bh_count (upd_task t g st) = local_bh_count st" "local_bh_count (upd_rq r st) = local_bh_count st"
  "local_bh_count (upd_array a k st) = local_bh_count st" "local_bh_count (upd_lists l st) = local_bh_count st"
  "local_irq_count (upd_task t g st) = local_irq_count st" "local_irq_count (upd_rq r st) = local_irq_count st"
  "local_irq_count (upd_array a k st) = local_irq_count st" "local_irq_count (upd_lists l st) = local_irq_count st"
  "kstat_user (upd_task t g st) = kstat_user st" "kstat_user (upd_rq r st) = kstat_user st"
  "kstat_user (upd_array a k st) = kstat_user st" "kstat_user (upd_lists l st) = kstat_user st"
  "kstat_nice (upd_task t g st) = kstat_nice st" "kstat_nice (upd_rq r st) = kstat_nice st"
  "kstat_nice (upd_array a k st) = kstat_nice st" "kstat_nice (upd_lists l st) = kstat_nice st"
  "kstat_system (upd_task t g st) = kstat_system st" "kstat_system (upd_rq r st) = kstat_system st"
  "kstat_system (upd_array a k st) = kstat_system st" "kstat_system (upd_lists l st) = kstat_system st"
  "mm_freed (upd_task t g st) = mm_freed st" "mm_freed (upd_rq r st) = mm_freed st"
  "mm_freed (upd_array a k st) = mm_freed st" "mm_freed (upd_lists l st) = mm_freed st"
  "mm_count (upd_task t g st) = mm_count st" "mm_count (upd_rq r st) = mm_count st"
  "mm_count (upd_array a k st) = mm_count st" "mm_count (upd_lists l st) = mm_count st"
  "pidhash (upd_task t g st) = pidhash st" "pidhash (upd_rq r st) = pidhash st"
  "pidhash (upd_array a k st) = pidhash st" "pidhash (upd_lists l st) = pidhash st"
  "magicDuration (upd_task t g st) = magicDuration st" "magicDuration (upd_rq r st) = magicDuration st"
  "magicDuration (upd_array a k st) = magicDuration st" "magicDuration (upd_lists l st) = magicDuration st"
  "idle_from_magic (upd_task t g st) = idle_from_magic st" "idle_from_magic (upd_rq r st) = idle_from_magic st"
  "idle_from_magic (upd_array a k st) = idle_from_magic st" "idle_from_magic (upd_lists l st) = idle_from_magic st"
  "magicProcess (upd_task t g st) = magicProcess st" "magicProcess (upd_rq r st) = magicProcess st"
  "magicProcess (upd_array a k st) = magicProcess st" "magicProcess (upd_lists l st) = magicProcess st"
  "magic_sleep_flag (upd_task t g st) = magic_sleep_flag st" "magic_sleep_flag (upd_rq r st) = magic_sleep_flag st"
  "magic_sleep_flag (upd_array a k st) = magic_sleep_flag st" "magic_sleep_flag (upd_lists l st) = magic_sleep_flag st"
  "MAGICTIME (upd_task t g st) = MAGICTIME st" "MAGICTIME (upd_rq r st) = MAGICTIME st"
  "MAGICTIME (upd_array a k st) = MAGICTIME st" "MAGICTIME (upd_lists l st) = MAGICTIME st"
  "bugblocker (upd_task t g st) = bugblocker st" "bugblocker (upd_rq r st) = bugblocker st"
  "bugblocker (upd_array a k st) = bugblocker st" "bugblocker (upd_lists l st) = bugblocker st"
  "magic_was_called (upd_task t g st) = magic_was_called st" "magic_was_called (upd_rq r st) = magic_was_called st"
  "magic_was_called (upd_array a k st) = magic_was_called st" "magic_was_called (upd_lists l st) = magic_was_called st"
  "global_magic_call_time (upd_task t g st) = global_magic_call_time st" "global_magic_call_time (upd_rq r st) = global_magic_call_time st"
  "global_magic_call_time (upd_array a k st) = global_magic_call_time st" "global_magic_call_time (upd_lists l st) = global_magic_call_time st"
  "sys (upd_task t g st) = sys st" "sys (upd_rq r st) = sys st"
  "sys (upd_array a k st) = sys st" "sys (upd_lists l st) = sys st"
  by (simp_all add: upd_task_def upd_rq_def upd_array_def upd_lists_def)

lemma upd_sys_sel [simp]:
  "cur (upd_sys f st) = cur st" "tasks (upd_sys f st) = tasks st" "lists (upd_sys f st) = lists st"
  "mem (upd_sys f st) = mem st" "rq (upd_sys f st) = rq st" "jiffies (upd_sys f st) = jiffies st"
  "local_bh_count (upd_sys f st) = local_bh_count st" "local_irq_count (upd_sys f st) = local_irq_count st" "kstat_user (upd_sys f st) = kstat_user st"
  "kstat_nice (upd_sys f st) = kstat_nice st" "kstat_system (upd_sys f st) = kstat_system st" "mm_count (upd_sys f st) = mm_count st"
  "mm_freed (upd_sys f st) = mm_freed st" "pidhash (upd_sys f st) = pidhash st" "magicDuration (upd_sys f st) = magicDuration st"
  "idle_from_magic (upd_sys f st) = idle_from_magic st" "magicProcess (upd_sys f st) = magicProcess st" "magic_sleep_flag (upd_sys f st) = magic_sleep_flag st"
  "MAGICTIME (upd_sys f st) = MAGICTIME st" "bugblocker (upd_sys f st) = bugblocker st" "magic_was_called (upd_sys f st) = magic_was_called st"
  "global_magic_call_time (upd_sys f st) = global_magic_call_time st"
  "sys (upd_sys f st) = f (sys st)"
  by (simp_all add: upd_sys_def)

end
