(* ===== verification/Runqueue.thy ===== *)
theory Runqueue
  imports Task
begin

text \<open>
  The runqueue operations of \<open>kernel/sched.c\<close>: adding a task to and removing it from a priority
  array, the dynamic priority, activation and deactivation. \<open>queues st Q\<close> relates the concrete
  state (pointer lists, bitmap words and counters) to the abstract priority arrays \<open>Q a i\<close>, the
  list of the tasks of priority \<open>i\<close> in array \<open>a\<close>; the lemmas show that every operation implements
  its abstract counterpart.
\<close>

section \<open>Operations\<close>

text \<open>\<open>array->queue + p->prio\<close>: an index outside the array has no defined meaning.\<close>
definition queue_index :: "task \<Rightarrow> kst \<Rightarrow> nat option" where
  "queue_index p st =
     (let i = prio (tasks st p) in if 0 \<le> i \<and> i < MAX_PRIO then Some (nat i) else None)"

definition dequeue_task :: "task \<Rightarrow> nat option \<Rightarrow> kst \<Rightarrow> kst option" where
  "dequeue_task p arr st = do {
     a \<leftarrow> arr;
     i \<leftarrow> queue_index p st;
     let st = upd_array a (\<lambda>x. x\<lparr>nr_active := nr_active x - 1\<rparr>) st;
     let st = upd_lists (list_del (RunList p)) st;
     Some (if list_empty (QHead a i) (lists st)
           then upd_array a (\<lambda>x. x\<lparr>bitmap := bitmap_clear i (bitmap x)\<rparr>) st else st) }"

definition enqueue_task :: "task \<Rightarrow> nat option \<Rightarrow> kst \<Rightarrow> kst option" where
  "enqueue_task p arr st = do {
     a \<leftarrow> arr;
     i \<leftarrow> queue_index p st;
     let st = upd_lists (list_add_tail (RunList p) (QHead a i)) st;
     let st = upd_array a (\<lambda>x. x\<lparr>bitmap := bitmap_set i (bitmap x)\<rparr>) st;
     let st = upd_array a (\<lambda>x. x\<lparr>nr_active := nr_active x + 1\<rparr>) st;
     Some (upd_task p (\<lambda>t. t\<lparr>array := Some a\<rparr>) st) }"

abbreviation (input) MAX_SLEEP_AVG :: u32 where "MAX_SLEEP_AVG \<equiv> 1024"

definition rt_task :: "task_struct \<Rightarrow> bool" where
  "rt_task p = (prio p < MAX_RT_PRIO)"

text \<open>\<open>sleep_avg\<close> is unsigned, so the bonus is computed modulo \<open>2^32\<close> and then converted to \<open>int\<close>.\<close>
definition bonus :: "task_struct \<Rightarrow> int" where
  "bonus p = sint ((40 * 25 * sleep_avg p) div MAX_SLEEP_AVG div 100 - 40 * 25 div 100 div 2 :: u32)"

definition effective_prio :: "task_struct \<Rightarrow> int" where
  "effective_prio p =
     (let prio = static_prio p - bonus p;
          prio = (if prio < MAX_RT_PRIO then MAX_RT_PRIO else prio)
      in if prio > MAX_PRIO - 1 then MAX_PRIO - 1 else prio)"

definition activate_task :: "task \<Rightarrow> kst \<Rightarrow> kst option" where
  "activate_task p st = do {
     let sleep_time = jiffies st - sleep_timestamp (tasks st p);
     let arr = active (rq st);
     let st = (if \<not> rt_task (tasks st p) \<and> sleep_time \<noteq> 0 then
         (let st = upd_task p (\<lambda>t. t\<lparr>sleep_avg := sleep_avg t + sleep_time\<rparr>) st;
              st = (if sleep_avg (tasks st p) > MAX_SLEEP_AVG
                    then upd_task p (\<lambda>t. t\<lparr>sleep_avg := MAX_SLEEP_AVG\<rparr>) st else st)
          in upd_task p (\<lambda>t. t\<lparr>prio := effective_prio t\<rparr>) st)
       else st);
     st \<leftarrow> enqueue_task p (Some arr) st;
     Some (upd_rq (\<lambda>r. r\<lparr>nr_running := nr_running r + 1\<rparr>) st) }"

definition deactivate_task :: "task \<Rightarrow> kst \<Rightarrow> kst option" where
  "deactivate_task p st = do {
     let st = upd_rq (\<lambda>r. r\<lparr>nr_running := nr_running r - 1\<rparr>) st;
     let st = (if state (tasks st p) = TASK_UNINTERRUPTIBLE
               then upd_rq (\<lambda>r. r\<lparr>nr_uninterruptible := nr_uninterruptible r + 1\<rparr>) st else st);
     st \<leftarrow> dequeue_task p (array (tasks st p)) st;
     Some (upd_task p (\<lambda>t. t\<lparr>array := None\<rparr>) st) }"

definition set_tsk_need_resched :: "task \<Rightarrow> kst \<Rightarrow> kst" where
  "set_tsk_need_resched p = upd_task p (\<lambda>t. t\<lparr>need_resched := 1\<rparr>)"

definition clear_tsk_need_resched :: "task \<Rightarrow> kst \<Rightarrow> kst" where
  "clear_tsk_need_resched p = upd_task p (\<lambda>t. t\<lparr>need_resched := 0\<rparr>)"

definition resched_task :: "task \<Rightarrow> kst \<Rightarrow> kst" where
  "resched_task p = set_tsk_need_resched p"

section \<open>The abstract priority arrays\<close>

type_synonym queues = "nat \<Rightarrow> nat \<Rightarrow> task list"

definition abs_enqueue :: "task \<Rightarrow> nat \<Rightarrow> nat \<Rightarrow> queues \<Rightarrow> queues" where
  "abs_enqueue p a i Q = Q(a := (Q a)(i := Q a i @ [p]))"

definition abs_dequeue :: "task \<Rightarrow> nat \<Rightarrow> nat \<Rightarrow> queues \<Rightarrow> queues" where
  "abs_dequeue p a i Q = Q(a := (Q a)(i := removeAll p (Q a i)))"

definition queued :: "queues \<Rightarrow> task set" where
  "queued Q = {p. \<exists>a<2. \<exists>i<140. p \<in> set (Q a i)}"

definition array_len :: "queues \<Rightarrow> nat \<Rightarrow> nat" where
  "array_len Q a = (\<Sum>i<140. length (Q a i))"

text \<open>One priority array: its lists, its bitmap with the delimiter bit, its counter.\<close>

definition queues :: "kst \<Rightarrow> queues \<Rightarrow> bool" where
  "queues st Q = (\<forall>a<2.
     (\<forall>i<140. dlist (lists st) (QHead a i) (map RunList (Q a i)) \<and>
        (\<forall>p\<in>set (Q a i). array (tasks st p) = Some a \<and> prio (tasks st p) = int i) \<and>
        test_bit (bitmap (arrays (rq st) a)) i = (Q a i \<noteq> [])) \<and>
     length (bitmap (arrays (rq st) a)) = 5 \<and> test_bit (bitmap (arrays (rq st) a)) 140 \<and>
     nr_active (arrays (rq st) a) = int (array_len Q a))"

text \<open>
  The invariant between two scheduler operations: the queues are right, a task that says it is on
  an array is on it, the number of running tasks is the number of queued ones, and the two arrays
  are each other's counterpart.
\<close>

definition rq_inv :: "kst \<Rightarrow> queues \<Rightarrow> bool" where
  "rq_inv st Q = (queues st Q \<and>
     (\<forall>p a. array (tasks st p) = Some a \<longrightarrow> p \<in> queued Q) \<and>
     nr_running (rq st) = of_nat (array_len Q 0 + array_len Q 1) \<and>
     {active (rq st), expired (rq st)} = {0, 1})"

lemma queuesD:
  assumes "queues st Q" "a < 2" "i < 140"
  shows "dlist (lists st) (QHead a i) (map RunList (Q a i))"
    "p \<in> set (Q a i) \<Longrightarrow> array (tasks st p) = Some a"
    "p \<in> set (Q a i) \<Longrightarrow> prio (tasks st p) = int i"
    "test_bit (bitmap (arrays (rq st) a)) i = (Q a i \<noteq> [])"
  using assms by (auto simp: queues_def)

lemma queues_place:
  assumes "queues st Q" "p \<in> queued Q"
  obtains a i where "a < 2" "i < 140" "array (tasks st p) = Some a" "prio (tasks st p) = int i"
    "p \<in> set (Q a i)"
proof -
  from assms(2) obtain a i where "a < 2" "i < 140" "p \<in> set (Q a i)" by (auto simp: queued_def)
  with that assms(1) show thesis using queuesD(2,3) by blast
qed

lemma queues_same_place:
  assumes "queues st Q" "p \<in> set (Q a i)" "p \<in> set (Q b j)" "a < 2" "b < 2" "i < 140" "j < 140"
  shows "a = b \<and> i = j"
  using queuesD(2,3) [OF assms(1,4,6) assms(2)] queuesD(2,3) [OF assms(1,5,7) assms(3)] by simp

lemma queues_distinct: "queues st Q \<Longrightarrow> a < 2 \<Longrightarrow> i < 140 \<Longrightarrow> distinct (Q a i)"
  using queuesD(1) [of st Q a i] by (auto simp: dlist_def distinct_map)

lemma array_len_enqueue:
  "i < 140 \<Longrightarrow> array_len (abs_enqueue p a i Q) b = array_len Q b + (if b = a then 1 else 0)"
proof -
  assume i: "i < 140"
  have "(\<Sum>k<140. length (((Q a)(i := Q a i @ [p])) k)) = (\<Sum>k<140. length (Q a k) + (if k = i then 1 else 0))"
    by (rule sum.cong) auto
  also have "\<dots> = (\<Sum>k<140. length (Q a k)) + 1" using i by (simp add: sum.distrib)
  finally show ?thesis by (auto simp: array_len_def abs_enqueue_def)
qed

lemma array_len_dequeue:
  assumes "i < 140" "p \<in> set (Q a i)" "distinct (Q a i)"
  shows "array_len (abs_dequeue p a i Q) b + (if b = a then 1 else 0) = array_len Q b"
proof -
  have "length (removeAll p (Q a i)) + 1 = length (Q a i)"
    using length_removeAll_distinct [OF assms(3,2)] by simp
  then have "(\<Sum>k<140. length (Q a k)) = (\<Sum>k<140. length (((Q a)(i := removeAll p (Q a i))) k) + (if k = i then 1 else 0))"
    by (intro sum.cong) auto
  also have "\<dots> = (\<Sum>k<140. length (((Q a)(i := removeAll p (Q a i))) k)) + 1" using assms(1) by (simp add: sum.distrib)
  finally show ?thesis by (auto simp: array_len_def abs_dequeue_def)
qed

lemma queued_enqueue: "a < 2 \<Longrightarrow> i < 140 \<Longrightarrow> queued (abs_enqueue p a i Q) = insert p (queued Q)"
  by (auto simp: queued_def abs_enqueue_def split: if_splits)

lemma queued_dequeue:
  assumes "queues st Q" "p \<in> set (Q a i)" "a < 2" "i < 140"
  shows "queued (abs_dequeue p a i Q) = queued Q - {p}"
  using assms queues_same_place [OF assms(1)]
  by (auto simp: queued_def abs_dequeue_def split: if_splits) metis+

section \<open>The operations implement the abstract arrays\<close>

lemma queue_index_eq:
  "0 \<le> prio (tasks st p) \<Longrightarrow> prio (tasks st p) < 140 \<Longrightarrow> queue_index p st = Some (nat (prio (tasks st p)))"
  by (simp add: queue_index_def)

text \<open>The part of the state that the queue operations do not touch.\<close>

definition only_queues :: "kst \<Rightarrow> kst \<Rightarrow> bool" where
  "only_queues st st' = (cur st' = cur st \<and>
     mem st' = mem st \<and>
     jiffies st' = jiffies st \<and>
     local_bh_count st' = local_bh_count st \<and>
     local_irq_count st' = local_irq_count st \<and>
     kstat_user st' = kstat_user st \<and>
     kstat_nice st' = kstat_nice st \<and>
     kstat_system st' = kstat_system st \<and>
     mm_count st' = mm_count st \<and>
     mm_freed st' = mm_freed st \<and>
     pidhash st' = pidhash st \<and>
     magicDuration st' = magicDuration st \<and>
     idle_from_magic st' = idle_from_magic st \<and>
     magicProcess st' = magicProcess st \<and>
     magic_sleep_flag st' = magic_sleep_flag st \<and>
     MAGICTIME st' = MAGICTIME st \<and>
     bugblocker st' = bugblocker st \<and>
     magic_was_called st' = magic_was_called st \<and>
     global_magic_call_time st' = global_magic_call_time st \<and>
     sys st' = sys st \<and>
     nr_running (rq st') = nr_running (rq st) \<and>
     nr_switches (rq st') = nr_switches (rq st) \<and>
     expired_timestamp (rq st') = expired_timestamp (rq st) \<and>
     nr_uninterruptible (rq st') = nr_uninterruptible (rq st) \<and>
     rq_curr (rq st') = rq_curr (rq st) \<and>
     rq_idle (rq st') = rq_idle (rq st) \<and>
     active (rq st') = active (rq st) \<and>
     expired (rq st') = expired (rq st))"

lemma only_queues_refl [simp]: "only_queues st st"
  by (simp add: only_queues_def)

lemma only_queues_trans: "only_queues st st1 \<Longrightarrow> only_queues st1 st2 \<Longrightarrow> only_queues st st2"
  by (simp add: only_queues_def)

lemma only_queues_upd_task [simp]: "only_queues st (upd_task p f st') = only_queues st st'"
  by (simp add: only_queues_def)

lemma enqueue_task_frame:
  assumes "enqueue_task p arr st = Some st'"
  shows "tasks st' = (tasks st)(p := (tasks st p)\<lparr>array := arr\<rparr>)" "only_queues st st'" "arr \<noteq> None"
  using assms by (auto simp: enqueue_task_def only_queues_def)

lemma dequeue_task_frame:
  assumes "dequeue_task p arr st = Some st'"
  shows "tasks st' = tasks st" "only_queues st st'" "arr \<noteq> None"
proof -
  from assms obtain a i where a: "arr = Some a" "queue_index p st = Some i"
    by (auto simp: dequeue_task_def)
  show "tasks st' = tasks st" "only_queues st st'" "arr \<noteq> None"
    using assms a
    by (cases "list_empty (QHead a i) (list_del (RunList p) (lists st))";
        simp add: dequeue_task_def only_queues_def; elim subst; simp)+
qed

text \<open>A task on no queue goes to the tail of the queue of its priority.\<close>

lemma enqueue_task_refines:
  assumes Q: "queues st Q" and p: "p \<notin> queued Q" and a: "a < 2"
    and i: "prio (tasks st p) = int i" "i < 140"
  shows "\<exists>st'. enqueue_task p (Some a) st = Some st' \<and> queues st' (abs_enqueue p a i Q)"
proof -
  define st' where "st' = upd_task p (\<lambda>t. t\<lparr>array := Some a\<rparr>)
    (upd_array a (\<lambda>x. x\<lparr>nr_active := nr_active x + 1\<rparr>)
      (upd_array a (\<lambda>x. x\<lparr>bitmap := bitmap_set i (bitmap x)\<rparr>)
        (upd_lists (list_add_tail (RunList p) (QHead a i)) st)))"
  have "enqueue_task p (Some a) st = Some st'"
    using i by (simp add: enqueue_task_def queue_index_def st'_def)
  moreover have "queues st' (abs_enqueue p a i Q)"
    unfolding queues_def
  proof (intro allI impI conjI)
    fix b j :: nat assume b: "b < 2" and j: "j < 140"
    have pq: "p \<notin> set (Q b j)" using p b j by (auto simp: queued_def)
    show "dlist (lists st') (QHead b j) (map RunList (abs_enqueue p a i Q b j))"
    proof (cases "b = a \<and> j = i")
      case True
      with pq kl.lst_add_tail [OF queuesD(1) [OF Q b j], of "RunList p"] show ?thesis
        by (auto simp: st'_def abs_enqueue_def)
    next
      case False
      have "set (QHead a i # map RunList (Q a i)) \<inter> set (QHead b j # map RunList (Q b j)) = {}"
        using queues_same_place [OF Q _ _ a b i(2) j] False by auto
      with kl.frame_add_tail [OF queuesD(1) [OF Q a i(2)] queuesD(1) [OF Q b j], of "RunList p"] pq
      show ?thesis using False by (auto simp: st'_def abs_enqueue_def)
    qed
  next
    fix b j :: nat assume b: "b < 2" and j: "j < 140"
    show "\<forall>q\<in>set (abs_enqueue p a i Q b j). array (tasks st' q) = Some b \<and> prio (tasks st' q) = int j"
      using queuesD(2,3) [OF Q b j] p i b j by (auto simp: st'_def abs_enqueue_def queued_def)
  next
    fix b :: nat assume b: "b < 2"
    show "nr_active (arrays (rq st') b) = int (array_len (abs_enqueue p a i Q) b)"
      using Q b i(2) by (auto simp: array_len_enqueue st'_def queues_def)
  qed (use Q i in \<open>auto simp: st'_def queues_def abs_enqueue_def test_bit_set\<close>)
  ultimately show ?thesis by blast
qed

text \<open>A queued task leaves its queue; the bit of its priority goes when the queue becomes empty.\<close>

lemma dequeue_task_refines:
  assumes Q: "queues st Q" and p: "p \<in> set (Q a i)" and a: "a < 2" and i: "i < 140"
  shows "\<exists>st'. dequeue_task p (Some a) st = Some st' \<and> queues st' (abs_dequeue p a i Q)"
proof -
  define st1 where "st1 = upd_lists (list_del (RunList p))
    (upd_array a (\<lambda>x. x\<lparr>nr_active := nr_active x - 1\<rparr>) st)"
  define st' where "st' = (if list_empty (QHead a i) (lists st1)
    then upd_array a (\<lambda>x. x\<lparr>bitmap := bitmap_clear i (bitmap x)\<rparr>) st1 else st1)"
  have pi: "prio (tasks st p) = int i" using queuesD(3) [OF Q a i p] .
  have eq: "dequeue_task p (Some a) st = Some st'"
    using i pi by (simp add: dequeue_task_def queue_index_def st'_def st1_def)
  have pr: "RunList p \<in> set (map RunList (Q a i))" using p by simp
  have rm: "removeAll (RunList p) (map RunList xs) = map RunList (removeAll p xs)" for xs
    by (induction xs) auto
  have lists: "lists st' = list_del (RunList p) (lists st)" by (simp add: st'_def st1_def)
  have here: "dlist (lists st') (QHead a i) (map RunList (removeAll p (Q a i)))"
    using kl.lst_del [OF queuesD(1) [OF Q a i] pr] by (simp add: lists rm)
  have empty: "list_empty (QHead a i) (lists st1) = (removeAll p (Q a i) = [])"
    using kl.lst_empty [OF here] by (simp add: lists st1_def)
  have len: "array_len (abs_dequeue p a i Q) b + (if b = a then 1 else 0) = array_len Q b" for b
    by (intro array_len_dequeue i p queues_distinct [OF Q a i])
  have "queues st' (abs_dequeue p a i Q)"
    unfolding queues_def
  proof (intro allI impI conjI)
    fix b j :: nat assume b: "b < 2" and j: "j < 140"
    show "dlist (lists st') (QHead b j) (map RunList (abs_dequeue p a i Q b j))"
    proof (cases "b = a \<and> j = i")
      case True
      with here show ?thesis by (auto simp: abs_dequeue_def)
    next
      case False
      have "set (QHead a i # map RunList (Q a i)) \<inter> set (QHead b j # map RunList (Q b j)) = {}"
        using queues_same_place [OF Q _ _ a b i j] False by auto
      with kl.frame_del [OF queuesD(1) [OF Q a i] pr queuesD(1) [OF Q b j]]
      show ?thesis using False by (auto simp: lists abs_dequeue_def)
    qed
  next
    fix b j :: nat assume b: "b < 2" and j: "j < 140"
    show "\<forall>q\<in>set (abs_dequeue p a i Q b j). array (tasks st' q) = Some b \<and> prio (tasks st' q) = int j"
      using queuesD(2,3) [OF Q b j] by (auto simp: st'_def st1_def abs_dequeue_def)
  next
    fix b j :: nat assume b: "b < 2" and j: "j < 140"
    have "length (bitmap (arrays (rq st) a)) = 5" using Q a by (auto simp: queues_def)
    then show "test_bit (bitmap (arrays (rq st') b)) j = (abs_dequeue p a i Q b j \<noteq> [])"
      using queuesD(4) [OF Q b j] queuesD(4) [OF Q a i] p i empty
      by (auto simp: st'_def st1_def abs_dequeue_def test_bit_clear)
  next
    fix b :: nat assume b: "b < 2"
    show "nr_active (arrays (rq st') b) = int (array_len (abs_dequeue p a i Q) b)"
      using len [of b] Q b by (auto simp: st'_def st1_def queues_def split: if_splits)
  qed (use Q i in \<open>auto simp: st'_def st1_def queues_def test_bit_clear\<close>)
  with eq show ?thesis by blast
qed

lemma queues_cong:
  assumes "queues st Q" "lists st' = lists st" "arrays (rq st') = arrays (rq st)"
    and "\<And>p. p \<in> queued Q \<Longrightarrow> array (tasks st' p) = array (tasks st p) \<and> prio (tasks st' p) = prio (tasks st p)"
  shows "queues st' Q"
proof -
  have "p \<in> queued Q" if "a < 2" "i < 140" "p \<in> set (Q a i)" for p a i
    using that by (auto simp: queued_def)
  with assms show ?thesis unfolding queues_def by (auto 4 3)
qed

lemma queues_upd_other: "queues st Q \<Longrightarrow> p \<notin> queued Q \<Longrightarrow> queues (upd_task p f st) Q"
  by (rule queues_cong [of st]) auto

lemma queues_upd_same:
  assumes "queues st Q" "\<And>t. array (f t) = array t" "\<And>t. prio (f t) = prio t"
  shows "queues (upd_task p f st) Q"
  by (rule queues_cong [OF assms(1)]) (simp_all add: assms)

lemma queues_upd_rq:
  assumes "queues st Q" "\<And>r. arrays (f r) = arrays r"
  shows "queues (upd_rq f st) Q"
  by (rule queues_cong [OF assms(1)]) (simp_all add: assms)

section \<open>Dynamic priorities\<close>

lemma effective_prio_range: "100 \<le> effective_prio t \<and> effective_prio t \<le> 139"
  by (simp add: effective_prio_def Let_def)

text \<open>With a sleep average within its limit the bonus is the linear scale from -5 to +5.\<close>

lemma bonus_eq:
  assumes "sleep_avg t \<le> MAX_SLEEP_AVG"
  shows "bonus t = int (unat (sleep_avg t) * 1000 div 1024 div 100) - 5"
proof -
  let ?w = "40 * 25 * sleep_avg t :: u32"
  have s: "unat (sleep_avg t) \<le> 1024" using assms by (simp add: word_le_nat_alt)
  then have w: "unat ?w = 1000 * unat (sleep_avg t)"
    by (simp add: unat_word_ariths unat_mult_lem)
  define k where "k = unat (sleep_avg t) * 1000 div 1024 div 100"
  have k: "k \<le> 10" using s by (simp add: k_def)
  have uk: "unat (of_nat k :: u32) = k" using k by (simp add: unsigned_of_nat take_bit_nat_eq_self)
  have "unat (?w div MAX_SLEEP_AVG div 100) = k" using w by (simp add: unat_div k_def mult.commute)
  with uk have "?w div MAX_SLEEP_AVG div 100 = (of_nat k :: u32)" by (simp add: word_unat_eq_iff)
  then have "bonus t = sint (of_nat k - 5 :: u32)" by (simp add: bonus_def)
  also have "\<dots> = int k - 5" using k by (auto simp: numeral_eq_Suc le_Suc_eq)
  finally show ?thesis by (simp add: k_def)
qed

lemma bonus_range:
  assumes "sleep_avg t \<le> MAX_SLEEP_AVG"
  shows "-5 \<le> bonus t \<and> bonus t \<le> 5"
proof -
  have "unat (sleep_avg t) \<le> 1024" using assms by (simp add: word_le_nat_alt)
  then have "unat (sleep_avg t) * 1000 div 1024 div 100 \<le> 10" by simp
  then show ?thesis by (simp add: bonus_eq [OF assms])
qed

section \<open>Activation and deactivation\<close>

lemma rq_invD:
  assumes "rq_inv st Q"
  shows "queues st Q" "array (tasks st p) = Some a \<Longrightarrow> p \<in> queued Q"
    "nr_running (rq st) = of_nat (array_len Q 0 + array_len Q 1)"
    "active (rq st) < 2" "expired (rq st) < 2" "active (rq st) \<noteq> expired (rq st)"
  using assms by (auto simp: rq_inv_def doubleton_eq_iff)

lemma rq_inv_not_queued: "rq_inv st Q \<Longrightarrow> array (tasks st p) = None \<Longrightarrow> p \<notin> queued Q"
  using queues_place rq_invD(1) by force

lemma rq_inv_queued_iff: "rq_inv st Q \<Longrightarrow> p \<in> queued Q \<longleftrightarrow> array (tasks st p) \<noteq> None"
  using rq_inv_not_queued rq_invD(2) by (metis not_None_eq)

lemma rq_inv_place:
  assumes "rq_inv st Q" "array (tasks st p) = Some a"
  shows "\<exists>i. p \<in> set (Q a i) \<and> a < 2 \<and> i < 140 \<and> prio (tasks st p) = int i"
proof -
  have "p \<in> queued Q" using assms rq_inv_queued_iff by simp
  then obtain b i where "b < 2" "i < 140" "array (tasks st p) = Some b" "prio (tasks st p) = int i" "p \<in> set (Q b i)"
    by (rule queues_place [OF rq_invD(1) [OF assms(1)]])
  with assms(2) show ?thesis by auto
qed

lemma rq_inv_upd_same:
  assumes "rq_inv st Q" "\<And>t. array (f t) = array t" "\<And>t. prio (f t) = prio t"
  shows "rq_inv (upd_task p f st) Q"
  using assms queues_upd_same [of st Q f p] by (auto simp: rq_inv_def)

lemma rq_inv_upd_prio:
  assumes "rq_inv st Q" "array (tasks st p) = None" "\<And>t. array (f t) = array t"
  shows "rq_inv (upd_task p f st) Q"
  using assms queues_upd_other [OF rq_invD(1) rq_inv_not_queued] by (auto simp: rq_inv_def)

lemma array_len_2:
  "a < 2 \<Longrightarrow> i < 140 \<Longrightarrow>
    array_len (abs_enqueue p a i Q) 0 + array_len (abs_enqueue p a i Q) 1 = array_len Q 0 + array_len Q 1 + 1"
  by (auto simp: array_len_enqueue less_2_cases_iff)

lemma rq_inv_enqueue:
  assumes inv: "rq_inv st Q" and p: "array (tasks st p) = None"
    and i: "prio (tasks st p) = int i" "i < 140" and a: "a < 2"
  shows "\<exists>st'. enqueue_task p (Some a) st = Some st' \<and>
    rq_inv (upd_rq (\<lambda>r. r\<lparr>nr_running := nr_running r + 1\<rparr>) st') (abs_enqueue p a i Q)"
proof -
  obtain st' where st': "enqueue_task p (Some a) st = Some st'" "queues st' (abs_enqueue p a i Q)"
    using enqueue_task_refines [OF rq_invD(1) [OF inv] rq_inv_not_queued [OF inv p] a i] by blast
  note f = enqueue_task_frame(1,2) [OF st'(1)]
  have q: "queues (upd_rq (\<lambda>r. r\<lparr>nr_running := nr_running r + 1\<rparr>) st') (abs_enqueue p a i Q)"
    by (rule queues_upd_rq [OF st'(2)]) simp
  have n: "nr_running (rq st) + 1 = of_nat (array_len Q 0 + array_len Q 1 + 1)"
    by (simp add: rq_invD(3) [OF inv])
  have "rq_inv (upd_rq (\<lambda>r. r\<lparr>nr_running := nr_running r + 1\<rparr>) st') (abs_enqueue p a i Q)"
    unfolding rq_inv_def
  proof (intro conjI allI impI q)
    fix q b assume "array (tasks (upd_rq (\<lambda>r. r\<lparr>nr_running := nr_running r + 1\<rparr>) st') q) = Some b"
    then show "q \<in> queued (abs_enqueue p a i Q)"
      using rq_invD(2) [OF inv] a i by (auto simp: f(1) queued_enqueue split: if_splits)
  qed (use f(2) inv n array_len_2 [OF a i(2)] in \<open>auto simp: only_queues_def rq_inv_def\<close>)
  with st'(1) show ?thesis by blast
qed

text \<open>
  Activating a task that is on no array puts it at the tail of the active queue of its priority,
  and keeps the invariant of the runqueue.
\<close>

definition wake_bonus :: "u32 \<Rightarrow> task_struct \<Rightarrow> task_struct" where
  "wake_bonus now t = (if \<not> rt_task t \<and> now - sleep_timestamp t \<noteq> 0 then
     (let t = t\<lparr>sleep_avg := sleep_avg t + (now - sleep_timestamp t)\<rparr>;
          t = (if sleep_avg t > MAX_SLEEP_AVG then t\<lparr>sleep_avg := MAX_SLEEP_AVG\<rparr> else t)
      in t\<lparr>prio := effective_prio t\<rparr>) else t)"

lemma wake_bonus_same [simp]:
  "array (wake_bonus now t) = array t" "state (wake_bonus now t) = state t"
  "need_resched (wake_bonus now t) = need_resched t"
  by (simp_all add: wake_bonus_def Let_def)

lemma wake_bonus_prio:
  "0 \<le> prio t \<Longrightarrow> prio t < 140 \<Longrightarrow> 0 \<le> prio (wake_bonus now t) \<and> prio (wake_bonus now t) < 140"
  using effective_prio_range by (auto simp: wake_bonus_def Let_def) (smt (verit))+

lemma activate_task_eq:
  "activate_task p st = do { st' \<leftarrow> enqueue_task p (Some (active (rq st))) (upd_task p (wake_bonus (jiffies st)) st);
      Some (upd_rq (\<lambda>r. r\<lparr>nr_running := nr_running r + 1\<rparr>) st') }"
  by (simp add: activate_task_def wake_bonus_def Let_def upd_task_def)

lemma activate_task_frame:
  assumes "activate_task p st = Some st'"
  shows "tasks st' = (tasks st)(p := (wake_bonus (jiffies st) (tasks st p))\<lparr>array := Some (active (rq st))\<rparr>)"
    "only_queues st (upd_rq (\<lambda>r. r\<lparr>nr_running := nr_running (rq st)\<rparr>) st')"
  using assms enqueue_task_frame(1,2) by (fastforce simp: activate_task_eq only_queues_def)+

lemma activate_task_refines:
  assumes inv: "rq_inv st Q" and p: "array (tasks st p) = None"
    and i: "0 \<le> prio (tasks st p)" "prio (tasks st p) < 140"
  defines "j \<equiv> nat (prio (wake_bonus (jiffies st) (tasks st p)))"
  shows "\<exists>st'. activate_task p st = Some st' \<and> j < 140 \<and> rq_inv st' (abs_enqueue p (active (rq st)) j Q)"
proof -
  let ?st = "upd_task p (wake_bonus (jiffies st)) st"
  have inv1: "rq_inv ?st Q" by (rule rq_inv_upd_prio [OF inv p]) simp
  have j: "prio (tasks ?st p) = int j" "j < 140"
    using wake_bonus_prio [OF i, of "jiffies st"] by (auto simp: j_def)
  from rq_inv_enqueue [OF inv1 _ j rq_invD(4) [OF inv]] p j(2) show ?thesis
    by (auto simp: activate_task_eq)
qed

definition account_off :: "task \<Rightarrow> kst \<Rightarrow> kst" where
  "account_off p st = (let st = upd_rq (\<lambda>r. r\<lparr>nr_running := nr_running r - 1\<rparr>) st in
     if state (tasks st p) = TASK_UNINTERRUPTIBLE
     then upd_rq (\<lambda>r. r\<lparr>nr_uninterruptible := nr_uninterruptible r + 1\<rparr>) st else st)"

lemma account_off_same [simp]:
  "tasks (account_off p st) = tasks st" "arrays (rq (account_off p st)) = arrays (rq st)"
  "lists (account_off p st) = lists st" "nr_running (rq (account_off p st)) = nr_running (rq st) - 1"
  by (simp_all add: account_off_def Let_def)

lemma account_off_only:
  "only_queues st (upd_rq (\<lambda>r. r\<lparr>nr_running := nr_running (rq st), nr_uninterruptible := nr_uninterruptible (rq st)\<rparr>) (account_off p st))"
  by (simp add: account_off_def Let_def only_queues_def)

lemma deactivate_task_eq:
  "deactivate_task p st = do { st' \<leftarrow> dequeue_task p (array (tasks st p)) (account_off p st);
     Some (upd_task p (\<lambda>t. t\<lparr>array := None\<rparr>) st') }"
  by (simp add: deactivate_task_def account_off_def Let_def)

lemma deactivate_task_frame:
  assumes "deactivate_task p st = Some st'"
  shows "tasks st' = (tasks st)(p := (tasks st p)\<lparr>array := None\<rparr>)"
    "only_queues st (upd_rq (\<lambda>r. r\<lparr>nr_running := nr_running (rq st), nr_uninterruptible := nr_uninterruptible (rq st)\<rparr>) st')"
    "array (tasks st p) \<noteq> None"
proof -
  from assms obtain st1 where st1: "dequeue_task p (array (tasks st p)) (account_off p st) = Some st1"
    "st' = upd_task p (\<lambda>t. t\<lparr>array := None\<rparr>) st1" by (auto simp: deactivate_task_eq)
  note f = dequeue_task_frame [OF st1(1)]
  show "tasks st' = (tasks st)(p := (tasks st p)\<lparr>array := None\<rparr>)" "array (tasks st p) \<noteq> None"
    using f by (simp_all add: st1(2))
  show "only_queues st (upd_rq (\<lambda>r. r\<lparr>nr_running := nr_running (rq st), nr_uninterruptible := nr_uninterruptible (rq st)\<rparr>) st')"
    using f(2) account_off_only [of st p] by (simp add: st1(2) only_queues_def)
qed

lemma deactivate_task_refines:
  assumes inv: "rq_inv st Q" and p: "p \<in> set (Q a i)" "a < 2" "i < 140"
  shows "\<exists>st'. deactivate_task p st = Some st' \<and> rq_inv st' (abs_dequeue p a i Q)"
proof -
  let ?st = "account_off p st"
  have q1: "queues ?st Q" by (rule queues_cong [OF rq_invD(1) [OF inv]]) simp_all
  have arr: "array (tasks st p) = Some a" using queuesD(2) [OF rq_invD(1) [OF inv] p(2,3,1)] .
  obtain st2 where st2: "dequeue_task p (Some a) ?st = Some st2" "queues st2 (abs_dequeue p a i Q)"
    using dequeue_task_refines [OF q1 p] by blast
  define st' where "st' = upd_task p (\<lambda>t. t\<lparr>array := None\<rparr>) st2"
  have eq: "deactivate_task p st = Some st'"
    using st2(1) arr by (simp add: deactivate_task_eq st'_def)
  note f = dequeue_task_frame(1,2) [OF st2(1)]
  have qd: "queued (abs_dequeue p a i Q) = queued Q - {p}" by (rule queued_dequeue [OF q1 p])
  have n: "nr_running (rq st) - 1 = of_nat (array_len (abs_dequeue p a i Q) 0 + array_len (abs_dequeue p a i Q) 1)"
  proof -
    have "array_len (abs_dequeue p a i Q) b + (if b = a then 1 else 0) = array_len Q b" for b
      by (intro array_len_dequeue p queues_distinct [OF q1 p(2,3)])
    from this [of 0] this [of 1] p(2)
    have "array_len Q 0 + array_len Q 1 = array_len (abs_dequeue p a i Q) 0 + array_len (abs_dequeue p a i Q) 1 + 1"
      by (auto simp: less_2_cases_iff)
    then show ?thesis by (simp add: rq_invD(3) [OF inv])
  qed
  have "rq_inv st' (abs_dequeue p a i Q)"
    unfolding rq_inv_def
  proof (intro conjI allI impI)
    show "queues st' (abs_dequeue p a i Q)"
      unfolding st'_def by (rule queues_upd_other [OF st2(2)]) (simp add: qd)
    fix q b assume "array (tasks st' q) = Some b"
    then show "q \<in> queued (abs_dequeue p a i Q)"
      using rq_invD(2) [OF inv] by (auto simp: st'_def f(1) qd split: if_splits)
  qed (use f(2) inv n account_off_only [of st p] in
    \<open>simp_all add: st'_def only_queues_def rq_inv_def\<close>)
  with eq show ?thesis by blast
qed

section \<open>Between a dequeue and the enqueue that follows\<close>

text \<open>
  The scheduler moves a task by taking it off its queue, changing it, and putting it back. In
  between the invariant holds for all other tasks.
\<close>

definition rq_inv_off :: "task \<Rightarrow> kst \<Rightarrow> queues \<Rightarrow> bool" where
  "rq_inv_off p st Q = (queues st Q \<and> p \<notin> queued Q \<and>
     (\<forall>q a. q \<noteq> p \<longrightarrow> array (tasks st q) = Some a \<longrightarrow> q \<in> queued Q) \<and>
     nr_running (rq st) = of_nat (array_len Q 0 + array_len Q 1 + 1) \<and>
     {active (rq st), expired (rq st)} = {0, 1})"

lemma rq_inv_dequeue:
  assumes inv: "rq_inv st Q" and p: "p \<in> set (Q a i)" "a < 2" "i < 140"
  shows "\<exists>st'. dequeue_task p (Some a) st = Some st' \<and> rq_inv_off p st' (abs_dequeue p a i Q) \<and>
    tasks st' = tasks st \<and> only_queues st st'"
proof -
  note q = rq_invD(1) [OF inv]
  obtain st' where st': "dequeue_task p (Some a) st = Some st'" "queues st' (abs_dequeue p a i Q)"
    using dequeue_task_refines [OF q p] by blast
  note f = dequeue_task_frame(1,2) [OF st'(1)]
  have len: "array_len (abs_dequeue p a i Q) b + (if b = a then 1 else 0) = array_len Q b" for b
    by (intro array_len_dequeue p queues_distinct [OF q p(2,3)])
  have "array_len Q 0 + array_len Q 1 = array_len (abs_dequeue p a i Q) 0 + array_len (abs_dequeue p a i Q) 1 + 1"
    using len [of 0] len [of 1] p(2) by (auto simp: less_2_cases_iff)
  then have "rq_inv_off p st' (abs_dequeue p a i Q)"
    using inv st'(2) f queued_dequeue [OF q p] by (auto simp: rq_inv_off_def rq_inv_def only_queues_def)
  with st'(1) f show ?thesis by blast
qed

lemma rq_inv_off_enqueue:
  assumes off: "rq_inv_off p st Q" and i: "prio (tasks st p) = int i" "i < 140" and a: "a < 2"
  shows "\<exists>st'. enqueue_task p (Some a) st = Some st' \<and> rq_inv st' (abs_enqueue p a i Q) \<and>
    tasks st' = (tasks st)(p := (tasks st p)\<lparr>array := Some a\<rparr>) \<and> only_queues st st'"
proof -
  obtain st' where st': "enqueue_task p (Some a) st = Some st'" "queues st' (abs_enqueue p a i Q)"
    using enqueue_task_refines [OF off [unfolded rq_inv_off_def, THEN conjunct1] _ a i] off
    unfolding rq_inv_off_def by blast
  note f = enqueue_task_frame(1,2) [OF st'(1)]
  have "rq_inv st' (abs_enqueue p a i Q)"
    unfolding rq_inv_def
  proof (intro conjI allI impI st'(2))
    fix q b assume "array (tasks st' q) = Some b"
    then show "q \<in> queued (abs_enqueue p a i Q)"
      using off a i(2) by (auto simp: f(1) queued_enqueue rq_inv_off_def split: if_splits)
  qed (use f(2) off array_len_2 [OF a i(2)] in \<open>auto simp: only_queues_def rq_inv_off_def\<close>)
  with st'(1) f show ?thesis by blast
qed

lemma rq_inv_off_upd: "rq_inv_off p st Q \<Longrightarrow> rq_inv_off p (upd_task p f st) Q"
  using queues_upd_other by (auto simp: rq_inv_off_def)

lemma rq_inv_off_same:
  assumes "rq_inv_off p st Q" "\<And>t. array (f t) = array t" "\<And>t. prio (f t) = prio t"
  shows "rq_inv_off p (upd_task q f st) Q"
  using assms queues_upd_same [of st Q f q] by (auto simp: rq_inv_off_def split: if_splits)

lemma rq_inv_off_timestamp:
  "rq_inv_off p st Q \<Longrightarrow> rq_inv_off p (upd_rq (\<lambda>r. r\<lparr>expired_timestamp := x\<rparr>) st) Q"
  using queues_upd_rq [of st Q "\<lambda>r. r\<lparr>expired_timestamp := x\<rparr>"] by (auto simp: rq_inv_off_def)

section \<open>The interface the scheduler uses\<close>

text \<open>
  Priority arrays as the scheduler sees them: \<open>inv\<close> is the invariant, \<open>off p\<close> the invariant with
  the task \<open>p\<close> taken off, \<open>same\<close> the part of the state that queue operations leave alone. What it
  means to move a task is proved once from these laws.
\<close>

locale prio_arrays =
  fixes inv :: "'st \<Rightarrow> queues \<Rightarrow> bool"
    and off :: "task \<Rightarrow> 'st \<Rightarrow> queues \<Rightarrow> bool"
    and same :: "'st \<Rightarrow> 'st \<Rightarrow> bool"
    and enq :: "task \<Rightarrow> nat option \<Rightarrow> 'st \<Rightarrow> 'st option"
    and deq :: "task \<Rightarrow> nat option \<Rightarrow> 'st \<Rightarrow> 'st option"
    and upd :: "task \<Rightarrow> (task_struct \<Rightarrow> task_struct) \<Rightarrow> 'st \<Rightarrow> 'st"
    and tk :: "'st \<Rightarrow> task \<Rightarrow> task_struct"
  assumes deq: "inv st Q \<Longrightarrow> p \<in> set (Q a i) \<Longrightarrow> a < 2 \<Longrightarrow> i < 140 \<Longrightarrow>
      \<exists>st'. deq p (Some a) st = Some st' \<and> off p st' (abs_dequeue p a i Q) \<and> tk st' = tk st \<and> same st st'"
    and enq: "off p st Q \<Longrightarrow> prio (tk st p) = int i \<Longrightarrow> i < 140 \<Longrightarrow> a < 2 \<Longrightarrow>
      \<exists>st'. enq p (Some a) st = Some st' \<and> inv st' (abs_enqueue p a i Q) \<and>
        tk st' = (tk st)(p := (tk st p)\<lparr>array := Some a\<rparr>) \<and> same st st'"
    and place: "inv st Q \<Longrightarrow> p \<in> set (Q a i) \<Longrightarrow> a < 2 \<Longrightarrow> i < 140 \<Longrightarrow>
      array (tk st p) = Some a \<and> prio (tk st p) = int i"
    and upd: "off p st Q \<Longrightarrow> off p (upd p f st) Q"
    and upd_tk: "tk (upd p f st) = (tk st)(p := f (tk st p))"
    and same_upd: "same st (upd p f st') = same st st'"
    and same_upd': "same (upd p f st) st' = same st st'"
    and same_trans: "same st st' \<Longrightarrow> same st' st'' \<Longrightarrow> same st st''"
begin

text \<open>Off its queue, changed, and back on the queue of its new priority.\<close>

lemma requeue:
  assumes "inv st Q" "p \<in> set (Q a i)" "a < 2" "i < 140" "b < 2"
    and "prio (f (tk st p)) = int j" "j < 140"
  shows "\<exists>st1 st2. deq p (Some a) st = Some st1 \<and> enq p (Some b) (upd p f st1) = Some st2 \<and>
    inv st2 (abs_enqueue p b j (abs_dequeue p a i Q)) \<and> same st st1 \<and> same st st2 \<and>
    tk st1 = tk st \<and> tk st2 = (tk st)(p := (f (tk st p))\<lparr>array := Some b\<rparr>)"
proof -
  obtain st1 where 1: "deq p (Some a) st = Some st1" "off p st1 (abs_dequeue p a i Q)" "tk st1 = tk st" "same st st1"
    using deq [OF assms(1-4)] by blast
  obtain st2 where "enq p (Some b) (upd p f st1) = Some st2" "inv st2 (abs_enqueue p b j (abs_dequeue p a i Q))"
    "tk st2 = (tk st)(p := (f (tk st p))\<lparr>array := Some b\<rparr>)" "same (upd p f st1) st2"
    using enq [OF upd [OF 1(2)], of f j b] assms(5-7) 1(3) by (auto simp: upd_tk)
  with 1 same_trans show ?thesis by (auto simp: same_upd same_upd')
qed

text \<open>With nothing changed the task goes to the tail of its own queue: a round robin.\<close>

lemma rotate:
  assumes "inv st Q" "p \<in> set (Q a i)" "a < 2" "i < 140"
  shows "\<exists>st1 st2. deq p (Some a) st = Some st1 \<and> enq p (Some a) st1 = Some st2 \<and>
    inv st2 (abs_enqueue p a i (abs_dequeue p a i Q)) \<and> same st st2 \<and> tk st2 = tk st"
proof -
  obtain st1 where 1: "deq p (Some a) st = Some st1" "off p st1 (abs_dequeue p a i Q)" "tk st1 = tk st" "same st st1"
    using deq [OF assms] by blast
  have pl: "array (tk st p) = Some a" "prio (tk st p) = int i" using place [OF assms] by auto
  obtain st2 where 2: "enq p (Some a) st1 = Some st2" "inv st2 (abs_enqueue p a i (abs_dequeue p a i Q))"
    "tk st2 = (tk st)(p := (tk st p)\<lparr>array := Some a\<rparr>)" "same st1 st2"
    using enq [OF 1(2), of i a] 1(3) pl assms(3,4) by auto
  have "(tk st p)\<lparr>array := Some a\<rparr> = tk st p" using pl(1) by simp
  then have "tk st2 = tk st" using 2(3) by simp
  with 1(1,4) 2(1,2,4) same_trans show ?thesis by blast
qed

end

interpretation pa: prio_arrays rq_inv rq_inv_off only_queues enqueue_task dequeue_task upd_task tasks
proof unfold_locales
  show "array (tasks st p) = Some a \<and> prio (tasks st p) = int i"
    if "rq_inv st Q" "p \<in> set (Q a i)" "a < 2" "i < 140" for st Q p a i
    using queuesD(2,3) [OF rq_invD(1)] that by blast
  show "only_queues (upd_task p f st) st' = only_queues st st'" for p f st st'
    by (simp add: only_queues_def)
qed (fact rq_inv_dequeue rq_inv_off_enqueue rq_inv_off_upd tasks_upd(1) only_queues_upd_task only_queues_trans)+

end
