(* ===== verification/Sched.thy ===== *)
theory Sched
  imports Runqueue
begin

text \<open>
  The core of \<open>kernel/sched.c\<close> of the second assignment, on one processor: waking tasks up,
  the timer tick, and \<open>schedule()\<close> with the additions that give a ``magic'' process exclusive
  access to the processor. The gotos of \<open>schedule()\<close> become three functions run in the order of
  the source (the magic segment, the switch on the state of the previous task, the choice of the
  next one), each returning the task to switch to when it jumps to \<open>switch_tasks\<close>.
\<close>

section \<open>Time slices and interactivity\<close>

definition TASK_NICE :: "task_struct \<Rightarrow> int" where
  "TASK_NICE p = static_prio p - MAX_RT_PRIO - 20"

definition NICE_TO_PRIO :: "int \<Rightarrow> int" where
  "NICE_TO_PRIO nice = MAX_RT_PRIO + nice + 20"

abbreviation (input) MIN_TIMESLICE :: int where "MIN_TIMESLICE \<equiv> 10 * 512 div 1000"
abbreviation (input) MAX_TIMESLICE :: int where "MAX_TIMESLICE \<equiv> 300 * 512 div 1000"

definition TASK_TIMESLICE :: "task_struct \<Rightarrow> int" where
  "TASK_TIMESLICE p =
     MIN_TIMESLICE + cdiv ((MAX_TIMESLICE - MIN_TIMESLICE) * (MAX_PRIO - 1 - static_prio p)) 39"

definition DELTA :: "task_struct \<Rightarrow> int" where
  "DELTA p = cdiv (TASK_NICE p * (40 * 25 div 100)) 40 + 2"

definition TASK_INTERACTIVE :: "task_struct \<Rightarrow> bool" where
  "TASK_INTERACTIVE p = (prio p \<le> static_prio p - DELTA p)"

definition EXPIRED_STARVING :: "kst \<Rightarrow> bool" where
  "EXPIRED_STARVING st =
     (expired_timestamp (rq st) \<noteq> 0 \<and>
      jiffies st - expired_timestamp (rq st) \<ge> (2 * HZ) * nr_running (rq st) + 1)"

section \<open>Waking tasks up\<close>

text \<open>With one processor the migration of a task to the waking processor cannot happen.\<close>
definition try_to_wake_up :: "task \<Rightarrow> kst \<Rightarrow> (bool \<times> kst) option" where
  "try_to_wake_up p st = do {
     let old_state = state (tasks st p);
     (success, st) \<leftarrow>
       (if array (tasks st p) = None then do {
          let st = (if old_state = TASK_UNINTERRUPTIBLE
                    then upd_rq (\<lambda>r. r\<lparr>nr_uninterruptible := nr_uninterruptible r - 1\<rparr>) st else st);
          st \<leftarrow> activate_task p st;
          Some (True, if prio (tasks st p) < prio (tasks st (rq_curr (rq st)))
                      then resched_task (rq_curr (rq st)) st else st) }
        else Some (False, st));
     Some (success, upd_task p (\<lambda>t. t\<lparr>state := TASK_RUNNING\<rparr>) st) }"

definition wake_up_process :: "task \<Rightarrow> kst \<Rightarrow> (bool \<times> kst) option" where
  "wake_up_process p st = try_to_wake_up p st"

definition wake_up_forked_process :: "task \<Rightarrow> kst \<Rightarrow> kst option" where
  "wake_up_forked_process p st = do {
     let st = upd_task p (\<lambda>t. t\<lparr>state := TASK_RUNNING\<rparr>) st;
     let st = (if \<not> rt_task (tasks st p) then
         (let st = upd_task (cur st) (\<lambda>t. t\<lparr>sleep_avg := sleep_avg t * 100 div 100\<rparr>) st;
              st = upd_task p (\<lambda>t. t\<lparr>sleep_avg := sleep_avg t * 95 div 100\<rparr>) st
          in upd_task p (\<lambda>t. t\<lparr>prio := effective_prio t\<rparr>) st)
       else st);
     activate_task p st }"

definition sched_exit :: "task \<Rightarrow> kst \<Rightarrow> kst" where
  "sched_exit p st =
     (let st = (if first_time_slice (tasks st p) \<noteq> 0 then
             (let st = upd_task (cur st) (\<lambda>t. t\<lparr>time_slice := time_slice t + time_slice (tasks st p)\<rparr>) st
              in if time_slice (tsk st) > of_int MAX_TIMESLICE
                 then upd_task (cur st) (\<lambda>t. t\<lparr>time_slice := of_int MAX_TIMESLICE\<rparr>) st else st)
           else st)
      in if sleep_avg (tasks st p) < sleep_avg (tsk st)
         then upd_task (cur st) (\<lambda>t. t\<lparr>sleep_avg := (sleep_avg t * 3 + sleep_avg (tasks st p)) div (3 + 1)\<rparr>) st
         else st)"

section \<open>Context switch\<close>

definition mmdrop :: "nat \<Rightarrow> kst \<Rightarrow> kst" where
  "mmdrop m st =
     (let st = st\<lparr>mm_count := (mm_count st)(m := mm_count st m - 1)\<rparr>
      in if mm_count st m = 0 then st\<lparr>mm_freed := (mm_freed st)(m := True)\<rparr> else st)"

text \<open>The register switch of \<open>switch_to\<close> is the change of \<open>current\<close>.\<close>
definition context_switch :: "task \<Rightarrow> task \<Rightarrow> kst \<Rightarrow> kst option" where
  "context_switch prev next st = do {
     let oldmm = active_mm (tasks st prev);
     st \<leftarrow> (if mm (tasks st next) = None then do {
              let st = upd_task next (\<lambda>t. t\<lparr>active_mm := oldmm\<rparr>) st;
              m \<leftarrow> oldmm;
              Some (st\<lparr>mm_count := (mm_count st)(m := mm_count st m + 1)\<rparr>) }
            else Some st);
     st \<leftarrow> (if mm (tasks st prev) = None then do {
              let st = upd_task prev (\<lambda>t. t\<lparr>active_mm := None\<rparr>) st;
              m \<leftarrow> oldmm;
              Some (mmdrop m st) }
            else Some st);
     Some (st\<lparr>cur := next\<rparr>) }"

section \<open>The magic process\<close>

definition start_magic :: "kst \<Rightarrow> kst option" where
  "start_magic st = do {
     let c = cur st;
     let st = st\<lparr>magicProcess := Some c\<rparr>;
     let st = st\<lparr>magicDuration := magic_time (tsk st)\<rparr>;
     let st = upd_task c (\<lambda>t. t\<lparr>started_magic := 1\<rparr>) st;
     st \<leftarrow> dequeue_task c (array (tasks st c)) st;
     let st = upd_task c (\<lambda>t. t\<lparr>prio := 50\<rparr>) st;
     st \<leftarrow> enqueue_task c (array (tasks st c)) st;
     let st = upd_task c (\<lambda>t. t\<lparr>time_slice := magic_time t\<rparr>) st;
     let st = st\<lparr>MAGICTIME := magicDuration st\<rparr>;
     let st = st\<lparr>magic_was_called := 1\<rparr>;
     Some (st\<lparr>global_magic_call_time := magic_call_time (tasks st c)\<rparr>) }"

definition update_magic :: "u32 \<Rightarrow> kst \<Rightarrow> kst option" where
  "update_magic newMagicDuration st = do {
     m \<leftarrow> magicProcess st;
     let st = st\<lparr>global_magic_call_time := magic_call_time (tasks st m)\<rparr>;
     let st = st\<lparr>magicDuration := newMagicDuration\<rparr>;
     Some (st\<lparr>MAGICTIME := newMagicDuration\<rparr>) }"

definition exit_from_magic :: "kst \<Rightarrow> kst option" where
  "exit_from_magic st = do {
     m \<leftarrow> magicProcess st;
     st \<leftarrow> (if magic_sleep_flag st = 0 then do {
              st \<leftarrow> dequeue_task m (array (tasks st m)) st;
              let st = upd_task (cur st) (\<lambda>t. t\<lparr>prio := 130\<rparr>) st;
              enqueue_task m (array (tasks st m)) st }
            else Some (upd_task m (\<lambda>t. t\<lparr>prio := 130\<rparr>) st));
     let st = st\<lparr>idle_from_magic := 0, magic_sleep_flag := 0, magicDuration := 0\<rparr>;
     let st = upd_task m (\<lambda>t. t\<lparr>started_magic := 0, magic_time := 0, time_slice := 0,
                              magic_call_time := 0\<rparr>) st;
     Some (st\<lparr>magicProcess := None, MAGICTIME := 0\<rparr>) }"

section \<open>The timer tick\<close>

definition tick_magic :: "kst \<Rightarrow> kst option" where
  "tick_magic st =
     (if sint (MAGICTIME st) > 0 then
        (let p = cur st; st = st\<lparr>MAGICTIME := MAGICTIME st - 1\<rparr> in
         if MAGICTIME st = 0 then do {
           st \<leftarrow> exit_from_magic st;
           Some ((set_tsk_need_resched p st)\<lparr>bugblocker := 1\<rparr>) }
         else Some st)
      else Some st)"

definition tick_rt :: "task \<Rightarrow> kst \<Rightarrow> kst option" where
  "tick_rt p st =
     (if policy (tasks st p) = SCHED_RR then
        (let st = upd_task p (\<lambda>t. t\<lparr>time_slice := time_slice t - 1\<rparr>) st in
         if time_slice (tasks st p) = 0 then do {
           let st = upd_task p (\<lambda>t. t\<lparr>time_slice := of_int (TASK_TIMESLICE t), first_time_slice := 0\<rparr>) st;
           let st = set_tsk_need_resched p st;
           st \<leftarrow> dequeue_task p (Some (active (rq st))) st;
           enqueue_task p (Some (active (rq st))) st }
         else Some st)
      else Some st)"

definition tick_other :: "task \<Rightarrow> kst \<Rightarrow> kst option" where
  "tick_other p st =
     (let st = (if sleep_avg (tasks st p) \<noteq> 0
                then upd_task p (\<lambda>t. t\<lparr>sleep_avg := sleep_avg t - 1\<rparr>) st else st);
          st = upd_task p (\<lambda>t. t\<lparr>time_slice := time_slice t - 1\<rparr>) st in
      if time_slice (tasks st p) = 0 then do {
        st \<leftarrow> dequeue_task p (Some (active (rq st))) st;
        let st = set_tsk_need_resched p st;
        let st = upd_task p (\<lambda>t. t\<lparr>prio := effective_prio t\<rparr>) st;
        let st = upd_task p (\<lambda>t. t\<lparr>first_time_slice := 0, time_slice := of_int (TASK_TIMESLICE t)\<rparr>) st;
        if \<not> TASK_INTERACTIVE (tasks st p) \<or> EXPIRED_STARVING st then do {
          let st = (if expired_timestamp (rq st) = 0
                    then upd_rq (\<lambda>r. r\<lparr>expired_timestamp := jiffies st\<rparr>) st else st);
          enqueue_task p (Some (expired (rq st))) st }
        else enqueue_task p (Some (active (rq st))) st }
      else Some st)"

definition tick_task :: "task \<Rightarrow> u32 \<Rightarrow> u32 \<Rightarrow> kst \<Rightarrow> kst option" where
  "tick_task p user_tick system st =
     (if p = rq_idle (rq st) then
        Some (if local_bh_count st \<noteq> 0 \<or> local_irq_count st > 1
              then st\<lparr>kstat_system := kstat_system st + system\<rparr> else st)
      else
        (let st = (if TASK_NICE (tasks st p) > 0 then st\<lparr>kstat_nice := kstat_nice st + user_tick\<rparr>
                   else st\<lparr>kstat_user := kstat_user st + user_tick\<rparr>);
             st = st\<lparr>kstat_system := kstat_system st + system\<rparr> in
         if array (tasks st p) \<noteq> Some (active (rq st)) then Some (set_tsk_need_resched p st)
         else if rt_task (tasks st p) then tick_rt p st
         else tick_other p st))"

definition scheduler_tick :: "u32 \<Rightarrow> u32 \<Rightarrow> kst \<Rightarrow> kst option" where
  "scheduler_tick user_tick system st = do {
     let p = cur st;
     st \<leftarrow> tick_magic st;
     tick_task p user_tick system st }"

section \<open>schedule()\<close>

text \<open>
  The magic segment. \<open>Some next\<close> is a jump to \<open>switch_tasks\<close>; the case of a dead magic process in
  the inner switch would jump there with \<open>next\<close> not set, but is excluded by the test before it.
\<close>
definition schedule_magic :: "kst \<Rightarrow> (kst \<times> task option) option" where
  "schedule_magic st = (case magicProcess st of None \<Rightarrow> Some (st, None) | Some m \<Rightarrow> do {
     st \<leftarrow> (if global_magic_call_time st \<noteq> magic_call_time (tasks st m)
            then update_magic (magic_time (tasks st m)) st else Some st);
     if state (tasks st m) = TASK_ZOMBIE then do { st \<leftarrow> exit_from_magic st; Some (st, None) }
     else if MAGICTIME st = 0 then do {
       st \<leftarrow> exit_from_magic st; Some (st\<lparr>bugblocker := 1\<rparr>, None) }
     else if idle_from_magic st = 1 then
       (if state (tasks st m) = TASK_RUNNING then
          Some (st\<lparr>idle_from_magic := 0, magic_sleep_flag := 0\<rparr>, Some m)
        else if state (tasks st m) = TASK_INTERRUPTIBLE then Some (st, Some (rq_idle (rq st)))
        else if state (tasks st m) = TASK_ZOMBIE then None
        else Some (st, None))
     else Some (st, None) })"

definition schedule_running :: "task \<Rightarrow> kst \<Rightarrow> (kst \<times> task option) option" where
  "schedule_running prev st =
     (if magic_time (tsk st) > 0 then do {
        st \<leftarrow> (if started_magic (tasks st prev) = 0 then start_magic st else Some st);
        next \<leftarrow> magicProcess st;
        Some (st, Some next) }
      else Some (st, None))"

definition schedule_state :: "task \<Rightarrow> kst \<Rightarrow> (kst \<times> task option) option" where
  "schedule_state prev st =
     (if state (tasks st prev) = TASK_INTERRUPTIBLE then
        (if magic_time (tsk st) > 0 then do {
           st \<leftarrow> (if started_magic (tasks st prev) = 0 then start_magic st else Some st);
           let st = st\<lparr>idle_from_magic := 1, magic_sleep_flag := 1\<rparr>;
           let next = rq_idle (rq st);
           st \<leftarrow> deactivate_task prev st;
           Some (st, Some next) }
         else if sigpending (tasks st prev) \<noteq> 0 then
           Some (upd_task prev (\<lambda>t. t\<lparr>state := TASK_RUNNING\<rparr>) st, None)
         else do { st \<leftarrow> deactivate_task prev st; schedule_running prev st })
      else if state (tasks st prev) = TASK_RUNNING then schedule_running prev st
      else do { st \<leftarrow> deactivate_task prev st; schedule_running prev st })"

definition list_entry_task :: "node \<Rightarrow> task option" where
  "list_entry_task n = (case n of RunList p \<Rightarrow> Some p | _ \<Rightarrow> None)"

definition pick_next_task :: "kst \<Rightarrow> (kst \<times> task) option" where
  "pick_next_task st =
     (if nr_running (rq st) = 0 then
        Some (upd_rq (\<lambda>r. r\<lparr>expired_timestamp := 0\<rparr>) st, rq_idle (rq st))
      else do {
        let st = (if nr_active (arrays (rq st) (active (rq st))) = 0
                  then upd_rq (\<lambda>r. r\<lparr>active := expired r, expired := active r, expired_timestamp := 0\<rparr>) st
                  else st);
        let a = active (rq st);
        idx \<leftarrow> sched_find_first_bit (bitmap (arrays (rq st) a));
        next \<leftarrow> (if idx < 140 then list_entry_task (nxt (lists st) (QHead a idx)) else None);
        Some (st, next) })"

definition switch_tasks :: "task \<Rightarrow> task \<Rightarrow> kst \<Rightarrow> kst option" where
  "switch_tasks prev next st =
     (let st = clear_tsk_need_resched prev st in
      if prev \<noteq> next then
        context_switch prev next
          (upd_rq (\<lambda>r. r\<lparr>nr_switches := nr_switches r + 1, rq_curr := next\<rparr>) st)
      else Some st)"

text \<open>From the label \<open>need_resched\<close> to the test at the end of the function.\<close>
definition schedule_pass :: "kst \<Rightarrow> kst option" where
  "schedule_pass st = do {
     let prev = cur st;
     let st = upd_task prev (\<lambda>t. t\<lparr>sleep_timestamp := jiffies st\<rparr>) st;
     (st, jump) \<leftarrow> schedule_magic st;
     (st, jump) \<leftarrow> (case jump of Some next \<Rightarrow> Some (st, Some next) | None \<Rightarrow> schedule_state prev st);
     (st, next) \<leftarrow> (case jump of Some next \<Rightarrow> Some (st, next) | None \<Rightarrow> pick_next_task st);
     switch_tasks prev next st }"

text \<open>
  After the switch the code goes on in the new current task, which was itself switched out at
  this point, so the loop looks at the flag of the new task.
\<close>
partial_function (option) schedule_loop :: "kst \<Rightarrow> kst option" where
  "schedule_loop st = do {
     st \<leftarrow> schedule_pass st;
     if need_resched (tsk st) \<noteq> 0 then schedule_loop st else Some st }"

definition schedule :: "kst \<Rightarrow> kst option" where
  "schedule st =
     (if local_irq_count st + local_bh_count st \<noteq> 0 then None else schedule_loop st)"

section \<open>Initialisation\<close>

definition init_idle :: "task \<Rightarrow> kst \<Rightarrow> kst option" where
  "init_idle idle st = do {
     let st = upd_rq (\<lambda>r. r\<lparr>rq_curr := idle, rq_idle := idle\<rparr>) st;
     st \<leftarrow> deactivate_task idle st;
     let st = upd_task idle (\<lambda>t. t\<lparr>array := None, prio := MAX_PRIO, state := TASK_RUNNING\<rparr>) st;
     Some (set_tsk_need_resched idle st) }"

text \<open>The body of the loop over the two arrays.\<close>
definition init_array :: "nat \<Rightarrow> kst \<Rightarrow> kst" where
  "init_array j st = upd_array j (\<lambda>x. x\<lparr>bitmap := bitmap_set 140 (bitmap x)\<rparr>)
     (fold (\<lambda>k st. upd_array j (\<lambda>x. x\<lparr>bitmap := bitmap_clear k (bitmap x)\<rparr>)
                    (upd_lists (INIT_LIST_HEAD (QHead j k)) st)) [0..<140] st)"

text \<open>Up to the call of \<open>wake_up_process\<close>; the timer vectors and bottom halves are other parts.\<close>
definition sched_init :: "kst \<Rightarrow> kst option" where
  "sched_init st = do {
     let st = upd_rq (\<lambda>r. r\<lparr>active := 0, expired := 1\<rparr>) st;
     let st = init_array 1 (init_array 0 st);
     let st = upd_rq (\<lambda>r. r\<lparr>rq_curr := cur st, rq_idle := cur st\<rparr>) st;
     (_, st) \<leftarrow> wake_up_process (cur st) st;
     Some st }"


lemma queues_ignore [simp]:
  "queues (st\<lparr>cur := x0\<rparr>) Q = queues st Q"
  "queues (st\<lparr>mem := x1\<rparr>) Q = queues st Q"
  "queues (st\<lparr>jiffies := x2\<rparr>) Q = queues st Q"
  "queues (st\<lparr>kstat_user := x3\<rparr>) Q = queues st Q"
  "queues (st\<lparr>kstat_nice := x4\<rparr>) Q = queues st Q"
  "queues (st\<lparr>kstat_system := x5\<rparr>) Q = queues st Q"
  "queues (st\<lparr>mm_count := x6\<rparr>) Q = queues st Q"
  "queues (st\<lparr>mm_freed := x7\<rparr>) Q = queues st Q"
  "queues (st\<lparr>magicDuration := x8\<rparr>) Q = queues st Q"
  "queues (st\<lparr>idle_from_magic := x9\<rparr>) Q = queues st Q"
  "queues (st\<lparr>magicProcess := x10\<rparr>) Q = queues st Q"
  "queues (st\<lparr>magic_sleep_flag := x11\<rparr>) Q = queues st Q"
  "queues (st\<lparr>MAGICTIME := x12\<rparr>) Q = queues st Q"
  "queues (st\<lparr>bugblocker := x13\<rparr>) Q = queues st Q"
  "queues (st\<lparr>magic_was_called := x14\<rparr>) Q = queues st Q"
  "queues (st\<lparr>global_magic_call_time := x15\<rparr>) Q = queues st Q"
  "queues (st\<lparr>sys := x16\<rparr>) Q = queues st Q"
  "queues (st\<lparr>local_irq_count := x17\<rparr>) Q = queues st Q"
  "queues (st\<lparr>local_bh_count := x18\<rparr>) Q = queues st Q"
  by (simp_all add: queues_def)

lemma rq_inv_ignore [simp]:
  "rq_inv (st\<lparr>cur := x0\<rparr>) Q = rq_inv st Q"
  "rq_inv (st\<lparr>mem := x1\<rparr>) Q = rq_inv st Q"
  "rq_inv (st\<lparr>jiffies := x2\<rparr>) Q = rq_inv st Q"
  "rq_inv (st\<lparr>kstat_user := x3\<rparr>) Q = rq_inv st Q"
  "rq_inv (st\<lparr>kstat_nice := x4\<rparr>) Q = rq_inv st Q"
  "rq_inv (st\<lparr>kstat_system := x5\<rparr>) Q = rq_inv st Q"
  "rq_inv (st\<lparr>mm_count := x6\<rparr>) Q = rq_inv st Q"
  "rq_inv (st\<lparr>mm_freed := x7\<rparr>) Q = rq_inv st Q"
  "rq_inv (st\<lparr>magicDuration := x8\<rparr>) Q = rq_inv st Q"
  "rq_inv (st\<lparr>idle_from_magic := x9\<rparr>) Q = rq_inv st Q"
  "rq_inv (st\<lparr>magicProcess := x10\<rparr>) Q = rq_inv st Q"
  "rq_inv (st\<lparr>magic_sleep_flag := x11\<rparr>) Q = rq_inv st Q"
  "rq_inv (st\<lparr>MAGICTIME := x12\<rparr>) Q = rq_inv st Q"
  "rq_inv (st\<lparr>bugblocker := x13\<rparr>) Q = rq_inv st Q"
  "rq_inv (st\<lparr>magic_was_called := x14\<rparr>) Q = rq_inv st Q"
  "rq_inv (st\<lparr>global_magic_call_time := x15\<rparr>) Q = rq_inv st Q"
  "rq_inv (st\<lparr>sys := x16\<rparr>) Q = rq_inv st Q"
  "rq_inv (st\<lparr>local_irq_count := x17\<rparr>) Q = rq_inv st Q"
  "rq_inv (st\<lparr>local_bh_count := x18\<rparr>) Q = rq_inv st Q"
  by (simp_all add: rq_inv_def)


section \<open>Switching tasks\<close>

text \<open>A context switch changes nothing of a task but its \<open>need_resched\<close> flag and \<open>active_mm\<close>.\<close>

definition core :: "task_struct \<Rightarrow> task_struct" where
  "core t = t\<lparr>need_resched := 0, active_mm := None\<rparr>"

lemma core_sel:
  assumes "core t' = core t"
  shows "prio t' = prio t"
    "array t' = array t"
    "state t' = state t"
    "static_prio t' = static_prio t"
    "magic_time t' = magic_time t"
    "started_magic t' = started_magic t"
    "magic_call_time t' = magic_call_time t"
    "time_slice t' = time_slice t"
    "mm t' = mm t"
    "sleep_avg t' = sleep_avg t"
    "policy t' = policy t"
  using arg_cong [OF assms, of prio]
    arg_cong [OF assms, of array]
    arg_cong [OF assms, of state]
    arg_cong [OF assms, of static_prio]
    arg_cong [OF assms, of magic_time]
    arg_cong [OF assms, of started_magic]
    arg_cong [OF assms, of magic_call_time]
    arg_cong [OF assms, of time_slice]
    arg_cong [OF assms, of mm]
    arg_cong [OF assms, of sleep_avg]
    arg_cong [OF assms, of policy]
  by (simp_all add: core_def)

definition same_cores :: "kst \<Rightarrow> kst \<Rightarrow> bool" where
  "same_cores st st' = (\<forall>t. core (tasks st' t) = core (tasks st t))"

lemma switch_tasks_ok:
  assumes "active_mm (tasks st prev) \<noteq> None" "cur st = prev"
  shows "\<exists>st'. switch_tasks prev next st = Some st' \<and> cur st' = next \<and> same_cores st st' \<and>
    lists st' = lists st \<and> arrays (rq st') = arrays (rq st) \<and>
    nr_running (rq st') = nr_running (rq st) \<and> active (rq st') = active (rq st) \<and>
    expired (rq st') = expired (rq st) \<and> rq_idle (rq st') = rq_idle (rq st) \<and>
    magicProcess st' = magicProcess st \<and> MAGICTIME st' = MAGICTIME st \<and>
    idle_from_magic st' = idle_from_magic st \<and> magic_sleep_flag st' = magic_sleep_flag st \<and>
    global_magic_call_time st' = global_magic_call_time st \<and>
    (\<forall>p. need_resched (tasks st' p) = (if p = prev then 0 else need_resched (tasks st p)))"
proof (cases "prev = next")
  case True
  with assms(2) show ?thesis
    by (auto simp: switch_tasks_def clear_tsk_need_resched_def same_cores_def core_def)
next
  case False
  from assms(1) obtain m where m: "active_mm (tasks st prev) = Some m" by blast
  show ?thesis
    using False m
    by (cases "mm (tasks st next)"; cases "mm (tasks st prev)")
      (simp_all add: switch_tasks_def clear_tsk_need_resched_def context_switch_def mmdrop_def Let_def
        same_cores_def core_def)
qed

lemma rq_inv_same_cores:
  assumes "rq_inv st Q" "same_cores st st'" "lists st' = lists st" "arrays (rq st') = arrays (rq st)"
    "nr_running (rq st') = nr_running (rq st)" "active (rq st') = active (rq st)"
    "expired (rq st') = expired (rq st)"
  shows "rq_inv st' Q"
proof -
  have c: "prio (tasks st' p) = prio (tasks st p)" "array (tasks st' p) = array (tasks st p)" for p
    by (rule core_sel(1,2) [OF assms(2) [unfolded same_cores_def, THEN spec]])+
  have "queues st' Q" by (rule queues_cong [OF rq_invD(1) [OF assms(1)] assms(3,4)]) (simp add: c)
  with assms show ?thesis by (auto simp: rq_inv_def c)
qed

section \<open>Choosing the next task\<close>

text \<open>The array \<open>schedule()\<close> takes the next task from: the expired one when the active is empty.\<close>

definition pick_array :: "kst \<Rightarrow> queues \<Rightarrow> nat" where
  "pick_array st Q = (if array_len Q (active (rq st)) = 0 then expired (rq st) else active (rq st))"

lemma array_len_pos: "array_len Q a \<noteq> 0 \<Longrightarrow> \<exists>i<140. Q a i \<noteq> []"
  by (auto simp: array_len_def)

lemma array_len_queued: "p \<in> queued Q \<Longrightarrow> array_len Q 0 + array_len Q 1 \<noteq> 0"
proof -
  assume "p \<in> queued Q"
  then obtain a i where ai: "a < 2" "i < 140" "p \<in> set (Q a i)" by (auto simp: queued_def)
  then have "length (Q a i) \<noteq> 0" by auto
  with ai(2) have "array_len Q a \<noteq> 0" by (auto simp: array_len_def)
  with ai(1) show ?thesis by (auto simp: less_2_cases_iff)
qed

lemma pick_next_task_refines:
  assumes inv: "rq_inv st Q" and n: "nr_running (rq st) \<noteq> 0"
  shows "\<exists>st' i. pick_next_task st = Some (st', hd (Q (pick_array st Q) i)) \<and> i < 140 \<and>
    Q (pick_array st Q) i \<noteq> [] \<and> (\<forall>j<i. Q (pick_array st Q) j = []) \<and> rq_inv st' Q \<and>
    tasks st' = tasks st \<and> cur st' = cur st \<and> active (rq st') = pick_array st Q \<and>
    magicProcess st' = magicProcess st \<and> MAGICTIME st' = MAGICTIME st"
proof -
  let ?a = "pick_array st Q"
  define st' where "st' = (if nr_active (arrays (rq st) (active (rq st))) = 0
    then upd_rq (\<lambda>r. r\<lparr>active := expired r, expired := active r, expired_timestamp := 0\<rparr>) st else st)"
  have inv': "rq_inv st' Q"
    using inv queues_upd_rq [OF rq_invD(1) [OF inv], of "\<lambda>r. r\<lparr>active := expired r, expired := active r, expired_timestamp := 0\<rparr>"]
    by (auto simp: st'_def rq_inv_def insert_commute)
  have act: "nr_active (arrays (rq st) (active (rq st))) = int (array_len Q (active (rq st)))"
    using rq_invD(1,4) [OF inv] by (auto simp: queues_def)
  then have a': "active (rq st') = ?a" by (simp add: st'_def pick_array_def)
  have a2: "?a < 2" using rq_invD(4,5) [OF inv] by (simp add: pick_array_def)
  have len: "array_len Q ?a \<noteq> 0"
  proof -
    have "array_len Q 0 + array_len Q 1 \<noteq> 0"
    proof
      assume "array_len Q 0 + array_len Q 1 = 0"
      with n rq_invD(3) [OF inv] show False by simp
    qed
    moreover have "{active (rq st), expired (rq st)} = {0, 1}" using inv by (simp add: rq_inv_def)
    ultimately show ?thesis by (auto simp: pick_array_def doubleton_eq_iff)
  qed
  then obtain k where k: "k < 140" "Q ?a k \<noteq> []" using array_len_pos by blast
  define i where "i = (LEAST j. Q ?a j \<noteq> [])"
  have i: "Q ?a i \<noteq> []" "i < 140" "\<forall>j<i. Q ?a j = []"
    using LeastI [of "\<lambda>j. Q ?a j \<noteq> []" k] Least_le [of "\<lambda>j. Q ?a j \<noteq> []" k] k not_less_Least
    by (auto simp: i_def)
  have "is_first_bit (bitmap (arrays (rq st') ?a)) i"
    using queuesD(4) [OF rq_invD(1) [OF inv'] a2] i by (auto simp: is_first_bit_def)
  then have ffb: "sched_find_first_bit (bitmap (arrays (rq st') ?a)) = Some i"
    by (simp add: sched_find_first_bit_iff)
  obtain p ps where q: "Q ?a i = p # ps" using i(1) by (cases "Q ?a i") auto
  have "nxt (lists st') (QHead ?a i) = RunList p"
    using kl.lst_first queuesD(1) [OF rq_invD(1) [OF inv'] a2 i(2)] by (simp add: q)
  then have "pick_next_task st = Some (st', hd (Q ?a i))"
    using n ffb i(2) q a' by (simp add: pick_next_task_def list_entry_task_def flip: st'_def)
  then show ?thesis using i inv' a' by (auto simp: st'_def)
qed


text \<open>
  The abstract choice: the first task of the best non-empty queue of an array, and the idle task
  when both arrays are empty.
\<close>

definition best :: "queues \<Rightarrow> nat \<Rightarrow> task option" where
  "best Q a = map_option (\<lambda>i. hd (Q a i)) (List.find (\<lambda>i. Q a i \<noteq> []) [0..<140])"

definition abs_pick :: "kst \<Rightarrow> queues \<Rightarrow> task" where
  "abs_pick st Q = (case best Q (active (rq st)) of Some p \<Rightarrow> p
     | None \<Rightarrow> (case best Q (expired (rq st)) of Some p \<Rightarrow> p | None \<Rightarrow> rq_idle (rq st)))"

lemma abs_pick_cong:
  "active (rq s) = active (rq st) \<Longrightarrow> expired (rq s) = expired (rq st) \<Longrightarrow> rq_idle (rq s) = rq_idle (rq st) \<Longrightarrow>
    abs_pick s Q = abs_pick st Q"
  by (simp add: abs_pick_def split: option.split)

lemma best_eq:
  assumes "i < 140" "Q a i \<noteq> []" "\<forall>j<i. Q a j = []"
  shows "best Q a = Some (hd (Q a i))"
proof -
  have "List.find (\<lambda>i. Q a i \<noteq> []) [0..<140] = Some i"
    using assms by (auto simp: find_Some_iff intro!: exI [of _ i])
  then show ?thesis by (simp add: best_def)
qed

lemma best_None: "array_len Q a = 0 \<Longrightarrow> best Q a = None"
  by (simp add: best_def find_None_iff array_len_def)

lemma abs_pick_None: "array_len Q 0 + array_len Q 1 = 0 \<Longrightarrow> rq_inv st Q \<Longrightarrow> abs_pick st Q = rq_idle (rq st)"
  using rq_invD(4,5) [of st Q] by (auto simp: abs_pick_def best_None less_2_cases_iff)

lemma pick_next_task_abs:
  assumes inv: "rq_inv st Q" and n: "array_len Q 0 + array_len Q 1 < 2 ^ 32"
  shows "\<exists>st'. pick_next_task st = Some (st', abs_pick st Q) \<and> rq_inv st' Q \<and>
    tasks st' = tasks st \<and> cur st' = cur st \<and> magicProcess st' = magicProcess st"
proof (cases "nr_running (rq st) = 0")
  case True
  then have "(of_nat (array_len Q 0 + array_len Q 1) :: u32) = 0" using rq_invD(3) [OF inv] by simp
  then have "array_len Q 0 + array_len Q 1 = 0"
    using n of_nat_u32_eq_0 by blast
  then show ?thesis
    using True abs_pick_None [OF _ inv] inv queues_upd_rq [OF rq_invD(1) [OF inv], of "\<lambda>r. r\<lparr>expired_timestamp := 0\<rparr>"]
    by (simp add: pick_next_task_def rq_inv_def)
next
  case False
  from pick_next_task_refines [OF inv False] obtain st' i where
    "pick_next_task st = Some (st', hd (Q (pick_array st Q) i))" "rq_inv st' Q"
    "tasks st' = tasks st" "cur st' = cur st" "magicProcess st' = magicProcess st"
    and b: "best Q (pick_array st Q) = Some (hd (Q (pick_array st Q) i))"
    using best_eq by blast
  moreover have "abs_pick st Q = hd (Q (pick_array st Q) i)"
    using b best_None [of Q "active (rq st)"] by (auto simp: abs_pick_def pick_array_def split: if_splits)
  ultimately show ?thesis by auto
qed

section \<open>schedule() without a magic process\<close>

text \<open>A task that calls \<open>schedule()\<close> stays on its queue if it is runnable or has a signal to take.\<close>

definition stays :: "task_struct \<Rightarrow> bool" where
  "stays t \<longleftrightarrow> state t = TASK_RUNNING \<or> (state t = TASK_INTERRUPTIBLE \<and> sigpending t \<noteq> 0)"

definition left_queue :: "kst \<Rightarrow> nat \<Rightarrow> nat \<Rightarrow> queues \<Rightarrow> queues" where
  "left_queue st a i Q = (if stays (tsk st) then Q else abs_dequeue (cur st) a i Q)"

lemma schedule_state_refines:
  assumes inv: "rq_inv st Q" and mt: "magic_time (tsk st) = 0"
    and q: "\<not> stays (tsk st) \<Longrightarrow> cur st \<in> set (Q a i) \<and> a < 2 \<and> i < 140"
  shows "\<exists>st'. schedule_state (cur st) st = Some (st', None) \<and> rq_inv st' (left_queue st a i Q) \<and>
    cur st' = cur st \<and> active_mm (tsk st') = active_mm (tsk st) \<and> magicProcess st' = magicProcess st \<and>
    active (rq st') = active (rq st) \<and> expired (rq st') = expired (rq st) \<and> rq_idle (rq st') = rq_idle (rq st) \<and>
    (\<forall>p. need_resched (tasks st' p) = need_resched (tasks st p))"
proof (cases "stays (tsk st)")
  case True
  then show ?thesis
    using inv mt by (auto simp: stays_def left_queue_def schedule_state_def schedule_running_def
      intro!: rq_inv_upd_same)
next
  case False
  obtain st' where st': "deactivate_task (cur st) st = Some st'" "rq_inv st' (abs_dequeue (cur st) a i Q)"
    using deactivate_task_refines [OF inv] q [OF False] by blast
  note f = deactivate_task_frame(1,2) [OF st'(1)]
  have "cur st' = cur st" using f(2) by (simp add: only_queues_def)
  then have "schedule_state (cur st) st = Some (st', None)"
    using False mt st'(1) f(1) by (auto simp: stays_def schedule_state_def schedule_running_def)
  then show ?thesis using False st'(2) f by (auto simp: left_queue_def only_queues_def)
qed

text \<open>
  Without a magic process \<open>schedule()\<close> switches to the first task of the best non-empty queue, after
  taking the caller off its queue if it goes to sleep, and keeps the invariant.
\<close>

lemma schedule_pass_refines:
  assumes inv: "rq_inv st Q" and m: "magicProcess st = None" "magic_time (tsk st) = 0"
    and q: "\<not> stays (tsk st) \<Longrightarrow> cur st \<in> set (Q a i) \<and> a < 2 \<and> i < 140"
    and n: "array_len (left_queue st a i Q) 0 + array_len (left_queue st a i Q) 1 < 2 ^ 32"
    and mm: "active_mm (tsk st) \<noteq> None"
  shows "\<exists>st'. schedule_pass st = Some st' \<and> cur st' = abs_pick st (left_queue st a i Q) \<and>
    rq_inv st' (left_queue st a i Q) \<and> magicProcess st' = None \<and>
    (\<forall>p. need_resched (tasks st' p) = (if p = cur st then 0 else need_resched (tasks st p)))"
proof -
  let ?s = "upd_task (cur st) (\<lambda>t. t\<lparr>sleep_timestamp := jiffies st\<rparr>) st" and ?Q = "left_queue st a i Q"
  have i0: "rq_inv ?s Q" by (rule rq_inv_upd_same [OF inv]) simp_all
  have lq: "left_queue ?s a i Q = ?Q" by (simp add: left_queue_def stays_def)
  obtain s1 where s1: "schedule_state (cur st) ?s = Some (s1, None)" "rq_inv s1 ?Q" "cur s1 = cur st"
    "active_mm (tsk s1) = active_mm (tsk st)" "magicProcess s1 = None"
    and n1: "\<forall>p. need_resched (tasks s1 p) = need_resched (tasks ?s p)"
    and r1: "active (rq s1) = active (rq st)" "expired (rq s1) = expired (rq st)" "rq_idle (rq s1) = rq_idle (rq st)"
    using schedule_state_refines [OF i0, of a i] q m by (auto simp: lq stays_def)
  have pick: "abs_pick s1 ?Q = abs_pick st ?Q" by (rule abs_pick_cong [OF r1])
  obtain s2 where s2: "pick_next_task s1 = Some (s2, abs_pick st ?Q)" "rq_inv s2 ?Q"
    "tasks s2 = tasks s1" "cur s2 = cur st" "magicProcess s2 = None"
    using pick_next_task_abs [OF s1(2) n] s1 pick by auto
  have "active_mm (tasks s2 (cur st)) \<noteq> None" using s2(3) s1(3,4) mm by simp
  from switch_tasks_ok [OF this s2(4), of "abs_pick st ?Q"] obtain s3 where
    s3: "switch_tasks (cur st) (abs_pick st ?Q) s2 = Some s3" "cur s3 = abs_pick st ?Q"
    "rq_inv s3 ?Q" "magicProcess s3 = None"
    "\<forall>p. need_resched (tasks s3 p) = (if p = cur st then 0 else need_resched (tasks s2 p))"
    using rq_inv_same_cores [OF s2(2)] s2(5) by auto
  have "schedule_pass st = Some s3"
    using s1(1) s2(1) s3(1) m(1) by (simp add: schedule_pass_def schedule_magic_def)
  with s3 n1 s2(3) show ?thesis by auto
qed

section \<open>Waking up\<close>

lemma resched_task_same [simp]:
  "rq_inv (resched_task p st) Q \<longleftrightarrow> rq_inv st Q" "rq (resched_task p st) = rq st"
  "cur (resched_task p st) = cur st" "lists (resched_task p st) = lists st"
  "tasks (resched_task p st) = (tasks st)(p := (tasks st p)\<lparr>need_resched := 1\<rparr>)"
proof -
  show t: "tasks (resched_task p st) = (tasks st)(p := (tasks st p)\<lparr>need_resched := 1\<rparr>)"
    and [simp]: "rq (resched_task p st) = rq st" "cur (resched_task p st) = cur st" "lists (resched_task p st) = lists st"
    by (simp_all add: resched_task_def set_tsk_need_resched_def)
  have "same_cores st (resched_task p st)" "same_cores (resched_task p st) st"
    by (auto simp: same_cores_def core_def t)
  then show "rq_inv (resched_task p st) Q \<longleftrightarrow> rq_inv st Q"
    using rq_inv_same_cores [of st Q "resched_task p st"] rq_inv_same_cores [of "resched_task p st" Q st] by auto
qed

lemma rq_inv_upd_state [simp]: "rq_inv (upd_task p (\<lambda>t. t\<lparr>state := s\<rparr>) st) Q \<longleftrightarrow> rq_inv st Q"
proof
  assume "rq_inv (upd_task p (\<lambda>t. t\<lparr>state := s\<rparr>) st) Q"
  from rq_inv_upd_same [OF this, of "\<lambda>t. t\<lparr>state := state (tasks st p)\<rparr>" p] show "rq_inv st Q"
    by (simp add: upd_task_def)
qed (simp add: rq_inv_upd_same)

lemma try_to_wake_up_refines:
  assumes inv: "rq_inv st Q" and p: "array (tasks st p) = None"
    and i: "0 \<le> prio (tasks st p)" "prio (tasks st p) < 140"
  defines "j \<equiv> nat (prio (wake_bonus (jiffies st) (tasks st p)))"
  shows "\<exists>st'. try_to_wake_up p st = Some (True, st') \<and> j < 140 \<and>
    rq_inv st' (abs_enqueue p (active (rq st)) j Q) \<and> state (tasks st' p) = TASK_RUNNING \<and>
    (rq_curr (rq st) \<noteq> p \<and> int j < prio (tasks st (rq_curr (rq st))) \<longrightarrow>
       need_resched (tasks st' (rq_curr (rq st))) = 1) \<and>
    cur st' = cur st \<and> active (rq st') = active (rq st) \<and> expired (rq st') = expired (rq st) \<and>
    rq_idle (rq st') = rq_idle (rq st) \<and> rq_curr (rq st') = rq_curr (rq st) \<and> magicProcess st' = magicProcess st \<and>
    jiffies st' = jiffies st \<and>
    (\<forall>q. q \<noteq> rq_curr (rq st) \<longrightarrow> need_resched (tasks st' q) = need_resched (tasks st q)) \<and>
    (\<forall>q. q \<noteq> p \<longrightarrow> tasks st' q = (tasks st q)\<lparr>need_resched := need_resched (tasks st' q)\<rparr>) \<and>
    tasks st' p = (wake_bonus (jiffies st) (tasks st p))\<lparr>array := Some (active (rq st)), state := TASK_RUNNING,
      need_resched := need_resched (tasks st' p)\<rparr>"
proof -
  define s0 where "s0 = (if state (tasks st p) = TASK_UNINTERRUPTIBLE
    then upd_rq (\<lambda>r. r\<lparr>nr_uninterruptible := nr_uninterruptible r - 1\<rparr>) st else st)"
  have s0: "tasks s0 = tasks st" "active (rq s0) = active (rq st)" "jiffies s0 = jiffies st"
    "rq_curr (rq s0) = rq_curr (rq st)" "cur s0 = cur st" "expired (rq s0) = expired (rq st)"
    "rq_idle (rq s0) = rq_idle (rq st)" "magicProcess s0 = magicProcess st"
    by (simp_all add: s0_def)
  have i0: "rq_inv s0 Q"
    using inv queues_upd_rq [OF rq_invD(1) [OF inv]] by (simp add: s0_def rq_inv_def)
  obtain s1 where s1: "activate_task p s0 = Some s1" "j < 140" "rq_inv s1 (abs_enqueue p (active (rq st)) j Q)"
    using activate_task_refines [OF i0, of p] p i by (auto simp: s0 j_def)
  note f = activate_task_frame [OF s1(1), unfolded s0]
  have rc: "rq_curr (rq s1) = rq_curr (rq st)" "cur s1 = cur st" "jiffies s1 = jiffies st" "active (rq s1) = active (rq st)"
    "expired (rq s1) = expired (rq st)" "rq_idle (rq s1) = rq_idle (rq st)" "magicProcess s1 = magicProcess st"
    using f(2) by (simp_all add: only_queues_def s0)
  have pj: "prio (tasks s1 p) = int j"
    using wake_bonus_prio [OF i, of "jiffies st"] by (simp add: f(1) j_def)
  define s2 where "s2 = (if prio (tasks s1 p) < prio (tasks s1 (rq_curr (rq s1)))
    then resched_task (rq_curr (rq s1)) s1 else s1)"
  have j2: "jiffies s2 = jiffies st" "magicProcess s2 = magicProcess st"
    by (simp_all add: s2_def rc resched_task_def set_tsk_need_resched_def)
  have i2: "rq_inv s2 (abs_enqueue p (active (rq st)) j Q)" using s1(3) by (simp add: s2_def)
  have eq: "try_to_wake_up p st = Some (True, upd_task p (\<lambda>t. t\<lparr>state := TASK_RUNNING\<rparr>) s2)"
    using p s1(1) by (simp add: try_to_wake_up_def s2_def flip: s0_def)
  show ?thesis
    by (rule exI [of _ "upd_task p (\<lambda>t. t\<lparr>state := TASK_RUNNING\<rparr>) s2"])
      (use eq i2 s1(2) pj j2 in \<open>auto simp: s2_def rc f(1)\<close>)
qed

lemma try_to_wake_up_queued:
  assumes "rq_inv st Q" "array (tasks st p) \<noteq> None"
  shows "\<exists>st'. try_to_wake_up p st = Some (False, st') \<and> rq_inv st' Q \<and> state (tasks st' p) = TASK_RUNNING"
  using assms by (auto simp: try_to_wake_up_def)

section \<open>Initialisation\<close>

lemma init_array_eq:
  assumes "length (bitmap (arrays (rq st) j)) = 5"
  shows "\<exists>b. init_array j st = upd_array j (\<lambda>x. x\<lparr>bitmap := b\<rparr>) (upd_lists (fold (\<lambda>k. INIT_LIST_HEAD (QHead j k)) [0..<140]) st) \<and>
    length b = 5 \<and> (\<forall>i<140. \<not> test_bit b i) \<and> test_bit b 140"
proof -
  let ?f = "\<lambda>k st. upd_array j (\<lambda>x. x\<lparr>bitmap := bitmap_clear k (bitmap x)\<rparr>) (upd_lists (INIT_LIST_HEAD (QHead j k)) st)"
  have step: "n \<le> 140 \<Longrightarrow> \<exists>b. fold ?f [0..<n] st = upd_array j (\<lambda>x. x\<lparr>bitmap := b\<rparr>) (upd_lists (fold (\<lambda>k. INIT_LIST_HEAD (QHead j k)) [0..<n]) st) \<and>
    length b = 5 \<and> (\<forall>i<n. \<not> test_bit b i)" for n
  proof (induction n)
    case 0
    have "upd_array j (\<lambda>x. x\<lparr>bitmap := bitmap (arrays (rq st) j)\<rparr>) (upd_lists id st) = st"
      by (simp add: upd_array_def upd_rq_def upd_lists_def)
    then show ?case using assms by (intro exI [of _ "bitmap (arrays (rq st) j)"]) (simp add: id_def)
  next
    case (Suc n)
    then obtain b where b: "fold ?f [0..<n] st = upd_array j (\<lambda>x. x\<lparr>bitmap := b\<rparr>) (upd_lists (fold (\<lambda>k. INIT_LIST_HEAD (QHead j k)) [0..<n]) st)"
      "length b = 5" "\<forall>i<n. \<not> test_bit b i" by auto
    show ?case
      by (rule exI [of _ "bitmap_clear n b"])
        (use b Suc.prems in \<open>auto simp: upd_array_def upd_rq_def upd_lists_def test_bit_clear less_Suc_eq\<close>)
  qed
  from step [of 140] obtain b where b: "fold ?f [0..<140] st = upd_array j (\<lambda>x. x\<lparr>bitmap := b\<rparr>) (upd_lists (fold (\<lambda>k. INIT_LIST_HEAD (QHead j k)) [0..<140]) st)"
      "length b = 5" "\<forall>i<140. \<not> test_bit b i" by (auto simp del: upt_rec_numeral)
  show ?thesis
    by (rule exI [of _ "bitmap_set 140 b"])
      (use b in \<open>auto simp: init_array_def upd_array_def upd_rq_def upd_lists_def test_bit_set simp del: upt_rec_numeral\<close>)
qed

lemma dlist_fold_init:
  "q \<in> set qs \<Longrightarrow> dlist (fold INIT_LIST_HEAD qs h) q []"
  "dlist h q [] \<Longrightarrow> dlist (fold INIT_LIST_HEAD qs h) q []"
proof -
  show 2: "dlist (fold INIT_LIST_HEAD qs h) q []" if "dlist h q []" for h
    using that
  proof (induction qs arbitrary: h)
    case (Cons a qs)
    have "dlist (INIT_LIST_HEAD a h) q []"
      using Cons.prems by (cases "a = q") (simp_all add: dlist_INIT_LIST_HEAD dlist_frame_init)
    then show ?case using Cons.IH by simp
  qed simp
  show "dlist (fold INIT_LIST_HEAD qs h) q []" if "q \<in> set qs"
    using that
  proof (induction qs arbitrary: h)
    case (Cons a qs)
    then show ?case
    proof (cases "q = a")
      case True
      have "dlist (fold INIT_LIST_HEAD qs (INIT_LIST_HEAD a h)) a []"
      proof (induction qs arbitrary: h)
        case (Cons b qs)
        have "INIT_LIST_HEAD b (INIT_LIST_HEAD a h) = INIT_LIST_HEAD a (INIT_LIST_HEAD b h)"
          by (cases "a = b") (auto simp: INIT_LIST_HEAD_def fun_upd_twist)
        then show ?case using Cons.IH by simp
      qed (simp add: dlist_INIT_LIST_HEAD)
      with True show ?thesis by simp
    qed auto
  qed simp
qed


lemma init_array_lists:
  assumes "length (bitmap (arrays (rq st) j)) = 5"
  shows "lists (init_array j st) = fold INIT_LIST_HEAD (map (QHead j) [0..<140]) (lists st)"
proof -
  have "fold (\<lambda>k. INIT_LIST_HEAD (QHead j k)) [0..<140] = fold INIT_LIST_HEAD (map (QHead j) [0..<140])"
    by (simp add: fold_map comp_def del: upt_rec_numeral)
  with init_array_eq [OF assms] show ?thesis by (auto simp del: upt_rec_numeral)
qed

text \<open>
  \<open>sched_init\<close> on a runqueue of zeroes: both arrays are empty but for the boot task, which is on
  the active one, and the invariant holds.
\<close>

definition zeroed :: "kst \<Rightarrow> bool" where
  "zeroed st = ((\<forall>j<2. length (bitmap (arrays (rq st) j)) = 5 \<and> nr_active (arrays (rq st) j) = 0) \<and>
     nr_running (rq st) = 0)"

lemma init_arrays_inv:
  assumes z: "zeroed st" and arr: "\<forall>p. array (tasks st p) = None"
    and ae: "active (rq st) = 0" "expired (rq st) = 1"
  shows "rq_inv (init_array 1 (init_array 0 st)) (\<lambda>_ _. [])"
proof -
  have l: "length (bitmap (arrays (rq st) 0)) = 5" using z by (simp add: zeroed_def)
  obtain b0 where b0: "init_array 0 st = upd_array 0 (\<lambda>x. x\<lparr>bitmap := b0\<rparr>) (upd_lists (fold (\<lambda>k. INIT_LIST_HEAD (QHead 0 k)) [0..<140]) st)"
    "length b0 = 5" "\<forall>i<140. \<not> test_bit b0 i" "test_bit b0 140"
    using init_array_eq [OF l] by blast
  let ?s = "init_array 0 st"
  have l1: "length (bitmap (arrays (rq ?s) 1)) = 5" using z by (simp add: b0(1) zeroed_def)
  obtain b1 where b1: "init_array 1 ?s = upd_array 1 (\<lambda>x. x\<lparr>bitmap := b1\<rparr>) (upd_lists (fold (\<lambda>k. INIT_LIST_HEAD (QHead 1 k)) [0..<140]) ?s)"
    "length b1 = 5" "\<forall>i<140. \<not> test_bit b1 i" "test_bit b1 140"
    using init_array_eq [OF l1] by blast
  have d: "dlist (lists (init_array 1 ?s)) (QHead a i) []" if "a < 2" "i < 140" for a i
    unfolding init_array_lists [OF l1] init_array_lists [OF l]
    using that dlist_fold_init(1) [of "QHead 1 i" "map (QHead 1) [0..<140]"]
      dlist_fold_init(2) [OF dlist_fold_init(1) [of "QHead 0 i" "map (QHead 0) [0..<140]"]]
    by (auto simp: less_2_cases_iff simp del: upt_rec_numeral)
  have r: "rq (init_array 1 ?s) = (rq st)\<lparr>arrays := (arrays (rq st))(0 := (arrays (rq st) 0)\<lparr>bitmap := b0\<rparr>, 1 := (arrays (rq st) 1)\<lparr>bitmap := b1\<rparr>)\<rparr>"
    "tasks (init_array 1 ?s) = tasks st" 
    by (subst b1(1), simp add: b0(1) del: One_nat_def)+
  obtain t where t: "t = init_array 1 ?s" by simp
  have "rq_inv t (\<lambda>_ _. [])"
    unfolding rq_inv_def queues_def using d [folded t] z b0(2-4) b1(2-4) arr ae
    by (auto simp: r [folded t] zeroed_def array_len_def queued_def less_2_cases_iff)
  then show ?thesis by (simp only: t)
qed

lemma init_array_frame:
  assumes "length (bitmap (arrays (rq st) j)) = 5"
  shows "tasks (init_array j st) = tasks st" "cur (init_array j st) = cur st"
    "active (rq (init_array j st)) = active (rq st)" "expired (rq (init_array j st)) = expired (rq st)"
    "magicProcess (init_array j st) = magicProcess st" "jiffies (init_array j st) = jiffies st"
    "j \<noteq> k \<Longrightarrow> arrays (rq (init_array j st)) k = arrays (rq st) k"
  using init_array_eq [OF assms] by auto

lemma sched_init_inv:
  assumes z: "zeroed st" and arr: "\<forall>p. array (tasks st p) = None"
    and i: "0 \<le> prio (tsk st)" "prio (tsk st) < 140"
  shows "\<exists>st'. sched_init st = Some st' \<and>
    rq_inv st' (abs_enqueue (cur st) 0 (nat (prio (wake_bonus (jiffies st) (tsk st)))) (\<lambda>_ _. [])) \<and>
    cur st' = cur st \<and> rq_idle (rq st') = cur st \<and> rq_curr (rq st') = cur st \<and>
    active (rq st') = 0 \<and> expired (rq st') = 1 \<and> jiffies st' = jiffies st \<and> magicProcess st' = magicProcess st \<and>
    (\<forall>q. q \<noteq> cur st \<longrightarrow> need_resched (tasks st' q) = need_resched (tasks st q)) \<and>
    (\<forall>q. q \<noteq> cur st \<longrightarrow> tasks st' q = (tasks st q)\<lparr>need_resched := need_resched (tasks st' q)\<rparr>) \<and>
    tsk st' = (wake_bonus (jiffies st) (tsk st))\<lparr>array := Some 0, state := TASK_RUNNING,
      need_resched := need_resched (tsk st')\<rparr>"
proof -
  let ?s0 = "upd_rq (\<lambda>r. r\<lparr>active := 0, expired := 1\<rparr>) st"
  let ?s1 = "init_array 1 (init_array 0 ?s0)"
  let ?s2 = "upd_rq (\<lambda>r. r\<lparr>rq_curr := cur ?s1, rq_idle := cur ?s1\<rparr>) ?s1"
  have l: "length (bitmap (arrays (rq ?s0) 0)) = 5" "length (bitmap (arrays (rq ?s0) 1)) = 5"
    using z by (simp_all add: zeroed_def)
  note f0 = init_array_frame [OF l(1)]
  have l1: "length (bitmap (arrays (rq (init_array 0 ?s0)) 1)) = 5" using f0(7) l(2) by simp
  note f1 = init_array_frame [OF l1]
  have f: "tasks ?s2 = tasks st" "cur ?s2 = cur st" "jiffies ?s2 = jiffies st" "active (rq ?s2) = 0"
    "expired (rq ?s2) = 1" "magicProcess ?s2 = magicProcess st"
    by (simp_all add: f0 f1 del: One_nat_def)
  have "zeroed ?s0" using z by (simp add: zeroed_def)
  then have "rq_inv ?s1 (\<lambda>_ _. [])" using arr by (intro init_arrays_inv) simp_all
  then have inv: "rq_inv ?s2 (\<lambda>_ _. [])" using queues_upd_rq [OF rq_invD(1)] by (simp add: rq_inv_def)
  have "array (tasks ?s2 (cur st)) = None" "0 \<le> prio (tasks ?s2 (cur st))" "prio (tasks ?s2 (cur st)) < 140"
    using arr i by (simp_all only: f(1))
  from try_to_wake_up_refines [OF inv this] obtain s3 where w: "wake_up_process (cur st) ?s2 = Some (True, s3)"
    and s3: "rq_inv s3 (abs_enqueue (cur st) 0 (nat (prio (wake_bonus (jiffies st) (tsk st)))) (\<lambda>_ _. []))"
    "cur s3 = cur st" "rq_idle (rq s3) = rq_idle (rq ?s2)" "rq_curr (rq s3) = rq_curr (rq ?s2)"
    "active (rq s3) = 0" "expired (rq s3) = 1" "jiffies s3 = jiffies st" "magicProcess s3 = magicProcess st"
    "\<forall>q. q \<noteq> rq_curr (rq ?s2) \<longrightarrow> need_resched (tasks s3 q) = need_resched (tasks st q)"
    "\<forall>q. q \<noteq> cur st \<longrightarrow> tasks s3 q = (tasks st q)\<lparr>need_resched := need_resched (tasks s3 q)\<rparr>"
    "tasks s3 (cur st) = (wake_bonus (jiffies st) (tsk st))\<lparr>array := Some 0, state := TASK_RUNNING,
      need_resched := need_resched (tasks s3 (cur st))\<rparr>"
    unfolding f wake_up_process_def by blast
  have "rq_idle (rq ?s2) = cur st" "rq_curr (rq ?s2) = cur st" using f(2) by simp_all
  moreover have "sched_init st = Some s3" using w f(2) by (simp add: sched_init_def Let_def)
  ultimately show ?thesis using s3 by metis
qed

section \<open>A booted machine\<close>

text \<open>
  The first task as \<open>INIT_TASK\<close> sets it up; the fields it does not name are zero. The objects it
  points to (\<open>init_mm\<close>, \<open>init_fs\<close>, \<open>init_files\<close>, \<open>init_signals\<close>) have the number 0.
\<close>

definition INIT_TASK :: "task \<Rightarrow> task_struct" where
  "INIT_TASK t = \<lparr> state = 0, flags = 0, sigpending = 0, addr_limit = 0xFFFFFFFF, need_resched = 0,
     ptrace = 0, lock_depth = -1, prio = MAX_PRIO - 20, static_prio = MAX_PRIO - 20, array = None,
     sleep_avg = 0, sleep_timestamp = 0, policy = SCHED_OTHER, cpus_allowed = -1, time_slice = HZ,
     first_time_slice = 0, next_task = t, prev_task = t, mm = None, active_mm = Some 0,
     exit_code = 0, exit_signal = 0, pdeath_signal = 0, pid = 0, pgrp = 0, session = 0, tgid = 0,
     leader = 0, p_opptr = t, p_pptr = t, p_cptr = None, p_ysptr = None, p_osptr = None,
     pidhash_next = None, pidhash_pprev = Htable 0, vfork_done = None, rt_priority = 0, tms_utime = 0, tms_stime = 0, tms_cutime = 0,
     tms_cstime = 0, uid = 0, euid = 0, cap_effective = 0xFFFFFEFF, rlim_nproc = 0, user = 0, files = Some 0,
     fs = Some 0, sig = Some 0, cpus_allowed_mask = -1, parent_exec_id = 0, self_exec_id = 0,
     holding_wand = 0, health = 0, power = 0, my_secret = 0, secrets_ptr = 0, magic_time = 0,
     started_magic = 0, magic_call_time = 0 \<rparr>"

text \<open>The machine before \<open>sched_init\<close>: static data is zero; task 1 has a better priority.\<close>

definition boot_kst :: kst where
  "boot_kst = \<lparr> cur = 0, tasks = (\<lambda>t. (INIT_TASK t)\<lparr>prio := if t = 1 then 110 else 120, pid := int t\<rparr>),
     lists = \<lparr>nxt = id, prv = id\<rparr>, mem = (\<lambda>_. None),
     rq = \<lparr> nr_running = 0, nr_switches = 0, expired_timestamp = 0, nr_uninterruptible = 0,
       rq_curr = 0, rq_idle = 0, active = 0, expired = 0,
       arrays = (\<lambda>_. \<lparr>nr_active = 0, bitmap = [0, 0, 0, 0, 0]\<rparr>) \<rparr>,
     jiffies = 0, local_bh_count = 0, local_irq_count = 0, kstat_user = 0, kstat_nice = 0,
     kstat_system = 0, mm_count = (\<lambda>_. 1), mm_freed = (\<lambda>_. False), pidhash = (\<lambda>_. None),
     magicDuration = 0, idle_from_magic = 0, magicProcess = None, magic_sleep_flag = 0,
     MAGICTIME = 0, bugblocker = 0, magic_was_called = 0, global_magic_call_time = 0,
     sys = \<lparr> waitq = (\<lambda>_. \<lparr>wq_flags = 0, wq_task = 0\<rparr>), completion_done = (\<lambda>_. 0), processes = (\<lambda>_. 1), user_count = (\<lambda>_. 1),
       child_reaper = 0, task_used = (\<lambda>t. t = 0), nr_threads = 0, max_threads = 0,
       last_pid = 0, next_safe = 0x8000, total_forks = 0 \<rparr> \<rparr>"

text \<open>Two tasks are runnable: the boot task, and task 1 that was just woken up.\<close>

definition booted :: kst where
  "booted = the (do { st \<leftarrow> sched_init boot_kst; (_, st) \<leftarrow> wake_up_process 1 st; Some st })"

abbreviation booted_queues :: queues where
  "booted_queues \<equiv> abs_enqueue 1 0 110 (abs_enqueue 0 0 120 (\<lambda>_ _. []))"

lemma wake_bonus_now [simp]: "sleep_timestamp t = now \<Longrightarrow> wake_bonus now t = t"
  by (simp add: wake_bonus_def)

lemma booted_facts:
  "rq_inv booted booted_queues" "cur booted = 0" "active (rq booted) = 0" "expired (rq booted) = 1"
  "magicProcess booted = None" "rq_idle (rq booted) = 0" "rq_curr (rq booted) = 0" "jiffies booted = 0"
  "tasks booted t = (tasks boot_kst t)\<lparr>array := if t < 2 then Some 0 else None, need_resched := need_resched (tasks booted t)\<rparr>"
  "need_resched (tasks booted 0) = 1" "t \<noteq> 0 \<Longrightarrow> need_resched (tasks booted t) = 0"
proof -
  have b: "zeroed boot_kst" "\<forall>p. array (tasks boot_kst p) = None" "prio (tsk boot_kst) = 120"
    "jiffies boot_kst = 0" "cur boot_kst = 0" "magicProcess boot_kst = None"
    "\<And>t. sleep_timestamp (tasks boot_kst t) = 0" "\<And>t. state (tasks boot_kst t) = 0"
    by (simp_all add: zeroed_def boot_kst_def INIT_TASK_def)
  obtain s where s: "sched_init boot_kst = Some s" "rq_inv s (abs_enqueue 0 0 120 (\<lambda>_ _. []))"
    "cur s = 0" "rq_idle (rq s) = 0" "rq_curr (rq s) = 0" "active (rq s) = 0" "expired (rq s) = 1"
    "jiffies s = 0" "magicProcess s = None"
    and n0: "\<And>q. q \<noteq> 0 \<Longrightarrow> need_resched (tasks s q) = need_resched (tasks boot_kst q)"
    and s0: "\<And>q. q \<noteq> 0 \<Longrightarrow> tasks s q = (tasks boot_kst q)\<lparr>need_resched := need_resched (tasks s q)\<rparr>"
    "tasks s 0 = (tasks boot_kst 0)\<lparr>array := Some 0, state := TASK_RUNNING, need_resched := need_resched (tasks s 0)\<rparr>"
    using sched_init_inv [OF b(1,2)] b by auto
  have t1: "array (tasks s 1) = None" "prio (tasks s 1) = 110" "sleep_timestamp (tasks s 1) = jiffies s"
    by (subst s0(1); simp add: boot_kst_def INIT_TASK_def s)+
  have p0: "prio (tasks s 0) = 120" using b(3,5) by (subst s0(2)) simp
  obtain s' where s': "wake_up_process 1 s = Some (True, s')" "rq_inv s' booted_queues"
    "cur s' = 0" "active (rq s') = 0" "expired (rq s') = 1" "rq_idle (rq s') = 0" "rq_curr (rq s') = 0"
    "magicProcess s' = None" "jiffies s' = 0" "need_resched (tasks s' 0) = 1"
    and n1: "\<And>q. q \<noteq> 0 \<Longrightarrow> need_resched (tasks s' q) = need_resched (tasks s q)"
    and s1: "\<And>q. q \<noteq> 1 \<Longrightarrow> tasks s' q = (tasks s q)\<lparr>need_resched := need_resched (tasks s' q)\<rparr>"
    "tasks s' 1 = (tasks s 1)\<lparr>array := Some 0, state := TASK_RUNNING, need_resched := need_resched (tasks s' 1)\<rparr>"
    using try_to_wake_up_refines [OF s(2) t1(1)] t1 s p0 by (auto simp: wake_up_process_def)
  have booted: "booted = s'" using s(1) s'(1) by (simp add: booted_def)
  show "rq_inv booted booted_queues" "cur booted = 0" "active (rq booted) = 0" "expired (rq booted) = 1"
    "magicProcess booted = None" "rq_idle (rq booted) = 0" "rq_curr (rq booted) = 0" "jiffies booted = 0"
    "need_resched (tasks booted 0) = 1" using s' by (simp_all add: booted)
  show "need_resched (tasks booted t) = 0" if "t \<noteq> 0"
    using n0 [OF that] n1 [OF that] by (simp add: booted boot_kst_def INIT_TASK_def)
  consider "t = 0" | "t = 1" | "2 \<le> t" by linarith
  then show "tasks booted t = (tasks boot_kst t)\<lparr>array := if t < 2 then Some 0 else None, need_resched := need_resched (tasks booted t)\<rparr>"
  proof cases
    case 1
    then show ?thesis by (simp add: booted) (subst s1(1), simp, subst s0(2), simp add: boot_kst_def INIT_TASK_def)
  next
    case 2
    then show ?thesis by (simp add: booted del: One_nat_def)
      (subst s1(2), subst s0(1), simp, simp add: boot_kst_def INIT_TASK_def)
  next
    case 3
    then show ?thesis by (simp add: booted)
      (subst s1(1), simp, subst s0(1), simp, simp add: boot_kst_def INIT_TASK_def)
  qed
qed

lemma booted_sel:
  "state (tasks booted t) = TASK_RUNNING" "magic_time (tasks booted t) = 0" "active_mm (tasks booted t) = Some 0"
  "prio (tasks booted t) = (if t = 1 then 110 else 120)" "started_magic (tasks booted t) = 0"
  "array (tasks booted t) = (if t < 2 then Some 0 else None)" "pid (tasks booted t) = int t"
  by (subst booted_facts(9), simp add: boot_kst_def INIT_TASK_def)+

section \<open>The timer tick\<close>

text \<open>What the magic code of the scheduler looks at.\<close>

definition mview :: "kst \<Rightarrow> task \<times> task \<times> task option \<times> int \<times> int \<times> u32 \<times> u32" where
  "mview st = (cur st, rq_idle (rq st), magicProcess st, idle_from_magic st, magic_sleep_flag st,
     global_magic_call_time st, MAGICTIME st)"

definition tview :: "task_struct \<Rightarrow> u32 \<times> int \<times> u32 \<times> u32 \<times> nat option \<times> nat option" where
  "tview t = (state t, started_magic t, magic_time t, magic_call_time t, mm t, active_mm t)"

definition same_magic :: "kst \<Rightarrow> kst \<Rightarrow> bool" where
  "same_magic st st' = (mview st' = mview st \<and> (\<forall>t. tview (tasks st' t) = tview (tasks st t)))"

lemma same_magic_refl [simp]: "same_magic st st"
  by (simp add: same_magic_def)

lemma same_magic_trans: "same_magic st st1 \<Longrightarrow> same_magic st1 st2 \<Longrightarrow> same_magic st st2"
  by (simp add: same_magic_def)

lemma same_magicI:
  assumes "only_queues st st'" "\<And>t. tview (tasks st' t) = tview (tasks st t)"
  shows "same_magic st st'"
  using assms by (auto simp: same_magic_def mview_def only_queues_def)

lemma same_magic_upd:
  "(\<And>t. tview (f t) = tview t) \<Longrightarrow> same_magic st (upd_task p f st)"
  by (simp add: same_magic_def mview_def)

text \<open>A round-robin real-time task that used up its slice goes to the tail of its queue.\<close>

lemma tick_rt_refines:
  assumes inv: "rq_inv st Q" and p: "p \<in> set (Q (active (rq st)) i)" "i < 140"
  shows "\<exists>st'. tick_rt p st = Some st' \<and>
    rq_inv st' (if policy (tasks st p) = SCHED_RR \<and> time_slice (tasks st p) = 1
      then abs_enqueue p (active (rq st)) i (abs_dequeue p (active (rq st)) i Q) else Q) \<and>
    same_magic st st' \<and> active (rq st') = active (rq st) \<and>
    (\<forall>q. prio (tasks st' q) = prio (tasks st q) \<and> array (tasks st' q) = array (tasks st q)) \<and>
    (policy (tasks st p) = SCHED_RR \<and> time_slice (tasks st p) = 1 \<longrightarrow>
      time_slice (tasks st' p) = of_int (TASK_TIMESLICE (tasks st p)) \<and> need_resched (tasks st' p) = 1)"
proof -
  let ?a = "active (rq st)"
  consider (no) "policy (tasks st p) \<noteq> SCHED_RR" | (dec) "policy (tasks st p) = SCHED_RR" "time_slice (tasks st p) - 1 \<noteq> 0"
    | (exp) "policy (tasks st p) = SCHED_RR" "time_slice (tasks st p) - 1 = 0" by blast
  then show ?thesis
  proof cases
    case no
    then show ?thesis using inv by (simp add: tick_rt_def)
  next
    case dec
    let ?s = "upd_task p (\<lambda>t. t\<lparr>time_slice := time_slice t - 1\<rparr>) st"
    have "tick_rt p st = Some ?s" using dec by (simp add: tick_rt_def)
    moreover have "rq_inv ?s Q" by (rule rq_inv_upd_same [OF inv]) simp_all
    moreover have "same_magic st ?s" by (rule same_magic_upd) (simp add: tview_def)
    ultimately show ?thesis using dec by auto
  next
    case exp
    let ?f = "\<lambda>t. t\<lparr>time_slice := of_int (TASK_TIMESLICE t), first_time_slice := 0, need_resched := 1\<rparr>"
    let ?s = "upd_task p ?f st"
    have i0: "rq_inv ?s Q" by (rule rq_inv_upd_same [OF inv]) simp_all
    have m0: "same_magic st ?s" by (rule same_magic_upd) (simp add: tview_def)
    obtain s1 s2 where s: "dequeue_task p (Some ?a) ?s = Some s1" "enqueue_task p (Some ?a) s1 = Some s2"
      "rq_inv s2 (abs_enqueue p ?a i (abs_dequeue p ?a i Q))" "only_queues ?s s2" "tasks s2 = tasks ?s"
      using pa.rotate [OF i0 p(1) rq_invD(4) [OF inv] p(2)] by blast
    have a1: "active (rq s1) = ?a" "active (rq s2) = ?a"
      using dequeue_task_frame(2) [OF s(1)] s(4) by (simp_all add: only_queues_def)
    have "same_magic st s2" using same_magic_trans [OF m0 same_magicI [OF s(4)]] s(5) by simp
    moreover have u: "upd_task p (\<lambda>t. t\<lparr>need_resched := 1\<rparr>) (upd_task p (\<lambda>t. t\<lparr>time_slice := of_int (TASK_TIMESLICE t), first_time_slice := 0\<rparr>)
       (upd_task p (\<lambda>t. t\<lparr>time_slice := time_slice t - 1\<rparr>) st)) = ?s"
      by (simp add: upd_task_def TASK_TIMESLICE_def)
    have "tick_rt p st = Some s2"
      using exp s(1,2) a1(1) by (simp add: tick_rt_def set_tsk_need_resched_def u)
    ultimately show ?thesis using exp s(3,5) a1(2) by (auto simp: TASK_TIMESLICE_def)
  qed
qed

text \<open>
  An ordinary task that used up its slice goes to the tail of the queue of its new priority: of the
  expired array, unless it is interactive and the expired tasks are not starving.
\<close>

definition wind_down :: "task_struct \<Rightarrow> task_struct" where
  "wind_down t = (let t = (if sleep_avg t \<noteq> 0 then t\<lparr>sleep_avg := sleep_avg t - 1\<rparr> else t) in
     t\<lparr>need_resched := 1, prio := effective_prio t, first_time_slice := 0, time_slice := of_int (TASK_TIMESLICE t)\<rparr>)"

definition tick_dest :: "task \<Rightarrow> kst \<Rightarrow> nat" where
  "tick_dest p st = (let t = wind_down (tasks st p) in
     if \<not> TASK_INTERACTIVE t \<or> EXPIRED_STARVING st then expired (rq st) else active (rq st))"


lemma wind_down_prio: "0 \<le> prio (wind_down t) \<and> prio (wind_down t) < 140"
  using effective_prio_range by (auto simp: wind_down_def Let_def) (smt (verit))+

lemma tview_wind_down [simp]: "tview (wind_down t) = tview t" "tview (t\<lparr>array := a\<rparr>) = tview t"
  by (simp_all add: wind_down_def tview_def Let_def)

lemma tick_other_refines:
  assumes inv: "rq_inv st Q" and p: "p \<in> set (Q (active (rq st)) i)" "i < 140"
  defines "j \<equiv> nat (prio (wind_down (tasks st p)))" and "d \<equiv> tick_dest p st"
  shows "\<exists>st'. tick_other p st = Some st' \<and> same_magic st st' \<and> (\<forall>q. q \<noteq> p \<longrightarrow> tasks st' q = tasks st q) \<and>
    (if time_slice (tasks st p) = 1
     then rq_inv st' (abs_enqueue p d j (abs_dequeue p (active (rq st)) i Q)) \<and>
       tasks st' p = (wind_down (tasks st p))\<lparr>array := Some d\<rparr>
     else rq_inv st' Q \<and> time_slice (tasks st' p) = time_slice (tasks st p) - 1 \<and>
       prio (tasks st' p) = prio (tasks st p) \<and> array (tasks st' p) = array (tasks st p))"
proof -
  let ?a = "active (rq st)"
  define g where "g = (\<lambda>t :: task_struct. (if sleep_avg t \<noteq> 0 then t\<lparr>sleep_avg := sleep_avg t - 1\<rparr> else t)\<lparr>time_slice := time_slice t - 1\<rparr>)"
  let ?s = "upd_task p g st"
  have s: "upd_task p (\<lambda>t. t\<lparr>time_slice := time_slice t - 1\<rparr>) (if sleep_avg (tasks st p) \<noteq> 0
      then upd_task p (\<lambda>t. t\<lparr>sleep_avg := sleep_avg t - 1\<rparr>) st else st) = ?s"
    by (simp add: upd_task_def g_def)
  have i0: "rq_inv ?s Q" by (rule rq_inv_upd_same [OF inv]) (simp_all add: g_def)
  have m0: "same_magic st ?s" by (rule same_magic_upd) (simp add: tview_def g_def)
  show ?thesis
  proof (cases "time_slice (tasks st p) = 1")
    case False
    then have "tick_other p st = Some ?s" by (simp add: tick_other_def s Let_def g_def)
    with False i0 m0 show ?thesis by (simp add: g_def)
  next
    case True
    obtain s1 where s1: "dequeue_task p (Some ?a) ?s = Some s1" "rq_inv_off p s1 (abs_dequeue p ?a i Q)"
      "tasks s1 = tasks ?s" "only_queues ?s s1"
      using rq_inv_dequeue [OF i0 p(1) rq_invD(4) [OF inv] p(2)] by blast
    have f: "rq_curr (rq s1) = rq_curr (rq st)" "active (rq s1) = ?a" "expired (rq s1) = expired (rq st)" "jiffies s1 = jiffies st"
      "nr_running (rq s1) = nr_running (rq st)" "expired_timestamp (rq s1) = expired_timestamp (rq st)"
      using s1(4) by (simp_all add: only_queues_def)
    define s2 where "s2 = upd_task p wind_down (upd_task p (\<lambda>_. tasks st p) s1)"
    have s2: "upd_task p (\<lambda>t. t\<lparr>first_time_slice := 0, time_slice := of_int (TASK_TIMESLICE t)\<rparr>)
      (upd_task p (\<lambda>t. t\<lparr>prio := effective_prio t\<rparr>) (set_tsk_need_resched p s1)) = s2"
      using s1(3) by (simp add: s2_def upd_task_def set_tsk_need_resched_def wind_down_def g_def Let_def
          TASK_TIMESLICE_def effective_prio_def bonus_def)
    have t2: "tasks s2 = (tasks st)(p := wind_down (tasks st p))" using s1(3) by (simp add: s2_def)
    have o2: "rq_inv_off p s2 (abs_dequeue p ?a i Q)" unfolding s2_def by (intro rq_inv_off_upd s1(2))
    have es: "EXPIRED_STARVING s2 = EXPIRED_STARVING st" by (simp add: EXPIRED_STARVING_def s2_def f)
    define s3 where "s3 = (if d = expired (rq st) \<and> (\<not> TASK_INTERACTIVE (wind_down (tasks st p)) \<or> EXPIRED_STARVING st) \<and> expired_timestamp (rq st) = 0
      then upd_rq (\<lambda>r. r\<lparr>expired_timestamp := jiffies st\<rparr>) s2 else s2)"
    have t3: "tasks s3 = tasks s2" by (simp add: s3_def)
    have m3: "mview s3 = mview st" using s1(4) by (simp add: s3_def s2_def mview_def only_queues_def)
    have o3: "rq_inv_off p s3 (abs_dequeue p ?a i Q)" using o2 rq_inv_off_timestamp by (simp add: s3_def)
    have d2: "d < 2" using rq_invD(4,5) [OF inv] by (simp add: d_def tick_dest_def)
    have j: "prio (tasks s3 p) = int j" "j < 140"
      using wind_down_prio [of "tasks st p"] by (auto simp: t3 t2 j_def)
    obtain s4 where s4: "enqueue_task p (Some d) s3 = Some s4" "rq_inv s4 (abs_enqueue p d j (abs_dequeue p ?a i Q))"
      "tasks s4 = (tasks s3)(p := (tasks s3 p)\<lparr>array := Some d\<rparr>)" "only_queues s3 s4"
      using rq_inv_off_enqueue [OF o3 j d2] by blast
    have m4: "mview s4 = mview st" using m3 s4(4) by (simp add: mview_def only_queues_def)
    have fs2: "active (rq s2) = ?a" "expired (rq s2) = expired (rq st)" "jiffies s2 = jiffies st"
      "expired_timestamp (rq s2) = expired_timestamp (rq st)"
      by (simp_all add: s2_def f)
    have ts: "time_slice (tasks ?s p) = 0" using True by (simp add: g_def)
    have "tick_other p st = Some s4"
      unfolding tick_other_def Let_def s
      apply (simp only: ts refl if_True rq_upd(1) s1(1) Option.bind.bind_lunit s2)
      using s4(1) by (auto simp: fs2 es t2 d_def tick_dest_def s3_def f set_tsk_need_resched_def)
    moreover have "same_magic st s4" using m4 by (simp add: same_magic_def s4(3) t3 t2)
    ultimately show ?thesis using True s4(2) by (simp add: s4(3) t3 t2)
  qed
qed

section \<open>Properties\<close>

text \<open>
  C2. Without a magic process, \<open>schedule()\<close> called outside interrupts returns: the caller leaves its
  queue if it goes to sleep, the processor is given to the first task of the best non-empty queue
  of the active array (of the expired one if the active is empty, to the idle task if both are),
  and the invariant of the runqueue holds for the queues that remain.
\<close>
theorem schedule_picks_best:
  assumes "rq_inv st Q" "magicProcess st = None" "magic_time (tsk st) = 0"
    and "\<not> stays (tsk st) \<Longrightarrow> cur st \<in> set (Q a i) \<and> a < 2 \<and> i < 140"
    and "array_len (left_queue st a i Q) 0 + array_len (left_queue st a i Q) 1 < 2 ^ 32"
    and "active_mm (tsk st) \<noteq> None"
    and irq: "local_irq_count st = 0" "local_bh_count st = 0"
    and nr: "\<forall>p. p \<noteq> cur st \<longrightarrow> need_resched (tasks st p) = 0"
  shows "\<exists>st'. schedule st = Some st' \<and> cur st' = abs_pick st (left_queue st a i Q) \<and>
    rq_inv st' (left_queue st a i Q) \<and> need_resched (tsk st') = 0"
proof -
  obtain st' where st': "schedule_pass st = Some st'" "cur st' = abs_pick st (left_queue st a i Q)"
    "rq_inv st' (left_queue st a i Q)" "need_resched (tsk st') = 0"
    using schedule_pass_refines [OF assms(1-6)] nr by auto
  have "schedule_loop st = Some st'" by (subst schedule_loop.simps) (simp add: st'(1,4))
  with st' irq show ?thesis by (auto simp: schedule_def)
qed

theorem schedule_picks_best_witness:
  "\<exists>st'. schedule (booted\<lparr>local_irq_count := 0, local_bh_count := 0\<rparr>) = Some st' \<and> cur st' = 1"
proof -
  let ?st = "booted\<lparr>local_irq_count := 0, local_bh_count := 0\<rparr>"
  have s: "stays (tsk ?st)" "magic_time (tsk ?st) = 0" "active_mm (tsk ?st) \<noteq> None"
    by (simp_all add: booted_sel stays_def)
  have l: "left_queue ?st 0 0 booted_queues = booted_queues" using s(1) by (simp add: left_queue_def)
  have n: "array_len booted_queues 0 + array_len booted_queues 1 < 2 ^ 32"
    by (simp add: array_len_enqueue) (simp add: array_len_def)
  have "abs_pick ?st booted_queues = 1"
    using best_eq [of 110 booted_queues 0] by (simp add: abs_pick_def booted_facts(1-8) abs_enqueue_def)
  with schedule_picks_best [of ?st booted_queues 0 0] s n l show ?thesis
    by (auto simp: booted_facts(1-8,11) simp del: One_nat_def)
qed
end
