(* ===== verification/Cstring.thy ===== *)
theory Cstring
  imports Prelude
begin

text \<open>
  The string and memory routines of \<open>lib/string.c\<close> on a flat memory of bytes. A read or write of an
  unmapped address does not return (\<open>None\<close>); so does a loop that never meets its end. The i386 build
  replaces many of these routines by inline assembly with the same contract; the C text is the
  reference. \<open>NULL\<close> is the address 0, \<open>char\<close> is signed, \<open>size_t\<close> and pointers have 32 bits.

  \<open>cstr m a s\<close> says that at \<open>a\<close> there is the string \<open>s\<close> and its terminating zero; the lemmas
  state what each routine does on strings and regions, its frame included.
\<close>

section \<open>Memory\<close>

definition store :: "addr \<Rightarrow> byte \<Rightarrow> mem \<Rightarrow> mem option" where
  "store a b m = (if m a = None then None else Some (m(a \<mapsto> b)))"

section \<open>Operations\<close>

text \<open>\<open>isupper\<close> and \<open>__tolower\<close> of \<open>include/linux/ctype.h\<close> with the table of \<open>lib/ctype.c\<close>.\<close>
definition isupper :: "byte \<Rightarrow> bool" where
  "isupper c = (let n = unat c in
     (65 \<le> n \<and> n \<le> 90) \<or> (192 \<le> n \<and> n \<le> 214) \<or> (216 \<le> n \<and> n \<le> 222))"

definition tolower :: "byte \<Rightarrow> byte" where
  "tolower c = (if isupper c then c - (65 - 97) else c)"

text \<open>The loop of \<open>strnicmp\<close> for a positive number of characters; it returns the last two read.\<close>
fun strnicmp_loop :: "nat \<Rightarrow> addr \<Rightarrow> addr \<Rightarrow> mem \<Rightarrow> (byte \<times> byte) option" where
  "strnicmp_loop 0 s1 s2 m = Some (0, 0)"
| "strnicmp_loop (Suc n) s1 s2 m = do {
     c1 \<leftarrow> m s1; c2 \<leftarrow> m s2;
     if c1 = 0 \<or> c2 = 0 then Some (c1, c2)
     else if c1 = c2 then (if n = 0 then Some (c1, c2) else strnicmp_loop n (s1 + 1) (s2 + 1) m)
     else do {
       let c1 = tolower c1; let c2 = tolower c2;
       if c1 \<noteq> c2 \<or> n = 0 then Some (c1, c2) else strnicmp_loop n (s1 + 1) (s2 + 1) m } }"

definition strnicmp :: "addr \<Rightarrow> addr \<Rightarrow> u32 \<Rightarrow> mem \<Rightarrow> int option" where
  "strnicmp s1 s2 len m = do {
     (c1, c2) \<leftarrow> strnicmp_loop (unat len) s1 s2 m;
     Some (uint c1 - uint c2) }"

partial_function (option) strcpy_loop :: "addr \<Rightarrow> addr \<Rightarrow> mem \<Rightarrow> mem option" where
  "strcpy_loop dest src m = do {
     c \<leftarrow> m src;
     m \<leftarrow> store dest c m;
     if c = 0 then Some m else strcpy_loop (dest + 1) (src + 1) m }"

definition strcpy :: "addr \<Rightarrow> addr \<Rightarrow> mem \<Rightarrow> (addr \<times> mem) option" where
  "strcpy dest src m = do { m \<leftarrow> strcpy_loop dest src m; Some (dest, m) }"

fun strncpy_loop :: "nat \<Rightarrow> addr \<Rightarrow> addr \<Rightarrow> mem \<Rightarrow> mem option" where
  "strncpy_loop 0 dest src m = Some m"
| "strncpy_loop (Suc n) dest src m = do {
     c \<leftarrow> m src;
     m \<leftarrow> store dest c m;
     if c = 0 then Some m else strncpy_loop n (dest + 1) (src + 1) m }"

definition strncpy :: "addr \<Rightarrow> addr \<Rightarrow> u32 \<Rightarrow> mem \<Rightarrow> (addr \<times> mem) option" where
  "strncpy dest src count m = do { m \<leftarrow> strncpy_loop (unat count) dest src m; Some (dest, m) }"

text \<open>The address of the terminating zero.\<close>
partial_function (option) str_end :: "addr \<Rightarrow> mem \<Rightarrow> addr option" where
  "str_end sc m = do { c \<leftarrow> m sc; if c = 0 then Some sc else str_end (sc + 1) m }"

definition strcat :: "addr \<Rightarrow> addr \<Rightarrow> mem \<Rightarrow> (addr \<times> mem) option" where
  "strcat dest src m = do {
     e \<leftarrow> str_end dest m;
     m \<leftarrow> strcpy_loop e src m;
     Some (dest, m) }"

fun strncat_loop :: "nat \<Rightarrow> addr \<Rightarrow> addr \<Rightarrow> mem \<Rightarrow> mem option" where
  "strncat_loop 0 dest src m = Some m"
| "strncat_loop (Suc n) dest src m = do {
     c \<leftarrow> m src;
     m \<leftarrow> store dest c m;
     if c = 0 then Some m
     else if n = 0 then store (dest + 1) 0 m
     else strncat_loop n (dest + 1) (src + 1) m }"

definition strncat :: "addr \<Rightarrow> addr \<Rightarrow> u32 \<Rightarrow> mem \<Rightarrow> (addr \<times> mem) option" where
  "strncat dest src count m =
     (if count \<noteq> 0 then do {
        e \<leftarrow> str_end dest m;
        m \<leftarrow> strncat_loop (unat count) e src m;
        Some (dest, m) }
      else Some (dest, m))"

text \<open>The difference of two characters is kept in a \<open>signed char\<close>.\<close>
partial_function (option) strcmp :: "addr \<Rightarrow> addr \<Rightarrow> mem \<Rightarrow> int option" where
  "strcmp cs ct m = do {
     a \<leftarrow> m cs; b \<leftarrow> m ct;
     if a - b \<noteq> 0 \<or> a = 0 then Some (sint (a - b)) else strcmp (cs + 1) (ct + 1) m }"

fun strncmp_loop :: "nat \<Rightarrow> addr \<Rightarrow> addr \<Rightarrow> mem \<Rightarrow> int option" where
  "strncmp_loop 0 cs ct m = Some 0"
| "strncmp_loop (Suc n) cs ct m = do {
     a \<leftarrow> m cs; b \<leftarrow> m ct;
     if a - b \<noteq> 0 \<or> a = 0 then Some (sint (a - b)) else strncmp_loop n (cs + 1) (ct + 1) m }"

definition strncmp :: "addr \<Rightarrow> addr \<Rightarrow> u32 \<Rightarrow> mem \<Rightarrow> int option" where
  "strncmp cs ct count m = strncmp_loop (unat count) cs ct m"

partial_function (option) strchr_loop :: "byte \<Rightarrow> addr \<Rightarrow> mem \<Rightarrow> addr option" where
  "strchr_loop c s m = do {
     x \<leftarrow> m s;
     if x = c then Some s else if x = 0 then Some 0 else strchr_loop c (s + 1) m }"

definition strchr :: "addr \<Rightarrow> u32 \<Rightarrow> mem \<Rightarrow> addr option" where
  "strchr s c m = strchr_loop (ucast c) s m"

definition strlen :: "addr \<Rightarrow> mem \<Rightarrow> u32 option" where
  "strlen s m = do { sc \<leftarrow> str_end s m; Some (sc - s) }"

partial_function (option) strrchr_loop :: "byte \<Rightarrow> addr \<Rightarrow> addr \<Rightarrow> mem \<Rightarrow> addr option" where
  "strrchr_loop c s p m = do {
     x \<leftarrow> m p;
     if x = c then Some p else if p - 1 \<ge> s then strrchr_loop c s (p - 1) m else Some 0 }"

definition strrchr :: "addr \<Rightarrow> u32 \<Rightarrow> mem \<Rightarrow> addr option" where
  "strrchr s c m = do { n \<leftarrow> strlen s m; strrchr_loop (ucast c) s (s + n) m }"

fun strnlen_loop :: "nat \<Rightarrow> addr \<Rightarrow> mem \<Rightarrow> addr option" where
  "strnlen_loop 0 sc m = Some sc"
| "strnlen_loop (Suc n) sc m = do { c \<leftarrow> m sc; if c = 0 then Some sc else strnlen_loop n (sc + 1) m }"

definition strnlen :: "addr \<Rightarrow> u32 \<Rightarrow> mem \<Rightarrow> u32 option" where
  "strnlen s count m = do { sc \<leftarrow> strnlen_loop (unat count) s m; Some (sc - s) }"

text \<open>The inner loops of \<open>strspn\<close> and \<open>strpbrk\<close>: is the character one of the string?\<close>
partial_function (option) among :: "byte \<Rightarrow> addr \<Rightarrow> mem \<Rightarrow> bool option" where
  "among c a m = do {
     x \<leftarrow> m a;
     if x = 0 then Some False else if c = x then Some True else among c (a + 1) m }"

partial_function (option) strspn_loop :: "addr \<Rightarrow> addr \<Rightarrow> u32 \<Rightarrow> mem \<Rightarrow> u32 option" where
  "strspn_loop p acc count m = do {
     c \<leftarrow> m p;
     if c = 0 then Some count
     else do {
       found \<leftarrow> among c acc m;
       if found then strspn_loop (p + 1) acc (count + 1) m else Some count } }"

definition strspn :: "addr \<Rightarrow> addr \<Rightarrow> mem \<Rightarrow> u32 option" where
  "strspn s acc m = strspn_loop s acc 0 m"

partial_function (option) strpbrk :: "addr \<Rightarrow> addr \<Rightarrow> mem \<Rightarrow> addr option" where
  "strpbrk cs ct m = do {
     c \<leftarrow> m cs;
     if c = 0 then Some 0
     else do {
       found \<leftarrow> among c ct m;
       if found then Some cs else strpbrk (cs + 1) ct m } }"

text \<open>The static variable \<open>___strtok\<close> is an argument and a result.\<close>
definition strtok :: "addr \<Rightarrow> addr \<Rightarrow> addr \<Rightarrow> mem \<Rightarrow> (addr \<times> addr \<times> mem) option" where
  "strtok s ct tok m = do {
     let sbegin = (if s \<noteq> 0 then s else tok);
     if sbegin = 0 then Some (0, tok, m)
     else do {
       n \<leftarrow> strspn sbegin ct m;
       let sbegin = sbegin + n;
       c \<leftarrow> m sbegin;
       if c = 0 then Some (0, 0, m)
       else do {
         send \<leftarrow> strpbrk sbegin ct m;
         if send \<noteq> 0 then do {
           e \<leftarrow> m send;
           if e \<noteq> 0 then do { m \<leftarrow> store send 0 m; Some (sbegin, send + 1, m) }
           else Some (sbegin, send, m) }
         else Some (sbegin, send, m) } } }"

text \<open>\<open>*s\<close> is an argument and a result.\<close>
definition strsep :: "addr \<Rightarrow> addr \<Rightarrow> mem \<Rightarrow> (addr \<times> addr \<times> mem) option" where
  "strsep sbegin ct m =
     (if sbegin = 0 then Some (0, 0, m)
      else do {
        e \<leftarrow> strpbrk sbegin ct m;
        if e \<noteq> 0 then do { m \<leftarrow> store e 0 m; Some (sbegin, e + 1, m) }
        else Some (sbegin, 0, m) })"

fun memset_loop :: "nat \<Rightarrow> addr \<Rightarrow> byte \<Rightarrow> mem \<Rightarrow> mem option" where
  "memset_loop 0 xs c m = Some m"
| "memset_loop (Suc n) xs c m = do { m \<leftarrow> store xs c m; memset_loop n (xs + 1) c m }"

definition memset :: "addr \<Rightarrow> u32 \<Rightarrow> u32 \<Rightarrow> mem \<Rightarrow> (addr \<times> mem) option" where
  "memset s c count m = do { m \<leftarrow> memset_loop (unat count) s (ucast c) m; Some (s, m) }"

fun copy_up :: "nat \<Rightarrow> addr \<Rightarrow> addr \<Rightarrow> mem \<Rightarrow> mem option" where
  "copy_up 0 tmp s m = Some m"
| "copy_up (Suc n) tmp s m = do { c \<leftarrow> m s; m \<leftarrow> store tmp c m; copy_up n (tmp + 1) (s + 1) m }"

fun copy_down :: "nat \<Rightarrow> addr \<Rightarrow> addr \<Rightarrow> mem \<Rightarrow> mem option" where
  "copy_down 0 tmp s m = Some m"
| "copy_down (Suc n) tmp s m = do { c \<leftarrow> m (s - 1); m \<leftarrow> store (tmp - 1) c m; copy_down n (tmp - 1) (s - 1) m }"

definition bcopy :: "addr \<Rightarrow> addr \<Rightarrow> u32 \<Rightarrow> mem \<Rightarrow> (addr \<times> mem) option" where
  "bcopy src dest count m = do { m \<leftarrow> copy_up (unat count) dest src m; Some (dest, m) }"

definition memcpy :: "addr \<Rightarrow> addr \<Rightarrow> u32 \<Rightarrow> mem \<Rightarrow> (addr \<times> mem) option" where
  "memcpy dest src count m = do { m \<leftarrow> copy_up (unat count) dest src m; Some (dest, m) }"

definition memmove :: "addr \<Rightarrow> addr \<Rightarrow> u32 \<Rightarrow> mem \<Rightarrow> (addr \<times> mem) option" where
  "memmove dest src count m = do {
     m \<leftarrow> (if dest \<le> src then copy_up (unat count) dest src m
           else copy_down (unat count) (dest + count) (src + count) m);
     Some (dest, m) }"

fun memcmp_loop :: "nat \<Rightarrow> addr \<Rightarrow> addr \<Rightarrow> mem \<Rightarrow> int option" where
  "memcmp_loop 0 su1 su2 m = Some 0"
| "memcmp_loop (Suc n) su1 su2 m = do {
     a \<leftarrow> m su1; b \<leftarrow> m su2;
     let res = uint a - uint b;
     if res \<noteq> 0 then Some res else memcmp_loop n (su1 + 1) (su2 + 1) m }"

definition memcmp :: "addr \<Rightarrow> addr \<Rightarrow> u32 \<Rightarrow> mem \<Rightarrow> int option" where
  "memcmp cs ct count m = memcmp_loop (unat count) cs ct m"

text \<open>The character is an \<open>int\<close> compared with an \<open>unsigned char\<close>.\<close>
fun memscan_loop :: "nat \<Rightarrow> addr \<Rightarrow> u32 \<Rightarrow> mem \<Rightarrow> addr option" where
  "memscan_loop 0 p c m = Some p"
| "memscan_loop (Suc n) p c m = do { x \<leftarrow> m p; if ucast x = c then Some p else memscan_loop n (p + 1) c m }"

definition memscan :: "addr \<Rightarrow> u32 \<Rightarrow> u32 \<Rightarrow> mem \<Rightarrow> addr option" where
  "memscan a c sz m = memscan_loop (unat sz) a c m"

partial_function (option) strstr_loop :: "u32 \<Rightarrow> u32 \<Rightarrow> addr \<Rightarrow> addr \<Rightarrow> mem \<Rightarrow> addr option" where
  "strstr_loop l1 l2 s1 s2 m =
     (if sint l1 \<ge> sint l2 then do {
        r \<leftarrow> memcmp s1 s2 l2 m;
        if r = 0 then Some s1 else strstr_loop (l1 - 1) l2 (s1 + 1) s2 m }
      else Some 0)"

definition strstr :: "addr \<Rightarrow> addr \<Rightarrow> mem \<Rightarrow> addr option" where
  "strstr s1 s2 m = do {
     l2 \<leftarrow> strlen s2 m;
     if l2 = 0 then Some s1
     else do { l1 \<leftarrow> strlen s1 m; strstr_loop l1 l2 s1 s2 m } }"

fun memchr_loop :: "nat \<Rightarrow> addr \<Rightarrow> byte \<Rightarrow> mem \<Rightarrow> addr option" where
  "memchr_loop 0 p c m = Some 0"
| "memchr_loop (Suc n) p c m = do { x \<leftarrow> m p; if c = x then Some p else memchr_loop n (p + 1) c m }"

definition memchr :: "addr \<Rightarrow> u32 \<Rightarrow> u32 \<Rightarrow> mem \<Rightarrow> addr option" where
  "memchr s c n m = memchr_loop (unat n) s (ucast c) m"

section \<open>Strings and regions\<close>

primrec bytes_at :: "mem \<Rightarrow> addr \<Rightarrow> byte list \<Rightarrow> bool" where
  "bytes_at m a [] = True"
| "bytes_at m a (b # bs) = (m a = Some b \<and> bytes_at m (a + 1) bs)"

definition cstr :: "mem \<Rightarrow> addr \<Rightarrow> byte list \<Rightarrow> bool" where
  "cstr m a s = (bytes_at m a (s @ [0]) \<and> 0 \<notin> set s)"

definition region :: "addr \<Rightarrow> nat \<Rightarrow> addr set" where
  "region a n = (\<lambda>i. a + of_nat i) ` {..<n}"

definition mapped :: "mem \<Rightarrow> addr \<Rightarrow> nat \<Rightarrow> bool" where
  "mapped m a n = (\<forall>i<n. m (a + of_nat i) \<noteq> None)"

lemma region_Suc: "region a (Suc n) = insert a (region (a + 1) n)"
proof -
  have "{..<Suc n} = insert 0 (Suc ` {..<n})" using less_Suc_eq_0_disj by auto
  then show ?thesis by (simp add: region_def image_image add.assoc)
qed

lemma region_0 [simp]: "region a 0 = {}"
  by (simp add: region_def)

lemma not_in_tail: "Suc n \<le> 2 ^ 32 \<Longrightarrow> a \<notin> region (a + 1) n"
proof
  assume n: "Suc n \<le> 2 ^ 32" and "a \<in> region (a + 1) n"
  then obtain i where i: "i < n" "of_nat (Suc i) = (0 :: u32)" by (auto simp: region_def add.assoc)
  then show False using of_nat_u32_eq_0 [of "Suc i"] n by simp
qed

lemma mapped_Suc: "mapped m a (Suc n) = (m a \<noteq> None \<and> mapped m (a + 1) n)"
proof -
  have "(\<forall>i<Suc n. P i) = (P 0 \<and> (\<forall>i<n. P (Suc i)))" for P using less_Suc_eq_0_disj by auto
  then show ?thesis by (simp add: mapped_def add.assoc)
qed

lemma mapped_upd: "mapped m a n \<Longrightarrow> mapped (m(x \<mapsto> b)) a n"
  by (simp add: mapped_def)

lemma store_mapped: "m a \<noteq> None \<Longrightarrow> store a b m = Some (m(a \<mapsto> b))"
  by (simp add: store_def)

lemma bytes_at_cong: "(\<And>x. x \<in> region a (length bs) \<Longrightarrow> m' x = m x) \<Longrightarrow> bytes_at m' a bs = bytes_at m a bs"
  by (induction bs arbitrary: a) (auto simp: region_Suc)

lemma bytes_at_mapped: "bytes_at m a bs \<Longrightarrow> mapped m a (length bs)"
  by (induction bs arbitrary: a) (auto simp: mapped_Suc, simp add: mapped_def)

lemma bytes_at_unique: "bytes_at m a xs \<Longrightarrow> bytes_at m a ys \<Longrightarrow> length xs = length ys \<Longrightarrow> xs = ys"
  by (induction xs arbitrary: a ys) (case_tac [!] ys, auto)

lemma cstr_simps [simp]:
  "cstr m a [] = (m a = Some 0)"
  "cstr m a (c # s) = (m a = Some c \<and> c \<noteq> 0 \<and> cstr m (a + 1) s)"
  by (auto simp: cstr_def)

lemma cstr_cong: "cstr m a s \<Longrightarrow> (\<And>x. x \<in> region a (Suc (length s)) \<Longrightarrow> m' x = m x) \<Longrightarrow> cstr m' a s"
  using bytes_at_cong [of a "s @ [0]" m' m] by (simp add: cstr_def)

lemma cstr_mapped: "cstr m a s \<Longrightarrow> mapped m a (Suc (length s))"
  using bytes_at_mapped [of m a "s @ [0]"] by (simp add: cstr_def)

lemma cstr_unique: "cstr m a s \<Longrightarrow> cstr m a t \<Longrightarrow> s = t"
  by (induction s arbitrary: a t) (case_tac [!] t, auto)

section \<open>What the routines do\<close>

lemma str_end_cstr: "cstr m a s \<Longrightarrow> str_end a m = Some (a + of_nat (length s))"
  by (induction s arbitrary: a) (subst str_end.simps, simp add: add.assoc)+

lemma strlen_cstr: "cstr m a s \<Longrightarrow> strlen a m = Some (of_nat (length s))"
  by (simp add: strlen_def str_end_cstr)

lemma strcpy_loop_cstr:
  assumes "cstr m src s" "mapped m dest (Suc (length s))" "Suc (length s) \<le> 2 ^ 32"
    "region dest (Suc (length s)) \<inter> region src (Suc (length s)) = {}"
  shows "\<exists>m'. strcpy_loop dest src m = Some m' \<and> cstr m' dest s \<and>
    (\<forall>x. x \<notin> region dest (Suc (length s)) \<longrightarrow> m' x = m x) \<and> dom m' = dom m"
  using assms
proof (induction s arbitrary: dest src m)
  case Nil
  then show ?case
    by (subst strcpy_loop.simps) (auto simp: store_mapped mapped_Suc region_Suc)
next
  case (Cons c s)
  let ?m = "m(dest \<mapsto> c)" and ?n = "Suc (length s)"
  have d: "dest \<notin> region (src + 1) ?n" "dest \<notin> region (dest + 1) ?n"
    using Cons.prems(4) not_in_tail [of ?n dest] Cons.prems(3) by (auto simp: region_Suc)
  have c1: "cstr ?m (src + 1) s"
    by (rule cstr_cong [of m]) (use Cons.prems(1) d(1) in \<open>auto simp: region_Suc\<close>)
  have m1: "mapped ?m (dest + 1) ?n" using Cons.prems(2) by (simp add: mapped_Suc mapped_upd)
  have d1: "region (dest + 1) ?n \<inter> region (src + 1) ?n = {}" using Cons.prems(4) by (auto simp: region_Suc)
  have l1: "?n \<le> 2 ^ 32" using Cons.prems(3) by simp
  obtain m' where m': "strcpy_loop (dest + 1) (src + 1) ?m = Some m'" "cstr m' (dest + 1) s"
    "\<forall>x. x \<notin> region (dest + 1) ?n \<longrightarrow> m' x = ?m x" "dom m' = dom ?m"
    using Cons.IH [OF c1 m1 l1 d1] by blast
  have "strcpy_loop dest src m = Some m'"
    using Cons.prems(1,2) m'(1) by (subst strcpy_loop.simps) (simp add: store_mapped mapped_Suc)
  moreover have "cstr m' dest (c # s)" using Cons.prems(1) m'(2,3) d(2) by simp
  moreover have "\<forall>x. x \<notin> region dest (Suc ?n) \<longrightarrow> m' x = m x" using m'(3) by (simp add: region_Suc)
  moreover have "dom m' = dom m" using m'(4) Cons.prems(2) by (auto simp: mapped_Suc)
  ultimately show ?case by auto
qed

lemma strcmp_cstr:
  assumes "cstr m a s" "cstr m b t"
  shows "\<exists>r. strcmp a b m = Some r \<and> (r = 0 \<longleftrightarrow> s = t)"
  using assms
proof (induction s arbitrary: a b t)
  case Nil
  then show ?case by (cases t) (subst strcmp.simps, auto simp: signed_eq_0_iff)+
next
  case (Cons c s)
  show ?case
  proof (cases t)
    case Nil
    then show ?thesis using Cons.prems by (subst strcmp.simps) (auto simp: signed_eq_0_iff)
  next
    case (Cons d t')
    show ?thesis
    proof (cases "c = d")
      case True
      then show ?thesis using Cons Cons.IH [of "a + 1" "b + 1" t'] Cons.prems \<open>t = d # t'\<close>
        by (subst strcmp.simps) auto
    next
      case False
      then show ?thesis using \<open>t = d # t'\<close> Cons.prems by (subst strcmp.simps) (auto simp: signed_eq_0_iff)
    qed
  qed
qed

lemma bytes_at_append:
  "bytes_at m a (xs @ ys) = (bytes_at m a xs \<and> bytes_at m (a + of_nat (length xs)) ys)"
  by (induction xs arbitrary: a) (auto simp: add.assoc)

text \<open>Regions that do not wrap around are intervals.\<close>

lemma region_iff:
  assumes "unat a + n \<le> 2 ^ 32"
  shows "x \<in> region a n \<longleftrightarrow> unat a \<le> unat x \<and> unat x < unat a + n"
proof
  assume "x \<in> region a n"
  then obtain i where i: "i < n" "x = a + of_nat i" by (auto simp: region_def)
  have "unat (of_nat i :: u32) = i" using i(1) assms by (simp add: unsigned_of_nat take_bit_nat_eq_self)
  then have "unat x = unat a + i" using i assms by (simp add: unat_plus_if_size word_size)
  with i(1) show "unat a \<le> unat x \<and> unat x < unat a + n" by simp
next
  assume *: "unat a \<le> unat x \<and> unat x < unat a + n"
  have "x = a + of_nat (unat x - unat a)" using * by (simp add: of_nat_diff)
  with * show "x \<in> region a n" by (auto simp: region_def intro!: rev_image_eqI [of "unat x - unat a"])
qed

lemma unat_Suc_addr: "unat (a :: addr) + Suc n \<le> 2 ^ 32 \<Longrightarrow> n \<noteq> 0 \<Longrightarrow> unat (a + 1) = unat a + 1"
  by (simp add: unat_plus_if_size word_size)

lemma copy_up_bytes:
  assumes "bytes_at m s bs" "mapped m d (length bs)" "unat d \<le> unat s" "unat s + length bs \<le> 2 ^ 32"
  shows "\<exists>m'. copy_up (length bs) d s m = Some m' \<and> bytes_at m' d bs \<and> (\<forall>x. x \<notin> region d (length bs) \<longrightarrow> m' x = m x)"
  using assms
proof (induction bs arbitrary: d s m)
  case (Cons c bs)
  let ?m = "m(d \<mapsto> c)" and ?n = "length bs"
  show ?case
  proof (cases "bs = []")
    case True
    then show ?thesis using Cons.prems by (auto simp: store_mapped mapped_Suc region_Suc)
  next
    case False
    have u: "unat (s + 1) = unat s + 1" "unat (d + 1) = unat d + 1"
      using unat_Suc_addr [of s ?n] unat_Suc_addr [of d ?n] Cons.prems(3,4) False by auto
    have dr: "d \<notin> region (s + 1) ?n" "d \<notin> region (d + 1) ?n"
      using Cons.prems(3,4) u by (simp_all add: region_iff)
    have "bytes_at ?m (s + 1) bs" using bytes_at_cong [of "s + 1" bs ?m m] Cons.prems(1) dr(1) by fastforce
    moreover have "mapped ?m (d + 1) ?n" using Cons.prems(2) by (simp add: mapped_Suc mapped_upd)
    ultimately obtain m' where m': "copy_up ?n (d + 1) (s + 1) ?m = Some m'" "bytes_at m' (d + 1) bs"
      "\<forall>x. x \<notin> region (d + 1) ?n \<longrightarrow> m' x = ?m x"
      using Cons.IH [of ?m "s + 1" "d + 1"] Cons.prems(3,4) u by (auto simp del: fun_upd_apply)
    have "copy_up (length (c # bs)) d s m = Some m'" using Cons.prems(1,2) m'(1) by (simp add: store_mapped mapped_Suc)
    moreover have "bytes_at m' d (c # bs)" using m'(2,3) dr(2) by simp
    ultimately show ?thesis using m'(3) by (auto simp: region_Suc)
  qed
qed simp

lemma copy_down_bytes:
  assumes "bytes_at m s bs" "mapped m d (length bs)" "unat s \<le> unat d" "unat d + length bs \<le> 2 ^ 32"
  shows "\<exists>m'. copy_down (length bs) (d + of_nat (length bs)) (s + of_nat (length bs)) m = Some m' \<and>
    bytes_at m' d bs \<and> (\<forall>x. x \<notin> region d (length bs) \<longrightarrow> m' x = m x)"
  using assms
proof (induction bs arbitrary: m rule: rev_induct)
  case (snoc c bs)
  let ?n = "length bs" and ?d = "d + of_nat (length bs)" and ?s = "s + of_nat (length bs)"
  let ?m = "m(?d \<mapsto> c)"
  have "unat (of_nat ?n :: u32) = ?n" using snoc.prems(4) by (simp add: unsigned_of_nat take_bit_nat_eq_self)
  then have u: "unat ?d = unat d + ?n" using snoc.prems(4) by (simp add: unat_plus_if_size word_size)
  have b: "bytes_at m s bs" "m ?s = Some c" using snoc.prems(1) by (simp_all add: bytes_at_append)
  have md: "m ?d \<noteq> None" "mapped m d ?n" using snoc.prems(2) by (auto simp: mapped_def)
  have dr: "?d \<notin> region s ?n" "?d \<notin> region d ?n"
    using snoc.prems(3,4) u by (simp_all add: region_iff)
  have "bytes_at ?m s bs" using bytes_at_cong [of s bs ?m m] b(1) dr(1) by fastforce
  moreover have "mapped ?m d ?n" using md(2) by (rule mapped_upd)
  ultimately obtain m' where m': "copy_down ?n ?d ?s ?m = Some m'" "bytes_at m' d bs"
    "\<forall>x. x \<notin> region d ?n \<longrightarrow> m' x = ?m x"
    using snoc.IH [of ?m] snoc.prems(3,4) by (auto simp del: fun_upd_apply)
  have "copy_down (length (bs @ [c])) (d + of_nat (length (bs @ [c]))) (s + of_nat (length (bs @ [c]))) m = Some m'"
    using b(2) md(1) m'(1) by (simp add: store_mapped add.assoc [symmetric])
  moreover have "bytes_at m' d (bs @ [c])" using m'(2,3) dr(2) by (simp add: bytes_at_append)
  moreover have "m' x = m x" if "x \<notin> region d (length (bs @ [c]))" for x
  proof -
    have "x \<noteq> ?d" "x \<notin> region d ?n" using that by (auto simp: region_def)
    then show ?thesis using m'(3) by simp
  qed
  ultimately show ?case by blast
qed simp

lemma memcmp_bytes:
  assumes "bytes_at m a xs" "bytes_at m b ys" "length xs = unat n" "length ys = unat n"
  shows "\<exists>r. memcmp a b n m = Some r \<and> (r = 0 \<longleftrightarrow> xs = ys)"
proof -
  have "\<exists>r. memcmp_loop k a b m = Some r \<and> (r = 0 \<longleftrightarrow> xs = ys)"
    if "bytes_at m a xs" "bytes_at m b ys" "length xs = k" "length ys = k" for k a b xs ys
    using that
  proof (induction k arbitrary: a b xs ys)
    case (Suc k)
    then obtain x xs' y ys' where l: "xs = x # xs'" "ys = y # ys'" by (auto simp: length_Suc_conv)
    show ?case
    proof (cases "x = y")
      case True
      then show ?thesis using Suc.IH [of "a + 1" xs' "b + 1" ys'] Suc.prems l by auto
    next
      case False
      then have "uint x \<noteq> uint y" using word_uint_eqI by blast
      then show ?thesis using Suc.prems l False by simp
    qed
  qed simp
  with assms show ?thesis by (simp add: memcmp_def)
qed

lemma sint_of_nat_small: "n < 2 ^ 31 \<Longrightarrow> sint (of_nat n :: u32) = int n"
  by (simp add: signed_of_nat signed_take_bit_int_eq_self)

lemma cstr_bytes: "cstr m a s \<Longrightarrow> bytes_at m a s"
  by (simp add: cstr_def bytes_at_append)

lemma bytes_at_take: "bytes_at m a s \<Longrightarrow> bytes_at m a (take n s)"
  by (induction s arbitrary: a n) (auto simp: take_Cons split: nat.split)

text \<open>The place of the first occurrence of a string in another.\<close>

definition first_sub :: "byte list \<Rightarrow> byte list \<Rightarrow> nat option" where
  "first_sub xs ys = List.find (\<lambda>k. take (length ys) (drop k xs) = ys) [0..<Suc (length xs) - length ys]"

lemma find_map_Suc: "List.find P (map Suc xs) = map_option Suc (List.find (P \<circ> Suc) xs)"
  by (induction xs) auto

lemma first_sub_Cons:
  assumes "length ys \<le> Suc (length xs)"
  shows "first_sub (x # xs) ys = (if take (length ys) (x # xs) = ys then Some 0 else map_option Suc (first_sub xs ys))"
proof -
  have "[0..<Suc (length (x # xs)) - length ys] = 0 # map Suc [0..<Suc (length xs) - length ys]"
    using assms by (simp add: Suc_diff_le map_Suc_upt upt_conv_Cons del: upt_Suc)
  then show ?thesis by (simp add: first_sub_def find_map_Suc comp_def del: upt_Suc)
qed

lemma strstr_loop_cstr:
  assumes "cstr m a xs" "bytes_at m b ys" "length xs < 2 ^ 31" "length ys < 2 ^ 31" "ys \<noteq> []"
  shows "strstr_loop (of_nat (length xs)) (of_nat (length ys)) a b m =
    Some (case first_sub xs ys of Some k \<Rightarrow> a + of_nat k | None \<Rightarrow> 0)"
  using assms
proof (induction xs arbitrary: a)
  case Nil
  then have "first_sub [] ys = None" "0 < length ys" by (auto simp: first_sub_def Suc_le_eq)
  then show ?case using Nil.prems by (subst strstr_loop.simps) (simp add: sint_of_nat_small)
next
  case (Cons x xs)
  let ?l1 = "of_nat (length (x # xs)) :: u32" and ?l2 = "of_nat (length ys) :: u32"
  have s: "sint ?l1 = int (Suc (length xs))" "sint ?l2 = int (length ys)"
    using Cons.prems(3,4) sint_of_nat_small [of "length (x # xs)"] sint_of_nat_small [of "length ys"] by simp_all
  show ?case
  proof (cases "length ys \<le> Suc (length xs)")
    case False
    then have "first_sub (x # xs) ys = None" by (simp add: first_sub_def)
    then show ?thesis using False s by (subst strstr_loop.simps) simp
  next
    case True
    have ul: "unat ?l2 = length ys" using Cons.prems(4) by (simp add: unsigned_of_nat take_bit_nat_eq_self)
    have "bytes_at m a (take (length ys) (x # xs))" using bytes_at_take cstr_bytes Cons.prems(1) by blast
    then obtain r where r: "memcmp a b ?l2 m = Some r" "r = 0 \<longleftrightarrow> take (length ys) (x # xs) = ys"
      using memcmp_bytes [OF _ Cons.prems(2), of a _ ?l2] True ul by force
    have IH: "strstr_loop (of_nat (length xs)) ?l2 (a + 1) b m =
      Some (case first_sub xs ys of Some k \<Rightarrow> a + 1 + of_nat k | None \<Rightarrow> 0)"
      using Cons.IH [of "a + 1"] Cons.prems by simp
    have l: "?l1 - 1 = of_nat (length xs)" by simp
    show ?thesis
      using s r True IH by (subst strstr_loop.simps) (auto simp: first_sub_Cons l add.assoc split: option.split)
  qed
qed

section \<open>Properties\<close>

text \<open>
  \<open>strcpy\<close> of a string to a mapped region that does not overlap it returns, and leaves
  a copy of the string at the destination and every byte outside the destination as it was.
\<close>
theorem strcpy_copies:
  assumes "cstr m src s" "mapped m dest (Suc (length s))" "Suc (length s) \<le> 2 ^ 32"
    "region dest (Suc (length s)) \<inter> region src (Suc (length s)) = {}"
  shows "\<exists>m'. strcpy dest src m = Some (dest, m') \<and> cstr m' dest s \<and>
    (\<forall>x. x \<notin> region dest (Suc (length s)) \<longrightarrow> m' x = m x)"
  using strcpy_loop_cstr [OF assms] by (auto simp: strcpy_def)

text \<open>
  \<open>memmove\<close> copies the bytes of the source to the destination, and changes nothing
  else, also when the two areas overlap, whichever comes first.
\<close>
theorem memmove_overlap:
  assumes "bytes_at m src bs" "length bs = unat count" "mapped m dest (unat count)"
    and "unat src + unat count \<le> 2 ^ 32" "unat dest + unat count \<le> 2 ^ 32"
  shows "\<exists>m'. memmove dest src count m = Some (dest, m') \<and> bytes_at m' dest bs \<and>
    (\<forall>x. x \<notin> region dest (unat count) \<longrightarrow> m' x = m x)"
proof (cases "dest \<le> src")
  case True
  then show ?thesis
    using copy_up_bytes [OF assms(1), of dest] assms by (auto simp: memmove_def word_le_nat_alt)
next
  case False
  then show ?thesis
    using copy_down_bytes [OF assms(1), of dest] assms by (auto simp: memmove_def word_le_nat_alt)
qed

text \<open>
  \<open>strstr\<close> returns the address of the first occurrence of the second string in the
  first, and \<open>NULL\<close> when there is none.
\<close>
theorem strstr_finds:
  assumes "cstr m a xs" "cstr m b ys" "length xs < 2 ^ 31" "length ys < 2 ^ 31"
  shows "strstr a b m = Some (case first_sub xs ys of Some k \<Rightarrow> a + of_nat k | None \<Rightarrow> 0)"
proof (cases "ys = []")
  case True
  then have "first_sub xs ys = Some 0" by (simp add: first_sub_def upt_conv_Cons del: upt_Suc)
  then show ?thesis using True assms strlen_cstr [OF assms(2)] by (simp add: strstr_def)
next
  case False
  have "(of_nat (length ys) :: u32) \<noteq> 0" using of_nat_u32_eq_0 [of "length ys"] assms(4) False by simp
  then show ?thesis
    using strlen_cstr [OF assms(1)] strlen_cstr [OF assms(2)] strstr_loop_cstr [OF assms(1) cstr_bytes [OF assms(2)] assms(3,4) False]
    by (simp add: strstr_def)
qed

definition demo_mem :: mem where
  "demo_mem = [0x1000 \<mapsto> 97, 0x1001 \<mapsto> 98, 0x1002 \<mapsto> 98, 0x1003 \<mapsto> 0,
     0x2000 \<mapsto> 98, 0x2001 \<mapsto> 98, 0x2002 \<mapsto> 0, 0x2003 \<mapsto> 7]"

theorem strcpy_copies_witness:
  "\<exists>m'. strcpy 0x2000 0x1000 demo_mem = Some (0x2000, m') \<and> cstr m' 0x2000 [97, 98, 98]"
proof -
  have "cstr demo_mem 0x1000 [97, 98, 98]" "mapped demo_mem 0x2000 (Suc (length [97, 98, 98 :: byte]))"
    "region 0x2000 (Suc (length [97, 98, 98 :: byte])) \<inter> region 0x1000 (Suc (length [97, 98, 98 :: byte])) = {}"
    by (simp_all add: demo_mem_def mapped_Suc mapped_def [of _ _ 0] region_Suc)
  with strcpy_copies [of demo_mem "0x1000" "[97, 98, 98]" "0x2000"] show ?thesis by auto
qed

theorem memmove_overlap_witness:
  "\<exists>m'. memmove 0x1001 0x1000 3 demo_mem = Some (0x1001, m') \<and> bytes_at m' 0x1001 [97, 98, 98]"
proof -
  have "bytes_at demo_mem 0x1000 [97, 98, 98]" by (simp add: demo_mem_def)
  moreover have "mapped demo_mem 0x1001 (Suc (Suc (Suc 0)))"
    by (simp add: demo_mem_def mapped_Suc mapped_def [of _ _ 0])
  then have "mapped demo_mem 0x1001 3" by (simp only: numeral_3_eq_3)
  ultimately show ?thesis using memmove_overlap [of demo_mem "0x1000" "[97, 98, 98]" 3 "0x1001"] by auto
qed

theorem strstr_finds_witness: "strstr 0x1000 0x2000 demo_mem = Some 0x1001"
  using strstr_finds [of demo_mem "0x1000" "[97, 98, 98]" "0x2000" "[98, 98]"]
  by (simp add: demo_mem_def first_sub_def)

end
