(* ===== verification/Uaccess.thy ===== *)
theory Uaccess
  imports Cstring
begin

text \<open>
  Access to user memory from the kernel: \<open>access_ok\<close> and the copy routines of
  \<open>include/asm-i386/uaccess.h\<close> and \<open>arch/i386/lib/usercopy.c\<close>. The string instructions of the inline
  assembly are modelled element by element: \<open>rep movs\<close> stops at the first element it cannot read or
  write, with the registers as they are then, and the exception table continues at the fix-up code.
  A zero fill of the fix-up code writes kernel memory; a fault there does not return. Lengths are
  natural numbers below \<open>2\<^sup>3\<^sup>2\<close>, the value of the 32-bit register.
\<close>

section \<open>Range check\<close>

text \<open>The carry of the addition, then the borrow of the comparison with the limit.\<close>
definition range_ok :: "addr \<Rightarrow> addr \<Rightarrow> u32 \<Rightarrow> bool" where
  "range_ok limit a sz = (let sum = a + sz in \<not> sum < a \<and> \<not> limit < sum)"

definition access_ok :: "addr \<Rightarrow> addr \<Rightarrow> u32 \<Rightarrow> bool" where
  "access_ok limit a sz = range_ok limit a sz"

definition verify_area :: "addr \<Rightarrow> addr \<Rightarrow> u32 \<Rightarrow> int" where
  "verify_area limit a sz = (if access_ok limit a sz then 0 else - EFAULT)"

section \<open>String instructions\<close>

fun get :: "mem \<Rightarrow> addr \<Rightarrow> nat \<Rightarrow> byte list option" where
  "get m a 0 = Some []"
| "get m a (Suc k) = do { b \<leftarrow> m a; bs \<leftarrow> get m (a + 1) k; Some (b # bs) }"

fun put :: "mem \<Rightarrow> addr \<Rightarrow> byte list \<Rightarrow> mem option" where
  "put m a [] = Some m"
| "put m a (b # bs) = do { m \<leftarrow> store a b m; put m (a + 1) bs }"

text \<open>One element of \<open>k\<close> bytes; it is written only if all its bytes can be read and written.\<close>
definition movs :: "nat \<Rightarrow> addr \<Rightarrow> addr \<Rightarrow> mem \<Rightarrow> mem option" where
  "movs k edi esi m = do { bs \<leftarrow> get m esi k; put m edi bs }"

text \<open>The registers \<open>ecx\<close>, \<open>edi\<close>, \<open>esi\<close> and the memory after \<open>rep movs\<close>; \<open>ecx\<close> is not 0 after a fault.\<close>
fun rep_movs :: "nat \<Rightarrow> nat \<Rightarrow> addr \<Rightarrow> addr \<Rightarrow> mem \<Rightarrow> nat \<times> addr \<times> addr \<times> mem" where
  "rep_movs k 0 edi esi m = (0, edi, esi, m)"
| "rep_movs k (Suc n) edi esi m = (case movs k edi esi m of
     None \<Rightarrow> (Suc n, edi, esi, m)
   | Some m' \<Rightarrow> rep_movs k n (edi + of_nat k) (esi + of_nat k) m')"

fun stosb :: "nat \<Rightarrow> addr \<Rightarrow> mem \<Rightarrow> (addr \<times> mem) option" where
  "stosb 0 edi m = Some (edi, m)"
| "stosb (Suc n) edi m = do { m \<leftarrow> store edi 0 m; stosb n (edi + 1) m }"

text \<open>A 32-bit number in memory, the low byte first.\<close>

definition le32 :: "u32 \<Rightarrow> byte list" where
  "le32 w = [ucast w, ucast (drop_bit 8 w), ucast (drop_bit 16 w), ucast (drop_bit 24 w)]"

fun of_le :: "byte list \<Rightarrow> u32" where
  "of_le [] = 0"
| "of_le (b # bs) = ucast b OR push_bit 8 (of_le bs)"

section \<open>Copies of a variable length\<close>

text \<open>Both give the number of bytes not copied, and the memory.\<close>

definition copy_user :: "addr \<Rightarrow> addr \<Rightarrow> nat \<Rightarrow> mem \<Rightarrow> nat \<times> mem" where
  "copy_user to from sz m =
     (let (c, d, s, m) = rep_movs 4 (sz div 4) to from m in
      if c \<noteq> 0 then (sz mod 4 + 4 * c, m)
      else (let (c, d, s, m) = rep_movs 1 (sz mod 4) d s m in (c, m)))"

definition copy_user_zeroing :: "addr \<Rightarrow> addr \<Rightarrow> nat \<Rightarrow> mem \<Rightarrow> (nat \<times> mem) option" where
  "copy_user_zeroing to from sz m =
     (let (c, d, s, m) = rep_movs 4 (sz div 4) to from m in
      if c \<noteq> 0 then do { (_, m) \<leftarrow> stosb (sz mod 4 + 4 * c) d m; Some (sz mod 4 + 4 * c, m) }
      else (let (c, d, s, m) = rep_movs 1 (sz mod 4) d s m in
        if c \<noteq> 0 then do { (_, m) \<leftarrow> stosb c d m; Some (c, m) } else Some (0, m)))"

definition generic_copy_to_user :: "addr \<Rightarrow> addr \<Rightarrow> addr \<Rightarrow> u32 \<Rightarrow> mem \<Rightarrow> nat \<times> mem" where
  "generic_copy_to_user limit to from n m =
     (if access_ok limit to n then copy_user to from (unat n) m else (unat n, m))"

definition generic_copy_from_user :: "addr \<Rightarrow> addr \<Rightarrow> addr \<Rightarrow> u32 \<Rightarrow> mem \<Rightarrow> (nat \<times> mem) option" where
  "generic_copy_from_user limit to from n m =
     (if access_ok limit from n then copy_user_zeroing to from (unat n) m
      else do { (_, m) \<leftarrow> memset to 0 n m; Some (unat n, m) })"

section \<open>Copies of a constant length\<close>

text \<open>The four cases of \<open>size & 3\<close>: no tail, a byte, a word, a word and a byte.\<close>

definition constant_copy_user :: "addr \<Rightarrow> addr \<Rightarrow> nat \<Rightarrow> mem \<Rightarrow> nat \<times> mem" where
  "constant_copy_user to from sz m =
     (let (c, d, s, m) = rep_movs 4 (sz div 4) to from m in
      if sz mod 4 = 1 then
        (if c \<noteq> 0 then (4 * c + 1, m)
         else (case movs 1 d s m of None \<Rightarrow> (1, m) | Some m \<Rightarrow> (0, m)))
      else if sz mod 4 = 2 then
        (if c \<noteq> 0 then (4 * c + 2, m)
         else (case movs 2 d s m of None \<Rightarrow> (2, m) | Some m \<Rightarrow> (0, m)))
      else if sz mod 4 = 3 then
        (if c \<noteq> 0 then (4 * c + 2 + 1, m)
         else (case movs 2 d s m of None \<Rightarrow> (2 + 1, m)
           | Some m \<Rightarrow> (case movs 1 (d + 2) (s + 2) m of None \<Rightarrow> (1, m) | Some m \<Rightarrow> (0, m))))
      else (4 * c, m))"

text \<open>
  The tail \<open>2: movsb\<close> of the last case, entered with the value of \<open>%0\<close>: after a fault the fix-up
  code at 6 clears one byte and counts one.
\<close>
definition tail_movsb :: "nat \<Rightarrow> addr \<Rightarrow> addr \<Rightarrow> mem \<Rightarrow> (nat \<times> mem) option" where
  "tail_movsb c d s m = (case movs 1 d s m of
     Some m \<Rightarrow> Some (c, m)
   | None \<Rightarrow> do { (_, m) \<leftarrow> stosb 1 d m; Some (c + 1, m) })"

text \<open>The fix-up code at 4 and 5 of the last case jumps to the label 2, not behind the tail.\<close>
definition constant_copy_user_zeroing :: "addr \<Rightarrow> addr \<Rightarrow> nat \<Rightarrow> mem \<Rightarrow> (nat \<times> mem) option" where
  "constant_copy_user_zeroing to from sz m =
     (let (c, d, s, m) = rep_movs 4 (sz div 4) to from m in
      if sz mod 4 = 1 then
        (if c \<noteq> 0 then do { (d, m) \<leftarrow> stosb (4 * c) d m; (d, m) \<leftarrow> stosb 1 d m; Some (4 * c + 1, m) }
         else (case movs 1 d s m of None \<Rightarrow> do { (d, m) \<leftarrow> stosb 1 d m; Some (1, m) } | Some m \<Rightarrow> Some (0, m)))
      else if sz mod 4 = 2 then
        (if c \<noteq> 0 then do { (d, m) \<leftarrow> stosb (4 * c) d m; (d, m) \<leftarrow> stosb 2 d m; Some (4 * c + 2, m) }
         else (case movs 2 d s m of None \<Rightarrow> do { (d, m) \<leftarrow> stosb 2 d m; Some (2, m) } | Some m \<Rightarrow> Some (0, m)))
      else if sz mod 4 = 3 then
        (if c \<noteq> 0 then do {
           (d, m) \<leftarrow> stosb (4 * c) d m; (d, m) \<leftarrow> stosb 2 d m; (d, m) \<leftarrow> stosb 1 d m;
           tail_movsb (4 * c + 3) d s m }
         else (case movs 2 d s m of
             None \<Rightarrow> do { (d, m) \<leftarrow> stosb 2 d m; (d, m) \<leftarrow> stosb 1 d m; tail_movsb 3 d s m }
           | Some m \<Rightarrow> tail_movsb 0 (d + 2) (s + 2) m))
      else if c \<noteq> 0 then do { (d, m) \<leftarrow> stosb (4 * c) d m; Some (4 * c, m) } else Some (0, m))"

definition constant_copy_to_user :: "addr \<Rightarrow> addr \<Rightarrow> addr \<Rightarrow> u32 \<Rightarrow> mem \<Rightarrow> nat \<times> mem" where
  "constant_copy_to_user limit to from n m =
     (if access_ok limit to n then constant_copy_user to from (unat n) m else (unat n, m))"

definition constant_copy_from_user :: "addr \<Rightarrow> addr \<Rightarrow> addr \<Rightarrow> u32 \<Rightarrow> mem \<Rightarrow> (nat \<times> mem) option" where
  "constant_copy_from_user limit to from n m =
     (if access_ok limit from n then constant_copy_user_zeroing to from (unat n) m
      else do { (_, m) \<leftarrow> memset to 0 n m; Some (unat n, m) })"

section \<open>Lemmas\<close>

lemma access_ok_iff: "access_ok limit a sz \<longleftrightarrow> unat a + unat sz \<le> unat limit"
proof -
  have b: "unat limit < 2 ^ 32" "unat a < 2 ^ 32" "unat sz < 2 ^ 32"
    using unsigned_less [of limit] unsigned_less [of a] unsigned_less [of sz] by simp_all
  show ?thesis
  proof (cases "unat a + unat sz < 2 ^ 32")
    case True
    then have "unat (a + sz) = unat a + unat sz" by (simp add: unat_plus_if_size word_size)
    then show ?thesis by (simp add: access_ok_def range_ok_def word_less_nat_alt Let_def) auto
  next
    case False
    then have "unat (a + sz) = unat a + unat sz - 2 ^ 32" using b by (simp add: unat_plus_if_size word_size)
    then show ?thesis using False b by (simp add: access_ok_def range_ok_def word_less_nat_alt Let_def) linarith
  qed
qed

lemma unat_u32: "unat (w :: u32) < 2 ^ 32"
proof -
  have "unat w < 2 ^ LENGTH(32)" by (rule unsigned_less)
  then show ?thesis by simp
qed

lemma get_bytes: "bytes_at m a bs \<Longrightarrow> get m a (length bs) = Some bs"
  by (induction bs arbitrary: a) auto

lemma get_Some: "get m a k = Some bs \<Longrightarrow> bytes_at m a bs \<and> length bs = k"
  by (induction k arbitrary: a bs) auto

lemma put_append: "put m a (xs @ ys) = do { m' \<leftarrow> put m a xs; put m' (a + of_nat (length xs)) ys }"
proof (induction xs arbitrary: m a)
  case (Cons x xs)
  then show ?case by (cases "store a x m") (simp_all add: add.assoc)
qed simp

lemma put_ok:
  assumes "mapped m a (length bs)" "length bs \<le> 2 ^ 32"
  shows "\<exists>m'. put m a bs = Some m' \<and> bytes_at m' a bs \<and> (\<forall>x. x \<notin> region a (length bs) \<longrightarrow> m' x = m x) \<and> dom m' = dom m"
  using assms
proof (induction bs arbitrary: m a)
  case (Cons b bs)
  let ?m = "m(a \<mapsto> b)"
  have a: "a \<notin> region (a + 1) (length bs)" using not_in_tail [of "length bs" a] Cons.prems(2) by simp
  have ms: "mapped ?m (a + 1) (length bs)" using Cons.prems(1) by (simp add: mapped_Suc mapped_upd)
  have ls: "length bs \<le> 2 ^ 32" using Cons.prems(2) by simp
  obtain m' where m': "put ?m (a + 1) bs = Some m'" "bytes_at m' (a + 1) bs"
    "\<forall>x. x \<notin> region (a + 1) (length bs) \<longrightarrow> m' x = ?m x" "dom m' = dom ?m"
    using Cons.IH [OF ms ls] by blast
  have "put m a (b # bs) = Some m'" using Cons.prems(1) m'(1) by (simp add: store_mapped mapped_Suc)
  moreover have "dom m' = dom m" using m'(4) Cons.prems(1) by (auto simp: mapped_Suc)
  ultimately show ?case using m'(2,3) a by (auto simp: region_Suc)
qed simp

lemma region_add: "region a (i + j) = region a i \<union> region (a + of_nat i) j"
proof -
  have "{..<i + j} = {..<i} \<union> (+) i ` {..<j}"
  proof (intro set_eqI iffI)
    fix x assume "x \<in> {..<i + j}"
    then show "x \<in> {..<i} \<union> (+) i ` {..<j}" by (cases "x < i") (auto intro!: image_eqI [of _ _ "x - i"])
  qed auto
  then show ?thesis by (simp add: region_def image_Un image_image add.assoc)
qed

lemma mapped_add: "mapped m a (i + j) = (mapped m a i \<and> mapped m (a + of_nat i) j)"
proof -
  have "mapped m b n = (\<forall>x\<in>region b n. m x \<noteq> None)" for b n by (auto simp: mapped_def region_def)
  then show ?thesis by (auto simp: region_add)
qed

lemma mapped_dom: "mapped m a n \<Longrightarrow> dom m' = dom m \<Longrightarrow> mapped m' a n"
  by (auto simp: mapped_def dom_def)

text \<open>With all bytes accessible and no overlap \<open>rep movs\<close> writes the whole source.\<close>

lemma rep_movs_ok:
  assumes "bytes_at m esi bs" "length bs = k * n" "mapped m edi (k * n)" "k * n \<le> 2 ^ 32"
    "region edi (k * n) \<inter> region esi (k * n) = {}"
  shows "\<exists>m'. rep_movs k n edi esi m = (0, edi + of_nat (k * n), esi + of_nat (k * n), m') \<and> put m edi bs = Some m'"
  using assms
proof (induction n arbitrary: bs edi esi m)
  case (Suc n)
  define xs ys where "xs = take k bs" and "ys = drop k bs"
  have bs: "bs = xs @ ys" "length xs = k" "length ys = k * n"
    using Suc.prems(2) by (simp_all add: xs_def ys_def)
  have b: "bytes_at m esi xs" "bytes_at m (esi + of_nat k) ys"
    using Suc.prems(1) bs by (simp_all add: bytes_at_append)
  have mp: "mapped m edi k" "mapped m (edi + of_nat k) (k * n)"
    using Suc.prems(3) by (simp_all add: mapped_add)
  have dj: "region edi k \<inter> region (esi + of_nat k) (k * n) = {}"
    "region (edi + of_nat k) (k * n) \<inter> region (esi + of_nat k) (k * n) = {}"
    using Suc.prems(5) by (auto simp: region_add)
  obtain m1 where m1: "put m edi xs = Some m1" "\<forall>x. x \<notin> region edi k \<longrightarrow> m1 x = m x" "dom m1 = dom m"
    using put_ok [of m edi xs] mp(1) bs(2) Suc.prems(4) by auto
  have b1: "bytes_at m1 (esi + of_nat k) ys"
    using bytes_at_cong [of "esi + of_nat k" ys m1 m] b(2) m1(2) bs(3) dj(1) by (metis disjoint_iff)
  have l: "k * n \<le> 2 ^ 32" using Suc.prems(4) by simp
  obtain m2 where m2: "rep_movs k n (edi + of_nat k) (esi + of_nat k) m1 =
      (0, edi + of_nat k + of_nat (k * n), esi + of_nat k + of_nat (k * n), m2)" "put m1 (edi + of_nat k) ys = Some m2"
    using Suc.IH [OF b1 bs(3) mapped_dom [OF mp(2) m1(3)] l dj(2)] by blast
  have "movs k edi esi m = Some m1" using get_bytes [OF b(1)] bs(2) m1(1) by (simp add: movs_def)
  then show ?case using m1(1) m2 bs(1,2) by (simp add: put_append add.assoc)
qed simp

lemma movs_ok: "bytes_at m esi bs \<Longrightarrow> length bs = k \<Longrightarrow> movs k edi esi m = put m edi bs"
  using get_bytes [of m esi bs] by (simp add: movs_def)

lemma mod_4_le: "sz mod 4 \<le> (2 ^ 32 :: nat)"
  by (rule order_trans [of _ 3]) (simp_all add: less_Suc_eq_le [symmetric])

text \<open>The state after the double words, when everything is accessible.\<close>

lemma dwords_ok:
  assumes "bytes_at m from bs" "length bs = sz" "mapped m to sz" "sz \<le> 2 ^ 32" "region to sz \<inter> region from sz = {}"
  defines "q \<equiv> 4 * (sz div 4)"
  shows "\<exists>m1. rep_movs 4 (sz div 4) to from m = (0, to + of_nat q, from + of_nat q, m1) \<and> put m to (take q bs) = Some m1 \<and>
    bytes_at m1 (from + of_nat q) (drop q bs) \<and> mapped m1 (to + of_nat q) (sz mod 4) \<and>
    region (to + of_nat q) (sz mod 4) \<inter> region (from + of_nat q) (sz mod 4) = {}"
proof -
  have sz: "sz = q + sz mod 4" by (simp add: q_def)
  have l: "length (take q bs) = q" "length (drop q bs) = sz mod 4" using assms(2) sz by auto
  have b: "bytes_at m from (take q bs)" "bytes_at m (from + of_nat q) (drop q bs)"
    using assms(1) l bytes_at_append [of m "from" "take q bs" "drop q bs"] by simp_all
  have mp: "mapped m to q" "mapped m (to + of_nat q) (sz mod 4)"
    using assms(3) mapped_add [of m to q "sz mod 4"] sz by simp_all
  have r: "region a sz = region a q \<union> region (a + of_nat q) (sz mod 4)" for a
    using region_add [of a q "sz mod 4"] sz by simp
  have dj: "region to q \<inter> region from q = {}" "region to q \<inter> region (from + of_nat q) (sz mod 4) = {}"
    "region (to + of_nat q) (sz mod 4) \<inter> region (from + of_nat q) (sz mod 4) = {}"
    using assms(5) unfolding r by auto
  have q: "q \<le> 2 ^ 32" using assms(4) sz by simp
  obtain m1 where m1: "rep_movs 4 (sz div 4) to from m = (0, to + of_nat q, from + of_nat q, m1)" "put m to (take q bs) = Some m1"
    using rep_movs_ok [OF b(1), of 4 "sz div 4" to] l(1) mp(1) q dj(1) unfolding q_def by auto
  have fr: "\<forall>x. x \<notin> region to q \<longrightarrow> m1 x = m x" "dom m1 = dom m"
    using put_ok [of m to "take q bs"] mp(1) l(1) q m1(2) by auto
  have "bytes_at m1 (from + of_nat q) (drop q bs)"
    using bytes_at_cong [of "from + of_nat q" "drop q bs" m1 m] b(2) fr(1) l(2) dj(2) by (metis disjoint_iff)
  with m1 mapped_dom [OF mp(2) fr(2)] dj(3) show ?thesis by blast
qed

lemma put_take_drop:
  assumes "put m a (take q bs) = Some m1" "q \<le> length bs"
  shows "put m a bs = put m1 (a + of_nat q) (drop q bs)"
  using put_append [of m a "take q bs" "drop q bs"] assms by simp

lemma copy_user_ok:
  assumes "bytes_at m from bs" "length bs = sz" "mapped m to sz" "sz \<le> 2 ^ 32" "region to sz \<inter> region from sz = {}"
  shows "\<exists>m'. copy_user to from sz m = (0, m') \<and> put m to bs = Some m'"
proof -
  let ?q = "4 * (sz div 4)"
  obtain m1 where m1: "rep_movs 4 (sz div 4) to from m = (0, to + of_nat ?q, from + of_nat ?q, m1)" "put m to (take ?q bs) = Some m1"
    "bytes_at m1 (from + of_nat ?q) (drop ?q bs)" "mapped m1 (to + of_nat ?q) (sz mod 4)"
    "region (to + of_nat ?q) (sz mod 4) \<inter> region (from + of_nat ?q) (sz mod 4) = {}"
    using dwords_ok [OF assms] by blast
  have l: "length (drop ?q bs) = 1 * (sz mod 4)" using assms(2) by (simp add: minus_mult_div_eq_mod)
  obtain m2 where m2: "rep_movs 1 (sz mod 4) (to + of_nat ?q) (from + of_nat ?q) m1 =
      (0, to + of_nat ?q + of_nat (1 * (sz mod 4)), from + of_nat ?q + of_nat (1 * (sz mod 4)), m2)"
    "put m1 (to + of_nat ?q) (drop ?q bs) = Some m2"
    using rep_movs_ok [OF m1(3) l, of "to + of_nat ?q"] m1(4,5) mod_4_le [of sz] by auto
  have "?q \<le> length bs" using assms(2) by simp
  with put_take_drop [OF m1(2)] m2 m1(1) show ?thesis by (simp add: copy_user_def)
qed

lemma constant_copy_user_ok:
  assumes "bytes_at m from bs" "length bs = sz" "mapped m to sz" "sz \<le> 2 ^ 32" "region to sz \<inter> region from sz = {}"
  shows "\<exists>m'. constant_copy_user to from sz m = (0, m') \<and> put m to bs = Some m'"
proof -
  let ?q = "4 * (sz div 4)"
  let ?d = "to + of_nat ?q" and ?s = "from + of_nat ?q"
  obtain m1 where m1: "rep_movs 4 (sz div 4) to from m = (0, ?d, ?s, m1)" "put m to (take ?q bs) = Some m1"
    "bytes_at m1 ?s (drop ?q bs)" "mapped m1 ?d (sz mod 4)" "region ?d (sz mod 4) \<inter> region ?s (sz mod 4) = {}"
    using dwords_ok [OF assms] by blast
  define zs where "zs = drop ?q bs"
  have l: "length zs = sz mod 4" using assms(2) by (simp add: zs_def minus_mult_div_eq_mod)
  have pt: "put m to bs = put m1 ?d zs" using put_take_drop [OF m1(2)] assms(2) by (simp add: zs_def)
  obtain m2 where m2: "put m1 ?d zs = Some m2" using put_ok [of m1 ?d zs] m1(4) l mod_4_le [of sz] by auto
  consider "sz mod 4 = 0" | "sz mod 4 = 1" | "sz mod 4 = 2" | (three) "sz mod 4 = 3" by linarith
  then show ?thesis
  proof cases
    case three
    let ?xs = "take 2 zs" and ?ys = "drop 2 zs"
    have xy: "zs = ?xs @ ?ys" "length ?xs = 2" "length ?ys = 1" using l three by simp_all
    have b: "bytes_at m1 ?s ?xs" "bytes_at m1 (?s + 2) ?ys"
      using m1(3) bytes_at_append [of m1 ?s ?xs ?ys] xy by (simp_all add: zs_def)
    obtain m3 where m3: "put m1 ?d ?xs = Some m3" "put m3 (?d + 2) ?ys = Some m2"
    proof -
      have "Option.bind (put m1 ?d ?xs) (\<lambda>m'. put m' (?d + 2) ?ys) = Some m2"
        using m2 put_append [of m1 ?d ?xs ?ys] xy by simp
      then show thesis using that by auto
    qed
    have mp: "mapped m1 ?d 2" using m1(4) three mapped_add [of m1 ?d 2 1] by simp
    have dj: "region ?d 2 \<inter> region (?s + 2) 1 = {}"
      using m1(5) three region_add [of ?d 2 1] region_add [of ?s 2 1] by auto
    have fr: "\<forall>x. x \<notin> region ?d 2 \<longrightarrow> m3 x = m1 x" using put_ok [of m1 ?d ?xs] mp xy(2) m3(1) by auto
    have "bytes_at m3 (?s + 2) ?ys = bytes_at m1 (?s + 2) ?ys"
      by (rule bytes_at_cong) (use fr dj xy(3) in auto)
    with b(2) have "bytes_at m3 (?s + 2) ?ys" by simp
    then show ?thesis
      using m1(1) three b(1) xy m3 m2 pt by (simp add: constant_copy_user_def movs_ok)
  qed (use m1(1,3) m2 l pt in \<open>simp_all add: constant_copy_user_def movs_ok zs_def [symmetric]\<close>)
qed

lemma stosb_put: "stosb n a m = map_option (\<lambda>m. (a + of_nat n, m)) (put m a (replicate n 0))"
proof (induction n arbitrary: a m)
  case (Suc n)
  then show ?case by (cases "store a 0 m") (simp_all add: add.assoc option.map_comp comp_def)
qed simp

lemma stosb_ok:
  assumes "mapped m a n" "n \<le> 2 ^ 32"
  shows "\<exists>m'. stosb n a m = Some (a + of_nat n, m') \<and> bytes_at m' a (replicate n 0) \<and>
    (\<forall>x. x \<notin> region a n \<longrightarrow> m' x = m x) \<and> dom m' = dom m"
  using put_ok [of m a "replicate n 0"] assms by (auto simp: stosb_put)

lemma stosb_add: "stosb (i + j) a m = do { (d, m) \<leftarrow> stosb i a m; stosb j d m }"
proof (induction i arbitrary: a m)
  case (Suc i)
  then show ?case by (cases "store a 0 m") simp_all
qed simp

lemma memset_loop_stosb: "memset_loop n a 0 m = map_option snd (stosb n a m)"
proof (induction n arbitrary: a m)
  case (Suc n)
  then show ?case by (cases "store a 0 m") simp_all
qed simp

lemma movs_unmapped: "m esi = None \<Longrightarrow> movs (Suc k) edi esi m = None"
  by (simp add: movs_def)

lemma rep_movs_unmapped: "m esi = None \<Longrightarrow> rep_movs (Suc k) n edi esi m = (n, edi, esi, m)"
  by (cases n) (simp_all add: movs_unmapped)

section \<open>Properties\<close>

text \<open>
  The range check of the inline assembly is the comparison of the sum as a
  33-bit number with the limit of the address space: no wrap-around gets through.
\<close>
theorem verify_area_exact:
  "verify_area limit a sz = (if unat a + unat sz \<le> unat limit then 0 else - EFAULT)"
  by (simp add: verify_area_def access_ok_iff)

text \<open>
  C17. With an allowed, mapped destination that does not overlap the source, both
  forms of \<open>copy_to_user\<close> (length known when compiling or not) return 0 and have copied all bytes
  and changed no other; the two forms leave the same memory.
\<close>
theorem copy_to_user_copies:
  assumes "access_ok limit to n" "bytes_at m from bs" "length bs = unat n" "mapped m to (unat n)"
    "region to (unat n) \<inter> region from (unat n) = {}"
  shows "\<exists>m'. generic_copy_to_user limit to from n m = (0, m') \<and> constant_copy_to_user limit to from n m = (0, m') \<and>
    bytes_at m' to bs \<and> (\<forall>x. x \<notin> region to (unat n) \<longrightarrow> m' x = m x)"
proof -
  have n: "unat n \<le> 2 ^ 32" using unat_u32 [of n] by simp
  obtain m' where "copy_user to from (unat n) m = (0, m')" "put m to bs = Some m'"
    using copy_user_ok [OF assms(2,3,4) n assms(5)] by blast
  moreover from this have "constant_copy_user to from (unat n) m = (0, m')"
    using constant_copy_user_ok [OF assms(2,3,4) n assms(5)] by simp
  moreover have "bytes_at m' to bs \<and> (\<forall>x. x \<notin> region to (unat n) \<longrightarrow> m' x = m x)"
    using put_ok [of m to bs] assms(3,4) n calculation(2) by auto
  ultimately show ?thesis using assms(1) by (auto simp: generic_copy_to_user_def constant_copy_to_user_def)
qed

text \<open>
  When the source is outside the address space of the caller both forms of
  \<open>copy_from_user\<close> copy nothing: they report all bytes as missing and clear the kernel buffer.
\<close>
theorem copy_from_user_denied:
  assumes "\<not> access_ok limit from n" "mapped m to (unat n)"
  shows "\<exists>m'. generic_copy_from_user limit to from n m = Some (unat n, m') \<and>
    constant_copy_from_user limit to from n m = Some (unat n, m') \<and> bytes_at m' to (replicate (unat n) 0) \<and>
    (\<forall>x. x \<notin> region to (unat n) \<longrightarrow> m' x = m x)"
proof -
  have "unat n \<le> 2 ^ 32" using unat_u32 [of n] by simp
  with stosb_ok [OF assms(2)] obtain m' where "stosb (unat n) to m = Some (to + of_nat (unat n), m')"
    "bytes_at m' to (replicate (unat n) 0)" "\<forall>x. x \<notin> region to (unat n) \<longrightarrow> m' x = m x" by blast
  with assms(1) show ?thesis
    by (simp add: generic_copy_from_user_def constant_copy_from_user_def memset_def memset_loop_stosb)
qed

text \<open>
  C18. A \<open>copy_from_user\<close> of a constant length of the form \<open>4 k + 3\<close> whose source
  cannot be read writes a byte behind the destination and reports one byte too many: the fix-up
  code jumps back to the last \<open>movsb\<close>, which faults again.
\<close>
theorem constant_copy_overruns:
  assumes "access_ok limit from n" "unat n mod 4 = 3" "m from = None" "mapped m to (unat n + 1)"
  shows "\<exists>m'. constant_copy_from_user limit to from n m = Some (unat n + 1, m') \<and> m' (to + n) = Some 0"
proof -
  let ?n = "unat n"
  obtain k where k: "?n div 4 = k" by simp
  have n: "?n = 4 * k + 2 + 1" using assms(2) k by presburger
  have r: "rep_movs 4 k to from m = (k, to, from, m)" using rep_movs_unmapped [of m "from" 3] assms(3) by simp
  have mp: "mapped m to ?n" "m (to + n) \<noteq> None" using assms(4) by (auto simp: mapped_def)
  obtain m1 where m1: "stosb ?n to m = Some (to + n, m1)" "dom m1 = dom m"
    using stosb_ok [OF mp(1)] unat_u32 [of n] by auto
  have "m1 from = None" "m1 (to + n) \<noteq> None" using m1(2) assms(3) mp(2) by (metis domIff)+
  then have t: "tail_movsb (4 * k + 3) (to + n) from m1 = Some (?n + 1, m1(to + n \<mapsto> 0))"
    using movs_unmapped [of m1 "from" 0] n by (simp add: tail_movsb_def store_mapped)
  have "stosb (4 * k + 2 + 1) to m = Some (to + n, m1)" using m1(1) by (simp only: n)
  then obtain d1 x1 d2 x2 where st: "stosb (4 * k) to m = Some (d1, x1)" "stosb 2 d1 x1 = Some (d2, x2)"
    "stosb 1 d2 x2 = Some (to + n, m1)" unfolding stosb_add by (auto simp del: stosb.simps)
  have "constant_copy_user_zeroing to from ?n m = Some (?n + 1, m1(to + n \<mapsto> 0))"
  proof (cases "k = 0")
    case True
    have "movs 2 to from m = None" using movs_unmapped [of m "from" 1] assms(3) by (simp add: numeral_2_eq_2)
    then show ?thesis using st t r True assms(2) by (simp add: constant_copy_user_zeroing_def k)
  next
    case False
    then show ?thesis using st t r assms(2) by (simp add: constant_copy_user_zeroing_def k del: stosb.simps)
  qed
  then show ?thesis using assms(1) by (simp add: constant_copy_from_user_def)
qed

lemma demo_mapped: "mapped demo_mem 0x1000 3" "mapped demo_mem 0x1000 (3 + 1)"
proof -
  have "mapped demo_mem 0x1000 (Suc (Suc (Suc (Suc 0))))"
    by (simp add: demo_mem_def mapped_Suc mapped_def [of _ _ 0])
  then show "mapped demo_mem 0x1000 (3 + 1)" by (simp add: numeral_3_eq_3)
  then show "mapped demo_mem 0x1000 3" unfolding mapped_add by simp
qed

theorem copy_to_user_copies_witness:
  "\<exists>m'. generic_copy_to_user 0xC0000000 0x1000 0x2000 3 demo_mem = (0, m') \<and> bytes_at m' 0x1000 [98, 98, 0]"
proof -
  have "bytes_at demo_mem 0x2000 [98, 98, 0]" by (simp add: demo_mem_def)
  moreover have "region 0x1000 (Suc (Suc (Suc 0))) \<inter> region 0x2000 (Suc (Suc (Suc 0))) = ({} :: addr set)"
    by (simp add: region_Suc)
  then have "region 0x1000 3 \<inter> region 0x2000 3 = ({} :: addr set)" by (simp only: numeral_3_eq_3)
  ultimately show ?thesis
    using copy_to_user_copies [of "0xC0000000" "0x1000" 3 demo_mem "0x2000" "[98, 98, 0]"] demo_mapped(1)
    by (auto simp: access_ok_iff)
qed

theorem copy_from_user_denied_witness:
  "\<exists>m'. generic_copy_from_user 0x1000 0x1000 0x2000 3 demo_mem = Some (3, m') \<and> bytes_at m' 0x1000 [0, 0, 0]"
proof -
  have "replicate 3 0 = [0, 0, 0 :: byte]" by (simp add: numeral_3_eq_3)
  then show ?thesis
    using copy_from_user_denied [of "0x1000" "0x2000" 3 demo_mem "0x1000"] demo_mapped(1) by (auto simp: access_ok_iff)
qed

theorem constant_copy_overruns_witness:
  "\<exists>m'. constant_copy_from_user 0xC0000000 0x1000 0x3000 3 demo_mem = Some (4, m') \<and> m' 0x1003 = Some 0"
  using constant_copy_overruns [of "0xC0000000" "0x3000" 3 demo_mem "0x1000"] demo_mapped(2)
  by (auto simp: access_ok_iff demo_mem_def)

end
