(* ===== verification/Kmalloc.thy ===== *)
theory Kmalloc
  imports Uaccess
begin

text \<open>
  The kernel's allocator as the modelled code uses it. \<open>kmalloc size m\<close> gives the address of the new
  object, 0 when there is no memory, and the memory after the call; \<open>kfree a m\<close> gives the memory after
  the call. Both are parameters of the operations that call them; \<open>kmalloc_ok\<close> is what the documented
  behaviour of \<open>kmalloc\<close> gives its callers. Memory that is allocated to nobody is not in the memory map,
  so that an access to it is an access the model does not let return. The lemmas are about copying into fresh objects.
\<close>

type_synonym kmalloc = "nat \<Rightarrow> mem \<Rightarrow> addr \<times> mem"
type_synonym kfree = "addr \<Rightarrow> mem \<Rightarrow> mem"

text \<open>What the allocator promises: no memory, or fresh mapped memory.\<close>

definition kmalloc_ok :: "kmalloc \<Rightarrow> bool" where
  "kmalloc_ok km = (\<forall>n m a m'. km n m = (a, m') \<longrightarrow>
     (if a = 0 then m' = m
      else mapped m' a n \<and> (\<forall>x\<in>region a n. m x = None) \<and> (\<forall>x. x \<notin> region a n \<longrightarrow> m' x = m x) \<and> unat a + n \<le> 2 ^ 32))"

lemma map_leD: "m \<subseteq>\<^sub>m m' \<Longrightarrow> m x = Some b \<Longrightarrow> m' x = Some b"
  by (metis domI map_le_def)

lemma cstr_mono: "cstr m a s \<Longrightarrow> m \<subseteq>\<^sub>m m' \<Longrightarrow> cstr m' a s"
proof (induction s arbitrary: a)
  case (Cons c s)
  then show ?case by (simp add: map_leD)
qed (simp add: map_leD)

lemma mapped_region: "mapped m a n = (\<forall>x\<in>region a n. m x \<noteq> None)"
  by (auto simp: mapped_def region_def)

lemma region_first: "0 < n \<Longrightarrow> a \<in> region a n"
  by (cases n) (simp_all add: region_Suc)

lemma region_mono: "n \<le> n' \<Longrightarrow> region a n \<subseteq> region a n'"
  by (auto simp: region_def)

text \<open>The copy into a fresh object: all memory there was before keeps its contents.\<close>

lemma fresh_strcpy:
  assumes km: "kmalloc_ok km" "km k m = (a, m1)" "a \<noteq> 0" and s: "cstr m src s" and len: "j + Suc (length s) \<le> k"
  shows "\<exists>m2. strcpy (a + of_nat j) src m1 = Some (a + of_nat j, m2) \<and> cstr m2 (a + of_nat j) s \<and> m \<subseteq>\<^sub>m m2 \<and>
    m a = None \<and> (\<forall>x\<in>region a k. m2 x \<noteq> None)"
proof -
  let ?d = "a + of_nat j" and ?n = "Suc (length s)"
  have f: "mapped m1 a k" "\<forall>x\<in>region a k. m x = None" "\<forall>x. x \<notin> region a k \<longrightarrow> m1 x = m x" "unat a + k \<le> 2 ^ 32"
    using km by (fastforce simp: kmalloc_ok_def)+
  have sub: "region ?d ?n \<subseteq> region a k"
    using region_add [of a j ?n] region_mono [OF len, of a] by auto
  have le: "m \<subseteq>\<^sub>m m1" using f(2,3) by (auto simp: map_le_def dom_def) (metis option.distinct(1))
  have src: "region src ?n \<subseteq> dom m" using cstr_mapped [OF s] by (auto simp: mapped_def region_def)
  have dj: "region ?d ?n \<inter> region src ?n = {}" 
  proof -
    have "region a k \<inter> dom m = {}" using f(2) by auto
    then show ?thesis using sub src by blast
  qed
  have mp: "mapped m1 ?d ?n" using f(1) sub unfolding mapped_region by blast
  have "?n \<le> 2 ^ 32" using len f(4) by simp
  from strcpy_loop_cstr [OF cstr_mono [OF s le] mp this dj]
  obtain m2 where m2: "strcpy_loop ?d src m1 = Some m2" "cstr m2 ?d s" "\<forall>x. x \<notin> region ?d ?n \<longrightarrow> m2 x = m1 x" "dom m2 = dom m1" by blast
  have "m \<subseteq>\<^sub>m m2" unfolding map_le_def
  proof
    fix x assume x: "x \<in> dom m"
    then have "x \<notin> region ?d ?n" using sub f(2) by auto
    then show "m x = m2 x" using m2(3) le x by (auto simp: map_le_def)
  qed
  moreover have "a \<in> region a k" using len by (simp add: region_first)
  moreover have "m2 x \<noteq> None" if "x \<in> region a k" for x
  proof -
    have "x \<in> dom m1" using that f(1) by (auto simp: mapped_def region_def)
    then show ?thesis using m2(4) by (metis domIff)
  qed
  ultimately show ?thesis using m2(1,2) f(2) by (simp add: strcpy_def)
qed

lemma mapped_bytes: "mapped m a n \<Longrightarrow> \<exists>bs. bytes_at m a bs \<and> length bs = n"
proof (induction n arbitrary: a)
  case (Suc n)
  then obtain b bs where "m a = Some b" "bytes_at m (a + 1) bs" "length bs = n" by (fastforce simp: mapped_Suc)
  then show ?case by (intro exI [of _ "b # bs"]) simp
qed simp

lemma cstr_transport:
  assumes "cstr m a s" "bytes_at m a bs" "length s < length bs" "bytes_at m' b bs"
  shows "cstr m' b s"
proof -
  have "take (Suc (length s)) bs = s @ [0]"
    using bytes_at_unique [OF bytes_at_take [OF assms(2), of "Suc (length s)"], of "s @ [0]"] assms(1,3) by (simp add: cstr_def)
  with bytes_at_take [OF assms(4), of "Suc (length s)"] assms(1) show ?thesis by (simp add: cstr_def)
qed

section \<open>An allocator with one object\<close>

definition demo_kmalloc :: kmalloc where
  "demo_kmalloc n m = (if n \<le> 64 \<and> (\<forall>i\<in>set [0..<n]. m (0x8000 + of_nat i) = None)
     then (0x8000, \<lambda>x. if x \<in> region 0x8000 n then Some 0 else m x) else (0, m))"

lemma demo_kmalloc_ok: "kmalloc_ok demo_kmalloc"
  by (auto simp: kmalloc_ok_def demo_kmalloc_def mapped_region region_def)

end
