(* ===== verification/Magic.thy ===== *)
theory Magic
  imports Sched Kmalloc
begin

text \<open>
  The system calls of the first assignment, \<open>arch/i386/kernel/magic_all.c\<close>: wands, attacks, stolen
  secrets, and the clock of the second assignment. The secrets live in kernel memory as C strings,
  the stolen ones in \<open>struct secrets_list\<close> objects (a list node of 8 bytes, then 32 characters) on
  a list per process. The allocator is a parameter: \<open>kmalloc size m\<close> is the address (0 when there is
  no memory) and the memory after the call, \<open>kfree a m\<close> the memory after the call.

  The three versions of the file (the first one of HW1, the corrected one, HW2) differ in the
  numbers they return for errors only, so the calls are written once over a table of numbers.

  The abstract specification is a wizard per process: whether it has a wand, its health, power and
  secret, and the list of secrets it stole. \<open>magic_rel\<close> relates the two, and every call implements
  the abstract one.
\<close>

section \<open>Looking up a process\<close>

definition pid_hashfn :: "int \<Rightarrow> nat" where
  "pid_hashfn x = nat ((drop_bit 8 x XOR x) AND 1023)"

partial_function (option) find_task_chain :: "int \<Rightarrow> task option \<Rightarrow> kst \<Rightarrow> task option option" where
  "find_task_chain n p st = (case p of
     None \<Rightarrow> Some None
   | Some q \<Rightarrow> if pid (tasks st q) \<noteq> n then find_task_chain n (pidhash_next (tasks st q)) st else Some (Some q))"

definition find_task_by_pid :: "int \<Rightarrow> kst \<Rightarrow> task option option" where
  "find_task_by_pid n st = find_task_chain n (pidhash st (pid_hashfn n)) st"

section \<open>Error numbers\<close>

record codes =
  wand_exists :: int    wand_fault :: int     wand_inval :: int     wand_nomem :: int
  att_srch :: int       att_perm :: int       att_down :: int       att_refused :: int
  leg_srch :: int       leg_perm :: int       leg_exists :: int     leg_nomem :: int   leg_fault :: int
  lst_perm :: int       lst_fault :: int

text \<open>The corrected version of HW1 and the one of HW2.\<close>
definition errno_codes :: codes where
  "errno_codes = \<lparr> wand_exists = EEXIST, wand_fault = EFAULT, wand_inval = EINVAL, wand_nomem = ENOMEM,
     att_srch = ESRCH, att_perm = EPERM, att_down = EHOSTDOWN, att_refused = ECONNREFUSED,
     leg_srch = ESRCH, leg_perm = EPERM, leg_exists = EEXIST, leg_nomem = ENOMEM, leg_fault = EFAULT,
     lst_perm = EPERM, lst_fault = EFAULT \<rparr>"

text \<open>The first version.\<close>
definition first_codes :: codes where
  "first_codes = \<lparr> wand_exists = 1, wand_fault = 2, wand_inval = 3, wand_nomem = 4,
     att_srch = 1, att_perm = 2, att_down = 3, att_refused = 5,
     leg_srch = 1, leg_perm = 2, leg_exists = 3, leg_nomem = 4, leg_fault = 5,
     lst_perm = 2, lst_fault = 1 \<rparr>"

section \<open>The calls\<close>

abbreviation (input) SECRET_MAXSIZE :: nat where "SECRET_MAXSIZE \<equiv> 32"

definition maxx :: "u32 \<Rightarrow> u32 \<Rightarrow> u32" where
  "maxx a b = (if sint a > sint b then a else b)"

text \<open>The macro \<open>max\<close> of \<open>include/linux/kernel.h\<close>, which the code uses instead, on \<open>int\<close>.\<close>
definition kmax :: "u32 \<Rightarrow> u32 \<Rightarrow> u32" where
  "kmax x y = (if sint x > sint y then x else y)"

text \<open>\<open>list_entry\<close> of a node of a list of secrets, and the address of its characters.\<close>
definition sec_entry :: "node \<Rightarrow> addr option" where
  "sec_entry n = (case n of SecNode a \<Rightarrow> Some a | _ \<Rightarrow> None)"

abbreviation sec_chars :: "addr \<Rightarrow> addr" where "sec_chars e \<equiv> e + 8"

text \<open>The head a process's \<open>secrets_ptr\<close> points to.\<close>
definition sec_head :: "task \<Rightarrow> kst \<Rightarrow> node option" where
  "sec_head p st = (if secrets_ptr (tasks st p) = 0 then None else Some (SecHead (secrets_ptr (tasks st p))))"

partial_function (option) knows_secret :: "node \<Rightarrow> node \<Rightarrow> addr \<Rightarrow> kst \<Rightarrow> bool option" where
  "knows_secret head itr sec st =
     (if itr = head then Some False
      else do {
        e \<leftarrow> sec_entry itr;
        r \<leftarrow> strcmp (sec_chars e) sec (mem st);
        if r = 0 then Some True else knows_secret head (nxt (lists st) itr) sec st })"

fun secret_len :: "nat \<Rightarrow> addr \<Rightarrow> mem \<Rightarrow> nat option" where
  "secret_len 0 a m = Some 0"
| "secret_len (Suc n) a m = do {
     c \<leftarrow> m a;
     if c = 0 then Some 1 else do { l \<leftarrow> secret_len n (a + 1) m; Some (Suc l) } }"

definition get_wand :: "codes \<Rightarrow> kmalloc \<Rightarrow> kfree \<Rightarrow> u32 \<Rightarrow> addr \<Rightarrow> kst \<Rightarrow> (int \<times> kst) option" where
  "get_wand ec kmalloc kfree pw secret st = do {
     let p = cur st;
     if holding_wand (tasks st p) \<noteq> 0 then Some (- wand_exists ec, st)
     else if secret = 0 then Some (- wand_fault ec, st)
     else do {
       c \<leftarrow> mem st secret;
       if c = 0 then Some (- wand_inval ec, st)
       else do {
         len \<leftarrow> secret_len SECRET_MAXSIZE secret (mem st);
         let (a, m) = kmalloc len (mem st);
         let st = (upd_task p (\<lambda>t. t\<lparr>my_secret := a\<rparr>) st)\<lparr>mem := m\<rparr>;
         if a = 0 then Some (- wand_nomem ec, st)
         else do {
           (_, m) \<leftarrow> strcpy a secret (mem st);
           let st = st\<lparr>mem := m\<rparr>;
           r \<leftarrow> strcmp a secret (mem st);
           if r \<noteq> 0 then Some (- wand_fault ec, st\<lparr>mem := kfree a (mem st)\<rparr>)
           else Some (0, upd_task p (\<lambda>t. t\<lparr>power := pw, holding_wand := 1, health := 100\<rparr>) st) } } } }"

definition attack :: "codes \<Rightarrow> int \<Rightarrow> kst \<Rightarrow> (int \<times> kst) option" where
  "attack ec n st = do {
     let attacker = cur st;
     target \<leftarrow> find_task_by_pid n st;
     case target of
       None \<Rightarrow> Some (- att_srch ec, st)
     | Some target \<Rightarrow>
       if holding_wand (tasks st attacker) = 0 \<or> holding_wand (tasks st target) = 0 then Some (- att_perm ec, st)
       else if health (tasks st attacker) = 0 \<or> health (tasks st target) = 0 then Some (- att_down ec, st)
       else if attacker = target then Some (- att_refused ec, st)
       else do {
         head \<leftarrow> sec_head target st;
         known \<leftarrow> knows_secret head (nxt (lists st) head) (my_secret (tasks st attacker)) st;
         if known then Some (- att_refused ec, st)
         else do {
           let dmg = power (tasks st attacker);
           let h = health (tasks st target);
           let st = upd_task target (\<lambda>t. t\<lparr>health := kmax (h - dmg) 0\<rparr>) st;
           Some (sint (health (tasks st target)), st) } } }"

definition legilimens :: "codes \<Rightarrow> kmalloc \<Rightarrow> kfree \<Rightarrow> int \<Rightarrow> kst \<Rightarrow> (int \<times> kst) option" where
  "legilimens ec kmalloc kfree n st = do {
     let attacker = cur st;
     target \<leftarrow> find_task_by_pid n st;
     if target = Some attacker then Some (0, st)
     else case target of
       None \<Rightarrow> Some (- leg_srch ec, st)
     | Some target \<Rightarrow>
       if holding_wand (tasks st attacker) = 0 \<or> holding_wand (tasks st target) = 0 then Some (- leg_perm ec, st)
       else do {
         head \<leftarrow> sec_head attacker st;
         known \<leftarrow> knows_secret head (nxt (lists st) head) (my_secret (tasks st target)) st;
         if known then Some (- leg_exists ec, st)
         else do {
           let (newSec, m) = kmalloc 40 (mem st);
           let st = st\<lparr>mem := m\<rparr>;
           if newSec = 0 then Some (- leg_nomem ec, st)
           else do {
             (d, m) \<leftarrow> strcpy (sec_chars newSec) (my_secret (tasks st target)) (mem st);
             let st = st\<lparr>mem := m\<rparr>;
             if d = 0 then Some (- leg_fault ec, st\<lparr>mem := kfree newSec (mem st)\<rparr>)
             else Some (0, upd_lists (list_add_tail (SecNode newSec) head) st) } } } }"

text \<open>The loop that clears the entries from the number of secrets on.\<close>
fun pad_secrets :: "nat \<Rightarrow> nat \<Rightarrow> addr \<Rightarrow> mem \<Rightarrow> mem option" where
  "pad_secrets 0 j secrets m = Some m"
| "pad_secrets (Suc n) j secrets m = do {
     m \<leftarrow> store (secrets + of_nat (32 * j)) 0 m;
     pad_secrets n (Suc j) secrets m }"

text \<open>
  The copying loop with \<open>n\<close> entries of the user's array to go: \<open>Inl\<close> the memory when a copy failed,
  \<open>Inr\<close> the number of secrets copied and the memory.
\<close>
fun copy_secrets :: "nat \<Rightarrow> nat \<Rightarrow> nat \<Rightarrow> nat \<Rightarrow> node \<Rightarrow> addr \<Rightarrow> addr \<Rightarrow> node lheap \<Rightarrow> mem \<Rightarrow> (mem + nat \<times> mem) option" where
  "copy_secrets 0 i counter list_len ptr secrets limit h m = Some (Inr (i, m))"
| "copy_secrets (Suc n) i counter list_len ptr secrets limit h m =
     (if counter = 0 then do {
        m \<leftarrow> pad_secrets (i + Suc n - list_len) list_len secrets m;
        Some (Inr (i, m)) }
      else do {
        e \<leftarrow> sec_entry ptr;
        let (r, m) = constant_copy_to_user limit (secrets + of_nat (32 * i)) (sec_chars e) 32 m;
        if r \<noteq> 0 then Some (Inl m)
        else copy_secrets n (Suc i) (counter - 1) list_len (nxt h ptr) secrets limit h m })"

text \<open>
  The first loop of the function walks over the list and prints each entry (\<open>printk\<close>). It changes nothing of
  the state and is left out; that the walk ends is checked by the second loop, which counts the entries.
\<close>
definition list_secrets :: "codes \<Rightarrow> addr \<Rightarrow> u32 \<Rightarrow> kst \<Rightarrow> (int \<times> kst) option" where
  "list_secrets ec secrets sz st = do {
     let p = cur st;
     if holding_wand (tasks st p) = 0 then Some (- lst_perm ec, st)
     else do {
       head \<leftarrow> sec_head p st;
       ns \<leftarrow> list_for_each (lists st) head (nxt (lists st) head);
       let list_len = length ns;
       if sz = 0 then Some (int list_len, st)
       else if secrets = 0 then Some (- lst_fault ec, st)
       else do {
         r \<leftarrow> copy_secrets (unat sz) 0 list_len list_len (nxt (lists st) head) secrets
                (addr_limit (tasks st p)) (lists st) (mem st);
         case r of
           Inl m \<Rightarrow> Some (- lst_fault ec, st\<lparr>mem := m\<rparr>)
         | Inr (stolen, m) \<Rightarrow> Some (int list_len - int stolen, st\<lparr>mem := m\<rparr>) } } }"

definition sys_magic_get_wand :: "kmalloc \<Rightarrow> kfree \<Rightarrow> u32 \<Rightarrow> addr \<Rightarrow> kst \<Rightarrow> (int \<times> kst) option" where
  "sys_magic_get_wand = get_wand errno_codes"

definition sys_magic_attack :: "int \<Rightarrow> kst \<Rightarrow> (int \<times> kst) option" where
  "sys_magic_attack = attack errno_codes"

definition sys_magic_legilimens :: "kmalloc \<Rightarrow> kfree \<Rightarrow> int \<Rightarrow> kst \<Rightarrow> (int \<times> kst) option" where
  "sys_magic_legilimens = legilimens errno_codes"

definition sys_magic_list_secrets :: "addr \<Rightarrow> u32 \<Rightarrow> kst \<Rightarrow> (int \<times> kst) option" where
  "sys_magic_list_secrets = list_secrets errno_codes"

definition sys_magic_clock :: "u32 \<Rightarrow> kst \<Rightarrow> int \<times> kst" where
  "sys_magic_clock seconds st =
     (let p = cur st in
      if holding_wand (tasks st p) = 0 then (- EPERM, st)
      else (let newjiffies = seconds * HZ in
        (0, upd_task p (\<lambda>t. t\<lparr>magic_time := newjiffies, magic_call_time := jiffies st\<rparr>) st)))"

text \<open>The first version of HW1.\<close>

definition first_get_wand :: "kmalloc \<Rightarrow> kfree \<Rightarrow> u32 \<Rightarrow> addr \<Rightarrow> kst \<Rightarrow> (int \<times> kst) option" where
  "first_get_wand = get_wand first_codes"

definition first_attack :: "int \<Rightarrow> kst \<Rightarrow> (int \<times> kst) option" where
  "first_attack = attack first_codes"

definition first_legilimens :: "kmalloc \<Rightarrow> kfree \<Rightarrow> int \<Rightarrow> kst \<Rightarrow> (int \<times> kst) option" where
  "first_legilimens = legilimens first_codes"

definition first_list_secrets :: "addr \<Rightarrow> u32 \<Rightarrow> kst \<Rightarrow> (int \<times> kst) option" where
  "first_list_secrets = list_secrets first_codes"

section \<open>The abstract specification\<close>

record wizard =
  has_wand :: bool
  hp :: u32
  pw :: u32
  secret :: "byte list"
  stolen :: "byte list list"

text \<open>What the calls of process \<open>c\<close> return and do to the wizards.\<close>

definition abs_attack :: "task \<Rightarrow> task option \<Rightarrow> (task \<Rightarrow> wizard) \<Rightarrow> int \<times> (task \<Rightarrow> wizard)" where
  "abs_attack c target W = (case target of None \<Rightarrow> (- ESRCH, W) | Some t \<Rightarrow>
     if \<not> has_wand (W c) \<or> \<not> has_wand (W t) then (- EPERM, W)
     else if hp (W c) = 0 \<or> hp (W t) = 0 then (- EHOSTDOWN, W)
     else if c = t \<or> secret (W c) \<in> set (stolen (W t)) then (- ECONNREFUSED, W)
     else (let h = kmax (hp (W t) - pw (W c)) 0 in (sint h, W(t := (W t)\<lparr>hp := h\<rparr>))))"

text \<open>\<open>room\<close>: the allocator has memory. No string is the \<open>NULL\<close> pointer.\<close>
definition abs_get_wand :: "bool \<Rightarrow> task \<Rightarrow> u32 \<Rightarrow> byte list option \<Rightarrow> (task \<Rightarrow> wizard) \<Rightarrow> int \<times> (task \<Rightarrow> wizard)" where
  "abs_get_wand room c p str W =
     (if has_wand (W c) then (- EEXIST, W) else case str of None \<Rightarrow> (- EFAULT, W) | Some s \<Rightarrow>
      if s = [] then (- EINVAL, W)
      else if \<not> room then (- ENOMEM, W)
      else (0, W(c := (W c)\<lparr>has_wand := True, hp := 100, pw := p, secret := s\<rparr>)))"

definition abs_legilimens :: "bool \<Rightarrow> task \<Rightarrow> task option \<Rightarrow> (task \<Rightarrow> wizard) \<Rightarrow> int \<times> (task \<Rightarrow> wizard)" where
  "abs_legilimens room c target W = (case target of None \<Rightarrow> (- ESRCH, W) | Some t \<Rightarrow>
     if t = c then (0, W)
     else if \<not> has_wand (W c) \<or> \<not> has_wand (W t) then (- EPERM, W)
     else if secret (W t) \<in> set (stolen (W c)) then (- EEXIST, W)
     else if \<not> room then (- ENOMEM, W)
     else (0, W(c := (W c)\<lparr>stolen := stolen (W c) @ [secret (W t)]\<rparr>)))"

text \<open>
  \<open>T\<close> are the processes; \<open>N p\<close> the addresses of the \<open>struct secrets_list\<close> objects of \<open>p\<close>. Lists of
  different processes share nothing, and the objects are in mapped memory.
\<close>

definition wizard_ok :: "kst \<Rightarrow> addr list \<Rightarrow> task_struct \<Rightarrow> wizard \<Rightarrow> bool" where
  "wizard_ok st ns t w = (secrets_ptr t \<noteq> 0 \<and> has_wand w = (holding_wand t \<noteq> 0) \<and> hp w = health t \<and> pw w = power t \<and>
     (has_wand w \<longrightarrow> cstr (mem st) (my_secret t) (secret w)) \<and>
     dlist (lists st) (SecHead (secrets_ptr t)) (map SecNode ns) \<and>
     list_all2 (\<lambda>n s. cstr (mem st) (sec_chars n) s) ns (stolen w))"

definition magic_rel :: "task set \<Rightarrow> (task \<Rightarrow> addr list) \<Rightarrow> kst \<Rightarrow> (task \<Rightarrow> wizard) \<Rightarrow> bool" where
  "magic_rel T N st W = ((\<forall>p\<in>T. wizard_ok st (N p) (tasks st p) (W p)) \<and>
     inj_on (\<lambda>p. secrets_ptr (tasks st p)) T \<and>
     (\<forall>p\<in>T. \<forall>q\<in>T. p \<noteq> q \<longrightarrow> set (N p) \<inter> set (N q) = {}) \<and>
     (\<forall>p\<in>T. \<forall>n\<in>set (N p). mem st n \<noteq> None))"

section \<open>Lemmas\<close>

lemma knows_secret_chain:
  assumes "chain (lists st) q (map SecNode ns) head" "SecNode ` set ns \<inter> {head} = {}"
    "list_all2 (\<lambda>n s. cstr (mem st) (sec_chars n) s) ns ss" "cstr (mem st) a s"
  shows "knows_secret head (nxt (lists st) q) a st = Some (s \<in> set ss)"
  using assms
proof (induction ns arbitrary: q ss)
  case Nil
  then show ?case by (subst knows_secret.simps) simp
next
  case (Cons n ns)
  then obtain s1 ss1 where ss: "ss = s1 # ss1" "cstr (mem st) (sec_chars n) s1"
    "list_all2 (\<lambda>n s. cstr (mem st) (sec_chars n) s) ns ss1" by (auto simp: list_all2_Cons1)
  have nx: "nxt (lists st) q = SecNode n" "chain (lists st) (SecNode n) (map SecNode ns) head" "SecNode n \<noteq> head"
    using Cons.prems(1,2) by auto
  obtain r where r: "strcmp (sec_chars n) a (mem st) = Some r" "r = 0 \<longleftrightarrow> s1 = s"
    using strcmp_cstr [OF ss(2) Cons.prems(4)] by blast
  show ?case
    using Cons.IH [OF nx(2) _ ss(3) Cons.prems(4)] Cons.prems(2) r nx(1,3)
    by (subst knows_secret.simps) (auto simp: ss(1) sec_entry_def)
qed

lemma knows_secret_ok:
  assumes "wizard_ok st ns (tasks st p) w" "cstr (mem st) a s"
  shows "\<exists>h. sec_head p st = Some h \<and> h = SecHead (secrets_ptr (tasks st p)) \<and>
    knows_secret h (nxt (lists st) h) a st = Some (s \<in> set (stolen w))"
  using assms knows_secret_chain [of st "SecHead (secrets_ptr (tasks st p))" ns "SecHead (secrets_ptr (tasks st p))"]
  by (auto simp: wizard_ok_def sec_head_def dlist_def)

lemma wizard_ok_cong:
  "mem st' = mem st \<Longrightarrow> lists st' = lists st \<Longrightarrow> wizard_ok st' ns t w = wizard_ok st ns t w"
  by (simp add: wizard_ok_def)

lemma magic_rel_health:
  assumes "magic_rel T N st W"
  shows "magic_rel T N (upd_task q (\<lambda>t. t\<lparr>health := h\<rparr>) st) (W(q := (W q)\<lparr>hp := h\<rparr>))"
proof -
  let ?s = "upd_task q (\<lambda>t. t\<lparr>health := h\<rparr>) st"
  have "wizard_ok ?s (N p) (tasks ?s p) ((W(q := (W q)\<lparr>hp := h\<rparr>)) p)" if "p \<in> T" for p
  proof -
    have "wizard_ok st (N p) (tasks st p) (W p)" using assms that by (simp add: magic_rel_def)
    then show ?thesis by (cases "p = q") (auto simp: wizard_ok_def)
  qed
  moreover have "secrets_ptr (tasks ?s p) = secrets_ptr (tasks st p)" for p by simp
  ultimately show ?thesis using assms by (simp add: magic_rel_def)
qed

text \<open>A new object of the caller in memory that has grown.\<close>

lemma magic_rel_steal:
  assumes rel: "magic_rel T N st W" and c: "c \<in> T" and a: "mem st a = None" "m a \<noteq> None" and le: "mem st \<subseteq>\<^sub>m m"
    and s: "cstr m (sec_chars a) s"
  shows "magic_rel T (N(c := N c @ [a])) (upd_lists (list_add_tail (SecNode a) (SecHead (secrets_ptr (tasks st c)))) (st\<lparr>mem := m\<rparr>))
    (W(c := (W c)\<lparr>stolen := stolen (W c) @ [s]\<rparr>))"
proof -
  let ?h = "SecHead (secrets_ptr (tasks st c))"
  let ?st = "upd_lists (list_add_tail (SecNode a) ?h) (st\<lparr>mem := m\<rparr>)"
  let ?N = "N(c := N c @ [a])" and ?W = "W(c := (W c)\<lparr>stolen := stolen (W c) @ [s]\<rparr>)"
  have ok: "wizard_ok st (N p) (tasks st p) (W p)" if "p \<in> T" for p using rel that by (simp add: magic_rel_def)
  have new: "a \<notin> set (N p)" if "p \<in> T" for p using rel a(1) that by (force simp: magic_rel_def)
  have dc: "dlist (lists st) ?h (map SecNode (N c))" using ok [OF c] by (simp add: wizard_ok_def)
  have mono: "list_all2 (\<lambda>n s. cstr m (sec_chars n) s) ns ss" if "list_all2 (\<lambda>n s. cstr (mem st) (sec_chars n) s) ns ss" for ns ss
    using that by (rule list_all2_mono) (rule cstr_mono [OF _ le])
  have "wizard_ok ?st (?N p) (tasks ?st p) (?W p)" if p: "p \<in> T" for p
  proof (cases "p = c")
    case True
    have "dlist (list_add_tail (SecNode a) ?h (lists st)) ?h (map SecNode (N c) @ [SecNode a])"
      by (rule dlist_list_add_tail [OF dc]) (use new [OF c] in auto)
    with True ok [OF c] mono s le show ?thesis by (auto simp: wizard_ok_def list_all2_appendI cstr_mono)
  next
    case False
    have "secrets_ptr (tasks st p) \<noteq> secrets_ptr (tasks st c)" "set (N p) \<inter> set (N c) = {}"
      using rel p c False by (auto simp: magic_rel_def inj_on_def)
    then have "dlist (list_add_tail (SecNode a) ?h (lists st)) (SecHead (secrets_ptr (tasks st p))) (map SecNode (N p))"
      using dlist_frame_add(2) [OF dc, of "SecHead (secrets_ptr (tasks st p))" "map SecNode (N p)" "SecNode a"] ok [OF p] new [OF p]
      by (auto simp: wizard_ok_def)
    with False ok [OF p] mono le show ?thesis by (auto simp: wizard_ok_def cstr_mono)
  qed
  moreover have "set (?N p) \<inter> set (?N q) = {}" if "p \<in> T" "q \<in> T" "p \<noteq> q" for p q
  proof -
    have "set (N p) \<inter> set (N q) = {}" using rel that by (simp add: magic_rel_def)
    then show ?thesis using new that by auto
  qed
  moreover have "m n \<noteq> None" if "p \<in> T" "n \<in> set (?N p)" for p n
  proof (cases "n = a")
    case False
    with that have "mem st n \<noteq> None" using rel c by (auto simp: magic_rel_def split: if_splits)
    then show ?thesis using map_leD [OF le] by auto
  qed (use a in simp)
  ultimately show ?thesis using rel by (simp add: magic_rel_def)
qed

text \<open>The state after a wand was given: \<open>my_secret\<close> points to the new copy.\<close>

lemma magic_rel_wand:
  assumes rel: "magic_rel T N st W" and le: "mem st \<subseteq>\<^sub>m m" and s: "cstr m a s"
  shows "magic_rel T N (upd_task c (\<lambda>t. t\<lparr>my_secret := a, power := p, holding_wand := 1, health := 100\<rparr>) (st\<lparr>mem := m\<rparr>))
    (W(c := (W c)\<lparr>has_wand := True, hp := 100, pw := p, secret := s\<rparr>))" (is "magic_rel T N ?s ?W")
proof -
  have mono: "list_all2 (\<lambda>n s. cstr m (sec_chars n) s) ns ss" if "list_all2 (\<lambda>n s. cstr (mem st) (sec_chars n) s) ns ss" for ns ss
    using that by (rule list_all2_mono) (rule cstr_mono [OF _ le])
  have "wizard_ok ?s (N q) (tasks ?s q) (?W q)" if "q \<in> T" for q
  proof -
    have "wizard_ok st (N q) (tasks st q) (W q)" using rel that by (simp add: magic_rel_def)
    then show ?thesis using mono s le by (cases "q = c") (auto simp: wizard_ok_def cstr_mono)
  qed
  moreover have "secrets_ptr (tasks ?s q) = secrets_ptr (tasks st q)" for q by simp
  moreover have "mem ?s n \<noteq> None" if "q \<in> T" "n \<in> set (N q)" for q n
    using rel that map_leD [OF le] by (fastforce simp: magic_rel_def)
  ultimately show ?thesis using rel by (simp add: magic_rel_def)
qed

lemma mem_self: "mem s = m \<Longrightarrow> s\<lparr>mem := m\<rparr> = (s :: kst)"
  by (cases s) simp

lemma magic_rel_no_secret:
  assumes "magic_rel T N st W" "\<not> has_wand (W c)"
  shows "magic_rel T N (upd_task c (\<lambda>t. t\<lparr>my_secret := a\<rparr>) st) W"
proof -
  have "wizard_ok (upd_task c (\<lambda>t. t\<lparr>my_secret := a\<rparr>) st) (N q) (tasks (upd_task c (\<lambda>t. t\<lparr>my_secret := a\<rparr>) st) q) (W q)" if "q \<in> T" for q
    using assms that by (cases "q = c") (auto simp: wizard_ok_def magic_rel_def)
  moreover have "secrets_ptr (tasks (upd_task c (\<lambda>t. t\<lparr>my_secret := a\<rparr>) st) q) = secrets_ptr (tasks st q)" for q by simp
  ultimately show ?thesis using assms(1) by (simp add: magic_rel_def)
qed

lemma secret_len_cstr: "cstr m a s \<Longrightarrow> secret_len n a m = Some (min n (Suc (length s)))"
proof (induction n arbitrary: a s)
  case (Suc n)
  then show ?case by (cases s) auto
qed simp

text \<open>The entries of the user's array.\<close>

lemma entry_Suc: "(secrets :: addr) + of_nat (32 * Suc i) = (secrets + of_nat (32 * i)) + of_nat 32"
  by simp

lemma entry_off: "(secrets :: addr) + of_nat (32 * (i + j)) = secrets + of_nat (32 * i) + of_nat (32 * j)"
  by simp

lemma entry_split:
  assumes "unat (b :: addr) + 32 * Suc n \<le> 2 ^ 32"
  shows "region b (32 * Suc n) = region b 32 \<union> region (b + of_nat 32) (32 * n)" "region b 32 \<inter> region (b + of_nat 32) (32 * n) = {}"
proof -
  show "region b (32 * Suc n) = region b 32 \<union> region (b + of_nat 32) (32 * n)" using region_add [of b 32 "32 * n"] by simp
  show "region b 32 \<inter> region (b + of_nat 32) (32 * n) = {}"
  proof (cases "n = 0")
    case False
    then have u: "unat (b + of_nat 32) = unat b + 32" using assms by (simp add: unat_plus_if_size word_size)
    have l: "unat b + 32 \<le> 2 ^ 32" "unat (b + of_nat 32) + 32 * n \<le> 2 ^ 32" using assms unfolding u by simp_all
    show ?thesis unfolding set_eq_iff Int_iff region_iff [OF l(1)] region_iff [OF l(2)] u by auto
  qed simp
qed

lemma pad_secrets_ok:
  assumes "mapped m (secrets + of_nat (32 * j)) (32 * n)" "unat (secrets + of_nat (32 * j)) + 32 * n \<le> 2 ^ 32"
  shows "\<exists>m'. pad_secrets n j secrets m = Some m' \<and> (\<forall>k<n. m' (secrets + of_nat (32 * (j + k))) = Some 0) \<and>
    (\<forall>x. x \<notin> region (secrets + of_nat (32 * j)) (32 * n) \<longrightarrow> m' x = m x) \<and> dom m' = dom m"
  using assms
proof (induction n arbitrary: j m)
  case (Suc n)
  let ?b = "secrets + of_nat (32 * j)" and ?c = "secrets + of_nat (32 * Suc j)"
  have c: "?c = ?b + of_nat 32" by (rule entry_Suc)
  note es = entry_split [OF Suc.prems(2)]
  have b: "?b \<in> region ?b 32" by (simp add: region_first)
  have mp: "m ?b \<noteq> None" "mapped (m(?b \<mapsto> 0)) ?c (32 * n)"
    using Suc.prems(1) es(1) b unfolding mapped_region c by auto
  have u: "unat ?c + 32 * n \<le> 2 ^ 32"
  proof (cases "n = 0")
    case True
    then show ?thesis using unat_u32 [of ?c] by simp
  next
    case False
    then show ?thesis using Suc.prems(2) unfolding c by (simp add: unat_plus_if_size word_size)
  qed
  obtain m' where m': "pad_secrets n (Suc j) secrets (m(?b \<mapsto> 0)) = Some m'" "\<forall>k<n. m' (secrets + of_nat (32 * (Suc j + k))) = Some 0"
    "\<forall>x. x \<notin> region ?c (32 * n) \<longrightarrow> m' x = (m(?b \<mapsto> 0)) x" "dom m' = dom (m(?b \<mapsto> 0))"
    using Suc.IH [OF mp(2) u] by blast
  have nb: "?b \<notin> region ?c (32 * n)" using es(2) b unfolding c by blast
  have "m' (secrets + of_nat (32 * (j + k))) = Some 0" if "k < Suc n" for k
  proof (cases k)
    case 0
    then show ?thesis using m'(3) nb by simp
  next
    case (Suc k')
    then have e: "j + k = Suc j + k'" by simp
    show ?thesis unfolding e using m'(2) that Suc by blast
  qed
  moreover have "m' x = m x" if "x \<notin> region ?b (32 * Suc n)" for x
    using that m'(3) b unfolding es(1) c by auto
  moreover have "dom m' = dom m" using m'(4) mp(1) by auto
  moreover have "pad_secrets (Suc n) j secrets m = Some m'" using m'(1) mp(1) by (simp add: store_mapped)
  ultimately show ?case by blast
qed simp

lemma copy_secrets_ok:
  assumes "chain h q (map SecNode ns) head" "unat secrets + 32 * (i + n) \<le> unat limit"
    "mapped m (secrets + of_nat (32 * i)) (32 * n)"
    "\<forall>e\<in>set ns. mapped m (sec_chars e) 32 \<and> region (secrets + of_nat (32 * i)) (32 * n) \<inter> region (sec_chars e) 32 = {}"
  shows "\<exists>m'. copy_secrets n i (length ns) (i + length ns) (nxt h q) secrets limit h m = Some (Inr (i + min n (length ns), m')) \<and>
    (\<forall>j<min n (length ns). \<forall>bs. bytes_at m (sec_chars (ns ! j)) bs \<longrightarrow> length bs = 32 \<longrightarrow>
       bytes_at m' (secrets + of_nat (32 * (i + j))) bs) \<and>
    (\<forall>j. length ns \<le> j \<longrightarrow> j < n \<longrightarrow> m' (secrets + of_nat (32 * (i + j))) = Some 0) \<and>
    (\<forall>x. x \<notin> region (secrets + of_nat (32 * i)) (32 * n) \<longrightarrow> m' x = m x)"
  using assms
proof (induction n arbitrary: i q ns m)
  case (Suc n)
  let ?b = "secrets + of_nat (32 * i)" and ?c = "secrets + of_nat (32 * Suc i)"
  have lim: "unat limit < 2 ^ 32" by (rule unat_u32)
  have "unat (of_nat (32 * i) :: u32) = 32 * i" using Suc.prems(2) lim
    by (simp add: unsigned_of_nat take_bit_nat_eq_self del: of_nat_mult)
  then have ub: "unat ?b = unat secrets + 32 * i" using Suc.prems(2) lim by (simp add: unat_plus_if_size word_size)
  have u: "unat ?b + 32 * Suc n \<le> 2 ^ 32" using Suc.prems(2) lim unfolding ub by simp
  have c: "?c = ?b + of_nat 32" by (rule entry_Suc)
  note es = entry_split [OF u]
  show ?case
  proof (cases ns)
    case Nil
    obtain m' where "pad_secrets (Suc n) i secrets m = Some m'" "\<forall>k<Suc n. m' (secrets + of_nat (32 * (i + k))) = Some 0"
      "\<forall>x. x \<notin> region ?b (32 * Suc n) \<longrightarrow> m' x = m x"
      using pad_secrets_ok [OF Suc.prems(3) u] by blast
    with Nil show ?thesis by (auto simp del: pad_secrets.simps)
  next
    case (Cons e ns')
    have e: "nxt h q = SecNode e" "chain h (SecNode e) (map SecNode ns') head" using Suc.prems(1) Cons by auto
    have mp: "mapped m ?b 32" "mapped m ?c (32 * n)" using Suc.prems(3) es(1) unfolding mapped_region c by auto
    have dj: "region ?b 32 \<inter> region (sec_chars e) 32 = {}" using Suc.prems(4) Cons unfolding es(1) by auto
    obtain bs where bs: "bytes_at m (sec_chars e) bs" "length bs = 32" using mapped_bytes Suc.prems(4) Cons by force
    obtain m1 where m1: "constant_copy_user ?b (sec_chars e) 32 m = (0, m1)" "put m ?b bs = Some m1"
      using constant_copy_user_ok [OF bs mp(1) _ dj] by auto
    have fr: "bytes_at m1 ?b bs" "\<forall>x. x \<notin> region ?b 32 \<longrightarrow> m1 x = m x" "dom m1 = dom m"
      using put_ok [of m ?b bs] mp(1) bs(2) m1(2) by auto
    have "access_ok limit ?b 32" using Suc.prems(2) unfolding access_ok_iff ub by simp
    then have cp: "constant_copy_to_user limit ?b (sec_chars e) 32 m = (0, m1)" using m1(1) by (simp add: constant_copy_to_user_def)
    have l: "unat secrets + 32 * (Suc i + n) \<le> unat limit" using Suc.prems(2) by simp
    have rest: "\<forall>e\<in>set ns'. mapped m1 (sec_chars e) 32 \<and> region ?c (32 * n) \<inter> region (sec_chars e) 32 = {}"
      using Suc.prems(4) Cons mapped_dom [OF _ fr(3)] unfolding es(1) c by auto
    obtain m' where m': "copy_secrets n (Suc i) (length ns') (Suc i + length ns') (nxt h (SecNode e)) secrets limit h m1 =
        Some (Inr (Suc i + min n (length ns'), m'))"
      "\<forall>j<min n (length ns'). \<forall>bs. bytes_at m1 (sec_chars (ns' ! j)) bs \<longrightarrow> length bs = 32 \<longrightarrow>
         bytes_at m' (secrets + of_nat (32 * (Suc i + j))) bs"
      "\<forall>j. length ns' \<le> j \<longrightarrow> j < n \<longrightarrow> m' (secrets + of_nat (32 * (Suc i + j))) = Some 0"
      "\<forall>x. x \<notin> region ?c (32 * n) \<longrightarrow> m' x = m1 x"
      using Suc.IH [OF e(2) l mapped_dom [OF mp(2) fr(3)] rest] by blast
    have b': "bytes_at m' ?b bs"
      using bytes_at_cong [of ?b bs m' m1] fr(1) m'(4) es(2) bs(2) unfolding c by (metis disjoint_iff)
    show ?thesis
    proof (intro exI [of _ m'] conjI allI impI)
      show "copy_secrets (Suc n) i (length ns) (i + length ns) (nxt h q) secrets limit h m =
          Some (Inr (i + min (Suc n) (length ns), m'))"
        using m'(1) cp e(1) Cons by (simp add: sec_entry_def)
      show "m' x = m x" if "x \<notin> region ?b (32 * Suc n)" for x
        using that m'(4) fr(2) unfolding es(1) c by auto
      show "m' (secrets + of_nat (32 * (i + j))) = Some 0" if jj: "length ns \<le> j" "j < Suc n" for j
      proof -
        obtain k where k: "j = Suc k" "length ns' \<le> k" "k < n" using jj Cons by (cases j) auto
        then have "i + j = Suc i + k" by simp
        then show ?thesis using m'(3) k by metis
      qed
      show "bytes_at m' (secrets + of_nat (32 * (i + j))) xs"
        if j: "j < min (Suc n) (length ns)" "bytes_at m (sec_chars (ns ! j)) xs" "length xs = 32" for j xs
      proof (cases j)
        case 0
        then have "xs = bs" using j bs Cons bytes_at_unique by simp
        then show ?thesis using b' 0 by simp
      next
        case (Suc k)
        have k: "k < min n (length ns')" "ns' ! k \<in> set ns" using j(1) Suc Cons by auto
        have "region ?b 32 \<inter> region (sec_chars (ns' ! k)) 32 = {}" using Suc.prems k(2) unfolding es(1) by blast
        then have "bytes_at m1 (sec_chars (ns' ! k)) xs"
          using bytes_at_cong [of "sec_chars (ns' ! k)" xs m1 m] fr(2) j(2,3) Suc Cons by (metis disjoint_iff nth_Cons_Suc)
        moreover have "i + j = Suc i + k" using Suc by simp
        ultimately show ?thesis using m'(2) k(1) j(3) by metis
      qed
    qed
  qed
qed auto

section \<open>Properties\<close>

text \<open>
  C4. \<open>sys_magic_attack\<close> returns what the abstract attack returns, on every branch, and
  leaves the wizards the abstract attack leaves: only the health of the target changes, it never
  becomes negative, and a target that stole the secret of the caller is not hurt.
\<close>
theorem attack_refines:
  assumes rel: "magic_rel T N st W" and c: "cur st \<in> T" and t: "find_task_by_pid n st = Some target" "set_option target \<subseteq> T"
  shows "\<exists>st'. sys_magic_attack n st = Some (fst (abs_attack (cur st) target W), st') \<and>
    magic_rel T N st' (snd (abs_attack (cur st) target W))"
proof (cases target)
  case None
  with t rel show ?thesis by (simp add: sys_magic_attack_def attack_def abs_attack_def errno_codes_def)
next
  case (Some q)
  have w: "wizard_ok st (N (cur st)) (tsk st) (W (cur st))" "wizard_ok st (N q) (tasks st q) (W q)"
    using rel c t Some by (auto simp: magic_rel_def)
  note d = sys_magic_attack_def attack_def abs_attack_def errno_codes_def
  consider "\<not> has_wand (W (cur st)) \<or> \<not> has_wand (W q)"
    | "has_wand (W (cur st))" "has_wand (W q)" "hp (W (cur st)) = 0 \<or> hp (W q) = 0"
    | "has_wand (W (cur st))" "has_wand (W q)" "hp (W (cur st)) \<noteq> 0" "hp (W q) \<noteq> 0" "cur st = q"
    | (main) "has_wand (W (cur st))" "has_wand (W q)" "hp (W (cur st)) \<noteq> 0" "hp (W q) \<noteq> 0" "cur st \<noteq> q" by blast
  then show ?thesis
  proof cases
    case main
    have "cstr (mem st) (my_secret (tsk st)) (secret (W (cur st)))" using w(1) main by (simp add: wizard_ok_def)
    from knows_secret_ok [OF w(2) this] obtain h where h: "sec_head q st = Some h"
      "knows_secret h (nxt (lists st) h) (my_secret (tsk st)) st = Some (secret (W (cur st)) \<in> set (stolen (W q)))" by blast
    have eq: "hp (W q) = health (tasks st q)" "pw (W (cur st)) = power (tsk st)" using w by (simp_all add: wizard_ok_def)
    have hw: "holding_wand (tsk st) \<noteq> 0" "holding_wand (tasks st q) \<noteq> 0" "health (tsk st) \<noteq> 0" "health (tasks st q) \<noteq> 0"
      using w main by (simp_all add: wizard_ok_def)
    note m = magic_rel_health [OF rel, of q "kmax (health (tasks st q) - power (tsk st)) 0"]
    show ?thesis
      using main h hw t(1) Some rel m unfolding d by (simp add: eq Let_def)
  qed (use w t Some rel in \<open>auto simp: d wizard_ok_def\<close>)
qed

text \<open>
  C5. If the secret of the target has fewer than 32 characters,
  \<open>sys_magic_legilimens\<close> returns what the abstract call returns, on every branch,
  and leaves the wizards it leaves: reading the mind of another process with a wand appends its
  secret to the caller's list unless it is there; everybody else's list, secret and health stay.
  For a longer secret, which \<open>sys_magic_get_wand\<close> does not refuse, \<open>strcpy\<close> runs over the end of the
  array of 32 characters, and nothing is claimed.
\<close>
theorem legilimens_refines:
  assumes rel: "magic_rel T N st W" and c: "cur st \<in> T" and t: "find_task_by_pid n st = Some target" "set_option target \<subseteq> T"
    and km: "kmalloc_ok km" and len: "\<forall>q\<in>set_option target. length (secret (W q)) < SECRET_MAXSIZE"
  shows "\<exists>st' N'. sys_magic_legilimens km kf n st =
      Some (fst (abs_legilimens (fst (km 40 (mem st)) \<noteq> 0) (cur st) target W), st') \<and>
    magic_rel T N' st' (snd (abs_legilimens (fst (km 40 (mem st)) \<noteq> 0) (cur st) target W))"
proof (cases target)
  case None
  with t rel show ?thesis by (auto simp: sys_magic_legilimens_def legilimens_def abs_legilimens_def errno_codes_def)
next
  case (Some q)
  have w: "wizard_ok st (N (cur st)) (tsk st) (W (cur st))" "wizard_ok st (N q) (tasks st q) (W q)"
    using rel c t Some by (auto simp: magic_rel_def)
  note d = sys_magic_legilimens_def legilimens_def abs_legilimens_def errno_codes_def
  consider "q = cur st" | "q \<noteq> cur st" "\<not> has_wand (W (cur st)) \<or> \<not> has_wand (W q)"
    | (main) "q \<noteq> cur st" "has_wand (W (cur st))" "has_wand (W q)" by blast
  then show ?thesis
  proof cases
    case main
    have sec: "cstr (mem st) (my_secret (tasks st q)) (secret (W q))" using w(2) main by (simp add: wizard_ok_def)
    from knows_secret_ok [OF w(1) this] obtain h where h: "sec_head (cur st) st = Some h" "h = SecHead (secrets_ptr (tsk st))"
      "knows_secret h (nxt (lists st) h) (my_secret (tasks st q)) st = Some (secret (W q) \<in> set (stolen (W (cur st))))" by blast
    have hw: "holding_wand (tsk st) \<noteq> 0" "holding_wand (tasks st q) \<noteq> 0" using w main by (simp_all add: wizard_ok_def)
    obtain a m1 where a: "km 40 (mem st) = (a, m1)" by fastforce
    have m0: "a = 0 \<Longrightarrow> m1 = mem st" using km a by (fastforce simp: kmalloc_ok_def)
    consider "secret (W q) \<in> set (stolen (W (cur st)))" | "secret (W q) \<notin> set (stolen (W (cur st)))" "a = 0"
      | (new) "secret (W q) \<notin> set (stolen (W (cur st)))" "a \<noteq> 0" by blast
    then show ?thesis
    proof cases
      case new
      have "8 + Suc (length (secret (W q))) \<le> 40" using len Some by simp
      from fresh_strcpy [OF km a new(2) sec this] obtain m2 where m2:
        "strcpy (sec_chars a) (my_secret (tasks st q)) m1 = Some (sec_chars a, m2)"
        "cstr m2 (sec_chars a) (secret (W q))" "mem st \<subseteq>\<^sub>m m2" "mem st a = None" "\<forall>x\<in>region a 40. m2 x \<noteq> None" by auto
      have "unat a + 40 \<le> 2 ^ 32" using km a new(2) by (fastforce simp: kmalloc_ok_def)
      then have "unat (sec_chars a) = unat a + 8" by (simp add: unat_plus_if_size word_size)
      then have nz: "sec_chars a \<noteq> 0" by (metis add_is_0 unat_0 zero_neq_numeral)
      have "a \<in> region a 40" by (simp add: region_first)
      with m2 have "m2 a \<noteq> None" by blast
      note rel' = magic_rel_steal [OF rel c m2(4) this m2(3,2), folded h(2)]
      show ?thesis
      proof (intro exI conjI)
        show "sys_magic_legilimens km kf n st = Some (fst (abs_legilimens (fst (km 40 (mem st)) \<noteq> 0) (cur st) target W),
            upd_lists (list_add_tail (SecNode a) h) (st\<lparr>mem := m2\<rparr>))"
          using main new h(1,3) hw t(1) Some a m2(1) nz unfolding d by (simp add: Let_def)
        show "magic_rel T (N(cur st := N (cur st) @ [a])) (upd_lists (list_add_tail (SecNode a) h) (st\<lparr>mem := m2\<rparr>))
            (snd (abs_legilimens (fst (km 40 (mem st)) \<noteq> 0) (cur st) target W))"
          using main new a rel' Some by (simp add: abs_legilimens_def)
      qed
    qed (use main h hw t a m0 Some rel in \<open>auto simp: d Let_def\<close>)
  qed (use w t Some rel in \<open>auto simp: d wizard_ok_def\<close>)
qed

text \<open>
  C6. For a \<open>NULL\<close> pointer or a string of fewer than 32 characters \<open>sys_magic_get_wand\<close>
  returns what the abstract call returns, on every branch, and leaves the wizards it leaves: one
  wand per process, with the power asked for, health 100 and a private copy of the secret.
\<close>
theorem get_wand_refines:
  assumes rel: "magic_rel T N st W" and c: "cur st \<in> T" and km: "kmalloc_ok km"
    and str: "str = None \<and> p = 0 \<or> str = Some s \<and> p \<noteq> 0 \<and> cstr (mem st) p s \<and> length s < SECRET_MAXSIZE"
  defines "room \<equiv> fst (km (Suc (length s)) (mem st)) \<noteq> 0"
  shows "\<exists>st'. sys_magic_get_wand km kf v p st = Some (fst (abs_get_wand room (cur st) v str W), st') \<and>
    magic_rel T N st' (snd (abs_get_wand room (cur st) v str W))"
proof -
  note d = sys_magic_get_wand_def get_wand_def abs_get_wand_def errno_codes_def
  have w: "has_wand (W (cur st)) = (holding_wand (tsk st) \<noteq> 0)" using rel c by (auto simp: magic_rel_def wizard_ok_def)
  consider "has_wand (W (cur st))" | "\<not> has_wand (W (cur st))" "str = None"
    | "\<not> has_wand (W (cur st))" "str = Some s" "s = []" | (main) "\<not> has_wand (W (cur st))" "str = Some s" "s \<noteq> []" using str by blast
  then show ?thesis
  proof cases
    case main
    have p: "p \<noteq> 0" "cstr (mem st) p s" "length s < SECRET_MAXSIZE" using str main by auto
    obtain ch where ch: "mem st p = Some ch" "ch \<noteq> 0" using p(2) main(3) by (cases s) auto
    have len: "secret_len SECRET_MAXSIZE p (mem st) = Some (Suc (length s))" using secret_len_cstr [OF p(2), of SECRET_MAXSIZE] p(3) by simp
    obtain a m1 where a: "km (Suc (length s)) (mem st) = (a, m1)" by fastforce
    show ?thesis
    proof (cases "a = 0")
      case True
      then have "m1 = mem st" using km a by (fastforce simp: kmalloc_ok_def)
      with True main w p(1) ch len a magic_rel_no_secret [OF rel main(1), of 0] show ?thesis
        unfolding d room_def by (simp add: Let_def mem_self)
    next
      case False
      from fresh_strcpy [OF km a False p(2), of 0] obtain m2 where m2: "strcpy a p m1 = Some (a, m2)"
        "cstr m2 a s" "mem st \<subseteq>\<^sub>m m2" by auto
      obtain r where "strcmp a p m2 = Some r" "r = 0" using strcmp_cstr [OF m2(2) cstr_mono [OF p(2) m2(3)]] by auto
      with False main w p(1) ch len a m2(1) magic_rel_wand [OF rel m2(3,2), of "cur st" v] show ?thesis
        unfolding d room_def by (simp add: Let_def upd_task_def)
    qed
  qed (use w str rel in \<open>auto simp: d\<close>)
qed

text \<open>
  C9. A secret of 32 characters or more is copied behind the 32 bytes allocated for
  it: the call succeeds, and the rest of the string and its terminator overwrite whatever follows.
\<close>
theorem get_wand_overruns:
  assumes "holding_wand (tsk st) = 0" "p \<noteq> 0" "cstr (mem st) p s" "SECRET_MAXSIZE \<le> length s" "Suc (length s) \<le> 2 ^ 32"
    and km: "km SECRET_MAXSIZE (mem st) = (a, m1)" "a \<noteq> 0" "cstr m1 p s" "mapped m1 a (Suc (length s))"
      "region a (Suc (length s)) \<inter> region p (Suc (length s)) = {}"
  shows "\<exists>st'. sys_magic_get_wand km kf v p st = Some (0, st') \<and>
    bytes_at (mem st') (a + of_nat SECRET_MAXSIZE) (drop SECRET_MAXSIZE s @ [0])"
proof -
  obtain ch where ch: "mem st p = Some ch" "ch \<noteq> 0" using assms(3,4) by (cases s) auto
  have len: "secret_len SECRET_MAXSIZE p (mem st) = Some SECRET_MAXSIZE"
    using secret_len_cstr [OF assms(3), of SECRET_MAXSIZE] assms(4) by (simp add: min_absorb1)
  obtain m2 where m2: "strcpy_loop a p m1 = Some m2" "cstr m2 a s"
    "\<forall>x. x \<notin> region a (Suc (length s)) \<longrightarrow> m2 x = m1 x" using strcpy_loop_cstr [OF km(3,4) assms(5) km(5)] by blast
  have "cstr m2 p s" by (rule cstr_cong [OF km(3)]) (use m2(3) km(5) in blast)
  then obtain r where r: "strcmp a p m2 = Some r" "r = 0" using strcmp_cstr [OF m2(2)] by auto
  have "bytes_at m2 a (take SECRET_MAXSIZE s @ drop SECRET_MAXSIZE s @ [0])"
    using m2(2) unfolding cstr_def append_assoc [symmetric] append_take_drop_id by blast
  then have "bytes_at m2 (a + of_nat SECRET_MAXSIZE) (drop SECRET_MAXSIZE s @ [0])"
    using assms(4) bytes_at_append [of m2 a "take SECRET_MAXSIZE s" "drop SECRET_MAXSIZE s @ [0]"] by (simp add: min_absorb2)
  with assms(1,2) ch len km(1,2) m2(1) r show ?thesis
    by (simp add: sys_magic_get_wand_def get_wand_def errno_codes_def Let_def strcpy_def)
qed

text \<open>
  C7. For a process with a wand and an array of \<open>size\<close> entries it may write,
  \<open>sys_magic_list_secrets\<close> returns the number of secrets that did not fit, entry \<open>i\<close> of the array is
  the \<open>i\<close>th stolen secret, the entries after the last one are empty strings, and no other memory
  changes; with size 0 it returns the number of secrets and the array is not touched.
\<close>
theorem list_secrets_copies:
  assumes rel: "magic_rel T N st W" and c: "cur st \<in> T" "has_wand (W (cur st))" and p: "sz \<noteq> 0 \<longrightarrow> secrets \<noteq> 0"
    and lim: "unat secrets + 32 * unat sz \<le> unat (addr_limit (tsk st))" and mp: "mapped (mem st) secrets (32 * unat sz)"
    and ns: "\<forall>e\<in>set (N (cur st)). mapped (mem st) (sec_chars e) 32 \<and> region secrets (32 * unat sz) \<inter> region (sec_chars e) 32 = {}"
    and len: "\<forall>s\<in>set (stolen (W (cur st))). length s < SECRET_MAXSIZE"
  defines "ss \<equiv> stolen (W (cur st))"
  shows "\<exists>m'. sys_magic_list_secrets secrets sz st = Some (int (length ss - unat sz), st\<lparr>mem := m'\<rparr>) \<and>
    (\<forall>i<unat sz. cstr m' (secrets + of_nat (32 * i)) (if i < length ss then ss ! i else [])) \<and>
    (\<forall>x. x \<notin> region secrets (32 * unat sz) \<longrightarrow> m' x = mem st x)"
proof -
  let ?ns = "N (cur st)" and ?h = "SecHead (secrets_ptr (tsk st))"
  have w: "holding_wand (tsk st) \<noteq> 0" "secrets_ptr (tsk st) \<noteq> 0" "dlist (lists st) ?h (map SecNode ?ns)"
    "list_all2 (\<lambda>n s. cstr (mem st) (sec_chars n) s) ?ns ss"
    using rel c by (auto simp: magic_rel_def wizard_ok_def ss_def)
  have l: "length ?ns = length ss" using w(4) by (rule list_all2_lengthD)
  note each = list_for_each_dlist [OF w(3)]
  have ch: "chain (lists st) ?h (map SecNode ?ns) ?h" using w(3) by (simp add: dlist_def)
  obtain m' where m': "copy_secrets (unat sz) 0 (length ?ns) (length ?ns) (nxt (lists st) ?h) secrets (addr_limit (tsk st)) (lists st) (mem st) =
      Some (Inr (min (unat sz) (length ?ns), m'))"
    "\<forall>j<min (unat sz) (length ?ns). \<forall>bs. bytes_at (mem st) (sec_chars (?ns ! j)) bs \<longrightarrow> length bs = 32 \<longrightarrow>
       bytes_at m' (secrets + of_nat (32 * j)) bs"
    "\<forall>j. length ?ns \<le> j \<longrightarrow> j < unat sz \<longrightarrow> m' (secrets + of_nat (32 * j)) = Some 0"
    "\<forall>x. x \<notin> region secrets (32 * unat sz) \<longrightarrow> m' x = mem st x"
    using copy_secrets_ok [OF ch, of secrets 0 "unat sz" "addr_limit (tsk st)" "mem st"] lim mp ns by auto
  have cs: "cstr m' (secrets + of_nat (32 * i)) (if i < length ss then ss ! i else [])" if i: "i < unat sz" for i
  proof (cases "i < length ss")
    case True
    then have e: "?ns ! i \<in> set ?ns" "cstr (mem st) (sec_chars (?ns ! i)) (ss ! i)" "length (ss ! i) < 32"
      using l w(4) len by (auto simp: list_all2_conv_all_nth ss_def)
    obtain bs where bs: "bytes_at (mem st) (sec_chars (?ns ! i)) bs" "length bs = 32" using mapped_bytes ns e(1) by blast
    then have "bytes_at m' (secrets + of_nat (32 * i)) bs" using m'(2) True i l by simp
    then show ?thesis using cstr_transport [OF e(2) bs(1)] e(3) bs(2) True by simp
  next
    case False
    then show ?thesis using m'(3) i l by simp
  qed
  have r: "int (length ss) - int (min (unat sz) (length ss)) = int (length ss - unat sz)" by simp
  note d = sys_magic_list_secrets_def list_secrets_def sec_head_def
  show ?thesis
  proof (cases "sz = 0")
    case True
    have "sys_magic_list_secrets secrets sz st = Some (int (length ss - unat sz), st\<lparr>mem := mem st\<rparr>)"
      using w(1,2) each l True by (simp add: d mem_self)
    then show ?thesis using True by (intro exI [of _ "mem st"]) simp
  next
    case False
    have "sys_magic_list_secrets secrets sz st = Some (int (length ss - unat sz), st\<lparr>mem := m'\<rparr>)"
      using w(1,2) each l False p m'(1) r by (simp add: d)
    with cs m'(4) show ?thesis by blast
  qed
qed

text \<open>
  C10. \<open>sys_magic_clock\<close> multiplies the seconds by \<open>HZ\<close> in 32 bits: a request of \<open>2\<^sup>2\<^sup>3\<close> seconds
  or any multiple is granted and gives no magic time at all; a request is honoured exactly below
  that bound.
\<close>
theorem clock_wraps:
  assumes "holding_wand (tsk st) \<noteq> 0"
  shows "\<exists>st'. sys_magic_clock seconds st = (0, st') \<and>
    unat (magic_time (tasks st' (cur st))) = 512 * (unat seconds mod 2 ^ 23) \<and>
    (unat (magic_time (tasks st' (cur st))) = 512 * unat seconds \<longleftrightarrow> unat seconds < 2 ^ 23)"
proof -
  have u: "unat (seconds * HZ) = 512 * (unat seconds mod 2 ^ 23)"
  proof -
    have "unat (seconds * HZ) = (unat seconds * 512) mod 2 ^ 32" by (simp add: unat_word_ariths)
    also have "\<dots> = 512 * (unat seconds mod 2 ^ 23)" using mult_mod_right [of 512 "unat seconds" "2 ^ 23"] by (simp add: mult.commute)
    finally show ?thesis .
  qed
  have "unat seconds mod 2 ^ 23 = unat seconds \<longleftrightarrow> unat seconds < 2 ^ 23"
    by (metis mod_less mod_less_divisor zero_less_numeral zero_less_power)
  with u assms show ?thesis by (simp add: sys_magic_clock_def Let_def)
qed

section \<open>A concrete machine\<close>

text \<open>
  Tasks 1 and 2 hold wands, task 3 does not; the secrets are in kernel memory. Task 1 runs. 
\<close>

definition duel :: kst where
  "duel = boot_kst\<lparr>cur := 1, mem := demo_mem,
     pidhash := (\<lambda>i. if i = 1 then Some 1 else if i = 2 then Some 2 else if i = 3 then Some 3 else None),
     tasks := (\<lambda>t. (INIT_TASK t)\<lparr>pid := int t, addr_limit := 0xC0000000, holding_wand := if t = 3 then 0 else 1,
       health := 100, power := 30, my_secret := if t = 1 then 0x2000 else 0x1000, secrets_ptr := of_nat t + 0x5000\<rparr>)\<rparr>"

definition duellists :: "task \<Rightarrow> wizard" where
  "duellists t = \<lparr> has_wand = (t \<noteq> 3), hp = 100, pw = 30, secret = if t = 1 then [98, 98] else [97, 98, 98], stolen = [] \<rparr>"

lemma duel_rel: "magic_rel {1, 2, 3} (\<lambda>_. []) duel duellists"
  by (simp add: magic_rel_def wizard_ok_def duel_def duellists_def boot_kst_def INIT_TASK_def dlist_def demo_mem_def)

lemma duel_find: "find_task_by_pid 2 duel = Some (Some 2)"
  by (simp add: find_task_by_pid_def pid_hashfn_def find_task_chain.simps duel_def INIT_TASK_def)

lemma duel_cur: "cur duel = 1" "mem duel = demo_mem"
  by (simp_all add: duel_def)

text \<open>Task 1 attacks task 2 with power 30.\<close>
theorem attack_refines_witness:
  "\<exists>st'. sys_magic_attack 2 duel = Some (70, st') \<and> magic_rel {1, 2, 3} (\<lambda>_. []) st' (duellists(2 := (duellists 2)\<lparr>hp := 70\<rparr>))"
  using attack_refines [OF duel_rel _ duel_find]
  by (simp add: duel_cur abs_attack_def duellists_def kmax_def Let_def)

theorem legilimens_refines_witness:
  "\<exists>st' N'. sys_magic_legilimens demo_kmalloc (\<lambda>_ m. m) 2 duel = Some (0, st') \<and>
    magic_rel {1, 2, 3} N' st' (duellists(1 := (duellists 1)\<lparr>stolen := [[97, 98, 98]]\<rparr>))"
proof -
  have "fst (demo_kmalloc 40 (mem duel)) \<noteq> 0" by (simp add: duel_cur demo_kmalloc_def demo_mem_def upt_rec)
  then show ?thesis
    using legilimens_refines [OF duel_rel _ duel_find _ demo_kmalloc_ok, of "\<lambda>_ m. m"]
    by (simp add: duel_cur abs_legilimens_def duellists_def)
qed

text \<open>Task 3 gets a wand.\<close>
theorem get_wand_refines_witness:
  "\<exists>st'. sys_magic_get_wand demo_kmalloc (\<lambda>_ m. m) 7 0x1000 (duel\<lparr>cur := 3\<rparr>) = Some (0, st') \<and>
    magic_rel {1, 2, 3} (\<lambda>_. []) st' (duellists(3 := (duellists 3)\<lparr>has_wand := True, pw := 7\<rparr>))"
proof -
  have rel: "magic_rel {1, 2, 3} (\<lambda>_. []) (duel\<lparr>cur := 3\<rparr>) duellists"
    using duel_rel by (simp add: magic_rel_def wizard_ok_def)
  have room: "fst (demo_kmalloc (Suc (length [97, 98, 98 :: byte])) (mem (duel\<lparr>cur := 3\<rparr>))) \<noteq> 0"
    by (simp add: duel_cur demo_kmalloc_def demo_mem_def upt_rec)
  have s: "Some [97, 98, 98] = None \<and> (0x1000 :: addr) = 0 \<or> Some [97, 98, 98] = Some [97, 98, 98 :: byte] \<and> (0x1000 :: addr) \<noteq> 0 \<and>
      cstr (mem (duel\<lparr>cur := 3\<rparr>)) 0x1000 [97, 98, 98] \<and> length [97, 98, 98 :: byte] < 32"
    by (simp add: duel_cur demo_mem_def)
  from get_wand_refines [OF rel _ demo_kmalloc_ok s, of "\<lambda>_ m. m" 7] room show ?thesis
    by (simp add: abs_get_wand_def duellists_def)
qed

theorem clock_wraps_witness:
  "\<exists>st'. sys_magic_clock 8388608 duel = (0, st') \<and> unat (magic_time (tasks st' 1)) = 0"
proof -
  have "holding_wand (tsk duel) \<noteq> 0" by (simp add: duel_def INIT_TASK_def)
  from clock_wraps [OF this, of 8388608] show ?thesis by (auto simp: duel_cur)
qed

text \<open>Task 3 asks for a wand with a secret of 32 characters; the objects behind the allocated one are mapped.\<close>

definition long_mem :: mem where
  "long_mem x = (let u = unat x in if 0x3000 \<le> u \<and> u < 0x3020 then Some 97 else if u = 0x3020 then Some 0
     else if 0x8000 \<le> u \<and> u < 0x9000 then Some 1 else None)"

lemma cstr_replicate:
  assumes "\<forall>i<n. m (a + of_nat i) = Some c" "m (a + of_nat n) = Some 0" "c \<noteq> 0"
  shows "cstr m a (replicate n c)"
  using assms
proof (induction n arbitrary: a)
  case (Suc n)
  have "m a = Some c" using Suc.prems(1) by force
  moreover have "m (a + 1 + of_nat i) = Some c" if "i < n" for i using Suc.prems(1) that by (metis Suc_less_eq add.assoc of_nat_Suc)
  ultimately show ?case using Suc.IH [of "a + 1"] Suc.prems(2,3) by (simp add: add.assoc)
qed simp

theorem get_wand_overruns_witness:
  "\<exists>st'. sys_magic_get_wand (\<lambda>n m. (0x8000, m)) (\<lambda>_ m. m) 7 0x3000 (duel\<lparr>cur := 3, mem := long_mem\<rparr>) = Some (0, st') \<and>
    mem st' 0x8020 = Some 0"
proof -
  let ?s = "replicate 32 97 :: byte list"
  have u: "unat (0x3000 + of_nat i :: addr) = 0x3000 + i" "unat (0x8000 + of_nat i :: addr) = 0x8000 + i" if "i < 64" for i
    using that by (simp_all add: unat_plus_if_size word_size unsigned_of_nat take_bit_nat_eq_self)
  have c: "cstr long_mem 0x3000 ?s" by (rule cstr_replicate) (use u in \<open>auto simp: long_mem_def Let_def\<close>)
  have mp: "mapped long_mem 0x8000 (Suc (length ?s))" using u by (auto simp: mapped_def long_mem_def Let_def)
  have "x \<notin> region 0x3000 33" if "x \<in> region 0x8000 33" for x :: addr
    using that region_iff [of "0x8000" 33 x] region_iff [of "0x3000" 33 x] by simp
  then have dj: "region 0x8000 (Suc (length ?s)) \<inter> region 0x3000 (Suc (length ?s)) = ({} :: addr set)" by auto
  have "holding_wand (tsk (duel\<lparr>cur := 3, mem := long_mem\<rparr>)) = 0" by (simp add: duel_def INIT_TASK_def)
  from get_wand_overruns [OF this, of "0x3000" ?s "\<lambda>n m. (0x8000, m)" "0x8000" long_mem "\<lambda>_ m. m" 7] c mp dj show ?thesis by auto
qed

text \<open>Task 1 has stolen one secret and asks for two.\<close>

definition thief_mem :: mem where
  "thief_mem x = (let u = unat x in if x = 0x4008 \<or> x = 0x4009 then Some 98
     else if 0x4000 \<le> u \<and> u < 0x4028 \<or> 0x7000 \<le> u \<and> u < 0x7040 then Some 0 else demo_mem x)"

definition thief :: kst where
  "thief = upd_lists (list_add_tail (SecNode 0x4000) (SecHead 0x5001)) (duel\<lparr>mem := thief_mem\<rparr>)"

theorem list_secrets_copies_witness:
  "\<exists>m'. sys_magic_list_secrets 0x7000 2 thief = Some (0, thief\<lparr>mem := m'\<rparr>) \<and> cstr m' 0x7000 [98, 98] \<and> cstr m' 0x7020 []"
proof -
  let ?W = "(duellists(1 := (duellists 1)\<lparr>stolen := [[98, 98]]\<rparr>))" and ?N = "(\<lambda>_. [])(1 := [0x4000 :: addr])"
  have dl: "dlist (lists thief) (SecHead 0x5001) [SecNode 0x4000]"
    by (simp add: thief_def duel_def boot_kst_def list_add_tail_def list_add_raw_def dlist_def Let_def)
  have tk: "tasks thief = tasks duel" "cur thief = 1" "mem thief = thief_mem" by (simp_all add: thief_def duel_cur)
  have m: "cstr thief_mem 0x4008 [98, 98]" "cstr thief_mem 0x2000 [98, 98]" by (simp_all add: thief_mem_def demo_mem_def)
  have rel: "magic_rel {1} ?N thief ?W"
    using dl m by (simp add: magic_rel_def wizard_ok_def tk) (simp add: duel_def INIT_TASK_def duellists_def thief_mem_def)
  have u: "unat (0x4008 + of_nat i :: addr) = 0x4008 + i" "unat (0x7000 + of_nat i :: addr) = 0x7000 + i" if "i < 64" for i
    using that by (simp_all add: unat_plus_if_size word_size unsigned_of_nat take_bit_nat_eq_self)
  have mp: "mapped thief_mem 0x7000 64" "mapped thief_mem 0x4008 32" using u by (auto simp: mapped_def thief_mem_def Let_def)
  have "x \<notin> region 0x4008 32" if "x \<in> region 0x7000 64" for x :: addr
    using that region_iff [of "0x7000" 64 x] region_iff [of "0x4008" 32 x] by simp
  then have dj: "region 0x7000 64 \<inter> region 0x4008 32 = ({} :: addr set)" by auto
  have l: "addr_limit (tsk thief) = 0xC0000000" by (simp add: tk duel_def INIT_TASK_def)
  have w: "stolen (?W (cur thief)) = [[98, 98]]" by (simp add: tk)
  obtain m' where "sys_magic_list_secrets 0x7000 2 thief = Some (0, thief\<lparr>mem := m'\<rparr>)"
    "\<forall>i<2. cstr m' (0x7000 + of_nat (32 * i)) (if i < 1 then [[98, 98]] ! i else [])"
    using list_secrets_copies [OF rel, of 2 "0x7000"] mp dj l unfolding w by (auto simp: tk duellists_def)
  from this(1) this(2) [rule_format, of 0] this(2) [rule_format, of 1] show ?thesis by auto
qed

end
