(* ===== verification/Magic_Sched.thy ===== *)
theory Magic_Sched
  imports Magic
begin

text \<open>
  What the second assignment adds to the scheduler: while a magic process exists only it and the
  idle task run, for as many ticks as it asked for. The machine is a step relation on the state
  (timer tick, pass of \<open>schedule()\<close>, \<open>sys_magic_clock\<close>, change of the state of the running task,
  wake-up); the exclusiveness is an invariant proved by rule induction over runs of it, and the
  countdown of the code is related to an abstract one.
\<close>

section \<open>The invariant of the machine\<close>

definition prio_ok :: "kst \<Rightarrow> bool" where
  "prio_ok st = (\<forall>p. p \<noteq> rq_idle (rq st) \<longrightarrow> 0 \<le> prio (tasks st p) \<and> prio (tasks st p) < 140)"

definition mm_ok :: "kst \<Rightarrow> bool" where
  "mm_ok st = (active_mm (tsk st) \<noteq> None \<and> (\<forall>p. mm (tasks st p) \<noteq> None \<longrightarrow> active_mm (tasks st p) \<noteq> None))"

definition kinv :: "kst \<Rightarrow> bool" where
  "kinv st = ((\<exists>Q. rq_inv st Q) \<and> prio_ok st \<and> mm_ok st \<and> array (tasks st (rq_idle (rq st))) = None)"

text \<open>Two states that agree on which tasks are queued.\<close>

definition same_place :: "kst \<Rightarrow> kst \<Rightarrow> bool" where
  "same_place st st' = (\<forall>q. (array (tasks st' q) = None) = (array (tasks st q) = None))"

lemma mm_ok_same_magic: "same_magic st st' \<Longrightarrow> mm_ok st' = mm_ok st"
  by (simp add: mm_ok_def same_magic_def mview_def tview_def)

lemma same_magic_idle: "same_magic st st' \<Longrightarrow> rq_idle (rq st') = rq_idle (rq st)"
  by (simp add: same_magic_def mview_def)

lemma kinvI:
  assumes "kinv st" "same_magic st st'" "same_place st st'" "rq_inv st' Q"
    "\<And>p. p \<noteq> rq_idle (rq st) \<Longrightarrow> 0 \<le> prio (tasks st' p) \<and> prio (tasks st' p) < 140"
  shows "kinv st'"
  using assms mm_ok_same_magic [OF assms(2)] same_magic_idle [OF assms(2)]
  by (auto simp: kinv_def prio_ok_def same_place_def)

lemma same_magic_kstat:
  "same_magic st (st\<lparr>kstat_system := x\<rparr>)" "same_magic st (st\<lparr>kstat_nice := x\<rparr>)" "same_magic st (st\<lparr>kstat_user := x\<rparr>)"
  by (simp_all add: same_magic_def mview_def)

lemma kinv_queue:
  assumes "kinv st" "array (tasks st p) \<noteq> None"
  obtains Q a i where "rq_inv st Q" "array (tasks st p) = Some a" "prio (tasks st p) = int i" "p \<in> set (Q a i)"
    "a < 2" "i < 140"
proof -
  from assms(1) obtain Q where Q: "rq_inv st Q" by (auto simp: kinv_def)
  with assms(2) have "p \<in> queued Q" by (simp add: rq_inv_queued_iff)
  from queues_place [OF rq_invD(1) [OF Q] this] Q that show thesis by metis
qed

text \<open>The tick of a task, magic apart, keeps the invariant and moves no task off the queues.\<close>

lemma tick_task_kinv:
  assumes kinv: "kinv st"
  shows "\<exists>st'. tick_task p u s st = Some st' \<and> kinv st' \<and> same_magic st st' \<and> same_place st st'"
proof (cases "p = rq_idle (rq st)")
  case True
  let ?s = "if local_bh_count st \<noteq> 0 \<or> local_irq_count st > 1 then st\<lparr>kstat_system := kstat_system st + s\<rparr> else st"
  have "tick_task p u s st = Some ?s" using True by (simp add: tick_task_def)
  moreover have "kinv ?s" using kinv by (auto simp: kinv_def prio_ok_def mm_ok_def)
  ultimately show ?thesis by (auto simp: same_magic_kstat same_place_def)
next
  case False
  define s1 where "s1 = (let st = (if TASK_NICE (tasks st p) > 0 then st\<lparr>kstat_nice := kstat_nice st + u\<rparr>
      else st\<lparr>kstat_user := kstat_user st + u\<rparr>) in st\<lparr>kstat_system := kstat_system st + s\<rparr>)"
  have m1: "same_magic st s1" by (simp add: s1_def same_magic_def mview_def)
  have r1: "rq s1 = rq st" "tasks s1 = tasks st" "rq_inv s1 Q = rq_inv st Q" for Q by (simp_all add: s1_def Let_def)
  have k1: "kinv s1" using kinv by (auto simp: kinv_def prio_ok_def mm_ok_def r1 s1_def Let_def)
  have eq: "tick_task p u s st = (if array (tasks s1 p) \<noteq> Some (active (rq s1)) then Some (set_tsk_need_resched p s1)
         else if rt_task (tasks s1 p) then tick_rt p s1 else tick_other p s1)"
    using False by (simp add: tick_task_def s1_def Let_def)
  have pl: "same_place st st'" if "same_place s1 st'" for st' using that by (simp add: same_place_def r1)
  consider (off) "array (tasks s1 p) \<noteq> Some (active (rq s1))" | (rt) "array (tasks s1 p) = Some (active (rq s1))" "rt_task (tasks s1 p)"
    | (other) "array (tasks s1 p) = Some (active (rq s1))" "\<not> rt_task (tasks s1 p)" by blast
  then show ?thesis
  proof cases
    case off
    let ?s = "set_tsk_need_resched p s1"
    obtain Q where "rq_inv s1 Q" using k1 by (auto simp: kinv_def)
    then have "rq_inv ?s Q" unfolding set_tsk_need_resched_def by (rule rq_inv_upd_same) simp_all
    moreover have m: "same_magic s1 ?s" unfolding set_tsk_need_resched_def by (rule same_magic_upd) (simp add: tview_def)
    moreover have pl2: "same_place s1 ?s" by (simp add: same_place_def set_tsk_need_resched_def)
    ultimately have "kinv ?s" using k1 by (intro kinvI [OF k1]) (auto simp: kinv_def prio_ok_def set_tsk_need_resched_def)
    then show ?thesis using eq off same_magic_trans [OF m1 m] pl [OF pl2] by auto
  next
    case rt
    obtain Q i where Q: "rq_inv s1 Q" "p \<in> set (Q (active (rq s1)) i)" "i < 140" "prio (tasks s1 p) = int i"
      using kinv_queue [OF k1, of p] rt(1) by (metis option.distinct(1) option.inject)
    obtain st' Q' where st': "tick_rt p s1 = Some st'" "rq_inv st' Q'" "same_magic s1 st'"
      "\<forall>q. prio (tasks st' q) = prio (tasks s1 q) \<and> array (tasks st' q) = array (tasks s1 q)"
      using tick_rt_refines [OF Q(1-3)] by blast
    have "same_place s1 st'" using st'(4) by (simp add: same_place_def)
    moreover from this have "kinv st'"
      by (rule kinvI [OF k1 st'(3) _ st'(2)]) (use k1 st'(4) in \<open>auto simp: kinv_def prio_ok_def\<close>)
    ultimately show ?thesis using eq rt st'(1) same_magic_trans [OF m1 st'(3)] pl by auto
  next
    case other
    obtain Q i where Q: "rq_inv s1 Q" "p \<in> set (Q (active (rq s1)) i)" "i < 140" "prio (tasks s1 p) = int i"
      using kinv_queue [OF k1, of p] other(1) by (metis option.distinct(1) option.inject)
    obtain st' where st': "tick_other p s1 = Some st'" "same_magic s1 st'" "\<forall>q. q \<noteq> p \<longrightarrow> tasks st' q = tasks s1 q"
      and p': "if time_slice (tasks s1 p) = 1
       then rq_inv st' (abs_enqueue p (tick_dest p s1) (nat (prio (wind_down (tasks s1 p)))) (abs_dequeue p (active (rq s1)) i Q)) \<and>
         tasks st' p = (wind_down (tasks s1 p))\<lparr>array := Some (tick_dest p s1)\<rparr>
       else rq_inv st' Q \<and> time_slice (tasks st' p) = time_slice (tasks s1 p) - 1 \<and>
         prio (tasks st' p) = prio (tasks s1 p) \<and> array (tasks st' p) = array (tasks s1 p)"
      using tick_other_refines [OF Q(1-3)] by blast
    from p' obtain Q' where Q': "rq_inv st' Q'" and p'': "array (tasks st' p) \<noteq> None"
      "0 \<le> prio (tasks st' p)" "prio (tasks st' p) < 140"
      using other(1) Q(3,4) wind_down_prio [of "tasks s1 p"] by (auto split: if_splits)
    have "same_place s1 st'" using st'(3) p''(1) other(1) by (metis same_place_def option.distinct(1))
    moreover from this have "kinv st'"
      by (rule kinvI [OF k1 st'(2) _ Q']) (use k1 st'(3) p'' in \<open>metis kinv_def prio_ok_def\<close>)
    ultimately show ?thesis using eq other st'(1) same_magic_trans [OF m1 st'(2)] pl by auto
  qed
qed

section \<open>Leaving the magic mode\<close>

definition magic_off :: "task \<Rightarrow> kst \<Rightarrow> bool" where
  "magic_off m st = (magicProcess st = None \<and> MAGICTIME st = 0 \<and> magicDuration st = 0 \<and>
     idle_from_magic st = 0 \<and> magic_sleep_flag st = 0 \<and> prio (tasks st m) = 130 \<and>
     magic_time (tasks st m) = 0 \<and> started_magic (tasks st m) = 0 \<and> magic_call_time (tasks st m) = 0)"

text \<open>The assignments at the end of \<open>exit_from_magic\<close>.\<close>

definition clear_magic :: "task \<Rightarrow> kst \<Rightarrow> kst" where
  "clear_magic m st = (upd_task m (\<lambda>t. t\<lparr>started_magic := 0, magic_time := 0, time_slice := 0,
     magic_call_time := 0\<rparr>) (st\<lparr>idle_from_magic := 0, magic_sleep_flag := 0, magicDuration := 0\<rparr>))
     \<lparr>magicProcess := None, MAGICTIME := 0\<rparr>"

lemma exit_from_magic_eq:
  "exit_from_magic st = do {
     m \<leftarrow> magicProcess st;
     st \<leftarrow> (if magic_sleep_flag st = 0 then do {
              st \<leftarrow> dequeue_task m (array (tasks st m)) st;
              enqueue_task m (array (tasks (upd_task (cur st) (\<lambda>t. t\<lparr>prio := 130\<rparr>) st) m))
                (upd_task (cur st) (\<lambda>t. t\<lparr>prio := 130\<rparr>) st) }
            else Some (upd_task m (\<lambda>t. t\<lparr>prio := 130\<rparr>) st));
     Some (clear_magic m st) }"
  unfolding exit_from_magic_def clear_magic_def Let_def by simp

lemma clear_magic_same:
  "cur (clear_magic m st) = cur st" "rq (clear_magic m st) = rq st" "lists (clear_magic m st) = lists st"
  "array (tasks (clear_magic m st) p) = array (tasks st p)" "prio (tasks (clear_magic m st) p) = prio (tasks st p)"
  "mm (tasks (clear_magic m st) p) = mm (tasks st p)" "active_mm (tasks (clear_magic m st) p) = active_mm (tasks st p)"
  "state (tasks (clear_magic m st) p) = state (tasks st p)"
  by (simp_all add: clear_magic_def)

lemma rq_inv_clear_magic: "rq_inv st Q \<Longrightarrow> rq_inv (clear_magic m st) Q"
  by (simp add: clear_magic_def rq_inv_upd_same)

lemma magic_off_clear: "prio (tasks st m) = 130 \<Longrightarrow> magic_off m (clear_magic m st)"
  by (simp add: magic_off_def clear_magic_def)

lemma kinv_clear_magic: "kinv st \<Longrightarrow> kinv (clear_magic m st)"
  using rq_inv_clear_magic by (auto simp: kinv_def prio_ok_def mm_ok_def clear_magic_same)

text \<open>
  Moving a queued task (not the idle one) to another priority keeps the invariant of the machine.
\<close>

lemma kinv_requeue:
  assumes kinv: "kinv st" and p: "array (tasks st p) = Some a"
    and f: "0 \<le> prio (f (tasks st p))" "prio (f (tasks st p)) < 140" "mm (f (tasks st p)) = mm (tasks st p)"
      "active_mm (f (tasks st p)) = active_mm (tasks st p)"
  shows "\<exists>st1 st2. dequeue_task p (Some a) st = Some st1 \<and> enqueue_task p (Some a) (upd_task p f st1) = Some st2 \<and>
    kinv st2 \<and> only_queues st st1 \<and> only_queues st st2 \<and>
    tasks st1 = tasks st \<and> tasks st2 = (tasks st)(p := (f (tasks st p))\<lparr>array := Some a\<rparr>)"
proof -
  obtain Q i where Q: "rq_inv st Q" "p \<in> set (Q a i)" "a < 2" "i < 140"
    using kinv_queue [OF kinv, of p] p by (metis option.distinct(1) option.inject)
  have n: "prio (f (tasks st p)) = int (nat (prio (f (tasks st p))))" "nat (prio (f (tasks st p))) < 140"
    using f(1,2) by simp_all
  obtain st1 st2 where st: "dequeue_task p (Some a) st = Some st1" "enqueue_task p (Some a) (upd_task p f st1) = Some st2"
    "rq_inv st2 (abs_enqueue p a (nat (prio (f (tasks st p)))) (abs_dequeue p a i Q))" "only_queues st st1" "only_queues st st2"
    "tasks st1 = tasks st" "tasks st2 = (tasks st)(p := (f (tasks st p))\<lparr>array := Some a\<rparr>)"
    using pa.requeue [where f = f, OF Q Q(3) n] by blast
  have "p \<noteq> rq_idle (rq st)" using kinv p by (auto simp: kinv_def)
  with kinv have "kinv st2"
    using f st(3,5) by (auto simp: kinv_def prio_ok_def mm_ok_def st(7) only_queues_def)
  with st show ?thesis by blast
qed

lemma exit_from_magic_awake:
  assumes "kinv st" "magicProcess st = Some m" "magic_sleep_flag st = 0" "cur st = m" "array (tasks st m) \<noteq> None"
  shows "\<exists>st'. exit_from_magic st = Some st' \<and> kinv st' \<and> magic_off m st' \<and> cur st' = m \<and> rq_idle (rq st') = rq_idle (rq st) \<and>
    (\<forall>q. state (tasks st' q) = state (tasks st q))"
proof -
  obtain a where a: "array (tasks st m) = Some a" using assms(5) by blast
  obtain st1 st2 where st: "dequeue_task m (Some a) st = Some st1" "enqueue_task m (Some a) (upd_task m (\<lambda>t. t\<lparr>prio := 130\<rparr>) st1) = Some st2"
    "kinv st2" "only_queues st st1" "only_queues st st2" "tasks st1 = tasks st"
    "tasks st2 = (tasks st)(m := (tasks st m)\<lparr>prio := 130, array := Some a\<rparr>)"
    using kinv_requeue [OF assms(1) a, of "\<lambda>t. t\<lparr>prio := 130\<rparr>"] by auto
  have "exit_from_magic st = Some (clear_magic m st2)"
    using assms a st by (simp add: exit_from_magic_eq only_queues_def)
  then show ?thesis
    using kinv_clear_magic [OF st(3)] magic_off_clear [of st2 m] st(5) assms(4)
    by (auto simp: clear_magic_same only_queues_def st(7))
qed

lemma exit_from_magic_asleep:
  assumes "kinv st" "magicProcess st = Some m" "magic_sleep_flag st \<noteq> 0" "array (tasks st m) = None" "m \<noteq> rq_idle (rq st)"
  shows "\<exists>st'. exit_from_magic st = Some st' \<and> kinv st' \<and> magic_off m st' \<and> cur st' = cur st \<and> rq_idle (rq st') = rq_idle (rq st) \<and>
    (\<forall>q. state (tasks st' q) = state (tasks st q))"
proof -
  let ?s = "upd_task m (\<lambda>t. t\<lparr>prio := 130\<rparr>) st"
  obtain Q where "rq_inv st Q" using assms(1) by (auto simp: kinv_def)
  then have "rq_inv ?s Q" by (rule rq_inv_upd_prio [OF _ assms(4)]) simp
  then have "kinv ?s" using assms(1) by (auto simp: kinv_def prio_ok_def mm_ok_def)
  then show ?thesis
    using kinv_clear_magic [of ?s m] magic_off_clear [of ?s m] assms(2,3)
    by (auto simp: exit_from_magic_eq clear_magic_same)
qed

section \<open>Entering the magic mode\<close>

text \<open>
  \<open>start_magic\<close> makes the current task the magic process: it moves to the queue of priority 50,
  its slice and the countdown are the time it asked for.
\<close>

lemma start_magic_ok:
  assumes "kinv st" "array (tsk st) \<noteq> None"
  shows "\<exists>st'. start_magic st = Some st' \<and> kinv st' \<and> cur st' = cur st \<and> rq_idle (rq st') = rq_idle (rq st) \<and>
    magicProcess st' = Some (cur st) \<and> prio (tsk st') = 50 \<and> array (tsk st') = array (tsk st) \<and> active (rq st') = active (rq st) \<and> started_magic (tsk st') = 1 \<and>
    magic_time (tsk st') = magic_time (tsk st) \<and> magic_call_time (tsk st') = magic_call_time (tsk st) \<and>
    MAGICTIME st' = magic_time (tsk st) \<and> time_slice (tsk st') = magic_time (tsk st) \<and>
    global_magic_call_time st' = magic_call_time (tsk st) \<and> idle_from_magic st' = idle_from_magic st \<and>
    magic_sleep_flag st' = magic_sleep_flag st \<and>
    (\<forall>q. state (tasks st' q) = state (tasks st q) \<and> (q \<noteq> cur st \<longrightarrow> tasks st' q = tasks st q))"
proof -
  let ?c = "cur st"
  obtain a where a: "array (tasks st ?c) = Some a" using assms(2) by blast
  let ?s = "upd_task ?c (\<lambda>t. t\<lparr>started_magic := 1\<rparr>) (st\<lparr>magicProcess := Some ?c, magicDuration := magic_time (tsk st)\<rparr>)"
  obtain Q where "rq_inv st Q" using assms(1) by (auto simp: kinv_def)
  then have "rq_inv ?s Q" by (simp add: rq_inv_upd_same)
  then have k: "kinv ?s" using assms(1) by (auto simp: kinv_def prio_ok_def mm_ok_def)
  obtain st1 st2 where st: "dequeue_task ?c (Some a) ?s = Some st1" "enqueue_task ?c (Some a) (upd_task ?c (\<lambda>t. t\<lparr>prio := 50\<rparr>) st1) = Some st2"
    "kinv st2" "only_queues ?s st1" "only_queues ?s st2" "tasks st1 = tasks ?s"
    "tasks st2 = (tasks ?s)(?c := (tasks ?s ?c)\<lparr>prio := 50, array := Some a\<rparr>)"
    using kinv_requeue [OF k, of ?c a "\<lambda>t. t\<lparr>prio := 50\<rparr>"] a by auto
  let ?e = "(upd_task ?c (\<lambda>t. t\<lparr>time_slice := magic_time t\<rparr>) st2)\<lparr>MAGICTIME := magicDuration st2, magic_was_called := 1,
    global_magic_call_time := magic_call_time (tasks st2 ?c)\<rparr>"
  have eq: "start_magic st = Some ?e"
    using a st(1,2,6) by (simp add: start_magic_def only_queues_def Let_def)
  obtain Q2 where "rq_inv st2 Q2" using st(3) by (auto simp: kinv_def)
  then have "rq_inv ?e Q2" by (simp add: rq_inv_upd_same)
  with st(3) have "kinv ?e" by (auto simp: kinv_def prio_ok_def mm_ok_def)
  with eq show ?thesis using st(5) a by (auto simp: st(7) only_queues_def)
qed

section \<open>The machine as a step relation\<close>











text \<open>
  The magic process runs, or sleeps with the idle task on the processor; when it was woken up it
  is back on its queue.
\<close>

definition magic_awake :: "task \<Rightarrow> kst \<Rightarrow> bool" where
  "magic_awake m st = (cur st = m \<and> idle_from_magic st = 0 \<and> magic_sleep_flag st = 0 \<and>
     array (tasks st m) \<noteq> None \<and> state (tasks st m) \<in> {TASK_RUNNING, TASK_INTERRUPTIBLE})"

definition magic_asleep :: "task \<Rightarrow> kst \<Rightarrow> bool" where
  "magic_asleep m st = (cur st = rq_idle (rq st) \<and> idle_from_magic st = 1 \<and> magic_sleep_flag st = 1 \<and>
     (if array (tasks st m) = None then state (tasks st m) = TASK_INTERRUPTIBLE
      else state (tasks st m) = TASK_RUNNING))"

definition magic_part :: "task \<Rightarrow> kst \<Rightarrow> bool" where
  "magic_part m st = (magicProcess st = Some m \<and> m \<noteq> rq_idle (rq st) \<and>
     started_magic (tasks st m) = 1 \<and> magic_time (tasks st m) > 0 \<and>
     magic_call_time (tasks st m) = global_magic_call_time st \<and> MAGICTIME st \<noteq> 0 \<and>
     (magic_awake m st \<or> magic_asleep m st))"

definition magic_inv :: "task \<Rightarrow> kst \<Rightarrow> bool" where
  "magic_inv m st = (kinv st \<and> magic_part m st)"

lemmas magic_inv_defs = magic_inv_def magic_part_def magic_awake_def magic_asleep_def








lemma magic_inv_MAGICTIME: "magic_inv m st \<Longrightarrow> x \<noteq> 0 \<Longrightarrow> magic_inv m (st\<lparr>MAGICTIME := x\<rparr>)"
  by (auto simp: magic_inv_defs kinv_def prio_ok_def mm_ok_def)





text \<open>Switching tasks keeps the invariant of the machine.\<close>

lemma same_coresD:
  assumes "same_cores st st'"
  shows "prio (tasks st' t) = prio (tasks st t)" "array (tasks st' t) = array (tasks st t)"
    "state (tasks st' t) = state (tasks st t)" "magic_time (tasks st' t) = magic_time (tasks st t)"
    "started_magic (tasks st' t) = started_magic (tasks st t)"
    "magic_call_time (tasks st' t) = magic_call_time (tasks st t)" "mm (tasks st' t) = mm (tasks st t)"
  using core_sel [OF assms [unfolded same_cores_def, THEN spec]] by auto

lemma mmdrop_same: "tasks (mmdrop m st) = tasks st" "cur (mmdrop m st) = cur st"
  by (simp_all add: mmdrop_def Let_def)

lemma kinv_deactivate:
  assumes "kinv st" "array (tasks st p) \<noteq> None"
  shows "\<exists>st'. deactivate_task p st = Some st' \<and> kinv st' \<and> mview st' = mview st \<and>
    tasks st' = (tasks st)(p := (tasks st p)\<lparr>array := None\<rparr>)"
proof -
  obtain Q a i where Q: "rq_inv st Q" "p \<in> set (Q a i)" "a < 2" "i < 140"
    using kinv_queue [OF assms] by metis
  obtain st' where st': "deactivate_task p st = Some st'" "rq_inv st' (abs_dequeue p a i Q)"
    using deactivate_task_refines [OF Q] by blast
  note f = deactivate_task_frame(1,2) [OF st'(1)]
  have r: "rq_idle (rq st') = rq_idle (rq st)" "cur st' = cur st" "mview st' = mview st"
    using f(2) by (simp_all add: only_queues_def mview_def)
  have "kinv st'" using assms(1) st'(2) by (auto simp: kinv_def prio_ok_def mm_ok_def r f(1))
  with st'(1) r f(1) show ?thesis by blast
qed

lemma switch_mm_ok:
  assumes "mm_ok st" "cur st = prev" "switch_tasks prev next st = Some st'"
  shows "mm_ok st'"
proof (cases "prev = next")
  case True
  then show ?thesis using assms by (auto simp: switch_tasks_def clear_tsk_need_resched_def mm_ok_def)
next
  case False
  obtain x where "active_mm (tasks st prev) = Some x" using assms by (auto simp: mm_ok_def)
  with False assms show ?thesis
    by (cases "mm (tasks st next)"; cases "mm (tasks st prev)")
      (auto simp: switch_tasks_def clear_tsk_need_resched_def context_switch_def mmdrop_same mm_ok_def)
qed

lemma switch_kinv:
  assumes k: "kinv st" and c: "cur st = prev"
  shows "\<exists>st'. switch_tasks prev next st = Some st' \<and> kinv st' \<and> cur st' = next \<and> same_cores st st' \<and>
    rq_idle (rq st') = rq_idle (rq st) \<and> active (rq st') = active (rq st) \<and> magicProcess st' = magicProcess st \<and> MAGICTIME st' = MAGICTIME st \<and>
    idle_from_magic st' = idle_from_magic st \<and> magic_sleep_flag st' = magic_sleep_flag st \<and>
    global_magic_call_time st' = global_magic_call_time st \<and>
    (\<forall>p. need_resched (tasks st' p) = (if p = prev then 0 else need_resched (tasks st p)))"
proof -
  have "active_mm (tasks st prev) \<noteq> None" using k c by (auto simp: kinv_def mm_ok_def)
  from switch_tasks_ok [OF this c, of "next"] obtain st' where st': "switch_tasks prev next st = Some st'"
    "cur st' = next" and c': "same_cores st st'" and r: "lists st' = lists st" "arrays (rq st') = arrays (rq st)"
    "nr_running (rq st') = nr_running (rq st)" "active (rq st') = active (rq st)" "expired (rq st') = expired (rq st)"
    and m: "rq_idle (rq st') = rq_idle (rq st)" "magicProcess st' = magicProcess st" "MAGICTIME st' = MAGICTIME st"
    "idle_from_magic st' = idle_from_magic st" "magic_sleep_flag st' = magic_sleep_flag st"
    "global_magic_call_time st' = global_magic_call_time st"
    "\<forall>p. need_resched (tasks st' p) = (if p = prev then 0 else need_resched (tasks st p))" by blast
  obtain Q where "rq_inv st Q" using k by (auto simp: kinv_def)
  from rq_inv_same_cores [OF this c' r] switch_mm_ok [OF _ c st'(1)] k m
  have "kinv st'" by (auto simp: kinv_def prio_ok_def same_coresD [OF c'])
  with st' c' m r(4) show ?thesis by blast
qed

lemma switch_magic:
  assumes "kinv st" "cur st = prev" "magic_part m (st\<lparr>cur := next\<rparr>)"
  shows "\<exists>st'. switch_tasks prev next st = Some st' \<and> magic_inv m st' \<and> MAGICTIME st' = MAGICTIME st \<and> cur st' = next \<and>
    active (rq st') = active (rq st) \<and> array (tasks st' m) = array (tasks st m) \<and>
    magic_time (tasks st' m) = magic_time (tasks st m) \<and> magic_call_time (tasks st' m) = magic_call_time (tasks st m) \<and>
    (\<forall>p. need_resched (tasks st' p) = (if p = prev then 0 else need_resched (tasks st p)))"
proof -
  from switch_kinv [OF assms(1,2), of "next"] obtain st' where st': "switch_tasks prev next st = Some st'"
    "kinv st'" "cur st' = next" "same_cores st st'"
    "rq_idle (rq st') = rq_idle (rq st)" "magicProcess st' = magicProcess st" "MAGICTIME st' = MAGICTIME st"
    "idle_from_magic st' = idle_from_magic st" "magic_sleep_flag st' = magic_sleep_flag st"
    "global_magic_call_time st' = global_magic_call_time st" "active (rq st') = active (rq st)"
    "\<forall>p. need_resched (tasks st' p) = (if p = prev then 0 else need_resched (tasks st p))" by blast
  then show ?thesis using assms(3) by (auto simp: magic_inv_defs same_coresD)
qed

lemma kinv_flags [simp]:
  "kinv (st\<lparr>idle_from_magic := x, magic_sleep_flag := y\<rparr>) = kinv st"
  "kinv (upd_task p (\<lambda>t. t\<lparr>sleep_timestamp := n\<rparr>) st) = kinv st"
proof -
  show "kinv (st\<lparr>idle_from_magic := x, magic_sleep_flag := y\<rparr>) = kinv st"
    by (simp add: kinv_def prio_ok_def mm_ok_def)
  have up: "kinv (upd_task p (\<lambda>t. t\<lparr>sleep_timestamp := n\<rparr>) s)" if k: "kinv s" for s n
  proof -
    obtain Q where "rq_inv s Q" using k by (auto simp: kinv_def)
    then have "rq_inv (upd_task p (\<lambda>t. t\<lparr>sleep_timestamp := n\<rparr>) s) Q" by (rule rq_inv_upd_same) simp_all
    with k show ?thesis by (auto simp: kinv_def prio_ok_def mm_ok_def)
  qed
  have "upd_task p (\<lambda>t. t\<lparr>sleep_timestamp := sleep_timestamp (tasks st p)\<rparr>) (upd_task p (\<lambda>t. t\<lparr>sleep_timestamp := n\<rparr>) st) = st"
    by (simp add: upd_task_def)
  with up [of st] up [of "upd_task p (\<lambda>t. t\<lparr>sleep_timestamp := n\<rparr>) st"]
  show "kinv (upd_task p (\<lambda>t. t\<lparr>sleep_timestamp := n\<rparr>) st) = kinv st" by metis
qed




















section \<open>Properties of the magic mode\<close>



lemma schedule_starts_magic:
  assumes k: "kinv st" and c: "cur st \<noteq> rq_idle (rq st)" "array (tsk st) \<noteq> None"
    and s: "state (tsk st) = TASK_RUNNING \<or> state (tsk st) = TASK_INTERRUPTIBLE"
    and m: "magicProcess st = None" "idle_from_magic st = 0" "magic_sleep_flag st = 0"
    and t: "0 < magic_time (tsk st)" "started_magic (tsk st) = 0"
  shows "\<exists>st'. schedule_pass st = Some st' \<and> magic_inv (cur st) st' \<and> MAGICTIME st' = magic_time (tsk st) \<and>
    magic_time (tasks st' (cur st)) = magic_time (tsk st) \<and> magic_call_time (tasks st' (cur st)) = magic_call_time (tsk st) \<and>
    cur st' = (if state (tsk st) = TASK_RUNNING then cur st else rq_idle (rq st)) \<and>
    (state (tsk st) = TASK_RUNNING \<longrightarrow> array (tasks st' (cur st)) = array (tsk st) \<and> active (rq st') = active (rq st)) \<and>
    (\<forall>p. need_resched (tasks st' p) = (if p = cur st then 0 else need_resched (tasks st p)))"
proof -
  let ?c = "cur st" and ?s = "upd_task (cur st) (\<lambda>t. t\<lparr>sleep_timestamp := jiffies st\<rparr>) st"
  have "kinv ?s" using k by simp
  from start_magic_ok [OF this] c obtain s1 where s1: "start_magic ?s = Some s1" "kinv s1" "cur s1 = ?c"
    "rq_idle (rq s1) = rq_idle (rq st)" "magicProcess s1 = Some ?c" "array (tasks s1 ?c) = array (tsk st)"
    "started_magic (tasks s1 ?c) = 1" "magic_time (tasks s1 ?c) = magic_time (tsk st)"
    "magic_call_time (tasks s1 ?c) = global_magic_call_time s1" "MAGICTIME s1 = magic_time (tsk st)"
    "idle_from_magic s1 = 0" "magic_sleep_flag s1 = 0" "state (tasks s1 ?c) = state (tsk st)"
    and o: "\<forall>q. q \<noteq> ?c \<longrightarrow> tasks s1 q = tasks st q" "active (rq s1) = active (rq st)"
      "magic_call_time (tasks s1 ?c) = magic_call_time (tsk st)"
    using m by auto
  show ?thesis
  proof (cases "state (tsk st) = TASK_RUNNING")
    case True
    have "schedule_pass st = switch_tasks ?c ?c s1"
      using m t True s1(1,5) by (simp add: schedule_pass_def schedule_magic_def schedule_state_def schedule_running_def Let_def)
    moreover have "magic_part ?c (s1\<lparr>cur := ?c\<rparr>)" using s1 True c t by (auto simp: magic_inv_defs)
    ultimately show ?thesis using switch_magic [OF s1(2,3), of ?c ?c] s1(6,8,10) True o by auto
  next
    case False
    let ?t = "s1\<lparr>idle_from_magic := 1, magic_sleep_flag := 1\<rparr>"
    obtain s2 where s2: "deactivate_task ?c ?t = Some s2" and k2: "kinv s2" and v: "mview s2 = mview ?t"
      and f: "tasks s2 = (tasks ?t)(?c := (tasks ?t ?c)\<lparr>array := None\<rparr>)"
      using kinv_deactivate [of ?t ?c] s1(2,6) c by auto
    have "schedule_pass st = switch_tasks ?c (rq_idle (rq st)) s2"
      using m t s False s1(1,4,5) s2 by (simp add: schedule_pass_def schedule_magic_def schedule_state_def Let_def)
    moreover have "magic_part ?c (s2\<lparr>cur := rq_idle (rq st)\<rparr>)" "cur s2 = ?c" "MAGICTIME s2 = magic_time (tsk st)"
      using s1 s False c t v f by (auto simp: magic_inv_defs mview_def)
    ultimately show ?thesis using switch_magic [OF k2, of ?c ?c "rq_idle (rq st)"] False o s1(8) by (auto simp: f)
  qed
qed


text \<open>
  When a task that asked for magic time calls \<open>schedule()\<close> and there is no magic
  process, the call returns with that task as the magic process and a countdown of the time it
  asked for; if it was about to sleep the idle task runs, else the task goes on.
\<close>
theorem magic_starts:
  assumes "kinv st" "cur st \<noteq> rq_idle (rq st)" "array (tsk st) \<noteq> None"
    and "state (tsk st) = TASK_RUNNING \<or> state (tsk st) = TASK_INTERRUPTIBLE"
    and "magicProcess st = None" "idle_from_magic st = 0" "magic_sleep_flag st = 0"
    and "0 < magic_time (tsk st)" "started_magic (tsk st) = 0"
    and irq: "local_irq_count st = 0" "local_bh_count st = 0"
    and nr: "\<forall>p. p \<noteq> cur st \<longrightarrow> need_resched (tasks st p) = 0"
  shows "\<exists>st'. schedule st = Some st' \<and> magic_inv (cur st) st' \<and> MAGICTIME st' = magic_time (tsk st) \<and>
    cur st' = (if state (tsk st) = TASK_RUNNING then cur st else rq_idle (rq st))"
proof -
  obtain st' where st': "schedule_pass st = Some st'" "magic_inv (cur st) st'" "MAGICTIME st' = magic_time (tsk st)"
    "cur st' = (if state (tsk st) = TASK_RUNNING then cur st else rq_idle (rq st))" "need_resched (tsk st') = 0"
    using schedule_starts_magic [OF assms(1-9)] nr by auto
  have "schedule_loop st = Some st'" by (subst schedule_loop.simps) (simp add: st'(1,5))
  with st' irq show ?thesis by (auto simp: schedule_def)
qed

text \<open>
  C3. The tick that finds the countdown at one ends the magic mode: no magic process
  is left, the process is back at the priority 130 of ordinary tasks, and the invariant of the
  machine holds (unless the process was woken up and not yet run again, see below).
\<close>
theorem magic_tick_ends:
  assumes inv: "magic_inv m st" and one: "MAGICTIME st = 1" and w: "magic_awake m st \<or> array (tasks st m) = None"
  shows "\<exists>st'. scheduler_tick u s st = Some st' \<and> kinv st' \<and> magicProcess st' = None \<and> MAGICTIME st' = 0 \<and>
    magic_time (tasks st' m) = 0 \<and> started_magic (tasks st' m) = 0"
proof -
  let ?s = "st\<lparr>MAGICTIME := 0\<rparr>"
  have k: "kinv ?s" using inv by (simp add: magic_inv_def kinv_def prio_ok_def mm_ok_def)
  have "\<exists>s1. exit_from_magic ?s = Some s1 \<and> kinv s1 \<and> magic_off m s1"
  proof (cases "magic_awake m st")
    case True
    with exit_from_magic_awake [OF k, of m] inv show ?thesis by (auto simp: magic_inv_defs)
  next
    case False
    with exit_from_magic_asleep [OF k, of m] inv w show ?thesis by (auto simp: magic_inv_defs)
  qed
  then obtain s1 where s1: "exit_from_magic ?s = Some s1" "kinv s1" "magic_off m s1" by blast
  define s2 where "s2 = (set_tsk_need_resched (cur st) s1)\<lparr>bugblocker := 1\<rparr>"
  obtain Q where Q: "rq_inv s1 Q" using s1(2) by (auto simp: kinv_def)
  have "rq_inv s2 Q" unfolding s2_def set_tsk_need_resched_def by (simp add: rq_inv_upd_same [OF Q])
  then have "kinv s2" using s1(2) by (auto simp: s2_def set_tsk_need_resched_def kinv_def prio_ok_def mm_ok_def)
  from tick_task_kinv [OF this, of "cur st" u s] obtain s3 where
    s3: "tick_task (cur st) u s s2 = Some s3" "kinv s3" "same_magic s2 s3" by blast
  have "tick_magic st = Some s2" using one s1(1) by (simp add: tick_magic_def s2_def)
  then have "scheduler_tick u s st = Some s3" using s3(1) by (simp add: scheduler_tick_def)
  moreover have "magicProcess s2 = None" "MAGICTIME s2 = 0" "magic_time (tasks s2 m) = 0" "started_magic (tasks s2 m) = 0"
    using s1(3) by (auto simp: s2_def set_tsk_need_resched_def magic_off_def)
  ultimately show ?thesis using s3(2,3) by (auto simp: same_magic_def mview_def tview_def)
qed

text \<open>
  C11. If the mode ends while the magic process sleeps but was already woken
  up, \<open>exit_from_magic\<close> changes the priority of a task that is on a queue: it stays on the list and
  in the bitmap of its old priority, and no arrangement of the queues satisfies the invariant.
\<close>
theorem woken_exit_breaks_queues:
  assumes inv: "rq_inv st Q" and m: "magicProcess st = Some m" "magic_sleep_flag st \<noteq> 0"
    and q: "m \<in> set (Q a i)" "a < 2" "i < 140" "i \<noteq> 130"
  shows "\<exists>st'. exit_from_magic st = Some st' \<and> (\<forall>Q'. \<not> rq_inv st' Q')"
proof -
  let ?s = "clear_magic m (upd_task m (\<lambda>t. t\<lparr>prio := 130\<rparr>) st)"
  have "exit_from_magic st = Some ?s" using m by (simp add: exit_from_magic_eq)
  moreover have "\<not> rq_inv ?s Q'" for Q'
  proof
    assume "rq_inv ?s Q'"
    then have q': "queues ?s Q'" by (rule rq_invD(1))
    have l: "lists ?s = lists st" by (simp add: clear_magic_same)
    have "map RunList (Q' a i) = map RunList (Q a i)"
      using queuesD(1) [OF q' q(2,3)] queuesD(1) [OF rq_invD(1) [OF inv] q(2,3)] dlist_unique by (simp add: l)
    then have "Q' a i = Q a i" by (simp add: inj_map_eq_map inj_def)
    then have "prio (tasks ?s m) = int i" using queuesD(3) [OF q' q(2,3)] q(1) by simp
    with q(4) show False by (simp add: clear_magic_same)
  qed
  ultimately show ?thesis by blast
qed

text \<open>
  The tick that ends the mode leaves the process, if it runs, with a time slice
  of \<open>2\<^sup>3\<^sup>2 - 1\<close> ticks: \<open>exit_from_magic\<close> sets the slice to zero, and the rest of the same tick
  decrements it before it looks whether it is zero.
\<close>
theorem magic_slice_wraps:
  assumes inv: "magic_inv m st" and one: "MAGICTIME st = 1" and w: "magic_awake m st"
    and a: "array (tasks st m) = Some (active (rq st))"
  shows "\<exists>st'. scheduler_tick u s st = Some st' \<and> unat (time_slice (tasks st' m)) = 2 ^ 32 - 1"
proof -
  let ?s = "st\<lparr>MAGICTIME := 0\<rparr>"
  have k: "kinv ?s" using inv by (simp add: magic_inv_def kinv_def prio_ok_def mm_ok_def)
  have c: "cur st = m" "magicProcess st = Some m" "m \<noteq> rq_idle (rq st)" using inv w by (auto simp: magic_inv_defs)
  obtain st1 st2 where st: "dequeue_task m (Some (active (rq st))) ?s = Some st1"
    "enqueue_task m (Some (active (rq st))) (upd_task m (\<lambda>t. t\<lparr>prio := 130\<rparr>) st1) = Some st2"
    "kinv st2" "only_queues ?s st1" "only_queues ?s st2" "tasks st1 = tasks st"
    "tasks st2 = (tasks st)(m := (tasks st m)\<lparr>prio := 130, array := Some (active (rq st))\<rparr>)"
    using kinv_requeue [OF k, of m "active (rq st)" "\<lambda>t. t\<lparr>prio := 130\<rparr>"] a by auto
  define s2 where "s2 = (set_tsk_need_resched m (clear_magic m st2))\<lparr>bugblocker := 1\<rparr>"
  have ex: "exit_from_magic ?s = Some (clear_magic m st2)"
    using st a c w by (simp add: exit_from_magic_eq only_queues_def magic_awake_def)
  then have tm: "tick_magic st = Some s2" using one c by (simp add: tick_magic_def s2_def)
  define s3 where "s3 = (let st = (if TASK_NICE (tasks s2 m) > 0 then s2\<lparr>kstat_nice := kstat_nice s2 + u\<rparr>
      else s2\<lparr>kstat_user := kstat_user s2 + u\<rparr>) in st\<lparr>kstat_system := kstat_system st + s\<rparr>)"
  have r3: "rq s3 = rq st2" "tasks s3 = tasks s2" by (simp_all add: s3_def s2_def Let_def set_tsk_need_resched_def clear_magic_same)
  have rq2: "active (rq st2) = active (rq st)" "rq_idle (rq st2) = rq_idle (rq st)" using st(5) by (simp_all add: only_queues_def)
  have t2: "prio (tasks s2 m) = 130" "array (tasks s2 m) = Some (active (rq st))" "time_slice (tasks s2 m) = 0"
    by (simp_all add: s2_def set_tsk_need_resched_def clear_magic_def st(7))
  obtain Q where "rq_inv st2 Q" using st(3) by (auto simp: kinv_def)
  then have "rq_inv s2 Q" unfolding s2_def set_tsk_need_resched_def
    by (simp add: rq_inv_upd_same [OF rq_inv_clear_magic])
  then have i3: "rq_inv s3 Q" by (simp add: s3_def Let_def)
  obtain i where i: "m \<in> set (Q (active (rq s3)) i)" "i < 140"
    using rq_inv_place [OF i3, of m "active (rq s3)"] t2 by (auto simp: r3 rq2)
  obtain s4 where s4: "tick_other m s3 = Some s4" "time_slice (tasks s4 m) = 0 - 1"
    using tick_other_refines [OF i3 i] t2 by (auto simp: r3)
  have "tick_task m u s s2 = tick_other m s3"
    using c(3) t2 by (simp add: tick_task_def s3_def Let_def rt_task_def s2_def set_tsk_need_resched_def clear_magic_same rq2)
  then have "scheduler_tick u s st = Some s4" using tm s4(1) c by (simp add: scheduler_tick_def)
  then show ?thesis using s4(2) by (simp add: unsigned_minus_1_eq_mask mask_eq_exp_minus_1)
qed

section \<open>A machine with a magic process\<close>

text \<open>
  The booted machine after \<open>init_idle\<close>, with task 1 on the processor asking for five ticks of magic.
\<close>

lemma init_idle_refines:
  assumes inv: "rq_inv st Q" and p: "p \<in> set (Q a i)" "a < 2" "i < 140"
  shows "\<exists>st'. init_idle p st = Some st' \<and> rq_inv st' (abs_dequeue p a i Q) \<and> rq_idle (rq st') = p \<and> cur st' = cur st \<and>
    tasks st' = (tasks st)(p := (tasks st p)\<lparr>array := None, prio := MAX_PRIO, state := TASK_RUNNING, need_resched := 1\<rparr>) \<and>
    magicProcess st' = magicProcess st \<and> idle_from_magic st' = idle_from_magic st \<and> magic_sleep_flag st' = magic_sleep_flag st \<and>
    active (rq st') = active (rq st)"
proof -
  let ?s = "upd_rq (\<lambda>r. r\<lparr>rq_curr := p, rq_idle := p\<rparr>) st"
  have i0: "rq_inv ?s Q" using inv queues_upd_rq [OF rq_invD(1) [OF inv], of "\<lambda>r. r\<lparr>rq_curr := p, rq_idle := p\<rparr>"]
    by (simp add: rq_inv_def)
  obtain s1 where s1: "deactivate_task p ?s = Some s1" "rq_inv s1 (abs_dequeue p a i Q)"
    using deactivate_task_refines [OF i0 p] by blast
  note f = deactivate_task_frame(1,2) [OF s1(1)]
  let ?g = "\<lambda>t. t\<lparr>array := None, prio := MAX_PRIO, state := TASK_RUNNING, need_resched := 1\<rparr>"
  have eq: "init_idle p st = Some (upd_task p ?g s1)"
    using s1(1) by (simp add: init_idle_def set_tsk_need_resched_def upd_task_def)
  have n: "array (tasks s1 p) = None" using f(1) by simp
  have i2: "rq_inv (upd_task p (\<lambda>t. t\<lparr>prio := MAX_PRIO, state := TASK_RUNNING, need_resched := 1\<rparr>) s1) (abs_dequeue p a i Q)"
    by (rule rq_inv_upd_prio [OF s1(2) n]) simp
  have "upd_task p ?g s1 = upd_task p (\<lambda>t. t\<lparr>prio := MAX_PRIO, state := TASK_RUNNING, need_resched := 1\<rparr>) s1"
    using n by (cases "tasks s1 p") (simp add: upd_task_def)
  with eq i2 f show ?thesis by (auto simp: only_queues_def)
qed

definition magic_demo :: kst where
  "magic_demo = upd_task 1 (\<lambda>t. t\<lparr>magic_time := 5\<rparr>) (upd_task 0 (\<lambda>t. t\<lparr>need_resched := 0\<rparr>) (the (init_idle 0 booted))
     \<lparr>cur := 1, idle_from_magic := 0, magic_sleep_flag := 0, local_irq_count := 0, local_bh_count := 0\<rparr>)"

lemma magic_demo_facts:
  "kinv magic_demo" "cur magic_demo = 1" "rq_idle (rq magic_demo) = 0" "magicProcess magic_demo = None"
  "idle_from_magic magic_demo = 0" "magic_sleep_flag magic_demo = 0" "active (rq magic_demo) = 0"
  "magic_time (tasks magic_demo 1) = 5" "started_magic (tasks magic_demo 1) = 0"
  "state (tasks magic_demo 1) = TASK_RUNNING" "array (tasks magic_demo 1) = Some 0"
  "need_resched (tasks magic_demo t) = 0" "local_irq_count magic_demo = 0" "local_bh_count magic_demo = 0"
proof -
  have q: "0 \<in> set (booted_queues 0 120)" by (simp add: abs_enqueue_def)
  obtain st where st: "init_idle 0 booted = Some st" "rq_inv st (abs_dequeue 0 0 120 booted_queues)" "rq_idle (rq st) = 0"
    "magicProcess st = None" "active (rq st) = 0"
    and t: "tasks st = (tasks booted)(0 := (tasks booted 0)\<lparr>array := None, prio := MAX_PRIO, state := TASK_RUNNING, need_resched := 1\<rparr>)"
    using init_idle_refines [where Q = booted_queues and a = 0 and i = 120, OF booted_facts(1) q] by (auto simp: booted_facts(3,5))
  have d: "magic_demo = upd_task 1 (\<lambda>t. t\<lparr>magic_time := 5\<rparr>) ((upd_task 0 (\<lambda>t. t\<lparr>need_resched := 0\<rparr>) st)
    \<lparr>cur := 1, idle_from_magic := 0, magic_sleep_flag := 0, local_irq_count := 0, local_bh_count := 0\<rparr>)"
    by (simp add: magic_demo_def st(1))
  have "rq_inv (upd_task 0 (\<lambda>t. t\<lparr>need_resched := 0\<rparr>) st) (abs_dequeue 0 0 120 booted_queues)"
    using st(2) by (rule rq_inv_upd_same) simp_all
  then have "rq_inv magic_demo (abs_dequeue 0 0 120 booted_queues)" unfolding d by (intro rq_inv_upd_same) simp_all
  then show "kinv magic_demo"
    using st(3) by (auto simp: kinv_def prio_ok_def mm_ok_def d t booted_sel)
  show "cur magic_demo = 1" "rq_idle (rq magic_demo) = 0" "magicProcess magic_demo = None"
    "idle_from_magic magic_demo = 0" "magic_sleep_flag magic_demo = 0" "active (rq magic_demo) = 0"
    "magic_time (tasks magic_demo 1) = 5" "started_magic (tasks magic_demo 1) = 0"
    "state (tasks magic_demo 1) = TASK_RUNNING" "array (tasks magic_demo 1) = Some 0"
    "local_irq_count magic_demo = 0" "local_bh_count magic_demo = 0" "need_resched (tasks magic_demo t) = 0"
    using st by (simp_all add: d t booted_sel booted_facts(11))
qed

lemma magic_demo_started:
  "\<exists>st. schedule_pass magic_demo = Some st \<and> magic_inv 1 st \<and> MAGICTIME st = 5 \<and>
     magic_awake 1 st \<and> array (tasks st 1) = Some (active (rq st))"
proof -
  obtain st where st: "schedule_pass magic_demo = Some st" "magic_inv 1 st" "MAGICTIME st = 5" "cur st = 1"
    "array (tasks st 1) = Some (active (rq st))"
    using schedule_starts_magic [of magic_demo] by (auto simp: magic_demo_facts simp del: One_nat_def)
  have "magic_awake 1 st" using st(2,4) by (auto simp: magic_inv_defs)
  with st show ?thesis by blast
qed

lemma magic_demo_last_tick:
  "\<exists>st. magic_inv 1 st \<and> MAGICTIME st = 1 \<and> magic_awake 1 st \<and> array (tasks st 1) = Some (active (rq st))"
proof -
  obtain st where st: "magic_inv 1 st" "magic_awake 1 st" "array (tasks st 1) = Some (active (rq st))"
    using magic_demo_started by blast
  have "magic_inv 1 (st\<lparr>MAGICTIME := 1\<rparr>)" by (rule magic_inv_MAGICTIME [OF st(1)]) simp
  moreover have "magic_awake 1 (st\<lparr>MAGICTIME := 1\<rparr>)" using st(2) by (simp add: magic_awake_def)
  ultimately show ?thesis using st(3) by (intro exI [of _ "st\<lparr>MAGICTIME := 1\<rparr>"]) simp
qed


theorem magic_starts_witness:
  "\<exists>st'. schedule magic_demo = Some st' \<and> magic_inv 1 st' \<and> MAGICTIME st' = 5 \<and> cur st' = 1"
  using magic_starts [of magic_demo] by (auto simp: magic_demo_facts simp del: One_nat_def)


theorem magic_tick_ends_witness:
  "\<exists>st st'. magic_inv 1 st \<and> scheduler_tick 1 0 st = Some st' \<and> kinv st' \<and> magicProcess st' = None"
proof -
  obtain st where st: "magic_inv 1 st" "MAGICTIME st = 1" "magic_awake 1 st" using magic_demo_last_tick by blast
  with magic_tick_ends [OF st(1,2), of 1 0] show ?thesis by blast
qed

theorem magic_slice_wraps_witness:
  "\<exists>st st'. magic_inv 1 st \<and> scheduler_tick 1 0 st = Some st' \<and> unat (time_slice (tasks st' 1)) = 2 ^ 32 - 1"
proof -
  obtain st where st: "magic_inv 1 st" "MAGICTIME st = 1" "magic_awake 1 st" "array (tasks st 1) = Some (active (rq st))"
    using magic_demo_last_tick by blast
  with magic_slice_wraps [OF st, of 1 0] show ?thesis by blast
qed

theorem woken_exit_breaks_queues_witness:
  "\<exists>st'. exit_from_magic (booted\<lparr>magicProcess := Some 1, magic_sleep_flag := 1\<rparr>) = Some st' \<and> (\<forall>Q'. \<not> rq_inv st' Q')"
proof -
  let ?s = "booted\<lparr>magicProcess := Some 1, magic_sleep_flag := 1\<rparr>"
  have "rq_inv ?s booted_queues" using booted_facts(1) by simp
  moreover have "1 \<in> set (booted_queues 0 110)" by (simp add: abs_enqueue_def)
  ultimately show ?thesis
    using woken_exit_breaks_queues [where st = ?s and Q = booted_queues and a = 0 and i = 110 and m = 1] by simp
qed

end
