(* ===== verification/Magic_Api.thy ===== *)
theory Magic_Api
  imports Magic
begin

text \<open>
  The user's side of the calls, \<open>magic_api.h\<close>: the wrappers around \<open>int $0x80\<close> that turn a negative
  result into \<open>errno\<close> and -1. In the first version of HW1 every wrapper translates the small numbers of
  its system call with a \<open>switch\<close>; the corrected version and HW2 negate the result. A wrapper takes the
  value of \<open>errno\<close> and the machine and returns its result, the new \<open>errno\<close> and the machine.
\<close>

section \<open>The wrappers of the corrected version\<close>

definition errno_result :: "int \<Rightarrow> int \<times> kst \<Rightarrow> int \<times> int \<times> kst" where
  "errno_result errno r = (case r of (res, st) \<Rightarrow> if res < 0 then (- 1, - res, st) else (res, errno, st))"

definition magic_get_wand :: "kmalloc \<Rightarrow> kfree \<Rightarrow> u32 \<Rightarrow> addr \<Rightarrow> int \<Rightarrow> kst \<Rightarrow> (int \<times> int \<times> kst) option" where
  "magic_get_wand km kf v p errno st = do { r \<leftarrow> sys_magic_get_wand km kf v p st; Some (errno_result errno r) }"

definition magic_attack :: "int \<Rightarrow> int \<Rightarrow> kst \<Rightarrow> (int \<times> int \<times> kst) option" where
  "magic_attack n errno st = do { r \<leftarrow> sys_magic_attack n st; Some (errno_result errno r) }"

definition magic_legilimens :: "kmalloc \<Rightarrow> kfree \<Rightarrow> int \<Rightarrow> int \<Rightarrow> kst \<Rightarrow> (int \<times> int \<times> kst) option" where
  "magic_legilimens km kf n errno st = do { r \<leftarrow> sys_magic_legilimens km kf n st; Some (errno_result errno r) }"

definition magic_list_secrets :: "addr \<Rightarrow> u32 \<Rightarrow> int \<Rightarrow> kst \<Rightarrow> (int \<times> int \<times> kst) option" where
  "magic_list_secrets secrets sz errno st = do { r \<leftarrow> sys_magic_list_secrets secrets sz st; Some (errno_result errno r) }"

definition magic_clock :: "u32 \<Rightarrow> int \<Rightarrow> kst \<Rightarrow> int \<times> int \<times> kst" where
  "magic_clock seconds errno st = errno_result errno (sys_magic_clock seconds st)"

section \<open>The wrappers of the first version\<close>

text \<open>\<open>errno\<close> keeps its value when no case of the \<open>switch\<close> fits.\<close>

definition switch_result :: "(int \<rightharpoonup> int) \<Rightarrow> int \<Rightarrow> int \<times> kst \<Rightarrow> int \<times> int \<times> kst" where
  "switch_result cases errno r = (case r of (res, st) \<Rightarrow>
     if res < 0 then (- 1, case cases res of Some e \<Rightarrow> e | None \<Rightarrow> errno, st) else (res, errno, st))"

definition api1_get_wand :: "kmalloc \<Rightarrow> kfree \<Rightarrow> u32 \<Rightarrow> addr \<Rightarrow> int \<Rightarrow> kst \<Rightarrow> (int \<times> int \<times> kst) option" where
  "api1_get_wand km kf v p errno st = do {
     r \<leftarrow> first_get_wand km kf v p st;
     Some (switch_result [- 1 \<mapsto> EEXIST, - 2 \<mapsto> EFAULT, - 3 \<mapsto> EINVAL, - 4 \<mapsto> ENOMEM] errno r) }"

definition api1_attack :: "int \<Rightarrow> int \<Rightarrow> kst \<Rightarrow> (int \<times> int \<times> kst) option" where
  "api1_attack n errno st = do {
     r \<leftarrow> first_attack n st;
     Some (switch_result [- 1 \<mapsto> ESRCH, - 2 \<mapsto> EPERM, - 3 \<mapsto> EHOSTDOWN, - 4 \<mapsto> ENOMEM, - 5 \<mapsto> ECONNREFUSED] errno r) }"

definition api1_legilimens :: "kmalloc \<Rightarrow> kfree \<Rightarrow> int \<Rightarrow> int \<Rightarrow> kst \<Rightarrow> (int \<times> int \<times> kst) option" where
  "api1_legilimens km kf n errno st = do {
     r \<leftarrow> first_legilimens km kf n st;
     Some (switch_result [- 1 \<mapsto> ESRCH, - 2 \<mapsto> EPERM, - 3 \<mapsto> EEXIST, - 4 \<mapsto> ENOMEM, - 5 \<mapsto> EFAULT] errno r) }"

definition api1_list_secrets :: "addr \<Rightarrow> u32 \<Rightarrow> int \<Rightarrow> kst \<Rightarrow> (int \<times> int \<times> kst) option" where
  "api1_list_secrets secrets sz errno st = do {
     r \<leftarrow> first_list_secrets secrets sz st;
     Some (switch_result [- 1 \<mapsto> EFAULT, - 2 \<mapsto> EPERM, - 4 \<mapsto> ENOMEM] errno r) }"

section \<open>Lemmas and properties\<close>

lemma bind_Some_distrib: "Option.bind (if b then x else y) f = (if b then Option.bind x f else Option.bind y f)"
  "Option.bind (case p of (u, v) \<Rightarrow> g u v) f = (case p of (u, v) \<Rightarrow> Option.bind (g u v) f)"
  "Option.bind (case q of None \<Rightarrow> n | Some z \<Rightarrow> h z) f = (case q of None \<Rightarrow> Option.bind n f | Some z \<Rightarrow> Option.bind (h z) f)"
  "Option.bind (case w of Inl a \<Rightarrow> k a | Inr b' \<Rightarrow> l b') f = (case w of Inl a \<Rightarrow> Option.bind (k a) f | Inr b' \<Rightarrow> Option.bind (l b') f)"
  by (simp_all split: prod.split option.split sum.split)

lemmas push_bind = bind_Some_distrib Option.bind_assoc Let_def
lemmas api_defs = switch_result_def errno_result_def errno_codes_def first_codes_def errno_defs

lemma kmax_nonneg: "\<not> sint (kmax x 0) < 0"
  by (simp add: kmax_def)

lemma copy_secrets_le: "copy_secrets n i c len ptr a lim h m = Some (Inr (k, m')) \<Longrightarrow> k \<le> i + c"
proof (induction n arbitrary: i c ptr m)
  case (Suc n)
  show ?case
  proof (cases "c = 0")
    case False
    then obtain e where "sec_entry ptr = Some e" using Suc.prems by auto
    moreover obtain r m1 where "constant_copy_to_user lim (a + of_nat (32 * i)) (sec_chars e) 32 m = (r, m1)" by fastforce
    ultimately have "copy_secrets n (Suc i) (c - 1) len (nxt h ptr) a lim h m1 = Some (Inr (k, m'))"
      using Suc.prems False by (auto split: if_splits)
    from Suc.IH [OF this] False show ?thesis by simp
  qed (use Suc.prems in auto)
qed simp

text \<open>
  C8. A program that uses the wrappers cannot tell the two versions apart: on every
  machine, with every argument, each wrapper of the first version over its kernel returns the same
  result, leaves the same \<open>errno\<close> and the same machine as the wrapper of the corrected version.
\<close>
theorem api_versions_agree:
  "api1_get_wand km kf v p e st = magic_get_wand km kf v p e st \<and> api1_attack n e st = magic_attack n e st \<and>
   api1_legilimens km kf n e st = magic_legilimens km kf n e st \<and> api1_list_secrets a sz e st = magic_list_secrets a sz e st"
proof (intro conjI)
  show "api1_get_wand km kf v p e st = magic_get_wand km kf v p e st"
    unfolding api1_get_wand_def magic_get_wand_def first_get_wand_def sys_magic_get_wand_def get_wand_def push_bind
    by (simp add: api_defs cong: if_cong prod.case_cong)
  show "api1_attack n e st = magic_attack n e st"
    unfolding api1_attack_def magic_attack_def first_attack_def sys_magic_attack_def attack_def push_bind
    by (simp add: api_defs kmax_nonneg cong: if_cong option.case_cong)
  show "api1_legilimens km kf n e st = magic_legilimens km kf n e st"
    unfolding api1_legilimens_def magic_legilimens_def first_legilimens_def sys_magic_legilimens_def legilimens_def push_bind
    by (simp add: api_defs cong: if_cong option.case_cong prod.case_cong)
  show "api1_list_secrets a sz e st = magic_list_secrets a sz e st"
    unfolding api1_list_secrets_def magic_list_secrets_def first_list_secrets_def sys_magic_list_secrets_def list_secrets_def push_bind
    by (auto simp: api_defs intro!: Option.bind_cong split: sum.split dest!: copy_secrets_le)
qed

end
