(* ===== verification/Devices.thy ===== *)
theory Devices
  imports Kmalloc
begin

text \<open>
  The table of character devices of \<open>fs/devices.c\<close>: registration and removal. A table of file
  operations is a number, \<open>NULL\<close> is \<open>None\<close>; a name is the string it points to (\<open>strcmp\<close> of two strings is
  0 exactly when they are equal).
\<close>

abbreviation (input) MAX_CHRDEV :: nat where "MAX_CHRDEV \<equiv> 255"

definition EBUSY :: int where "EBUSY = 16"

record device_struct =
  dev_name :: "string option"
  dev_fops :: "nat option"

type_synonym chrdevs = "nat \<Rightarrow> device_struct"

definition MINOR :: "u32 \<Rightarrow> nat" where
  "MINOR dev = unat (dev AND 0xFF)"

text \<open>The loop from the last major number down.\<close>
fun find_free_major :: "nat \<Rightarrow> chrdevs \<Rightarrow> nat" where
  "find_free_major 0 t = 0"
| "find_free_major (Suc n) t = (if dev_fops (t (Suc n)) = None then Suc n else find_free_major n t)"

definition register_chrdev :: "nat \<Rightarrow> string \<Rightarrow> nat \<Rightarrow> chrdevs \<Rightarrow> int \<times> chrdevs" where
  "register_chrdev major name fops t =
     (if major = 0 then
        (let major = find_free_major (MAX_CHRDEV - 1) t in
         if major > 0 then (int major, t(major := \<lparr>dev_name = Some name, dev_fops = Some fops\<rparr>)) else (- EBUSY, t))
      else if major \<ge> MAX_CHRDEV then (- EINVAL, t)
      else if dev_fops (t major) \<noteq> None \<and> dev_fops (t major) \<noteq> Some fops then (- EBUSY, t)
      else (0, t(major := \<lparr>dev_name = Some name, dev_fops = Some fops\<rparr>)))"

definition unregister_chrdev :: "nat \<Rightarrow> string \<Rightarrow> chrdevs \<Rightarrow> int \<times> chrdevs" where
  "unregister_chrdev major name t =
     (if major \<ge> MAX_CHRDEV then (- EINVAL, t)
      else if dev_fops (t major) = None \<or> dev_name (t major) \<noteq> Some name then (- EINVAL, t)
      else (0, t(major := \<lparr>dev_name = None, dev_fops = None\<rparr>)))"

section \<open>Lemmas and properties\<close>

lemma find_free_major:
  "find_free_major n t \<le> n"
  "0 < find_free_major n t \<Longrightarrow> dev_fops (t (find_free_major n t)) = None"
  "find_free_major n t = 0 \<longleftrightarrow> (\<forall>i. 0 < i \<and> i \<le> n \<longrightarrow> dev_fops (t i) \<noteq> None)"
proof (induction n)
  case (Suc n)
  {
    case 1
    with Suc show ?case by (simp add: le_SucI)
  next
    case 2
    with Suc show ?case by (auto split: if_splits)
  next
    case 3
    with Suc show ?case using le_Suc_eq by auto
  }
qed auto

text \<open>
  With major 0 \<open>register_chrdev\<close> gives a free major number between 1 and 254 that
  then belongs to the caller, takes no entry of another driver, and fails with \<open>EBUSY\<close> only when all
  254 are taken; \<open>unregister_chrdev\<close> of the number and name gives the number back.
\<close>
theorem register_dynamic:
  assumes "register_chrdev 0 name fops t = (r, t')"
  shows "if \<forall>i. 0 < i \<and> i < MAX_CHRDEV \<longrightarrow> dev_fops (t i) \<noteq> None then r = - EBUSY \<and> t' = t
    else 0 < r \<and> r < int MAX_CHRDEV \<and> dev_fops (t (nat r)) = None \<and>
      t' = t(nat r := \<lparr>dev_name = Some name, dev_fops = Some fops\<rparr>) \<and>
      unregister_chrdev (nat r) name t' = (0, t(nat r := \<lparr>dev_name = None, dev_fops = None\<rparr>))"
proof -
  let ?j = "find_free_major 254 t"
  have iff: "?j = 0 \<longleftrightarrow> (\<forall>i. 0 < i \<and> i < MAX_CHRDEV \<longrightarrow> dev_fops (t i) \<noteq> None)"
    unfolding find_free_major(3) by (auto simp: less_Suc_eq_le [symmetric])
  show ?thesis
  proof (cases "?j = 0")
    case True
    then show ?thesis using assms iff by (simp add: register_chrdev_def)
  next
    case False
    have "?j \<le> 254" "dev_fops (t ?j) = None" using find_free_major(1,2) False by blast+
    moreover have "r = int ?j" "t' = t(?j := \<lparr>dev_name = Some name, dev_fops = Some fops\<rparr>)"
      using assms False by (simp_all add: register_chrdev_def Let_def)
    ultimately show ?thesis using False iff by (auto simp: unregister_chrdev_def)
  qed
qed

theorem register_dynamic_witness:
  "\<exists>t'. register_chrdev 0 ''repeated'' 7 (\<lambda>_. \<lparr>dev_name = None, dev_fops = None\<rparr>) = (254, t') \<and> dev_fops (t' 254) = Some 7"
proof -
  obtain r t' where r: "register_chrdev 0 ''repeated'' 7 (\<lambda>_. \<lparr>dev_name = None, dev_fops = None\<rparr>) = (r, t')" by fastforce
  moreover have "find_free_major 254 (\<lambda>_. \<lparr>dev_name = None, dev_fops = None\<rparr>) = 254"
    by (simp add: find_free_major.simps(2) [of 253, simplified])
  then have "r = 254" using r by (simp add: register_chrdev_def)
  moreover have "dev_fops (t' 254) = Some 7" using register_dynamic [OF r] calculation(2) by (auto split: if_splits simp: EBUSY_def)
  ultimately show ?thesis by blast
qed

end
