(* ===== verification/Repeated.thy ===== *)
theory Repeated
  imports Devices
begin

text \<open>
  The character device of the third assignment, \<open>repeated.c\<close>, and the program \<open>two_processes.c\<close> that uses
  it. Every minor number has a string and a size; reading at position \<open>k\<close> gives the character
  \<open>k mod\<close> the length of the string, up to the size. Positions are 64 bits wide (\<open>loff_t\<close>), sizes and
  counts 32 bits, and the conversions between them are the ones of the code. A read outside
  \<open>OurData\<close> does not return.
\<close>

section \<open>Data\<close>

record moduledata =
  flag :: int
  module_string :: addr
  max_size :: u32
  string_size :: u32

record filp =
  private_data :: addr
  f_pos :: "64 word"

record driver =
  my_major :: int
  OurData :: "nat \<Rightarrow> moduledata"
  dmem :: mem
  devs :: chrdevs

abbreviation (input) MAX_MINORS :: nat where "MAX_MINORS \<equiv> 256"

text \<open>The number of \<open>my_fops\<close>.\<close>
abbreviation (input) my_fops :: nat where "my_fops \<equiv> 1"

text \<open>\<open>_IOW('r', 0, char *)\<close> and \<open>_IO('r', 1)\<close> (\<open>include/asm-i386/ioctl.h\<close>).\<close>

definition IOC :: "u32 \<Rightarrow> u32 \<Rightarrow> u32 \<Rightarrow> u32 \<Rightarrow> u32" where
  "IOC dir ty nr sz = push_bit 30 dir OR push_bit 8 ty OR nr OR push_bit 16 sz"

definition SET_STRING :: u32 where "SET_STRING = IOC 1 114 0 4"
definition RESET :: u32 where "RESET = IOC 0 114 1 0"

definition upd_minor :: "nat \<Rightarrow> (moduledata \<Rightarrow> moduledata) \<Rightarrow> driver \<Rightarrow> driver" where
  "upd_minor n f d = d\<lparr>OurData := (OurData d)(n := f (OurData d n))\<rparr>"

section \<open>Operations\<close>

definition init_module :: "driver \<Rightarrow> int \<times> driver" where
  "init_module d =
     (let d = fold (\<lambda>i. upd_minor i (\<lambda>_. \<lparr>flag = 0, module_string = 0, max_size = 0, string_size = 0\<rparr>)) [0..<MAX_MINORS] d;
          (r, t) = register_chrdev (unat (of_int (my_major d) :: u32)) ''repeated'' my_fops (devs d);
          d = d\<lparr>my_major := r, devs := t\<rparr> in
      if my_major d < 0 then (my_major d, d) else (0, d))"

definition cleanup_module :: "kfree \<Rightarrow> driver \<Rightarrow> driver" where
  "cleanup_module kfree d =
     (let d = fold (\<lambda>i d. if module_string (OurData d i) \<noteq> 0 then d\<lparr>dmem := kfree (module_string (OurData d i)) (dmem d)\<rparr> else d)
            [0..<MAX_MINORS] d
      in d\<lparr>devs := snd (unregister_chrdev (unat (of_int (my_major d) :: u32)) ''repeated'' (devs d))\<rparr>)"

definition my_open :: "kmalloc \<Rightarrow> u32 \<Rightarrow> filp \<Rightarrow> driver \<Rightarrow> (int \<times> filp \<times> driver) option" where
  "my_open kmalloc i_rdev fp d =
     (let my_minor = MINOR i_rdev;
          d = (if flag (OurData d my_minor) \<noteq> 1 then upd_minor my_minor (\<lambda>x. x\<lparr>flag := 1\<rparr>) d else d);
          (minor_ptr, m) = kmalloc 4 (dmem d);
          d = d\<lparr>dmem := m\<rparr> in
      if minor_ptr = 0 then Some (- ENOMEM, fp, d)
      else do {
        m \<leftarrow> put (dmem d) minor_ptr (le32 (of_nat my_minor));
        Some (0, fp\<lparr>private_data := minor_ptr, f_pos := 0\<rparr>, d\<lparr>dmem := m\<rparr>) })"

definition my_release :: "kfree \<Rightarrow> filp \<Rightarrow> driver \<Rightarrow> int \<times> driver" where
  "my_release kfree fp d =
     (0, if private_data fp \<noteq> 0 then d\<lparr>dmem := kfree (private_data fp) (dmem d)\<rparr> else d)"

text \<open>The minor number \<open>private_data\<close> points to; the array has 256 entries.\<close>
definition curr_minor :: "filp \<Rightarrow> driver \<Rightarrow> nat option" where
  "curr_minor fp d = do {
     bs \<leftarrow> get (dmem d) (private_data fp) 4;
     let n = unat (of_le bs);
     if n < MAX_MINORS then Some n else None }"

partial_function (option) skip_strings :: "u32 \<Rightarrow> u32 \<Rightarrow> u32 option" where
  "skip_strings leftover sz =
     (if sint leftover \<ge> sint sz then skip_strings (leftover - sz) sz else Some leftover)"

text \<open>The copying loop: \<open>Inl\<close> when a byte could not be copied, \<open>Inr\<close> the number of bytes.\<close>
partial_function (option) read_loop ::
  "addr \<Rightarrow> u32 \<Rightarrow> u32 \<Rightarrow> addr \<Rightarrow> addr \<Rightarrow> u32 \<Rightarrow> u32 \<Rightarrow> u32 \<Rightarrow> mem \<Rightarrow> ((unit + u32) \<times> mem) option" where
  "read_loop limit allowed_bytes count buf str sz bytes_read string_pos m =
     (if sint bytes_read < sint allowed_bytes \<and> bytes_read < count then
        (case constant_copy_to_user limit (buf + bytes_read) (str + string_pos) 1 m of (r, m) \<Rightarrow>
         if r \<noteq> 0 then Some (Inl (), m)
         else (let string_pos = string_pos + 1;
                   string_pos = (if sint string_pos \<ge> sint sz then 0 else string_pos) in
               read_loop limit allowed_bytes count buf str sz (bytes_read + 1) string_pos m))
      else Some (Inr bytes_read, m))"

definition my_read :: "addr \<Rightarrow> filp \<Rightarrow> addr \<Rightarrow> u32 \<Rightarrow> driver \<Rightarrow> (int \<times> filp \<times> driver) option" where
  "my_read limit fp buf count d = do {
     n \<leftarrow> curr_minor fp d;
     let str = module_string (OurData d n);
     let sz = string_size (OurData d n);
     if buf = 0 then Some (- EFAULT, fp, d)
     else if \<not> access_ok limit buf count then Some (- EBADF, fp, d)
     else do {
       let allowed_bytes = (ucast (scast (max_size (OurData d n)) - f_pos fp) :: u32);
       let leftover = (ucast (f_pos fp) :: u32);
       string_pos \<leftarrow> skip_strings leftover sz;
       (r, m) \<leftarrow> read_loop limit allowed_bytes count buf str sz 0 string_pos (dmem d);
       let d = d\<lparr>dmem := m\<rparr>;
       case r of
         Inl _ \<Rightarrow> Some (- EBADF, fp, d)
       | Inr bytes_read \<Rightarrow> Some (sint bytes_read, fp\<lparr>f_pos := f_pos fp + scast bytes_read\<rparr>, d) } }"

definition my_write :: "filp \<Rightarrow> u32 \<Rightarrow> driver \<Rightarrow> (int \<times> driver) option" where
  "my_write fp count d = do {
     n \<leftarrow> curr_minor fp d;
     let new_size = max_size (OurData d n) + count;
     Some (sint count, upd_minor n (\<lambda>x. x\<lparr>max_size := new_size\<rparr>) d) }"

definition my_llseek :: "filp \<Rightarrow> 64 word \<Rightarrow> int \<Rightarrow> driver \<Rightarrow> (int \<times> filp) option" where
  "my_llseek fp shift mode d = do {
     n \<leftarrow> curr_minor fp d;
     let newpos = f_pos fp + shift;
     let sz = (scast (max_size (OurData d n)) :: 64 word);
     let newpos = (if sint newpos \<ge> sint sz then sz else newpos);
     let newpos = (if sint newpos \<le> 0 then 0 else newpos);
     Some (sint newpos, fp\<lparr>f_pos := newpos\<rparr>) }"

text \<open>The loop that looks for the terminator, and the branch for \<open>SET_STRING\<close>.\<close>

partial_function (option) count_chars :: "addr \<Rightarrow> u32 \<Rightarrow> mem \<Rightarrow> u32 option" where
  "count_chars a i m = do { c \<leftarrow> m (a + i); if c \<noteq> 0 then count_chars a (i + 1) m else Some i }"

definition set_string :: "addr \<Rightarrow> kmalloc \<Rightarrow> kfree \<Rightarrow> nat \<Rightarrow> addr \<Rightarrow> driver \<Rightarrow> (int \<times> driver) option" where
  "set_string limit kmalloc kfree n new_string d = do {
     let old = module_string (OurData d n);
     let d = (if old \<noteq> 0 then upd_minor n (\<lambda>x. x\<lparr>module_string := 0\<rparr>) (d\<lparr>dmem := kfree old (dmem d)\<rparr>) else d);
     i \<leftarrow> count_chars new_string 0 (dmem d);
     let (a, m) = kmalloc (unat (i + 1)) (dmem d);
     let d = upd_minor n (\<lambda>x. x\<lparr>module_string := a\<rparr>) (d\<lparr>dmem := m\<rparr>);
     if a = 0 then Some (- ENOMEM, upd_minor n (\<lambda>x. x\<lparr>string_size := 0\<rparr>) d)
     else do {
       (r, m) \<leftarrow> generic_copy_from_user limit a new_string i (dmem d);
       if r \<noteq> 0 then
         Some (- EBADF, upd_minor n (\<lambda>x. x\<lparr>module_string := 0, string_size := 0\<rparr>) (d\<lparr>dmem := kfree a m\<rparr>))
       else do {
         m \<leftarrow> store (a + i) 0 m;
         Some (0, upd_minor n (\<lambda>x. x\<lparr>string_size := i\<rparr>) (d\<lparr>dmem := m\<rparr>)) } } }"

definition my_ioctl :: "addr \<Rightarrow> kmalloc \<Rightarrow> kfree \<Rightarrow> filp \<Rightarrow> u32 \<Rightarrow> addr \<Rightarrow> driver \<Rightarrow> (int \<times> driver) option" where
  "my_ioctl limit kmalloc kfree fp cmd arg d = do {
     n \<leftarrow> curr_minor fp d;
     if cmd = SET_STRING then
       (if arg = 0 then Some (- EINVAL, d) else set_string limit kmalloc kfree n arg d)
     else if cmd = RESET then
       (let d = upd_minor n (\<lambda>x. x\<lparr>max_size := 0, string_size := 0\<rparr>) d;
            old = module_string (OurData d n) in
        Some (0, if old \<noteq> 0 then upd_minor n (\<lambda>x. x\<lparr>module_string := 0\<rparr>) (d\<lparr>dmem := kfree old (dmem d)\<rparr>) else d))
     else Some (- ENOTTY, d) }"

section \<open>The program two_processes.c\<close>

text \<open>
  The numbered parts of the two processes, on an opened file, with the addresses of their buffers. The
  result is the new position and state, or \<open>Inl\<close> the exit code. The library calls return -1 where the
  system call returns a negative number; output and sleeping have no effect on the device.
\<close>

type_synonym part = "(int + filp \<times> driver) option"

definition process_A_1 :: "addr \<Rightarrow> kmalloc \<Rightarrow> kfree \<Rightarrow> u32 \<Rightarrow> addr \<Rightarrow> driver \<Rightarrow> part" where
  "process_A_1 limit kmalloc kfree rdev repeated d = do {
     (r, fd, d) \<leftarrow> my_open kmalloc rdev \<lparr>private_data = 0, f_pos = 0\<rparr> d;
     if r < 0 then Some (Inl 1)
     else do {
       (r, d) \<leftarrow> my_ioctl limit kmalloc kfree fd SET_STRING repeated d;
       if r < 0 then Some (Inl 1)
       else do {
         (r, d) \<leftarrow> my_write fd 5 d;
         if r < 0 then Some (Inl 1) else Some (Inr (fd, d)) } } }"

definition process_A_3 :: "addr \<Rightarrow> kmalloc \<Rightarrow> kfree \<Rightarrow> addr \<Rightarrow> filp \<Rightarrow> driver \<Rightarrow> part" where
  "process_A_3 limit kmalloc kfree repeated_new fd d = do {
     (r, d) \<leftarrow> my_ioctl limit kmalloc kfree fd SET_STRING repeated_new d;
     if r < 0 then Some (Inl 1) else Some (Inr (fd, d)) }"

text \<open>A read into a buffer and the terminator behind what was read, which all later parts do.\<close>
definition read_string :: "addr \<Rightarrow> addr \<Rightarrow> u32 \<Rightarrow> filp \<Rightarrow> driver \<Rightarrow> part" where
  "read_string limit buffer count fd d = do {
     (bytesRead, fd, d) \<leftarrow> my_read limit fd buffer count d;
     if bytesRead < 0 then Some (Inl 1)
     else do {
       m \<leftarrow> store (buffer + of_int bytesRead) 0 (dmem d);
       Some (Inr (fd, d\<lparr>dmem := m\<rparr>)) } }"

definition process_A_5 :: "addr \<Rightarrow> addr \<Rightarrow> filp \<Rightarrow> driver \<Rightarrow> part" where
  "process_A_5 limit buffer fd d = read_string limit buffer 5 fd d"

definition process_B_2 :: "addr \<Rightarrow> kmalloc \<Rightarrow> u32 \<Rightarrow> addr \<Rightarrow> driver \<Rightarrow> part" where
  "process_B_2 limit kmalloc rdev buffer d = do {
     (r, fd, d) \<leftarrow> my_open kmalloc rdev \<lparr>private_data = 0, f_pos = 0\<rparr> d;
     if r < 0 then Some (Inl 1) else read_string limit buffer 3 fd d }"

definition process_B_4 :: "addr \<Rightarrow> addr \<Rightarrow> filp \<Rightarrow> driver \<Rightarrow> part" where
  "process_B_4 limit buffer fd d = read_string limit buffer 3 fd d"

definition process_B_6 :: "addr \<Rightarrow> addr \<Rightarrow> filp \<Rightarrow> driver \<Rightarrow> part" where
  "process_B_6 limit buffer fd d = do {
     (r, fd) \<leftarrow> my_llseek fd (- 10) 1 d;
     if r < 0 then Some (Inl 1) else read_string limit buffer 12 fd d }"

section \<open>Lemmas\<close>

lemma sint_small: "unat (w :: u32) < 2 ^ 31 \<Longrightarrow> sint w = int (unat w)"
  using sint_of_nat_small [of "unat w"] by simp

lemma sint_le_iff: "unat (a :: u32) < 2 ^ 31 \<Longrightarrow> unat (b :: u32) < 2 ^ 31 \<Longrightarrow> sint a \<le> sint b \<longleftrightarrow> unat a \<le> unat b"
  by (simp only: sint_small of_nat_le_iff)

lemma unat_small: "n < 2 ^ 32 \<Longrightarrow> unat (of_nat n :: u32) = n"
  by (simp add: unsigned_of_nat take_bit_nat_eq_self)

lemma skip_strings_mod:
  assumes "0 < unat z" "unat z < 2 ^ 31" "unat l < 2 ^ 31"
  shows "skip_strings l z = Some (of_nat (unat l mod unat z))"
  using assms(3)
proof (induction "unat l" arbitrary: l rule: less_induct)
  case less
  show ?case
  proof (cases "unat l < unat z")
    case True
    then show ?thesis using less.prems assms by (subst skip_strings.simps) (simp add: sint_le_iff)
  next
    case False
    have u: "unat (l - z) = unat l - unat z" using False by (simp add: unat_sub_if_size)
    have "skip_strings (l - z) z = Some (of_nat (unat (l - z) mod unat z))"
      using less.hyps [of "l - z"] less.prems False assms(1) unfolding u by simp
    moreover have "(unat l - unat z) mod unat z = unat l mod unat z" using False by (simp add: le_mod_geq)
    ultimately show ?thesis
      using False less.prems assms(2) u by (subst skip_strings.simps) (simp add: sint_le_iff)
  qed
qed

text \<open>With an empty string the first loop has no end.\<close>

lemma skip_strings_diverges:
  assumes "skip_strings l 0 = Some r"
  shows "sint l < 0"
proof -
  have "(0 :: u32) = 0 \<longrightarrow> sint l < 0"
    by (rule skip_strings.raw_induct [of "\<lambda>l z r. z = 0 \<longrightarrow> sint l < 0", OF _ assms]) (auto split: if_splits)
  then show ?thesis by simp
qed

lemma copy_byte:
  assumes "access_ok limit to 1" "m from = Some b" "m to \<noteq> None"
  shows "constant_copy_to_user limit to from 1 m = (0, m(to \<mapsto> b))"
  using assms by (simp add: constant_copy_to_user_def constant_copy_user_def movs_def store_mapped)

lemma read_loop_ok:
  fixes s :: "byte list"
  assumes A: "A < 2 ^ 31" and k: "k = min (unat count) A" and lim: "access_ok limit buf count"
    and s: "s \<noteq> []" "unat sz = length s" "length s < 2 ^ 31"
  shows "j + r = k \<Longrightarrow> q < length s \<Longrightarrow> bytes_at m str s \<Longrightarrow> mapped m (buf + of_nat j) r \<Longrightarrow>
    region (buf + of_nat j) r \<inter> region str (length s) = {} \<Longrightarrow>
    \<exists>m'. read_loop limit (of_nat A) count buf str sz (of_nat j) (of_nat q) m = Some (Inr (of_nat k), m') \<and>
      bytes_at m' (buf + of_nat j) (map (\<lambda>i. s ! ((q + i) mod length s)) [0..<r]) \<and>
      (\<forall>x. x \<notin> region (buf + of_nat j) r \<longrightarrow> m' x = m x)"
proof (induction r arbitrary: j q m)
  case 0
  have "j < 2 ^ 32" "j < 2 ^ 31" using 0 A k by auto
  then have "\<not> (sint (of_nat j :: u32) < sint (of_nat A :: u32) \<and> of_nat j < count)"
    using 0 A k by (auto simp: sint_of_nat_small word_less_nat_alt unat_small)
  then have "read_loop limit (of_nat A) count buf str sz (of_nat j) (of_nat q) m = Some (Inr (of_nat j), m)"
    by (subst read_loop.simps) (simp only: if_False)
  then show ?case using 0 by simp
next
  case (Suc r)
  let ?b = "buf + of_nat j" and ?q = "Suc q mod length s"
  let ?m = "m(?b \<mapsto> s ! q)"
  have j: "j < unat count" "j < A" "j < 2 ^ 31" "Suc q < 2 ^ 32" using Suc.prems A k s by auto
  then have go: "sint (of_nat j :: u32) < sint (of_nat A :: u32) \<and> of_nat j < count"
    using A by (simp add: sint_of_nat_small word_less_nat_alt unat_small)
  have cnt: "unat buf + unat count \<le> unat limit" using lim by (simp add: access_ok_iff)
  have lb: "unat limit < 2 ^ 32" by (rule unat_u32)
  have "unat ?b = unat buf + j"
    using j cnt lb by (simp add: unat_plus_if_size word_size unat_small)
  then have ok: "access_ok limit ?b 1" using j cnt by (simp add: access_ok_iff)
  have sq: "m (str + of_nat q) = Some (s ! q)"
  proof -
    have "bytes_at m str (take q s @ s ! q # drop (Suc q) s)" using Suc.prems(2,3) by (simp add: id_take_nth_drop [symmetric])
    then show ?thesis using Suc.prems(2) by (simp add: bytes_at_append min_absorb2)
  qed
  have mp: "m ?b \<noteq> None" "mapped ?m (buf + of_nat (Suc j)) r"
    using Suc.prems(4) by (simp_all add: mapped_Suc mapped_upd add.assoc add.commute [of 1])
  have rg: "region ?b (Suc r) = insert ?b (region (buf + of_nat (Suc j)) r)"
    by (simp add: region_Suc add.assoc add.commute [of 1])
  have nb: "?b \<notin> region (buf + of_nat (Suc j)) r"
    using not_in_tail [of r ?b] j Suc.prems(1) k A by (simp add: add.assoc add.commute [of 1])
  have b': "bytes_at ?m str s"
  proof -
    have "?m x = m x" if "x \<in> region str (length s)" for x using that Suc.prems(5) unfolding rg by auto
    then show ?thesis using bytes_at_cong [of str s ?m m] Suc.prems(3) by blast
  qed
  have nq: "(if sint (of_nat q + 1 :: u32) \<ge> sint sz then 0 else of_nat q + 1) = (of_nat ?q :: u32)"
  proof -
    have e: "of_nat q + 1 = (of_nat (Suc q) :: u32)" by simp
    have "sint sz \<le> sint (of_nat (Suc q) :: u32) \<longleftrightarrow> length s \<le> Suc q"
      using s Suc.prems(2) sint_le_iff [of sz "of_nat (Suc q)"] by (simp add: unat_small del: of_nat_Suc)
    then show ?thesis unfolding e using Suc.prems(2) by (auto simp: le_Suc_eq simp del: of_nat_Suc)
  qed
  have "Suc j + r = k" "?q < length s" "region (buf + of_nat (Suc j)) r \<inter> region str (length s) = {}"
    using Suc.prems s unfolding rg by auto
  from Suc.IH [OF this(1,2) b' mp(2) this(3)] obtain m' where m':
    "read_loop limit (of_nat A) count buf str sz (of_nat (Suc j)) (of_nat ?q) ?m = Some (Inr (of_nat k), m')"
    "bytes_at m' (buf + of_nat (Suc j)) (map (\<lambda>i. s ! ((?q + i) mod length s)) [0..<r])"
    "\<forall>x. x \<notin> region (buf + of_nat (Suc j)) r \<longrightarrow> m' x = ?m x" by blast
  have "read_loop limit (of_nat A) count buf str sz (of_nat j) (of_nat q) m = Some (Inr (of_nat k), m')"
    using m'(1) by (subst read_loop.simps) (simp add: go copy_byte [OF ok sq mp(1)] nq [simplified] add.commute [of 1])
  moreover have "map (\<lambda>i. s ! ((q + i) mod length s)) [0..<Suc r] = s ! q # map (\<lambda>i. s ! ((?q + i) mod length s)) [0..<r]"
    using Suc.prems(2) by (simp add: upt_conv_Cons map_Suc_upt [symmetric] comp_def mod_simps del: upt_Suc)
  moreover have "m' ?b = Some (s ! q)" using m'(3) nb by simp
  ultimately show ?case using m'(2,3) unfolding rg by (auto simp: add.assoc add.commute [of 1])
qed

lemma scast_small: "unat (w :: u32) < 2 ^ 31 \<Longrightarrow> (scast w :: 64 word) = of_nat (unat w)"
  using sint_small [of w] by (metis of_int_of_nat_eq word_of_int_uint scast_eq)

lemma ucast_of_nat_64: "n < 2 ^ 64 \<Longrightarrow> (ucast (of_nat n :: 64 word) :: u32) = of_nat n"
  by (simp add: unsigned_of_nat take_bit_nat_eq_self)

lemma get_mono:
  assumes "get m a k = Some bs" "m \<subseteq>\<^sub>m m'"
  shows "get m' a k = Some bs"
  using assms
proof (induction k arbitrary: a bs)
  case (Suc k)
  then show ?case by (auto dest: map_leD)
qed simp

lemma curr_minor_mono:
  assumes "curr_minor fp d = Some n" "dmem d \<subseteq>\<^sub>m dmem d'"
  shows "curr_minor fp d' = Some n"
proof -
  from assms(1) obtain bs where "get (dmem d) (private_data fp) 4 = Some bs" "unat (of_le bs) = n" "n < MAX_MINORS"
    by (auto simp: curr_minor_def Let_def split: if_splits)
  with get_mono [OF this(1) assms(2)] show ?thesis by (simp add: curr_minor_def)
qed

lemma minor_upd [simp]:
  "OurData (upd_minor n f d) = (OurData d)(n := f (OurData d n))" "dmem (upd_minor n f d) = dmem d"
  "devs (upd_minor n f d) = devs d" "my_major (upd_minor n f d) = my_major d"
  by (simp_all add: upd_minor_def)

lemma count_chars_cstr:
  assumes "cstr m (a + of_nat i) s"
  shows "count_chars a (of_nat i) m = Some (of_nat (i + length s))"
  using assms
proof (induction s arbitrary: i)
  case Nil
  then show ?case by (subst count_chars.simps) simp
next
  case (Cons c s)
  then have "cstr m (a + of_nat (Suc i)) s" by (simp add: add.assoc add.commute [of 1])
  from Cons.IH [OF this] Cons.prems show ?case
    by (subst count_chars.simps) (simp add: add.commute [of 1] add.left_commute [of 1])
qed

lemma copy_zeroing_ok: "copy_user to from sz m = (0, m') \<Longrightarrow> copy_user_zeroing to from sz m = Some (0, m')"
  by (auto simp: copy_user_def copy_user_zeroing_def split: prod.splits if_splits)

text \<open>Copying a user string into a fresh object and terminating it.\<close>

lemma fresh_copy_from_user:
  assumes km: "kmalloc_ok km" "km (Suc (length s)) m = (a, m1)" "a \<noteq> 0" and s: "cstr m src s"
    and lim: "access_ok limit src (of_nat (length s))" "length s < 2 ^ 32"
  shows "\<exists>m2 m3. generic_copy_from_user limit a src (of_nat (length s)) m1 = Some (0, m2) \<and>
    store (a + of_nat (length s)) 0 m2 = Some m3 \<and> cstr m3 a s \<and> m \<subseteq>\<^sub>m m3"
proof -
  let ?n = "length s"
  have f: "mapped m1 a (Suc ?n)" "\<forall>x\<in>region a (Suc ?n). m x = None" "\<forall>x. x \<notin> region a (Suc ?n) \<longrightarrow> m1 x = m x"
    using km by (fastforce simp: kmalloc_ok_def)+
  have sp: "region a (Suc ?n) = region a ?n \<union> {a + of_nat ?n}" using region_add [of a ?n 1] by (simp add: region_Suc)
  have le: "m \<subseteq>\<^sub>m m1" using f(2,3) by (auto simp: map_le_def dom_def) (metis option.distinct(1))
  have b: "bytes_at m1 src s" using cstr_bytes [OF cstr_mono [OF s le]] .
  have mp: "mapped m1 a ?n" "m1 (a + of_nat ?n) \<noteq> None" using f(1) unfolding mapped_region sp by auto
  have src: "region src ?n \<subseteq> dom m" using cstr_mapped [OF s] by (auto simp: mapped_def region_def)
  have dj: "region a ?n \<inter> region src ?n = {}"
  proof -
    have "region a (Suc ?n) \<inter> dom m = {}" using f(2) by auto
    then show ?thesis using src unfolding sp by blast
  qed
  have u: "unat (of_nat ?n :: u32) = ?n" "?n \<le> 2 ^ 32" using lim(2) by (simp_all add: unat_small)
  obtain m2 where m2: "copy_user a src ?n m1 = (0, m2)" "put m1 a s = Some m2"
    using copy_user_ok [OF b refl mp(1) u(2) dj] by blast
  have p: "bytes_at m2 a s" "\<forall>x. x \<notin> region a ?n \<longrightarrow> m2 x = m1 x" "dom m2 = dom m1"
    using put_ok [OF mp(1) u(2)] m2(2) by auto
  have cp: "generic_copy_from_user limit a src (of_nat ?n) m1 = Some (0, m2)"
    using copy_zeroing_ok [OF m2(1)] lim(1) u(1) by (simp add: generic_copy_from_user_def)
  let ?e = "a + of_nat ?n"
  have st: "store ?e 0 m2 = Some (m2(?e \<mapsto> 0))" using mp(2) p(3) by (metis domIff store_mapped)
  have ne: "?e \<notin> region a ?n"
  proof
    assume "?e \<in> region a ?n"
    then obtain i where i: "i < ?n" "(of_nat ?n :: u32) = of_nat i" by (auto simp: region_def)
    then have "unat (of_nat ?n :: u32) = unat (of_nat i :: u32)" by simp
    then show False using i(1) lim(2) by (simp add: unat_small)
  qed
  have "bytes_at (m2(?e \<mapsto> 0)) a s" using bytes_at_cong [of a s "m2(?e \<mapsto> 0)" m2] p(1) ne by (metis fun_upd_other)
  then have c: "cstr (m2(?e \<mapsto> 0)) a s" using s by (simp add: cstr_def bytes_at_append)
  have "m \<subseteq>\<^sub>m m2(?e \<mapsto> 0)" unfolding map_le_def
  proof
    fix x assume x: "x \<in> dom m"
    then have "x \<notin> region a (Suc ?n)" using f(2) by auto
    then show "m x = (m2(?e \<mapsto> 0)) x" using p(2) f(3) unfolding sp by auto
  qed
  with cp st c show ?thesis by blast
qed

text \<open>What a read gives: the characters of the string over and over.\<close>

definition repeat_from :: "byte list \<Rightarrow> nat \<Rightarrow> nat \<Rightarrow> byte list" where
  "repeat_from s p k = map (\<lambda>i. s ! ((p + i) mod length s)) [0..<k]"

lemma my_read_ok:
  assumes n: "curr_minor fp d = Some n" and str: "bytes_at (dmem d) (module_string (OurData d n)) s" "s \<noteq> []"
    and sz: "unat (string_size (OurData d n)) = length s" "length s < 2 ^ 31"
    and pos: "unat (f_pos fp) \<le> unat (max_size (OurData d n))" "unat (max_size (OurData d n)) < 2 ^ 31"
    and buf: "buf \<noteq> 0" "access_ok limit buf count" "mapped (dmem d) buf (unat count)"
      "region buf (unat count) \<inter> region (module_string (OurData d n)) (length s) = {}"
  defines "k \<equiv> min (unat count) (unat (max_size (OurData d n)) - unat (f_pos fp))"
  shows "\<exists>m'. my_read limit fp buf count d = Some (int k, fp\<lparr>f_pos := of_nat (unat (f_pos fp) + k)\<rparr>, d\<lparr>dmem := m'\<rparr>) \<and>
    bytes_at m' buf (repeat_from s (unat (f_pos fp)) k) \<and> (\<forall>x. x \<notin> region buf k \<longrightarrow> m' x = dmem d x)"
proof -
  define p where "p = unat (f_pos fp)"
  have fp: "f_pos fp = of_nat p" by (simp add: p_def)
  let ?x = "OurData d n" and ?p = p
  note pos = pos [folded p_def] and k_def = k_def [folded p_def]
  let ?A = "unat (max_size ?x) - ?p"
  have al: "ucast (scast (max_size ?x) - f_pos fp) = (of_nat ?A :: u32)"
  proof -
    have "scast (max_size ?x) - f_pos fp = (of_nat (unat (max_size ?x)) - of_nat ?p :: 64 word)" using pos(2) by (simp add: scast_small fp)
    also have "\<dots> = of_nat ?A" using pos(1) by (simp only: of_nat_diff)
    finally have "scast (max_size ?x) - f_pos fp = (of_nat ?A :: 64 word)" .
    moreover have "?A < 2 ^ 64" using pos by simp
    ultimately show ?thesis by (simp only: ucast_of_nat_64)
  qed
  have lo: "ucast (f_pos fp) = (of_nat ?p :: u32)" using ucast_of_nat_64 [of ?p] pos unfolding fp by simp
  have sk: "skip_strings (of_nat ?p) (string_size ?x) = Some (of_nat (?p mod length s))"
    using skip_strings_mod [of "string_size ?x" "of_nat ?p"] sz str(2) pos by (simp add: unat_small)
  have kc: "k \<le> unat count" "k < 2 ^ 31" using pos by (simp_all add: k_def)
  have dj: "region (buf + of_nat 0) k \<inter> region (module_string ?x) (length s) = {}"
    using buf(4) region_mono [OF kc(1), of buf] by auto
  have mp: "mapped (dmem d) (buf + of_nat 0) k" using buf(3) kc(1) by (simp add: mapped_def)
  have "?A < 2 ^ 31" "0 + k = k" "?p mod length s < length s" using pos str(2) by simp_all
  from read_loop_ok [OF this(1) k_def [THEN meta_eq_to_obj_eq] buf(2) str(2) sz this(2,3) str(1) mp dj] obtain m' where m':
    "read_loop limit (of_nat ?A) count buf (module_string ?x) (string_size ?x) 0 (of_nat (?p mod length s)) (dmem d) = Some (Inr (of_nat k), m')"
    "bytes_at m' buf (map (\<lambda>i. s ! ((?p mod length s + i) mod length s)) [0..<k])"
    "\<forall>x. x \<notin> region buf k \<longrightarrow> m' x = dmem d x" by auto
  have "f_pos fp + scast (of_nat k :: u32) = of_nat (?p + k)" using kc(2) by (simp add: scast_small unat_small fp)
  with m' n buf(1,2) sk kc(2) show ?thesis unfolding p_def [symmetric]
    by (intro exI [of _ m']) (simp add: my_read_def al lo sint_of_nat_small repeat_from_def mod_simps Let_def)
qed

text \<open>
  \<open>SET_STRING\<close> with a string the caller may read stores a private copy with its length and leaves the
  size and the other minor numbers alone.
\<close>

lemma ioctl_set_string:
  assumes n: "curr_minor fp d = Some n" and arg: "arg \<noteq> 0" and old: "module_string (OurData d n) = 0"
    and s: "cstr (dmem d) arg s" "access_ok limit arg (of_nat (length s))" "Suc (length s) < 2 ^ 32"
    and km: "kmalloc_ok km" "fst (km (Suc (length s)) (dmem d)) \<noteq> 0"
  shows "\<exists>d'. my_ioctl limit km kf fp SET_STRING arg d = Some (0, d') \<and> cstr (dmem d') (module_string (OurData d' n)) s \<and>
    string_size (OurData d' n) = of_nat (length s) \<and> max_size (OurData d' n) = max_size (OurData d n) \<and>
    (\<forall>k. k \<noteq> n \<longrightarrow> OurData d' k = OurData d k) \<and> dmem d \<subseteq>\<^sub>m dmem d' \<and>
    (\<forall>x\<in>region (module_string (OurData d' n)) (Suc (length s)). dmem d x = None)"
proof -
  obtain a m1 where a: "km (Suc (length s)) (dmem d) = (a, m1)" by fastforce
  have a0: "a \<noteq> 0" using km(2) a by simp
  have fr: "\<forall>x\<in>region a (Suc (length s)). dmem d x = None" using km(1) a a0 by (fastforce simp: kmalloc_ok_def)
  have len: "length s < 2 ^ 32" using s(3) by simp
  obtain m2 m3 where m: "generic_copy_from_user limit a arg (of_nat (length s)) m1 = Some (0, m2)"
    "store (a + of_nat (length s)) 0 m2 = Some m3" "cstr m3 a s" "dmem d \<subseteq>\<^sub>m m3"
    using fresh_copy_from_user [OF km(1) a a0 s(1,2) len] by blast
  have c: "count_chars arg 0 (dmem d) = Some (of_nat (length s))" using count_chars_cstr [of "dmem d" arg 0 s] s(1) by simp
  have u: "unat (of_nat (length s) + 1 :: u32) = Suc (length s)" using unat_small [of "Suc (length s)"] s(3) by (simp add: add.commute)
  have "my_ioctl limit km kf fp SET_STRING arg d =
      Some (0, upd_minor n (\<lambda>x. x\<lparr>string_size := of_nat (length s)\<rparr>) (upd_minor n (\<lambda>x. x\<lparr>module_string := a\<rparr>) (d\<lparr>dmem := m1\<rparr>)\<lparr>dmem := m3\<rparr>))"
    using n arg old c u a a0 m(1,2) by (simp add: my_ioctl_def set_string_def Let_def)
  then show ?thesis using m(3,4) fr by (auto simp: upd_minor_def)
qed

lemma my_llseek_ok:
  assumes "curr_minor fp d = Some n" "0 \<le> sint (max_size (OurData d n))"
    "- (2 ^ 63) \<le> sint (f_pos fp) + sint shift" "sint (f_pos fp) + sint shift < 2 ^ 63"
  shows "\<exists>fp'. my_llseek fp shift mode d = Some (sint (f_pos fp'), fp') \<and>
    sint (f_pos fp') = max 0 (min (sint (max_size (OurData d n))) (sint (f_pos fp) + sint shift))"
proof -
  have s: "sint (f_pos fp + shift) = sint (f_pos fp) + sint shift"
    using assms(3,4) by (simp add: sint_word_ariths(1) signed_take_bit_int_eq_self)
  have m: "sint (scast (max_size (OurData d n)) :: 64 word) = sint (max_size (OurData d n))"
  proof -
    have "- (2 ^ 31) \<le> sint (max_size (OurData d n))" "sint (max_size (OurData d n)) < 2 ^ 31"
      using sint_ge [of "max_size (OurData d n)"] sint_lt [of "max_size (OurData d n)"] by simp_all
    then have "signed_take_bit 63 (sint (max_size (OurData d n))) = sint (max_size (OurData d n))"
      by (intro signed_take_bit_int_eq_self) simp_all
    then show ?thesis unfolding scast_eq by (simp only: signed_of_int) simp
  qed
  show ?thesis using assms(1,2) s m by (auto simp: my_llseek_def Let_def max_def min_def)
qed

section \<open>Properties\<close>

text \<open>
  C12. A read at a position within the size returns the smaller of the requested number and
  the number of bytes up to the size, moves the position by it, and gives the characters of the
  endlessly repeated string from that position on; no other memory changes.
\<close>
theorem read_repeats:
  assumes n: "curr_minor fp d = Some n" and str: "bytes_at (dmem d) (module_string (OurData d n)) s" "s \<noteq> []"
    and sz: "unat (string_size (OurData d n)) = length s" "length s < 2 ^ 31"
    and pos: "unat (f_pos fp) \<le> unat (max_size (OurData d n))" "unat (max_size (OurData d n)) < 2 ^ 31"
    and buf: "buf \<noteq> 0" "access_ok limit buf count" "mapped (dmem d) buf (unat count)"
      "region buf (unat count) \<inter> region (module_string (OurData d n)) (length s) = {}"
  defines "k \<equiv> min (unat count) (unat (max_size (OurData d n)) - unat (f_pos fp))"
  shows "\<exists>m'. my_read limit fp buf count d = Some (int k, fp\<lparr>f_pos := of_nat (unat (f_pos fp) + k)\<rparr>, d\<lparr>dmem := m'\<rparr>) \<and>
    bytes_at m' buf (repeat_from s (unat (f_pos fp)) k) \<and> (\<forall>x. x \<notin> region buf k \<longrightarrow> m' x = dmem d x)"
  using my_read_ok [OF n str sz pos buf] unfolding k_def .

text \<open>
  C15. While a minor number has no string (before the first \<open>SET_STRING\<close>, after \<open>RESET\<close>, after
  an empty string or a failed \<open>SET_STRING\<close>), a read with a valid buffer never returns.
\<close>
theorem read_hangs:
  assumes "curr_minor fp d = Some n" "string_size (OurData d n) = 0" "0 \<le> sint (ucast (f_pos fp) :: u32)"
    "buf \<noteq> 0" "access_ok limit buf count"
  shows "my_read limit fp buf count d = None"
proof -
  have "skip_strings (ucast (f_pos fp)) 0 = None"
    using skip_strings_diverges [of "ucast (f_pos fp)"] assms(3) by (cases "skip_strings (ucast (f_pos fp)) 0") auto
  with assms show ?thesis by (simp add: my_read_def Let_def)
qed

text \<open>
  C14. \<open>my_llseek\<close> moves the position by the offset and keeps it between 0 and the size; the
  mode (absolute, relative, from the end) has no influence.
\<close>
theorem llseek_clamps:
  assumes "curr_minor fp d = Some n" "0 \<le> sint (max_size (OurData d n))"
    "- (2 ^ 63) \<le> sint (f_pos fp) + sint shift" "sint (f_pos fp) + sint shift < 2 ^ 63"
  shows "\<exists>fp'. my_llseek fp shift mode d = Some (sint (f_pos fp'), fp') \<and>
    sint (f_pos fp') = max 0 (min (sint (max_size (OurData d n))) (sint (f_pos fp) + sint shift))"
  using my_llseek_ok [OF assms] .

text \<open>
  C13. On a fresh minor number: after \<open>SET_STRING\<close> of a non-empty string and a write of \<open>w\<close>
  bytes, whose contents are ignored, a read of \<open>c\<close> bytes at the start gives the first \<open>min c w\<close>
  characters of the repeated string.
\<close>
theorem set_write_read:
  assumes n: "curr_minor fp d = Some n" "f_pos fp = 0" "module_string (OurData d n) = 0" "max_size (OurData d n) = 0"
    and s: "arg \<noteq> 0" "s \<noteq> []" "cstr (dmem d) arg s" "access_ok limit arg (of_nat (length s))" "length s < 2 ^ 31"
    and km: "kmalloc_ok km" "fst (km (Suc (length s)) (dmem d)) \<noteq> 0"
    and w: "unat w < 2 ^ 31" and buf: "buf \<noteq> 0" "access_ok limit buf c" "mapped (dmem d) buf (unat c)"
  defines "k \<equiv> min (unat c) (unat w)"
  shows "\<exists>d1 d2 fp' d3. my_ioctl limit km kf fp SET_STRING arg d = Some (0, d1) \<and> my_write fp w d1 = Some (int (unat w), d2) \<and>
    my_read limit fp buf c d2 = Some (int k, fp', d3) \<and> bytes_at (dmem d3) buf (repeat_from s 0 k) \<and> f_pos fp' = of_nat k"
proof -
  have l: "Suc (length s) < 2 ^ 32" using s(5) by simp
  obtain d1 where d1: "my_ioctl limit km kf fp SET_STRING arg d = Some (0, d1)" "cstr (dmem d1) (module_string (OurData d1 n)) s"
    "string_size (OurData d1 n) = of_nat (length s)" "max_size (OurData d1 n) = 0" "dmem d \<subseteq>\<^sub>m dmem d1"
    "\<forall>x\<in>region (module_string (OurData d1 n)) (Suc (length s)). dmem d x = None"
    using ioctl_set_string [OF n(1) s(1) n(3) s(3,4) l km] n(4) by metis
  define d2 where "d2 = upd_minor n (\<lambda>x. x\<lparr>max_size := w\<rparr>) d1"
  have m1: "curr_minor fp d1 = Some n" "curr_minor fp d2 = Some n"
    using curr_minor_mono [OF n(1)] d1(5) by (simp_all add: d2_def)
  have wr: "my_write fp w d1 = Some (int (unat w), d2)"
    using m1(1) d1(4) sint_small [OF w] by (simp add: my_write_def d2_def)
  have x: "module_string (OurData d2 n) = module_string (OurData d1 n)" "unat (string_size (OurData d2 n)) = length s"
    "max_size (OurData d2 n) = w" "dmem d2 = dmem d1"
    using d1(3) s(5) by (simp_all add: d2_def unat_small)
  have "mapped (dmem d1) buf (unat c)" using buf(3) map_leD [OF d1(5)] unfolding mapped_def by blast
  moreover have "region buf (unat c) \<inter> region (module_string (OurData d1 n)) (length s) = {}"
  proof -
    have "region buf (unat c) \<subseteq> dom (dmem d)" using buf(3) unfolding mapped_region by auto
    moreover have "region (module_string (OurData d1 n)) (length s) \<inter> dom (dmem d) = {}"
      using d1(6) region_mono [of "length s" "Suc (length s)"] by fastforce
    ultimately show ?thesis by blast
  qed
  ultimately obtain m' where "my_read limit fp buf c d2 = Some (int k, fp\<lparr>f_pos := of_nat k\<rparr>, d2\<lparr>dmem := m'\<rparr>)"
    "bytes_at m' buf (repeat_from s 0 k)"
    using my_read_ok [OF m1(2), of s buf limit c] x cstr_bytes [OF d1(2)] s(2,5) n(2) w buf(1,2) by (auto simp: k_def)
  with d1(1) wr show ?thesis by force
qed

text \<open>
  The last part of process B reads up to 12 bytes into an array of 4: when the
  device has at least 4 bytes, the terminator alone is written behind the array.
\<close>
theorem process_B_overflows:
  assumes n: "curr_minor fp d = Some n" and str: "bytes_at (dmem d) (module_string (OurData d n)) s" "s \<noteq> []"
    and sz: "unat (string_size (OurData d n)) = length s" "length s < 2 ^ 31"
    and pos: "sint (f_pos fp) \<le> 10" "0 \<le> sint (f_pos fp)" "4 \<le> unat (max_size (OurData d n))" "unat (max_size (OurData d n)) < 2 ^ 31"
    and buf: "buffer \<noteq> 0" "access_ok limit buffer 12" "mapped (dmem d) buffer 13"
      "region buffer 12 \<inter> region (module_string (OurData d n)) (length s) = {}"
  shows "\<exists>fp' d' k. process_B_6 limit buffer fp d = Some (Inr (fp', d')) \<and> 4 \<le> k \<and> k \<le> 12 \<and> dmem d' (buffer + of_nat k) = Some 0"
proof -
  define k where "k = min 12 (unat (max_size (OurData d n)))"
  have m: "0 \<le> sint (max_size (OurData d n))" using pos(4) by (simp add: sint_small)
  have "sint (- 10 :: 64 word) = - 10" by simp
  then obtain fp' where fp': "my_llseek fp (- 10) 1 d = Some (sint (f_pos fp'), fp')" "sint (f_pos fp') = 0"
    using my_llseek_ok [OF n m, of "- 10" 1] pos(1,2) m by auto
  have f0: "f_pos fp' = 0" "private_data fp' = private_data fp"
    using fp' n by (auto simp: my_llseek_def Let_def)
  have n': "curr_minor fp' d = Some n" using n f0(2) by (simp add: curr_minor_def)
  have mp: "mapped (dmem d) buffer (unat (12 :: u32))" using buf(3) by (simp add: mapped_def)
  obtain m' where m': "my_read limit fp' buffer 12 d = Some (int k, fp'\<lparr>f_pos := of_nat k\<rparr>, d\<lparr>dmem := m'\<rparr>)"
    "\<forall>x. x \<notin> region buffer k \<longrightarrow> m' x = dmem d x" "bytes_at m' buffer (repeat_from s 0 k)"
    using my_read_ok [OF n' str sz _ pos(4) buf(1,2) mp] buf(4) f0(1) by (auto simp: k_def)
  have k: "4 \<le> k" "k \<le> 12" using pos(3) by (simp_all add: k_def)
  have "m' (buffer + of_nat k) \<noteq> None"
  proof (cases "buffer + of_nat k \<in> region buffer k")
    case True
    then show ?thesis using bytes_at_mapped [OF m'(3)] unfolding mapped_region by (simp add: repeat_from_def)
  next
    case False
    then show ?thesis using m'(2) buf(3) k(2) by (simp add: mapped_def)
  qed
  then have "process_B_6 limit buffer fp d = Some (Inr (fp'\<lparr>f_pos := of_nat k\<rparr>, d\<lparr>dmem := m'(buffer + of_nat k \<mapsto> 0)\<rparr>))"
    using fp' m'(1) by (simp add: process_B_6_def read_string_def store_mapped)
  with k show ?thesis by auto
qed

section \<open>A concrete device\<close>

text \<open>Minor number 3, with the characters of \<open>demo_mem\<close> and 64 bytes of user memory at \<open>0x7000\<close>.\<close>

definition rep_mem :: mem where
  "rep_mem x = (if 0x7000 \<le> unat x \<and> unat x < 0x7040 then Some 1
     else (demo_mem(0x6000 \<mapsto> 3, 0x6001 \<mapsto> 0, 0x6002 \<mapsto> 0, 0x6003 \<mapsto> 0)) x)"

definition rep_dev :: "addr \<Rightarrow> u32 \<Rightarrow> u32 \<Rightarrow> driver" where
  "rep_dev str sz len = \<lparr> my_major = 254, OurData = (\<lambda>_. \<lparr>flag = 1, module_string = str, max_size = sz, string_size = len\<rparr>),
     dmem = rep_mem, devs = (\<lambda>_. \<lparr>dev_name = None, dev_fops = None\<rparr>) \<rparr>"

definition rep_fp :: "64 word \<Rightarrow> filp" where
  "rep_fp p = \<lparr>private_data = 0x6000, f_pos = p\<rparr>"

lemma rep_facts:
  "curr_minor (rep_fp p) (rep_dev str sz len) = Some 3" "f_pos (rep_fp p) = p" "dmem (rep_dev str sz len) = rep_mem"
  "OurData (rep_dev str sz len) k = \<lparr>flag = 1, module_string = str, max_size = sz, string_size = len\<rparr>"
proof -
  have e: "(4 :: nat) = Suc (Suc (Suc (Suc 0)))" by simp
  show "curr_minor (rep_fp p) (rep_dev str sz len) = Some 3"
    unfolding curr_minor_def e by (simp add: rep_fp_def rep_dev_def rep_mem_def)
qed (simp_all add: rep_fp_def rep_dev_def)

lemma rep_mem_facts:
  "bytes_at rep_mem 0x1000 [97, 98, 98]" "cstr rep_mem 0x1000 [97, 98, 98]" "n \<le> 64 \<Longrightarrow> mapped rep_mem 0x7000 n"
  "n \<le> 64 \<Longrightarrow> region 0x7000 n \<inter> region 0x1000 (length [97, 98, 98 :: byte]) = {}"
proof -
  show "bytes_at rep_mem 0x1000 [97, 98, 98]" "cstr rep_mem 0x1000 [97, 98, 98]" by (simp_all add: rep_mem_def demo_mem_def)
  have u: "unat (0x7000 + of_nat i :: addr) = 0x7000 + i" if "i < 64" for i
    using that by (simp add: unat_plus_if_size word_size unat_small)
  then show "mapped rep_mem 0x7000 n" if "n \<le> 64" using that by (auto simp: mapped_def rep_mem_def)
  show "region 0x7000 n \<inter> region 0x1000 (length [97, 98, 98 :: byte]) = {}" if "n \<le> 64"
  proof -
    have "x \<notin> region 0x1000 (length [97, 98, 98 :: byte])" if "x \<in> region 0x7000 n" for x :: addr
      using that \<open>n \<le> 64\<close> region_iff [of "0x7000" n x] region_iff [of "0x1000" "length [97, 98, 98 :: byte]" x] by simp
    then show ?thesis by blast
  qed
qed

theorem read_repeats_witness:
  "\<exists>m'. my_read 0xC0000000 (rep_fp 2) 0x7000 5 (rep_dev 0x1000 10 3) = Some (5, rep_fp 7, (rep_dev 0x1000 10 3)\<lparr>dmem := m'\<rparr>) \<and>
    bytes_at m' 0x7000 [98, 97, 98, 98, 97]"
proof -
  have "repeat_from [97, 98, 98] 2 5 = [98, 97, 98, 98, 97 :: byte]" by (simp add: repeat_from_def upt_rec)
  moreover have "rep_fp 7 = (rep_fp 2)\<lparr>f_pos := 7\<rparr>" by (simp add: rep_fp_def)
  ultimately show ?thesis
    using read_repeats [OF rep_facts(1) [of 2 "0x1000" 10 3], of "[97, 98, 98]" "0x7000" "0xC0000000" 5] rep_mem_facts
    by (simp add: rep_facts access_ok_iff) blast
qed

theorem read_hangs_witness: "my_read 0xC0000000 (rep_fp 0) 0x7000 5 (rep_dev 0 0 0) = None"
  using read_hangs [OF rep_facts(1) [of 0 0 0 0], of "0x7000" "0xC0000000" 5] by (simp add: rep_facts access_ok_iff)

theorem llseek_clamps_witness:
  "\<exists>fp'. my_llseek (rep_fp 3) (- 10) 0 (rep_dev 0x1000 10 3) = Some (0, fp') \<and> sint (f_pos fp') = 0"
  using llseek_clamps [OF rep_facts(1) [of 3 "0x1000" 10 3], of "- 10" 0] by (auto simp: rep_facts)

theorem set_write_read_witness:
  "\<exists>d1 d2 fp' d3. my_ioctl 0xC0000000 demo_kmalloc (\<lambda>_ m. m) (rep_fp 0) SET_STRING 0x1000 (rep_dev 0 0 0) = Some (0, d1) \<and>
    my_write (rep_fp 0) 5 d1 = Some (5, d2) \<and> my_read 0xC0000000 (rep_fp 0) 0x7000 4 d2 = Some (4, fp', d3) \<and>
    bytes_at (dmem d3) 0x7000 [97, 98, 98, 97]"
proof -
  have "fst (demo_kmalloc (Suc (length [97, 98, 98 :: byte])) rep_mem) \<noteq> 0"
    by (simp add: demo_kmalloc_def rep_mem_def demo_mem_def upt_rec)
  moreover have "repeat_from [97, 98, 98] 0 4 = [97, 98, 98, 97 :: byte]" by (simp add: repeat_from_def upt_rec)
  ultimately show ?thesis
    using set_write_read [OF rep_facts(1) [of 0 0 0 0], of "0x1000" "[97, 98, 98]" "0xC0000000" demo_kmalloc 5 "0x7000" 4 "\<lambda>_ m. m"]
      rep_mem_facts demo_kmalloc_ok
    by (auto simp: rep_facts access_ok_iff)
qed

theorem process_B_overflows_witness:
  "\<exists>fp' d' k. process_B_6 0xC0000000 0x7000 (rep_fp 5) (rep_dev 0x1000 5 3) = Some (Inr (fp', d')) \<and> 4 \<le> k \<and> k \<le> 12 \<and>
    dmem d' (0x7000 + of_nat k) = Some 0"
  using process_B_overflows [OF rep_facts(1) [of 5 "0x1000" 5 3], of "[97, 98, 98]" "0x7000" "0xC0000000"] rep_mem_facts
  by (auto simp: rep_facts access_ok_iff)

end
