(* ===== verification/Asm_String.thy ===== *)
theory Asm_String
  imports Kmalloc
begin

text \<open>
  The string routines of the i386 kernel, \<open>include/asm-i386/string.h\<close>: inline assembly with string
  instructions, which the compiler takes in place of the C routines of \<open>lib/string.c\<close>. Registers are
  arguments of the loops; a fault in kernel mode does not return. The properties say which
  routines are the C routines, and where they are not.
\<close>

section \<open>Instructions\<close>

text \<open>\<open>repne scasb\<close>: the zero flag, \<open>ecx\<close> and \<open>edi\<close> at the end.\<close>
fun repne_scasb :: "nat \<Rightarrow> byte \<Rightarrow> addr \<Rightarrow> mem \<Rightarrow> (bool \<times> nat \<times> addr) option" where
  "repne_scasb 0 al edi m = Some (False, 0, edi)"
| "repne_scasb (Suc n) al edi m = do {
     x \<leftarrow> m edi;
     if x = al then Some (True, n, edi + 1) else repne_scasb n al (edi + 1) m }"

text \<open>\<open>rep movs\<close> in kernel memory: \<open>edi\<close>, \<open>esi\<close> and the memory.\<close>
definition movs_rep :: "nat \<Rightarrow> nat \<Rightarrow> addr \<Rightarrow> addr \<Rightarrow> mem \<Rightarrow> (addr \<times> addr \<times> mem) option" where
  "movs_rep k n edi esi m = (case rep_movs k n edi esi m of (c, d, s, m) \<Rightarrow> if c \<noteq> 0 then None else Some (d, s, m))"

text \<open>\<open>rep movsb\<close> with the direction flag set.\<close>
fun movsb_down :: "nat \<Rightarrow> addr \<Rightarrow> addr \<Rightarrow> mem \<Rightarrow> mem option" where
  "movsb_down 0 edi esi m = Some m"
| "movsb_down (Suc n) edi esi m = do { c \<leftarrow> m esi; m \<leftarrow> store edi c m; movsb_down n (edi - 1) (esi - 1) m }"

text \<open>\<open>rep stos\<close> of the low \<open>k\<close> bytes of \<open>eax\<close>.\<close>
fun rep_stos :: "nat \<Rightarrow> nat \<Rightarrow> u32 \<Rightarrow> addr \<Rightarrow> mem \<Rightarrow> (addr \<times> mem) option" where
  "rep_stos k 0 eax edi m = Some (edi, m)"
| "rep_stos k (Suc n) eax edi m = do {
     m \<leftarrow> put m edi (take k (le32 eax));
     rep_stos k n eax (edi + of_nat k) m }"

section \<open>Strings\<close>

partial_function (option) asm_copy :: "addr \<Rightarrow> addr \<Rightarrow> mem \<Rightarrow> (addr \<times> mem) option" where
  "asm_copy esi edi m = do {
     al \<leftarrow> m esi;
     m \<leftarrow> store edi al m;
     if al \<noteq> 0 then asm_copy (esi + 1) (edi + 1) m else Some (edi + 1, m) }"

definition asm_strcpy :: "addr \<Rightarrow> addr \<Rightarrow> mem \<Rightarrow> (addr \<times> mem) option" where
  "asm_strcpy dest src m = do { (_, m) \<leftarrow> asm_copy src dest m; Some (dest, m) }"

partial_function (option) asm_strncpy_loop :: "u32 \<Rightarrow> addr \<Rightarrow> addr \<Rightarrow> mem \<Rightarrow> mem option" where
  "asm_strncpy_loop ecx esi edi m =
     (let ecx = ecx - 1 in
      if sint ecx < 0 then Some m
      else do {
        al \<leftarrow> m esi;
        m \<leftarrow> store edi al m;
        if al \<noteq> 0 then asm_strncpy_loop ecx (esi + 1) (edi + 1) m
        else do { (_, m) \<leftarrow> rep_stos 1 (unat ecx) 0 (edi + 1) m; Some m } })"

definition asm_strncpy :: "addr \<Rightarrow> addr \<Rightarrow> u32 \<Rightarrow> mem \<Rightarrow> (addr \<times> mem) option" where
  "asm_strncpy dest src count m = do { m \<leftarrow> asm_strncpy_loop count src dest m; Some (dest, m) }"

definition asm_strcat :: "addr \<Rightarrow> addr \<Rightarrow> mem \<Rightarrow> (addr \<times> mem) option" where
  "asm_strcat dest src m = do {
     (_, _, edi) \<leftarrow> repne_scasb (2 ^ 32 - 1) 0 dest m;
     (_, m) \<leftarrow> asm_copy src (edi - 1) m;
     Some (dest, m) }"

text \<open>The loop of \<open>strncat\<close> ends at the label 2 with \<open>edi\<close>, after a terminator it has copied or not.\<close>
partial_function (option) asm_strncat_loop :: "u32 \<Rightarrow> addr \<Rightarrow> addr \<Rightarrow> mem \<Rightarrow> (addr \<times> mem) option" where
  "asm_strncat_loop ecx esi edi m =
     (let ecx = ecx - 1 in
      if sint ecx < 0 then Some (edi, m)
      else do {
        al \<leftarrow> m esi;
        m \<leftarrow> store edi al m;
        if al \<noteq> 0 then asm_strncat_loop ecx (esi + 1) (edi + 1) m else Some (edi + 1, m) })"

definition asm_strncat :: "addr \<Rightarrow> addr \<Rightarrow> u32 \<Rightarrow> mem \<Rightarrow> (addr \<times> mem) option" where
  "asm_strncat dest src count m = do {
     (_, _, edi) \<leftarrow> repne_scasb (2 ^ 32 - 1) 0 dest m;
     (edi, m) \<leftarrow> asm_strncat_loop count src (edi - 1) m;
     m \<leftarrow> store edi 0 m;
     Some (dest, m) }"

text \<open>\<open>sbbl\<close> and \<open>orb\<close> make -1 of a borrow and 1 of none.\<close>
partial_function (option) asm_strcmp :: "addr \<Rightarrow> addr \<Rightarrow> mem \<Rightarrow> int option" where
  "asm_strcmp cs ct m = do {
     al \<leftarrow> m cs; x \<leftarrow> m ct;
     if al \<noteq> x then Some (if al < x then - 1 else 1)
     else if al \<noteq> 0 then asm_strcmp (cs + 1) (ct + 1) m
     else Some 0 }"

partial_function (option) asm_strncmp :: "addr \<Rightarrow> addr \<Rightarrow> u32 \<Rightarrow> mem \<Rightarrow> int option" where
  "asm_strncmp cs ct count m =
     (let count = count - 1 in
      if sint count < 0 then Some 0
      else do {
        al \<leftarrow> m cs; x \<leftarrow> m ct;
        if al \<noteq> x then Some (if al < x then - 1 else 1)
        else if al \<noteq> 0 then asm_strncmp (cs + 1) (ct + 1) count m
        else Some 0 })"

partial_function (option) asm_strchr_loop :: "byte \<Rightarrow> addr \<Rightarrow> mem \<Rightarrow> addr option" where
  "asm_strchr_loop ah esi m = do {
     al \<leftarrow> m esi;
     let esi = esi + 1;
     if al = ah then Some esi else if al \<noteq> 0 then asm_strchr_loop ah esi m else Some 1 }"

definition asm_strchr :: "addr \<Rightarrow> u32 \<Rightarrow> mem \<Rightarrow> addr option" where
  "asm_strchr s c m = do { esi \<leftarrow> asm_strchr_loop (ucast c) s m; Some (esi - 1) }"

partial_function (option) asm_strrchr_loop :: "byte \<Rightarrow> addr \<Rightarrow> addr \<Rightarrow> mem \<Rightarrow> addr option" where
  "asm_strrchr_loop ah res esi m = do {
     al \<leftarrow> m esi;
     let esi = esi + 1;
     let res = (if al = ah then esi - 1 else res);
     if al \<noteq> 0 then asm_strrchr_loop ah res esi m else Some res }"

definition asm_strrchr :: "addr \<Rightarrow> u32 \<Rightarrow> mem \<Rightarrow> addr option" where
  "asm_strrchr s c m = asm_strrchr_loop (ucast c) 0 s m"

definition asm_strlen :: "addr \<Rightarrow> mem \<Rightarrow> u32 option" where
  "asm_strlen s m = do { (_, ecx, _) \<leftarrow> repne_scasb (2 ^ 32 - 1) 0 s m; Some (NOT (of_nat ecx) - 1) }"

text \<open>The counter runs down to -1.\<close>
fun asm_strnlen_loop :: "nat \<Rightarrow> addr \<Rightarrow> mem \<Rightarrow> addr option" where
  "asm_strnlen_loop 0 p m = Some p"
| "asm_strnlen_loop (Suc n) p m = do { x \<leftarrow> m p; if x = 0 then Some p else asm_strnlen_loop n (p + 1) m }"

definition asm_strnlen :: "addr \<Rightarrow> u32 \<Rightarrow> mem \<Rightarrow> u32 option" where
  "asm_strnlen s count m = do { p \<leftarrow> asm_strnlen_loop (unat count) s m; Some (p - s) }"

section \<open>Memory\<close>

definition asm_memcpy :: "addr \<Rightarrow> addr \<Rightarrow> u32 \<Rightarrow> mem \<Rightarrow> (addr \<times> mem) option" where
  "asm_memcpy to from n m = do {
     (d, s, m) \<leftarrow> movs_rep 4 (unat (n div 4)) to from m;
     (d, s, m) \<leftarrow> (if n AND 2 \<noteq> 0 then movs_rep 2 1 d s m else Some (d, s, m));
     (d, s, m) \<leftarrow> (if n AND 1 \<noteq> 0 then movs_rep 1 1 d s m else Some (d, s, m));
     Some (to, m) }"

text \<open>Assignments through pointers: \<open>(offset, size)\<close> one after the other.\<close>
fun assigns :: "(nat \<times> nat) list \<Rightarrow> addr \<Rightarrow> addr \<Rightarrow> mem \<Rightarrow> mem option" where
  "assigns [] to from m = Some m"
| "assigns ((i, k) # xs) to from m = do {
     m \<leftarrow> movs k (to + of_nat i) (from + of_nat i) m;
     assigns xs to from m }"

definition constant_memcpy :: "addr \<Rightarrow> addr \<Rightarrow> u32 \<Rightarrow> mem \<Rightarrow> (addr \<times> mem) option" where
  "constant_memcpy to from n m = do {
     m \<leftarrow>
       (if n = 0 then Some m
        else if n = 1 then assigns [(0, 1)] to from m
        else if n = 2 then assigns [(0, 2)] to from m
        else if n = 3 then assigns [(0, 2), (2, 1)] to from m
        else if n = 4 then assigns [(0, 4)] to from m
        else if n = 6 then assigns [(0, 4), (4, 2)] to from m
        else if n = 8 then assigns [(0, 4), (4, 4)] to from m
        else if n = 12 then assigns [(0, 4), (4, 4), (8, 4)] to from m
        else if n = 16 then assigns [(0, 4), (4, 4), (8, 4), (12, 4)] to from m
        else if n = 20 then assigns [(0, 4), (4, 4), (8, 4), (12, 4), (16, 4)] to from m
        else do {
          (d, s, m) \<leftarrow> movs_rep 4 (unat (n div 4)) to from m;
          if n mod 4 = 0 then Some m
          else if n mod 4 = 1 then movs 1 d s m
          else if n mod 4 = 2 then movs 2 d s m
          else do { m \<leftarrow> movs 2 d s m; movs 1 (d + 2) (s + 2) m } });
     Some (to, m) }"

definition asm_memmove :: "addr \<Rightarrow> addr \<Rightarrow> u32 \<Rightarrow> mem \<Rightarrow> (addr \<times> mem) option" where
  "asm_memmove dest src n m = do {
     m \<leftarrow> (if dest < src then do { (_, _, m) \<leftarrow> movs_rep 1 (unat n) dest src m; Some m }
           else movsb_down (unat n) (n - 1 + dest) (n - 1 + src) m);
     Some (dest, m) }"

definition asm_memchr :: "addr \<Rightarrow> u32 \<Rightarrow> u32 \<Rightarrow> mem \<Rightarrow> addr option" where
  "asm_memchr cs c count m =
     (if count = 0 then Some 0
      else do {
        (zf, _, edi) \<leftarrow> repne_scasb (unat count) (ucast c) cs m;
        Some ((if zf then edi else 1) - 1) })"

definition asm_memscan :: "addr \<Rightarrow> u32 \<Rightarrow> u32 \<Rightarrow> mem \<Rightarrow> addr option" where
  "asm_memscan a c n m =
     (if n = 0 then Some a
      else do {
        (zf, _, edi) \<leftarrow> repne_scasb (unat n) (ucast c) a m;
        Some (if zf then edi - 1 else edi) })"

definition memset_generic :: "addr \<Rightarrow> u32 \<Rightarrow> u32 \<Rightarrow> mem \<Rightarrow> (addr \<times> mem) option" where
  "memset_generic s c count m = do { (_, m) \<leftarrow> rep_stos 1 (unat count) c s m; Some (s, m) }"

definition constant_c_memset :: "addr \<Rightarrow> u32 \<Rightarrow> u32 \<Rightarrow> mem \<Rightarrow> (addr \<times> mem) option" where
  "constant_c_memset s c count m = do {
     (d, m) \<leftarrow> rep_stos 4 (unat (count div 4)) c s m;
     (d, m) \<leftarrow> (if count AND 2 \<noteq> 0 then rep_stos 2 1 c d m else Some (d, m));
     (d, m) \<leftarrow> (if count AND 1 \<noteq> 0 then rep_stos 1 1 c d m else Some (d, m));
     Some (s, m) }"

text \<open>The macro \<open>memset\<close> for a character known when compiling: the pattern repeats the byte.\<close>
definition asm_memset :: "addr \<Rightarrow> u32 \<Rightarrow> u32 \<Rightarrow> mem \<Rightarrow> (addr \<times> mem) option" where
  "asm_memset s c count m = constant_c_memset s (0x01010101 * ucast (ucast c :: byte)) count m"

section \<open>Lemmas\<close>

lemma asm_copy_Some: "asm_copy esi edi m = Some r \<Longrightarrow> strcpy_loop edi esi m = Some (snd r)"
proof (rule asm_copy.raw_induct [of "\<lambda>esi edi m r. strcpy_loop edi esi m = Some (snd r)"])
  fix f esi edi m r
  assume IH: "\<And>a b c r. f a b c = Some r \<Longrightarrow> strcpy_loop b a c = Some (snd r)"
    and "do { al \<leftarrow> m esi; m \<leftarrow> store edi al m; if al \<noteq> 0 then f (esi + 1) (edi + 1) m else Some (edi + 1, m) } = Some r"
  then obtain al m1 where "m esi = Some al" "store edi al m = Some m1"
    "(if al \<noteq> 0 then f (esi + 1) (edi + 1) m1 else Some (edi + 1, m1)) = Some r" by auto
  then show "strcpy_loop edi esi m = Some (snd r)" using IH by (subst strcpy_loop.simps) (fastforce split: if_splits)
qed

lemma strcpy_loop_Some: "strcpy_loop dest src m = Some m' \<Longrightarrow> \<exists>e. asm_copy src dest m = Some (e, m')"
proof (rule strcpy_loop.raw_induct [of "\<lambda>dest src m m'. \<exists>e. asm_copy src dest m = Some (e, m')"])
  fix f dest src m m'
  assume IH: "\<And>a b c r. f a b c = Some r \<Longrightarrow> \<exists>e. asm_copy b a c = Some (e, r)"
    and "do { c \<leftarrow> m src; m \<leftarrow> store dest c m; if c = 0 then Some m else f (dest + 1) (src + 1) m } = Some m'"
  then obtain c m1 where "m src = Some c" "store dest c m = Some m1"
    "(if c = 0 then Some m1 else f (dest + 1) (src + 1) m1) = Some m'" by auto
  then show "\<exists>e. asm_copy src dest m = Some (e, m')" using IH by (subst asm_copy.simps) (auto split: if_splits)
qed

lemma asm_strcpy_eq: "asm_strcpy dest src m = strcpy dest src m"
proof (cases "strcpy_loop dest src m")
  case None
  then have "asm_copy src dest m = None" using asm_copy_Some by (cases "asm_copy src dest m") fastforce+
  with None show ?thesis by (simp add: asm_strcpy_def strcpy_def)
next
  case (Some m')
  then obtain e where "asm_copy src dest m = Some (e, m')" using strcpy_loop_Some by blast
  with Some show ?thesis by (simp add: asm_strcpy_def strcpy_def)
qed

lemma asm_strchr_loop_Some: "asm_strchr_loop c s m = Some r \<Longrightarrow> strchr_loop c s m = Some (r - 1)"
proof (rule asm_strchr_loop.raw_induct [of "\<lambda>c s m r. strchr_loop c s m = Some (r - 1)"])
  fix f c s m r
  assume IH: "\<And>a b m r. f a b m = Some r \<Longrightarrow> strchr_loop a b m = Some (r - 1)"
    and "do { al \<leftarrow> m s; let esi = s + 1; if al = c then Some esi else if al \<noteq> 0 then f c esi m else Some 1 } = Some r"
  then obtain x where "m s = Some x" "(if x = c then Some (s + 1) else if x \<noteq> 0 then f c (s + 1) m else Some 1) = Some r"
    by (auto simp: Let_def)
  then show "strchr_loop c s m = Some (r - 1)" using IH by (subst strchr_loop.simps) (auto split: if_splits)
qed

lemma strchr_loop_Some: "strchr_loop c s m = Some r \<Longrightarrow> \<exists>e. asm_strchr_loop c s m = Some e"
proof (rule strchr_loop.raw_induct [of "\<lambda>c s m r. \<exists>e. asm_strchr_loop c s m = Some e"])
  fix f c s m r
  assume IH: "\<And>a b m r. f a b m = Some r \<Longrightarrow> \<exists>e. asm_strchr_loop a b m = Some e"
    and "do { x \<leftarrow> m s; if x = c then Some s else if x = 0 then Some 0 else f c (s + 1) m } = Some r"
  then obtain x where "m s = Some x" "(if x = c then Some s else if x = 0 then Some 0 else f c (s + 1) m) = Some r" by auto
  then show "\<exists>e. asm_strchr_loop c s m = Some e" using IH by (subst asm_strchr_loop.simps) (auto simp: Let_def split: if_splits)
qed

lemma asm_strchr_eq: "asm_strchr s c m = strchr s c m"
  using asm_strchr_loop_Some [of "ucast c" s m] strchr_loop_Some [of "ucast c" s m]
  by (cases "strchr_loop (ucast c) s m"; cases "asm_strchr_loop (ucast c) s m") (auto simp: asm_strchr_def strchr_def)

lemma movs_rep_bytes: "map_option (\<lambda>r. snd (snd r)) (movs_rep 1 n edi esi m) = copy_up n edi esi m"
proof (induction n arbitrary: edi esi m)
  case (Suc n)
  have "movs 1 edi esi m = do { c \<leftarrow> m esi; store edi c m }" by (cases "m esi") (simp_all add: movs_def)
  with Suc show ?case by (cases "m esi"; cases "store edi (the (m esi)) m") (auto simp: movs_rep_def)
qed (simp add: movs_rep_def)

lemma movsb_down_eq: "movsb_down n (edi - 1) (esi - 1) m = copy_down n edi esi m"
proof (induction n arbitrary: edi esi m)
  case (Suc n)
  have "movsb_down n (edi - 2) (esi - 2) = copy_down n (edi - 1) (esi - 1)"
    by (rule ext) (use Suc [of "edi - 1" "esi - 1"] in simp)
  then show ?case by simp
qed simp

lemma store_same: "m a = Some c \<Longrightarrow> store a c m = Some m"
  by (simp add: store_def fun_upd_idem)

lemma copy_up_self: "copy_up n a a m = (if mapped m a n then Some m else None)"
proof (induction n arbitrary: a)
  case (Suc n)
  then show ?case by (cases "m a") (auto simp: mapped_Suc store_same)
qed (simp add: mapped_def)

lemma copy_down_self: "copy_down n (a + of_nat n) (a + of_nat n) m = (if mapped m a n then Some m else None)"
proof (induction n)
  case (Suc n)
  have "mapped m a (Suc n) = (mapped m a n \<and> m (a + of_nat n) \<noteq> None)" by (auto simp: mapped_def less_Suc_eq)
  with Suc show ?case by (cases "m (a + of_nat n)") (auto simp: store_same)
qed (simp add: mapped_def)

lemma asm_memmove_eq: "asm_memmove dest src n m = memmove dest src n m"
proof -
  have up: "(do { (_, _, m) \<leftarrow> movs_rep 1 (unat n) dest src m; Some m }) = copy_up (unat n) dest src m"
    using movs_rep_bytes [of "unat n" dest src m] by (cases "movs_rep 1 (unat n) dest src m") auto
  have e: "n - 1 + dest = (dest + n) - 1" "n - 1 + src = (src + n) - 1" by simp_all
  have down: "movsb_down (unat n) (n - 1 + dest) (n - 1 + src) m = copy_down (unat n) (dest + n) (src + n) m"
    unfolding e by (rule movsb_down_eq)
  have same: "copy_up (unat n) src src m = copy_down (unat n) (src + n) (src + n) m"
    using copy_up_self [of "unat n" src m] copy_down_self [of "unat n" src m] by simp
  consider "dest < src" "dest \<le> src" | "dest = src" | "\<not> dest < src" "\<not> dest \<le> src" by fastforce
  then show ?thesis by cases (use up down same in \<open>simp_all add: asm_memmove_def memmove_def\<close>)
qed

lemma repne_memchr: "(do { (zf, _, edi) \<leftarrow> repne_scasb n c p m; Some ((if zf then edi else 1) - 1) }) = memchr_loop n p c m"
proof (induction n arbitrary: p)
  case (Suc n)
  then show ?case by (cases "m p") auto
qed simp

lemma repne_memscan:
  assumes "unat c < 256"
  shows "(do { (zf, _, edi) \<leftarrow> repne_scasb n (ucast c) p m; Some (if zf then edi - 1 else edi) }) = memscan_loop n p c m"
proof -
  have e: "ucast (x :: byte) = c \<longleftrightarrow> x = ucast c" for x
  proof
    assume "x = ucast c"
    then have "unat (ucast x :: u32) = unat c" using assms by (simp add: unsigned_ucast_eq unsigned_take_bit_eq take_bit_nat_eq_self)
    then show "ucast x = c" by (simp only: word_unat_eq_iff)
  next
    assume "ucast x = c"
    moreover have "unat x < 2 ^ LENGTH(8)" by (rule unsigned_less)
    then have "unat x < 2 ^ 32" by simp
    then have "unat (ucast (ucast x :: u32) :: byte) = unat x"
      by (simp add: unsigned_ucast_eq unsigned_take_bit_eq take_bit_nat_eq_self)
    then have "ucast (ucast x :: u32) = x" by (simp only: word_unat_eq_iff)
    ultimately show "x = ucast c" by simp
  qed
  show ?thesis
  proof (induction n arbitrary: p)
    case (Suc n)
    then show ?case by (cases "m p") (auto simp: e)
  qed simp
qed

lemma asm_strnlen_eq: "asm_strnlen_loop n p m = strnlen_loop n p m"
  by (induction n arbitrary: p) (simp_all cong: if_cong)

lemma rep_stosb: "rep_stos 1 n c s m = map_option (\<lambda>m. (s + of_nat n, m)) (memset_loop n s (ucast c) m)"
proof (induction n arbitrary: s m)
  case (Suc n)
  then show ?case by (cases "store s (ucast c) m") (simp_all add: le32_def option.map_comp comp_def add.assoc)
qed simp

lemma strcmp_Some: "strcmp a b m = Some r \<Longrightarrow> \<exists>r'. asm_strcmp a b m = Some r' \<and> (r' = 0 \<longleftrightarrow> r = 0)"
proof (rule strcmp.raw_induct [of "\<lambda>a b m r. \<exists>r'. asm_strcmp a b m = Some r' \<and> (r' = 0 \<longleftrightarrow> r = 0)"])
  fix f a b m r
  assume IH: "\<And>a b m r. f a b m = Some r \<Longrightarrow> \<exists>r'. asm_strcmp a b m = Some r' \<and> (r' = 0 \<longleftrightarrow> r = 0)"
    and "do { x \<leftarrow> m a; y \<leftarrow> m b; if x - y \<noteq> 0 \<or> x = 0 then Some (sint (x - y)) else f (a + 1) (b + 1) m } = Some r"
  then obtain x y where "m a = Some x" "m b = Some y"
    "(if x - y \<noteq> 0 \<or> x = 0 then Some (sint (x - y)) else f (a + 1) (b + 1) m) = Some r" by auto
  then show "\<exists>r'. asm_strcmp a b m = Some r' \<and> (r' = 0 \<longleftrightarrow> r = 0)"
    using IH by (subst asm_strcmp.simps) (auto simp: signed_eq_0_iff split: if_splits)
qed

lemma asm_strcmp_Some: "asm_strcmp a b m = Some r \<Longrightarrow> \<exists>r'. strcmp a b m = Some r'"
proof (rule asm_strcmp.raw_induct [of "\<lambda>a b m r. \<exists>r'. strcmp a b m = Some r'"])
  fix f a b m r
  assume IH: "\<And>a b m r. f a b m = Some r \<Longrightarrow> \<exists>r'. strcmp a b m = Some r'"
    and "do { x \<leftarrow> m a; y \<leftarrow> m b; if x \<noteq> y then Some (if x < y then - 1 else 1)
      else if x \<noteq> 0 then f (a + 1) (b + 1) m else Some 0 } = Some r"
  then obtain x y where "m a = Some x" "m b = Some y"
    "(if x \<noteq> y then Some (if x < y then - 1 else 1) else if x \<noteq> 0 then f (a + 1) (b + 1) m else Some 0) = Some r" by auto
  then show "\<exists>r'. strcmp a b m = Some r'" using IH by (subst strcmp.simps) (auto split: if_splits)
qed

lemma asm_strcmp_zero: "map_option (\<lambda>r. r = 0) (asm_strcmp a b m) = map_option (\<lambda>r. r = 0) (strcmp a b m)"
  using strcmp_Some [of a b m] asm_strcmp_Some [of a b m] by (cases "strcmp a b m"; cases "asm_strcmp a b m") auto

text \<open>Moving and filling by words.\<close>

lemma movs_rep_1: "movs_rep k 1 d s m = map_option (\<lambda>m. (d + of_nat k, s + of_nat k, m)) (movs k d s m)"
  by (cases "movs k d s m") (simp_all add: movs_rep_def)

lemma and_2_iff: "(n :: u32) AND 2 \<noteq> 0 \<longleftrightarrow> 2 \<le> unat n mod 4"
proof -
  have "n AND 2 \<noteq> 0 \<longleftrightarrow> bit n 1" using and_exp_eq_0_iff_not_bit [of n 1] by simp
  also have "\<dots> \<longleftrightarrow> bit (unat n) 1" by (simp add: bit_unsigned_iff)
  also have "\<dots> \<longleftrightarrow> 2 \<le> unat n mod 4" unfolding bit_iff_odd by simp presburger
  finally show ?thesis .
qed

lemma and_1_iff: "(n :: u32) AND 1 \<noteq> 0 \<longleftrightarrow> odd (unat n)"
proof -
  have "n AND 1 \<noteq> 0 \<longleftrightarrow> bit n 0" using and_exp_eq_0_iff_not_bit [of n 0] by simp
  also have "\<dots> \<longleftrightarrow> bit (unat n) 0" by (simp add: bit_unsigned_iff)
  finally show ?thesis by (simp add: bit_0)
qed

lemma put_replicate: "put m a (replicate k b) = memset_loop k a b m"
  by (induction k arbitrary: m a) (simp_all cong: Option.bind_cong)

lemma memset_loop_add: "memset_loop (i + j) a b m = do { m \<leftarrow> memset_loop i a b m; memset_loop j (a + of_nat i) b m }"
proof (induction i arbitrary: a m)
  case (Suc i)
  then show ?case by (cases "store a b m") (simp_all add: add.assoc)
qed simp

lemma le32_pattern: "le32 (0x01010101 * ucast (b :: byte)) = [b, b, b, b]"
proof -
  have v: "unat b < 256" using unsigned_less [of b] by simp
  have u: "unat (0x01010101 * ucast b :: u32) = 0x01010101 * unat b"
    using v by (simp add: unat_word_ariths unsigned_ucast_eq take_bit_nat_eq_self)
  define X where "X = unat b + 256 * (unat b + 256 * (unat b + 256 * unat b))"
  have s: "0x01010101 * unat b = X" by (simp add: X_def)
  have e0: "(unat b + 256 * q) mod 256 = unat b" and e1: "(unat b + 256 * q) div 256 = q" for q using v by simp_all
  have p2: "(x :: nat) div 65536 = x div 256 div 256" and p3: "x div 16777216 = x div 256 div 256 div 256" for x
    by (simp_all add: div_mult2_eq [symmetric])
  have q: "X mod 256 = unat b" "X div 256 mod 256 = unat b" "X div 65536 mod 256 = unat b" "X div 16777216 mod 256 = unat b"
    by (simp_all only: p2 p3 X_def e0 e1 mod_less v)
  have "unat (ucast (drop_bit (8 * i) (0x01010101 * ucast b :: u32)) :: byte) = unat b" if "i < 4" for i
  proof -
    have d: "unat (ucast (drop_bit (8 * i) (0x01010101 * ucast b :: u32)) :: byte) = (0x01010101 * unat b div 2 ^ (8 * i)) mod 256"
    proof -
      have "unat (ucast y :: byte) = unat y mod 256" for y :: u32
        by (simp add: unsigned_ucast_eq unsigned_take_bit_eq take_bit_eq_mod)
      moreover have "unat (drop_bit k y) = unat y div 2 ^ k" for k and y :: u32
        using unat_u32 [of y] by (simp add: unsigned_drop_bit_eq take_bit_nat_eq_self flip: drop_bit_eq_div)
      ultimately show ?thesis by (simp only: u)
    qed
    consider "i = 0" | "i = 1" | "i = 2" | "i = 3" using \<open>i < 4\<close> by linarith
    then have "(0x01010101 * unat b div 2 ^ (8 * i)) mod 256 = unat b"
      unfolding s by cases (simp_all add: q)
    with d show ?thesis by simp
  qed
  from this [of 0] this [of 1] this [of 2] this [of 3] show ?thesis by (simp add: le32_def word_unat_eq_iff)
qed

lemma rep_stos_pattern:
  assumes "k \<le> 4"
  shows "rep_stos k n (0x01010101 * ucast (b :: byte)) a m = map_option (\<lambda>m. (a + of_nat (k * n), m)) (memset_loop (k * n) a b m)"
proof (induction n arbitrary: a m)
  case (Suc n)
  have "take k [b, b, b, b] = replicate k b" using assms by (simp add: take_Cons' le_Suc_eq numeral_eq_Suc) auto
  then have "put m a (take k (le32 (0x01010101 * ucast b))) = memset_loop k a b m" by (simp add: le32_pattern put_replicate)
  with Suc show ?case
    by (cases "memset_loop k a b m") (simp_all add: memset_loop_add option.map_comp comp_def add.assoc)
qed simp

text \<open>The three tails of a copy.\<close>

lemma asm_memcpy_tail:
  "asm_memcpy to from n m = do {
     (d, s, m) \<leftarrow> movs_rep 4 (unat n div 4) to from m;
     m \<leftarrow> (if unat n mod 4 = 0 then Some m
           else if unat n mod 4 = 1 then movs 1 d s m
           else if unat n mod 4 = 2 then movs 2 d s m
           else do { m \<leftarrow> movs 2 d s m; movs 1 (d + 2) (s + 2) m });
     Some (to, m) }"
proof -
  have q: "unat (n div 4) = unat n div 4" by (simp add: unat_div)
  have o: "odd (unat n) \<longleftrightarrow> unat n mod 4 = 1 \<or> unat n mod 4 = 3" by presburger
  consider "unat n mod 4 = 0" | "unat n mod 4 = 1" | "unat n mod 4 = 2" | "unat n mod 4 = 3" by linarith
  then show ?thesis
    by cases (simp_all add: asm_memcpy_def q o and_2_iff [simplified] and_1_iff [simplified] movs_rep_1 [simplified] map_conv_bind_option split: prod.split)
qed

lemma movs_rep_simps:
  "movs_rep k 0 d s m = Some (d, s, m)"
  "movs_rep k (Suc n) d s m = do { m \<leftarrow> movs k d s m; movs_rep k n (d + of_nat k) (s + of_nat k) m }"
  by (auto simp: movs_rep_def split: option.split)

lemma movs_rep_dwords: "movs_rep 4 n to from m = map_option (\<lambda>m. (to + of_nat (4 * n), from + of_nat (4 * n), m))
    (assigns (map (\<lambda>i. (4 * i, 4)) [0..<n]) to from m)"
proof -
  have "movs_rep 4 n (to + of_nat (4 * j)) (from + of_nat (4 * j)) m =
      map_option (\<lambda>m. (to + of_nat (4 * (j + n)), from + of_nat (4 * (j + n)), m)) (assigns (map (\<lambda>i. (4 * i, 4)) [j..<j + n]) to from m)" for j
  proof (induction n arbitrary: j m)
    case (Suc n)
    have e: "to + of_nat (4 * j) + of_nat 4 = to + of_nat (4 * Suc j)" "from + of_nat (4 * j) + of_nat 4 = from + of_nat (4 * Suc j)"
      by simp_all
    have u: "[j..<j + Suc n] = j # [Suc j..<Suc j + n]" by (simp add: upt_conv_Cons)
    have ex: "movs_rep 4 n (to + of_nat (4 * Suc j)) (from + of_nat (4 * Suc j)) =
        (\<lambda>m. map_option (\<lambda>m. (to + of_nat (4 * (j + Suc n)), from + of_nat (4 * (j + Suc n)), m))
          (assigns (map (\<lambda>i. (4 * i, 4)) [Suc j..<Suc j + n]) to from m))"
      by (rule ext) (use Suc [of "Suc j"] in simp)
    show ?case unfolding movs_rep_simps e ex u by (cases "movs 4 (to + of_nat (4 * j)) (from + of_nat (4 * j)) m") simp_all
  qed (simp add: movs_rep_simps)
  from this [of 0] show ?thesis by simp
qed

lemma assigns_append: "assigns (xs @ ys) to from m = do { m \<leftarrow> assigns xs to from m; assigns ys to from m }"
proof (induction xs arbitrary: m)
  case (Cons x xs)
  then show ?case by (cases x; cases "movs (snd x) (to + of_nat (fst x)) (from + of_nat (fst x)) m") simp_all
qed simp

text \<open>All the ways to copy are one sequence of assignments.\<close>

definition tail_of :: "nat \<Rightarrow> (nat \<times> nat) list" where
  "tail_of n = (let q = 4 * (n div 4) in
     if n mod 4 = 0 then [] else if n mod 4 = 1 then [(q, 1)] else if n mod 4 = 2 then [(q, 2)] else [(q, 2), (q + 2, 1)])"

lemma asm_memcpy_assigns:
  "asm_memcpy to from n m = map_option (\<lambda>m. (to, m)) (assigns (map (\<lambda>i. (4 * i, 4)) [0..<unat n div 4] @ tail_of (unat n)) to from m)"
proof -
  consider "unat n mod 4 = 0" | "unat n mod 4 = 1" | "unat n mod 4 = 2" | "unat n mod 4 = 3" by linarith
  then show ?thesis
    by cases (simp_all add: asm_memcpy_tail movs_rep_dwords assigns_append tail_of_def Let_def map_conv_bind_option comp_def ac_simps)
qed

lemma constant_memcpy_eq: "constant_memcpy to from n m = asm_memcpy to from n m"
proof -
  note d = constant_memcpy_def asm_memcpy_assigns tail_of_def map_conv_bind_option comp_def
  show ?thesis
  proof (cases "n \<in> {0, 1, 2, 3, 4, 6, 8, 12, 16, 20}")
    case True
    then consider "n = 0" | "n = 1" | "n = 2" | "n = 3" | "n = 4" | "n = 6" | "n = 8" | "n = 12" | "n = 16" | "n = 20" by blast
    then show ?thesis by cases (simp_all add: d upt_rec)
  next
    case False
    have "n mod 4 = k \<longleftrightarrow> unat n mod 4 = unat k" for k by (simp add: word_unat_eq_iff unat_mod)
    then show ?thesis using False
      by (cases "movs_rep 4 (unat n div 4) to from m") (auto simp: constant_memcpy_def asm_memcpy_tail unat_div cong: if_cong)
  qed
qed

lemma asm_memset_eq: "asm_memset s c count m = memset s c count m"
proof -
  let ?b = "ucast c :: byte" and ?n = "unat count"
  have q: "unat (count div 4) = ?n div 4" by (simp add: unat_div)
  have o: "odd ?n \<longleftrightarrow> ?n mod 4 = 1 \<or> ?n mod 4 = 3" by presburger
  have n: "memset_loop ?n s ?b m = do { m \<leftarrow> memset_loop (4 * (?n div 4)) s ?b m; memset_loop (?n mod 4) (s + of_nat (4 * (?n div 4))) ?b m }"
    using memset_loop_add [of "4 * (?n div 4)" "?n mod 4" s ?b m] by simp
  consider "?n mod 4 = 0" | "?n mod 4 = 1" | "?n mod 4 = 2" | "?n mod 4 = 3" by linarith
  then show ?thesis
  proof cases
    case 4
    have t: "memset_loop 3 a b m = do { m \<leftarrow> memset_loop 2 a b m; memset_loop 1 (a + 2) b m }" for a b m
      using memset_loop_add [of 2 1 a b m] by simp
    show ?thesis unfolding asm_memset_def constant_c_memset_def memset_def n q
      using 4 by (simp add: o and_2_iff [simplified] and_1_iff [simplified] rep_stos_pattern t map_conv_bind_option comp_def del: memset_loop.simps(2) rep_stos.simps(2))
  qed (simp_all add: asm_memset_def constant_c_memset_def memset_def n q o and_2_iff [simplified] and_1_iff [simplified] rep_stos_pattern
      map_conv_bind_option comp_def del: memset_loop.simps(2) rep_stos.simps(2))
qed

lemma repne_cstr:
  assumes "cstr m a s" "length s < n"
  shows "repne_scasb n 0 a m = Some (True, n - Suc (length s), a + of_nat (Suc (length s)))"
  using assms
proof (induction s arbitrary: a n)
  case Nil
  then show ?case by (cases n) auto
next
  case (Cons c s)
  then show ?case by (cases n) (auto simp: add.assoc)
qed

lemma dec_count:
  assumes "Suc k \<le> unat (ecx :: u32)" "unat ecx \<le> 2 ^ 31"
  shows "unat (ecx - 1) = unat ecx - 1" "\<not> sint (ecx - 1) < 0" "k \<le> unat (ecx - 1)" "unat (ecx - 1) \<le> 2 ^ 31"
proof -
  show u: "unat (ecx - 1) = unat ecx - 1" using assms(1) by (simp add: unat_sub_if_size)
  then have "unat (ecx - 1) < 2 ^ 31" using assms by simp
  then have "sint (ecx - 1) = int (unat (ecx - 1))" using sint_of_nat_small [of "unat (ecx - 1)"] by simp
  then show "\<not> sint (ecx - 1) < 0" by simp
  show "k \<le> unat (ecx - 1)" "unat (ecx - 1) \<le> 2 ^ 31" using u assms by simp_all
qed

text \<open>A string that can be copied to a place of its length.\<close>

definition copyable :: "mem \<Rightarrow> addr \<Rightarrow> addr \<Rightarrow> byte list \<Rightarrow> bool" where
  "copyable m src dest s = (cstr m src s \<and> mapped m dest (Suc (length s)) \<and>
     region dest (Suc (length s)) \<inter> region src (Suc (length s)) = {})"

lemma copyable_Nil: "copyable m src dest [] \<Longrightarrow> m src = Some 0 \<and> store dest 0 m = Some (m(dest \<mapsto> 0))"
  by (auto simp: copyable_def mapped_Suc store_mapped)

lemma copyable_Cons:
  assumes "copyable m src dest (c # s)"
  shows "m src = Some c" "c \<noteq> 0" "store dest c m = Some (m(dest \<mapsto> c))" "copyable (m(dest \<mapsto> c)) (src + 1) (dest + 1) s"
proof -
  have p: "cstr m src (c # s)" "mapped m dest (Suc (Suc (length s)))" "region dest (Suc (Suc (length s))) \<inter> region src (Suc (Suc (length s))) = {}"
    using assms by (simp_all add: copyable_def)
  show "m src = Some c" "c \<noteq> 0" "store dest c m = Some (m(dest \<mapsto> c))" using p(1,2) by (auto simp: mapped_Suc store_mapped)
  have d: "dest \<notin> region (src + 1) (Suc (length s))" "region (dest + 1) (Suc (length s)) \<inter> region (src + 1) (Suc (length s)) = {}"
    using p(3) unfolding region_Suc [of dest "Suc (length s)"] region_Suc [of src "Suc (length s)"] by blast+
  have "cstr (m(dest \<mapsto> c)) (src + 1) s"
  proof (rule cstr_cong)
    show "cstr m (src + 1) s" using p(1) by simp
    show "(m(dest \<mapsto> c)) x = m x" if "x \<in> region (src + 1) (Suc (length s))" for x using that d(1) by auto
  qed
  moreover have "mapped (m(dest \<mapsto> c)) (dest + 1) (Suc (length s))"
    using p(2) unfolding mapped_Suc [of m dest] by (blast intro: mapped_upd)
  ultimately show "copyable (m(dest \<mapsto> c)) (src + 1) (dest + 1) s" using d(2) by (simp add: copyable_def)
qed

text \<open>While the source ends before the counter does, the counted loops copy what \<open>strcpy\<close> copies.\<close>

lemma asm_strncat_loop_copies:
  "copyable m src dest s \<Longrightarrow> length s < unat ecx \<Longrightarrow> unat ecx \<le> 2 ^ 31 \<Longrightarrow>
    asm_strncat_loop ecx src dest m = map_option (\<lambda>m. (dest + of_nat (Suc (length s)), m)) (strcpy_loop dest src m)"
proof (induction s arbitrary: dest src m ecx)
  case Nil
  then show ?case using copyable_Nil [OF Nil.prems(1)] dec_count [of 0 ecx] by (subst asm_strncat_loop.simps, subst strcpy_loop.simps) simp
next
  case (Cons c s)
  note c = copyable_Cons [OF Cons.prems(1)] and e = dec_count [of "Suc (length s)" ecx]
  have "asm_strncat_loop (ecx - 1) (src + 1) (dest + 1) (m(dest \<mapsto> c)) =
      map_option (\<lambda>m. (dest + 1 + of_nat (Suc (length s)), m)) (strcpy_loop (dest + 1) (src + 1) (m(dest \<mapsto> c)))"
    by (rule Cons.IH [OF c(4)]) (use Cons.prems e in simp_all)
  then show ?case using c e Cons.prems(2,3)
    by (subst asm_strncat_loop.simps, subst strcpy_loop.simps) (simp add: add.assoc)
qed

lemma strncat_loop_copies:
  "copyable m src dest s \<Longrightarrow> length s < n \<Longrightarrow> strncat_loop n dest src m = strcpy_loop dest src m"
proof (induction s arbitrary: dest src m n)
  case Nil
  then show ?case using copyable_Nil [OF Nil.prems(1)] by (cases n; subst strcpy_loop.simps) simp_all
next
  case (Cons c s)
  note c = copyable_Cons [OF Cons.prems(1)]
  obtain k where k: "n = Suc k" "length s < k" using Cons.prems(2) by (cases n) auto
  have "strncat_loop k (dest + 1) (src + 1) (m(dest \<mapsto> c)) = strcpy_loop (dest + 1) (src + 1) (m(dest \<mapsto> c))"
    by (rule Cons.IH [OF c(4) k(2)])
  with c(1-3) k show ?case by (subst strcpy_loop.simps) (simp del: fun_upd_apply)
qed

lemma asm_strncpy_loop_copies:
  "copyable m src dest s \<Longrightarrow> length s < unat ecx \<Longrightarrow> unat ecx \<le> 2 ^ 31 \<Longrightarrow>
    asm_strncpy_loop ecx src dest m = do { m \<leftarrow> strcpy_loop dest src m;
      memset_loop (unat ecx - Suc (length s)) (dest + of_nat (Suc (length s))) 0 m }"
proof (induction s arbitrary: dest src m ecx)
  case Nil
  have "(do { (_, m) \<leftarrow> rep_stos 1 k 0 a m; Some m }) = memset_loop k a 0 m" for k a m
    by (cases "memset_loop k a 0 m") (simp_all add: rep_stosb [simplified])
  with Nil show ?case using copyable_Nil [OF Nil.prems(1)] dec_count [of 0 ecx]
    by (subst asm_strncpy_loop.simps, subst strcpy_loop.simps) (simp add: Let_def)
next
  case (Cons c s)
  note c = copyable_Cons [OF Cons.prems(1)] and e = dec_count [of "Suc (length s)" ecx]
  have "asm_strncpy_loop (ecx - 1) (src + 1) (dest + 1) (m(dest \<mapsto> c)) = do { m \<leftarrow> strcpy_loop (dest + 1) (src + 1) (m(dest \<mapsto> c));
      memset_loop (unat (ecx - 1) - Suc (length s)) (dest + 1 + of_nat (Suc (length s))) 0 m }"
    by (rule Cons.IH [OF c(4)]) (use Cons.prems e in simp_all)
  then show ?case using c e Cons.prems(2,3)
    by (subst asm_strncpy_loop.simps, subst strcpy_loop.simps) (simp add: add.assoc)
qed

lemma region_split_disjoint:
  assumes "i + j \<le> 2 ^ 32"
  shows "region a i \<inter> region (a + of_nat i) j = {}"
proof -
  have "(of_nat x :: u32) \<noteq> of_nat i + of_nat y" if "x < i" "y < j" for x y
  proof
    assume "(of_nat x :: u32) = of_nat i + of_nat y"
    then have "(of_nat x :: u32) = of_nat (i + y)" by simp
    moreover have "unat (of_nat x :: u32) = x" "unat (of_nat (i + y) :: u32) = i + y"
      using that assms by (simp_all add: unsigned_of_nat take_bit_nat_eq_self del: of_nat_add)
    ultimately have "x = i + y" by metis
    with that show False by simp
  qed
  then show ?thesis by (auto simp: region_def add.assoc)
qed

text \<open>Without overlap a copy by double words is the copy of the bytes one by one.\<close>

lemma get_store: "d \<notin> region a k \<Longrightarrow> store d c m = Some m' \<Longrightarrow> get m' a k = get m a k"
  by (induction k arbitrary: a) (auto simp: store_def region_Suc split: if_splits)

lemma copy_up_add: "copy_up (i + j) d s m = do { m \<leftarrow> copy_up i d s m; copy_up j (d + of_nat i) (s + of_nat i) m }"
proof (induction i arbitrary: d s m)
  case (Suc i)
  then show ?case by (cases "m s"; cases "store d (the (m s)) m") (simp_all add: add.assoc)
qed simp

lemma movs_up: "region d k \<inter> region s k = {} \<Longrightarrow> movs k d s m = copy_up k d s m"
proof (induction k arbitrary: d s m)
  case (Suc k)
  have dj: "region (d + 1) k \<inter> region (s + 1) k = {}" "d \<notin> region (s + 1) k" using Suc.prems by (auto simp: region_Suc)
  show ?case
  proof (cases "m s")
    case (Some c)
    show ?thesis
    proof (cases "store d c m")
      case None
      then show ?thesis using Some by (cases "get m (s + 1) k") (simp_all add: movs_def)
    next
      case (Some m')
      then show ?thesis using \<open>m s = Some c\<close> Suc.IH [OF dj(1), of m'] get_store [OF dj(2) Some]
        by (cases "get m (s + 1) k") (simp_all add: movs_def)
    qed
  qed (simp add: movs_def)
qed (simp add: movs_def)

lemma movs_rep_up:
  "region d (4 * n) \<inter> region s (4 * n) = {} \<Longrightarrow>
    movs_rep 4 n d s m = map_option (\<lambda>m. (d + of_nat (4 * n), s + of_nat (4 * n), m)) (copy_up (4 * n) d s m)"
proof (induction n arbitrary: d s m)
  case (Suc n)
  have e: "4 * Suc n = 4 + 4 * n" by simp
  have dj: "region d 4 \<inter> region s 4 = {}" "region (d + 4) (4 * n) \<inter> region (s + 4) (4 * n) = {}"
    using Suc.prems unfolding e region_add by auto
  have "copy_up (4 * Suc n) d s m = do { m \<leftarrow> copy_up 4 d s m; copy_up (4 * n) (d + 4) (s + 4) m }"
    unfolding e copy_up_add by simp
  then show ?case using Suc.IH [OF dj(2)] movs_up [OF dj(1)]
    by (cases "copy_up 4 d s m") (simp_all add: movs_rep_simps option.map_comp comp_def add.assoc)
qed (simp add: movs_rep_simps)

lemma asm_memcpy_eq:
  assumes "region d (unat n) \<inter> region s (unat n) = {}"
  shows "asm_memcpy d s n m = memcpy d s n m"
proof -
  let ?q = "4 * (unat n div 4)" and ?r = "unat n mod 4"
  have n: "unat n = ?q + ?r" by simp
  have dj: "region d ?q \<inter> region s ?q = {}" "region (d + of_nat ?q) ?r \<inter> region (s + of_nat ?q) ?r = {}"
    using assms unfolding n [symmetric] by (subst (asm) (1 2) n, simp only: region_add, blast)+
  have t: "(if ?r = 0 then Some m' else if ?r = 1 then movs 1 a b m' else if ?r = 2 then movs 2 a b m'
      else do { m \<leftarrow> movs 2 a b m'; movs 1 (a + 2) (b + 2) m }) = copy_up ?r a b m'"
    if d: "region a ?r \<inter> region b ?r = {}" for a b m'
  proof -
    consider "?r = 0" | "?r = 1" | "?r = 2" | "?r = 3" by linarith
    then show ?thesis
    proof cases
      case 4
      have dj: "region a 2 \<inter> region b 2 = {}" "region (a + 2) 1 \<inter> region (b + 2) 1 = {}"
        using d [unfolded 4] region_add [of a 2 1] region_add [of b 2 1] by auto
      have "copy_up ?r a b m' = do { m \<leftarrow> copy_up 2 a b m'; copy_up 1 (a + 2) (b + 2) m }"
        using copy_up_add [of 2 1 a b m'] by (simp only: 4) simp
      then show ?thesis using 4 movs_up [OF dj(1)] ext [where g = "copy_up 1 (a + 2) (b + 2)", OF movs_up [OF dj(2)]]
        by (simp del: One_nat_def copy_up.simps)
    qed (use d movs_up [of a ?r b m'] in simp_all)
  qed
  show ?thesis
    unfolding asm_memcpy_tail memcpy_def movs_rep_up [OF dj(1)]
    by (subst n, subst copy_up_add) (cases "copy_up ?q d s m"; simp only: option.map prod.case Option.bind.simps t [OF dj(2)])
qed

section \<open>Properties\<close>

text \<open>
  C16. The assembly versions of \<open>strcpy\<close>, \<open>strchr\<close>, \<open>strnlen\<close>, \<open>memmove\<close>, \<open>memchr\<close> and of both
  forms of \<open>memset\<close> are the C routines, for all arguments and memories, faults included. The ones of
  \<open>memcpy\<close>, for a length known when compiling or not, are the same function, and the C routine when the
  areas do not overlap. \<open>strcmp\<close> is zero exactly when the C routine is; the values may differ otherwise.
\<close>
theorem asm_routines_agree:
  "asm_strcpy d s m = strcpy d s m \<and> asm_strchr s c m = strchr s c m \<and> asm_strnlen s n m = strnlen s n m \<and>
   asm_memmove d s n m = memmove d s n m \<and> asm_memchr s c n m = memchr s c n m \<and> asm_memset s c n m = memset s c n m \<and>
   memset_generic s c n m = memset s c n m \<and> constant_memcpy d s n m = asm_memcpy d s n m \<and>
   (region d (unat n) \<inter> region s (unat n) = {} \<longrightarrow> asm_memcpy d s n m = memcpy d s n m) \<and>
   map_option (\<lambda>r. r = 0) (asm_strcmp d s m) = map_option (\<lambda>r. r = 0) (strcmp d s m)"
proof (intro conjI impI)
  show "asm_memchr s c n m = memchr s c n m"
    using repne_memchr [of "unat n" "ucast c" s m] by (cases "n = 0") (simp_all add: asm_memchr_def memchr_def)
  show "memset_generic s c n m = memset s c n m"
    using rep_stosb [of "unat n" c s m]
    by (cases "memset_loop (unat n) s (ucast c) m") (simp_all add: memset_generic_def memset_def)
  show "asm_strnlen s n m = strnlen s n m" by (simp add: asm_strnlen_def strnlen_def asm_strnlen_eq)
qed (rule asm_strcpy_eq asm_strchr_eq asm_memmove_eq asm_memset_eq constant_memcpy_eq asm_strcmp_zero | erule asm_memcpy_eq)+

text \<open>
  When the source is shorter than the count the assembly version of \<open>strncat\<close> writes
  one byte more than the C routine: after the terminator it has copied it stores another zero, in
  the byte the C routine leaves alone. Both leave the concatenation.
\<close>
theorem asm_strncat_extra:
  assumes t: "cstr m dest t" and s: "cstr m src s" "length s < unat count" "unat count \<le> 2 ^ 31" "length t < 2 ^ 31"
    and mp: "mapped m dest (length t + length s + 2)"
      "region dest (length t + length s + 2) \<inter> region src (Suc (length s)) = {}"
  defines "e \<equiv> dest + of_nat (length t + length s + 1)"
  shows "\<exists>m1 m2. asm_strncat dest src count m = Some (dest, m1) \<and> strncat dest src count m = Some (dest, m2) \<and>
    cstr m1 dest (t @ s) \<and> cstr m2 dest (t @ s) \<and> m1 e = Some 0 \<and> m2 e = m e"
proof -
  let ?a = "dest + of_nat (length t)" and ?n = "Suc (length s)"
  have sp: "length t + length s + 2 = length t + (?n + 1)" by simp
  have e: "e = ?a + of_nat ?n" by (simp add: e_def ac_simps)
  have rg: "region dest (length t + length s + 2) = region dest (length t) \<union> (region ?a ?n \<union> region e 1)"
    unfolding sp region_add e by simp
  have mpa: "mapped m ?a ?n" "m e \<noteq> None"
    using mp(1) unfolding sp mapped_add e by (simp_all add: mapped_Suc mapped_def)
  have dj: "region ?a ?n \<inter> region src ?n = {}" using mp(2) unfolding rg by blast
  have cp: "copyable m src ?a s" using s(1) mpa(1) dj by (simp add: copyable_def)
  have l: "?n \<le> 2 ^ 32" using s(2,3) by simp
  obtain m2 where m2: "strcpy_loop ?a src m = Some m2" "cstr m2 ?a s" "\<forall>x. x \<notin> region ?a ?n \<longrightarrow> m2 x = m x" "dom m2 = dom m"
    using strcpy_loop_cstr [OF s(1) mpa(1) l dj] by blast
  have "length t + (?n + 1) \<le> 2 ^ 32" using s(2-4) by simp
  then have d: "region dest (length t) \<inter> region ?a ?n = {}" "e \<notin> region dest (length t + ?n)" "e \<notin> region ?a ?n"
  proof -
    have e2: "dest + of_nat (length t + ?n) = e" by (simp add: e ac_simps)
    have "e \<in> region e 1" by (simp add: region_first)
    with \<open>length t + (?n + 1) \<le> 2 ^ 32\<close> region_split_disjoint [of "length t" ?n dest]
      region_split_disjoint [of "length t + ?n" 1 dest, unfolded e2] region_split_disjoint [of ?n 1 ?a, folded e]
    show "region dest (length t) \<inter> region ?a ?n = {}" "e \<notin> region dest (length t + ?n)" "e \<notin> region ?a ?n"
      by (simp_all add: disjoint_iff) auto
  qed
  have ts: "bytes_at m2 dest (t @ s @ [0])" "0 \<notin> set (t @ s)"
  proof -
    have "bytes_at m2 dest t" using bytes_at_cong [of dest t m2 m] m2(3) d(1) cstr_bytes [OF t] by blast
    then show "bytes_at m2 dest (t @ s @ [0])" using m2(2) by (simp add: bytes_at_append [of m2 dest t] cstr_def)
    show "0 \<notin> set (t @ s)" using t s(1) by (auto simp: cstr_def)
  qed
  let ?m1 = "m2(e \<mapsto> 0)"
  have "bytes_at ?m1 dest (t @ s @ [0])"
  proof -
    have "?m1 x = m2 x" if "x \<in> region dest (length (t @ s @ [0]))" for x using that d(2) by auto
    then show ?thesis using bytes_at_cong [of dest "t @ s @ [0]" ?m1 m2] ts(1) by blast
  qed
  then have c1: "cstr ?m1 dest (t @ s)" using ts(2) by (simp add: cstr_def)
  have c2: "cstr m2 dest (t @ s)" using ts by (simp add: cstr_def)
  have sc: "repne_scasb (2 ^ 32 - 1) 0 dest m = Some (True, 2 ^ 32 - 1 - Suc (length t), dest + of_nat (Suc (length t)))"
    by (rule repne_cstr [OF t]) (use s(4) in simp)
  have st: "store e 0 m2 = Some ?m1" using mpa(2) m2(4) by (metis domIff store_mapped)
  have a1: "dest + of_nat (Suc (length t)) - 1 = ?a" by simp
  have "asm_strncat dest src count m = Some (dest, ?m1)"
    using asm_strncat_loop_copies [OF cp s(2,3)] m2(1) st unfolding asm_strncat_def sc by (simp add: a1 [simplified] e)
  moreover have "strncat dest src count m = Some (dest, m2)"
  proof -
    have "count \<noteq> 0" using s(2) by auto
    then show ?thesis
      using strncat_loop_copies [OF cp s(2)] m2(1) str_end_cstr [OF t] by (simp add: strncat_def)
  qed
  moreover have "m2 e = m e" using m2(3) d(3) by blast
  ultimately show ?thesis using c1 c2 by auto
qed

text \<open>
  The assembly version of \<open>strncpy\<close> fills the rest of the destination with zeroes.
\<close>
theorem asm_strncpy_pads:
  assumes s: "cstr m src s" "length s < unat count" "unat count \<le> 2 ^ 31"
    and mp: "mapped m dest (unat count)" "region dest (unat count) \<inter> region src (Suc (length s)) = {}"
  shows "\<exists>m'. asm_strncpy dest src count m = Some (dest, m') \<and> bytes_at m' dest (s @ replicate (unat count - length s) 0) \<and>
    (\<forall>x. x \<notin> region dest (unat count) \<longrightarrow> m' x = m x)"
proof -
  let ?n = "Suc (length s)" and ?k = "unat count - Suc (length s)"
  have sp: "unat count = ?n + ?k" using s(2) by simp
  have rg: "region dest (unat count) = region dest ?n \<union> region (dest + of_nat ?n) ?k" using region_add [of dest ?n ?k] sp by simp
  have mpd: "mapped m dest ?n" "mapped m (dest + of_nat ?n) ?k" using mp(1) mapped_add [of m dest ?n ?k] sp by simp_all
  have dj: "region dest ?n \<inter> region src ?n = {}" using mp(2) unfolding rg by blast
  have cp: "copyable m src dest s" using s(1) mpd(1) dj by (simp add: copyable_def)
  have l: "?n \<le> 2 ^ 32" "?k \<le> 2 ^ 32" using s(2,3) by simp_all
  obtain m2 where m2: "strcpy_loop dest src m = Some m2" "cstr m2 dest s" "\<forall>x. x \<notin> region dest ?n \<longrightarrow> m2 x = m x" "dom m2 = dom m"
    using strcpy_loop_cstr [OF s(1) mpd(1) l(1) dj] by blast
  obtain m3 where m3: "put m2 (dest + of_nat ?n) (replicate ?k 0) = Some m3" "bytes_at m3 (dest + of_nat ?n) (replicate ?k 0)"
    "\<forall>x. x \<notin> region (dest + of_nat ?n) ?k \<longrightarrow> m3 x = m2 x"
    using put_ok [of m2 "dest + of_nat ?n" "replicate ?k 0"] mapped_dom [OF mpd(2) m2(4)] l(2) by auto
  have "region dest ?n \<inter> region (dest + of_nat ?n) ?k = {}" by (rule region_split_disjoint) (use s(2,3) in simp)
  then have "bytes_at m3 dest (s @ [0])"
    using bytes_at_cong [of dest "s @ [0]" m3 m2] m3(3) m2(2) by (auto simp: cstr_def)
  moreover have "s @ replicate (unat count - length s) 0 = (s @ [0]) @ replicate ?k 0"
    using s(2) by (simp add: Suc_diff_Suc flip: replicate_Suc)
  ultimately have "bytes_at m3 dest (s @ replicate (unat count - length s) 0)"
    using m3(2) bytes_at_append [of m3 dest "s @ [0]" "replicate ?k 0"] by simp
  moreover have "asm_strncpy dest src count m = Some (dest, m3)"
    using asm_strncpy_loop_copies [OF cp s(2,3)] m2(1) m3(1) by (simp add: asm_strncpy_def put_replicate)
  ultimately show ?thesis using m2(3) m3(3) unfolding rg by auto
qed

theorem asm_routines_agree_witness:
  "asm_memcpy 0x2000 0x1002 2 demo_mem = memcpy 0x2000 0x1002 2 demo_mem \<and> memcpy 0x2000 0x1002 2 demo_mem = Some (0x2000, demo_mem(0x2000 \<mapsto> 98, 0x2001 \<mapsto> 0))"
proof -
  have e: "unat (2 :: u32) = Suc (Suc 0)" by simp
  have "region 0x2000 (unat (2 :: u32)) \<inter> region 0x1002 (unat (2 :: u32)) = {}" unfolding e by (simp add: region_Suc)
  moreover have "memcpy 0x2000 0x1002 2 demo_mem = Some (0x2000, demo_mem(0x2000 \<mapsto> 98, 0x2001 \<mapsto> 0))"
    unfolding memcpy_def e by (simp add: demo_mem_def store_def)
  ultimately show ?thesis using asm_routines_agree [of "0x2000" "0x1002" demo_mem 0 2] by blast
qed

theorem asm_strncat_extra_witness:
  "\<exists>m1 m2. asm_strncat 0x2002 0x1002 5 (demo_mem(0x2004 \<mapsto> 9)) = Some (0x2002, m1) \<and>
    strncat 0x2002 0x1002 5 (demo_mem(0x2004 \<mapsto> 9)) = Some (0x2002, m2) \<and> m1 0x2004 = Some 0 \<and> m2 0x2004 = Some 9"
proof -
  let ?m = "demo_mem(0x2004 \<mapsto> 9)"
  have "cstr ?m 0x2002 []" "cstr ?m 0x1002 [98]" "mapped ?m 0x2002 (length ([] :: byte list) + length [98 :: byte] + 2)"
    "region 0x2002 (length ([] :: byte list) + length [98 :: byte] + 2) \<inter> region 0x1002 (Suc (length [98 :: byte])) = {}"
    by (simp_all add: demo_mem_def mapped_Suc mapped_def [of _ _ 0] region_Suc)
  with asm_strncat_extra [of ?m "0x2002" "[]" "0x1002" "[98]" 5] show ?thesis by auto
qed

theorem asm_strncpy_pads_witness:
  "\<exists>m'. asm_strncpy 0x2000 0x1002 4 demo_mem = Some (0x2000, m') \<and> bytes_at m' 0x2000 [98, 0, 0, 0]"
proof -
  have e: "unat (4 :: u32) = Suc (Suc (Suc (Suc 0)))" by simp
  have "cstr demo_mem 0x1002 [98]" "mapped demo_mem 0x2000 (unat (4 :: u32))"
    "region 0x2000 (unat (4 :: u32)) \<inter> region 0x1002 (Suc (length [98 :: byte])) = {}"
    unfolding e by (simp_all add: demo_mem_def mapped_Suc mapped_def [of _ _ 0] region_Suc)
  with asm_strncpy_pads [of demo_mem "0x1002" "[98]" 4 "0x2000"] show ?thesis
    by (simp add: numeral_3_eq_3) blast
qed

end
