(* ===== verification/User_String.thy ===== *)
theory User_String
  imports Asm_String
begin

text \<open>
  The single values and the strings of user memory: \<open>get_user\<close>, \<open>put_user\<close> of
  \<open>include/asm-i386/uaccess.h\<close> with \<open>arch/i386/lib/getuser.S\<close>, and \<open>strncpy_from_user\<close>, \<open>clear_user\<close>,
  \<open>strnlen_user\<close> of \<open>arch/i386/lib/usercopy.c\<close>. Only the instructions named in the exception table may
  fault: a fault of another one (a write to kernel memory) does not return.
\<close>

section \<open>Single values\<close>

text \<open>The address of the last byte is compared with the limit; the carry of the addition is an error.\<close>
definition get_user_check :: "nat \<Rightarrow> addr \<Rightarrow> addr \<Rightarrow> bool" where
  "get_user_check k limit a = (let e = a + of_nat (k - 1) in \<not> e < a \<and> e < limit)"

text \<open>\<open>__get_user_1\<close>, \<open>_2\<close> and \<open>_4\<close>: the error and the zero-extended value.\<close>
definition get_user_x :: "nat \<Rightarrow> addr \<Rightarrow> addr \<Rightarrow> mem \<Rightarrow> int \<times> u32" where
  "get_user_x k limit a m =
     (if get_user_check k limit a then (case get m a k of Some bs \<Rightarrow> (0, of_le bs) | None \<Rightarrow> (- EFAULT, 0))
      else (- EFAULT, 0))"

text \<open>\<open>__get_user\<close>: no check of the address.\<close>
definition get_user_size :: "nat \<Rightarrow> addr \<Rightarrow> mem \<Rightarrow> int \<times> u32" where
  "get_user_size k a m = (case get m a k of Some bs \<Rightarrow> (0, of_le bs) | None \<Rightarrow> (- EFAULT, 0))"

definition put_user_asm :: "nat \<Rightarrow> u32 \<Rightarrow> addr \<Rightarrow> mem \<Rightarrow> int \<times> mem" where
  "put_user_asm k x a m = (case put m a (take k (le32 x)) of Some m \<Rightarrow> (0, m) | None \<Rightarrow> (- EFAULT, m))"

text \<open>Two moves, the low half first.\<close>
definition put_user_u64 :: "64 word \<Rightarrow> addr \<Rightarrow> mem \<Rightarrow> int \<times> mem" where
  "put_user_u64 x a m = (case put m a (le32 (ucast x)) of
     None \<Rightarrow> (- EFAULT, m)
   | Some m \<Rightarrow> (case put m (a + 4) (le32 (ucast (drop_bit 32 x))) of None \<Rightarrow> (- EFAULT, m) | Some m \<Rightarrow> (0, m)))"

definition put_user_size :: "nat \<Rightarrow> 64 word \<Rightarrow> addr \<Rightarrow> mem \<Rightarrow> int \<times> mem" where
  "put_user_size k x a m = (if k = 8 then put_user_u64 x a m else put_user_asm k (ucast x) a m)"

definition put_user_check :: "nat \<Rightarrow> addr \<Rightarrow> 64 word \<Rightarrow> addr \<Rightarrow> mem \<Rightarrow> int \<times> mem" where
  "put_user_check k limit x a m =
     (if access_ok limit a (of_nat k) then put_user_size k x a m else (- EFAULT, m))"

section \<open>Strings\<close>

text \<open>
  The loop of \<open>__do_strncpy_from_user\<close>: the value of \<open>ecx\<close> at the end, or \<open>None\<close> when the read has faulted,
  and the memory.
\<close>
fun strncpy_user_loop :: "nat \<Rightarrow> addr \<Rightarrow> addr \<Rightarrow> mem \<Rightarrow> (nat option \<times> mem) option" where
  "strncpy_user_loop 0 edi esi m = Some (Some 0, m)"
| "strncpy_user_loop (Suc n) edi esi m = (case m esi of
     None \<Rightarrow> Some (None, m)
   | Some al \<Rightarrow> do {
       m \<leftarrow> store edi al m;
       if al = 0 then Some (Some (Suc n), m) else strncpy_user_loop n (edi + 1) (esi + 1) m })"

definition do_strncpy_from_user :: "addr \<Rightarrow> addr \<Rightarrow> u32 \<Rightarrow> mem \<Rightarrow> (int \<times> mem) option" where
  "do_strncpy_from_user dst src count m =
     (if count = 0 then Some (sint count, m)
      else do {
        (ecx, m) \<leftarrow> strncpy_user_loop (unat count) dst src m;
        Some (case ecx of Some c \<Rightarrow> sint (count - of_nat c) | None \<Rightarrow> - EFAULT, m) })"

definition strncpy_from_user :: "addr \<Rightarrow> addr \<Rightarrow> addr \<Rightarrow> u32 \<Rightarrow> mem \<Rightarrow> (int \<times> mem) option" where
  "strncpy_from_user limit dst src count m =
     (if access_ok limit src 1 then do_strncpy_from_user dst src count m else Some (- EFAULT, m))"

text \<open>\<open>rep stos\<close> of zeros with the registers \<open>ecx\<close> and \<open>edi\<close> after a fault.\<close>
fun rep_stos_user :: "nat \<Rightarrow> nat \<Rightarrow> addr \<Rightarrow> mem \<Rightarrow> nat \<times> addr \<times> mem" where
  "rep_stos_user k 0 edi m = (0, edi, m)"
| "rep_stos_user k (Suc n) edi m = (case put m edi (replicate k 0) of
     None \<Rightarrow> (Suc n, edi, m)
   | Some m \<Rightarrow> rep_stos_user k n (edi + of_nat k) m)"

definition do_clear_user :: "addr \<Rightarrow> nat \<Rightarrow> mem \<Rightarrow> nat \<times> mem" where
  "do_clear_user to sz m =
     (let (c, d, m) = rep_stos_user 4 (sz div 4) to m in
      if c \<noteq> 0 then (sz mod 4 + 4 * c, m)
      else (let (c, d, m) = rep_stos_user 1 (sz mod 4) d m in (c, m)))"

definition clear_user :: "addr \<Rightarrow> addr \<Rightarrow> u32 \<Rightarrow> mem \<Rightarrow> nat \<times> mem" where
  "clear_user limit to n m = (if access_ok limit to n then do_clear_user to (unat n) m else (unat n, m))"

definition addr_ok :: "addr \<Rightarrow> addr \<Rightarrow> bool" where
  "addr_ok limit a = (a < limit)"

text \<open>
  \<open>mask\<close> is all ones for an address below the limit and zero for others. With \<open>ecx = 0\<close> the scan does
  nothing, and the zero flag is that of the \<open>and\<close> before it.
\<close>
definition strnlen_user :: "addr \<Rightarrow> addr \<Rightarrow> u32 \<Rightarrow> mem \<Rightarrow> u32" where
  "strnlen_user limit s n m =
     (let mask = (if addr_ok limit s then -1 else 0);
          res = (if n = 0 then 1
            else (let ecx = n AND mask in
              if ecx = 0 then 0 + (n - ecx)
              else (case repne_scasb (unat ecx) 0 s m of
                  None \<Rightarrow> 0
                | Some (zf, ecx, edi) \<Rightarrow> (if zf then 0 else 1) + (n - of_nat ecx))))
      in res AND mask)"

section \<open>Lemmas\<close>

lemma get_user_check_access:
  assumes "0 < k" "k \<le> 8"
  shows "get_user_check k limit a = access_ok limit a (of_nat k)"
proof -
  have b: "unat (of_nat k :: u32) = k" "unat (of_nat (k - 1) :: u32) = k - 1"
    using assms by (simp_all add: unat_of_nat del: of_nat_diff)
  have l: "unat limit < 2 ^ 32" "unat a < 2 ^ 32" by (rule unat_u32)+
  show ?thesis
  proof (cases "unat a + (k - 1) < 2 ^ 32")
    case True
    then have "unat (a + of_nat (k - 1)) = unat a + (k - 1)" using b by (simp add: unat_plus_if_size word_size)
    then show ?thesis using assms by (auto simp: get_user_check_def access_ok_iff b word_less_nat_alt Let_def)
  next
    case False
    then have "unat (a + of_nat (k - 1)) = unat a + (k - 1) - 2 ^ 32" using b by (simp add: unat_plus_if_size word_size)
    then show ?thesis using False assms l by (auto simp: get_user_check_def access_ok_iff b word_less_nat_alt Let_def)
  qed
qed

lemma bit_le32: "n < 32 \<Longrightarrow> bit (le32 x ! (n div 8)) (n mod 8) = bit x n"
proof -
  assume n: "n < 32"
  then have "n div 8 < 4" by simp
  then consider "n div 8 = 0" | "n div 8 = 1" | "n div 8 = 2" | "n div 8 = 3" by linarith
  then show ?thesis
    using div_mult_mod_eq [of n 8] mod_less_divisor [of 8 n]
    by cases (auto simp: le32_def bit_simps add.commute simp del: mod_less_divisor)
qed

lemma bit_of_le: "bit (of_le bs) n = (n < 32 \<and> n div 8 < length bs \<and> bit (bs ! (n div 8)) (n mod 8))"
proof (induction bs arbitrary: n)
  case (Cons b bs)
  have "n mod 8 = (n - 8) mod 8" "n div 8 = Suc ((n - 8) div 8)" if "8 \<le> n"
    using that by (simp_all add: le_mod_geq le_div_geq)
  then show ?case using bit_imp_le_length [of b n] by (cases "n < 8") (auto simp: bit_simps Cons.IH)
qed simp

lemma length_le32 [simp]: "length (le32 x) = 4"
  by (simp add: le32_def)

lemma of_le_take_le32: "k \<le> 4 \<Longrightarrow> of_le (take k (le32 x)) = take_bit (8 * k) x"
  by (rule bit_word_eqI) (auto simp: bit_of_le bit_le32 bit_simps less_mult_imp_div_less mult.commute)

lemma put_None: "put m a bs = None \<longleftrightarrow> \<not> mapped m a (length bs)"
proof (induction bs arbitrary: m a)
  case (Cons b bs)
  show ?case
  proof (cases "m a = None")
    case False
    have "mapped (m(a \<mapsto> b)) (a + 1) (length bs) = mapped m (a + 1) (length bs)"
      by (rule iffI; erule mapped_dom) (use False in auto)
    with False show ?thesis using Cons.IH [of "m(a \<mapsto> b)" "a + 1"] by (simp add: mapped_Suc store_mapped del: fun_upd_apply)
  qed (simp add: mapped_Suc store_def)
qed (simp add: mapped_def)

lemma put_memE:
  assumes "put m a bs = Some m'" "length bs \<le> 2 ^ 32"
  obtains "bytes_at m' a bs" "\<And>x. x \<notin> region a (length bs) \<Longrightarrow> m' x = m x" "dom m' = dom m"
  using put_ok [of m a bs] put_None [of m a bs] assms by auto

lemma get_None: "get m a k = None \<longleftrightarrow> \<not> mapped m a k"
proof (induction k arbitrary: a)
  case (Suc k)
  have "get m (a + 1) k = None \<longleftrightarrow> \<not> mapped m (a + 1) k" by (rule Suc.IH)
  then show ?case by (cases "m a"; cases "get m (a + 1) k") (simp_all add: mapped_Suc)
qed (simp add: mapped_def)

text \<open>What the loop stores, and \<open>ecx\<close>, when the first bytes of the source are \<open>bs\<close>.\<close>
definition strncpy_user_out :: "nat \<Rightarrow> byte list \<Rightarrow> byte option \<Rightarrow> nat option \<times> byte list" where
  "strncpy_user_out n bs c =
     (if length bs = n then (Some 0, bs)
      else case c of None \<Rightarrow> (None, bs) | Some _ \<Rightarrow> (Some (n - length bs), bs @ [0]))"

lemma strncpy_user_loop_put:
  assumes "bytes_at m src bs" "0 \<notin> set bs" "length bs \<le> n" "region dst n \<inter> region src n = {}"
    "length bs < n \<Longrightarrow> m (src + of_nat (length bs)) = c" "c = None \<or> c = Some 0"
  shows "strncpy_user_loop n dst src m =
    map_option (Pair (fst (strncpy_user_out n bs c))) (put m dst (snd (strncpy_user_out n bs c)))"
  using assms
proof (induction bs arbitrary: m dst src n)
  case Nil
  then show ?case
  proof (cases n)
    case (Suc k)
    with Nil show ?thesis by (cases "store dst 0 m") (auto simp: strncpy_user_out_def)
  qed (simp add: strncpy_user_out_def)
next
  case (Cons b bs)
  obtain k where n: "n = Suc k" using Cons.prems(3) by (cases n) auto
  let ?m = "m(dst \<mapsto> b)"
  have rs: "region dst n = insert dst (region (dst + 1) k)" "region src n = insert src (region (src + 1) k)"
    by (simp_all add: n region_Suc)
  have dst: "dst \<notin> region (src + 1) k" and dj: "region (dst + 1) k \<inter> region (src + 1) k = {}"
    using Cons.prems(4) by (auto simp: rs)
  have sub: "region (src + 1) (length bs) \<subseteq> region (src + 1) k"
    using Cons.prems(3) by (auto simp: n region_def)
  have b: "bytes_at ?m (src + 1) bs"
  proof -
    have "?m x = m x" if "x \<in> region (src + 1) (length bs)" for x using that sub dst by auto
    then have "bytes_at ?m (src + 1) bs = bytes_at m (src + 1) bs" by (rule bytes_at_cong)
    then show ?thesis using Cons.prems(1) by simp
  qed
  have e: "?m (src + 1 + of_nat (length bs)) = c" if "length bs < k"
  proof -
    have "src + 1 + of_nat (length bs) \<in> region (src + 1) k" using that by (auto simp: region_def)
    then have "src + 1 + of_nat (length bs) \<noteq> dst" using dst by auto
    then show ?thesis using Cons.prems(5) that by (simp add: n add.assoc)
  qed
  have o: "strncpy_user_out (Suc k) (b # bs) c = (fst (strncpy_user_out k bs c), b # snd (strncpy_user_out k bs c))"
    by (auto simp: strncpy_user_out_def split: option.splits)
  have IH: "strncpy_user_loop k (dst + 1) (src + 1) ?m = map_option (Pair (fst (strncpy_user_out k bs c)))
      (put ?m (dst + 1) (snd (strncpy_user_out k bs c)))"
    using Cons.IH [OF b _ _ dj e Cons.prems(6)] Cons.prems(2,3) n by (simp del: fun_upd_apply)
  show ?case
  proof (cases "m dst = None")
    case False
    then show ?thesis using Cons.prems(1,2) IH by (simp add: o n store_mapped)
  qed (use Cons.prems(1,2) in \<open>simp add: o n store_def\<close>)
qed

lemma rep_stos_user_exact:
  assumes "rep_stos_user k n a m = (c, d, m')" "k * n \<le> 2 ^ 32"
  shows "c \<le> n \<and> d = a + of_nat (k * (n - c)) \<and> put m a (replicate (k * (n - c)) 0) = Some m' \<and>
    (mapped m a (k * n) \<longrightarrow> c = 0)"
  using assms
proof (induction n arbitrary: a m)
  case (Suc n)
  show ?case
  proof (cases "put m a (replicate k 0)")
    case None
    then have u: "\<not> mapped m a k" by (simp add: put_None)
    then have "\<not> mapped m a (k + k * n)" by (simp add: mapped_add)
    with u Suc.prems None show ?thesis by auto
  next
    case (Some m1)
    have l: "length (replicate k (0 :: byte)) \<le> 2 ^ 32" "k * n \<le> 2 ^ 32" using Suc.prems(2) by simp_all
    have dm: "dom m1 = dom m" using put_memE [OF Some l(1)] by blast
    have r: "rep_stos_user k n (a + of_nat k) m1 = (c, d, m')" using Suc.prems Some by simp
    note IH = Suc.IH [OF r l(2)]
    have k: "k * (Suc n - c) = k + k * (n - c)" using IH by (simp add: Suc_diff_le)
    have "put m a (replicate (k + k * (n - c)) 0) = Some m'"
      using put_append [of m a "replicate k 0" "replicate (k * (n - c)) 0"] Some IH by (simp add: replicate_add)
    moreover have "mapped m a (k + k * n) \<longrightarrow> c = 0"
      using IH mapped_dom [of m "a + of_nat k" "k * n" m1] dm by (auto simp: mapped_add)
    moreover have "d = a + of_nat (k + k * (n - c))" using IH by (simp add: add.assoc)
    ultimately show ?thesis using IH unfolding k by simp
  qed
qed simp

lemma do_clear_user_exact:
  assumes "do_clear_user to sz m = (r, m')" "sz \<le> 2 ^ 32"
  shows "r \<le> sz \<and> put m to (replicate (sz - r) 0) = Some m' \<and> (r = 0 \<longleftrightarrow> mapped m to sz)"
proof -
  let ?q = "sz div 4"
  obtain c d m1 where c: "rep_stos_user 4 ?q to m = (c, d, m1)" by (cases "rep_stos_user 4 ?q to m") auto
  have l: "4 * ?q \<le> 2 ^ 32" "sz mod 4 \<le> 2 ^ 32" using assms(2) mod_4_le [of sz] by simp_all
  have sz: "sz = 4 * ?q + sz mod 4" by simp
  note e = rep_stos_user_exact [OF c l(1)]
  have mp: "mapped m to sz \<longleftrightarrow> mapped m to (4 * ?q) \<and> mapped m (to + of_nat (4 * ?q)) (sz mod 4)"
    using mapped_add [of m to "4 * ?q" "sz mod 4"] by simp
  show ?thesis
  proof (cases "c = 0")
    case False
    then have r: "r = sz mod 4 + 4 * c" "m' = m1" using assms(1) c by (simp_all add: do_clear_user_def)
    have "sz - r = 4 * (?q - c)" using e sz r by linarith
    moreover have "r \<le> sz" using e sz r by linarith
    ultimately show ?thesis using e mp False by (auto simp: r)
  next
    case True
    have d: "d = to + of_nat (4 * ?q)" "put m to (replicate (4 * ?q) 0) = Some m1" using e True by simp_all
    then obtain d2 where c2: "rep_stos_user 1 (sz mod 4) d m1 = (r, d2, m')"
      using assms(1) c True by (auto simp: do_clear_user_def split: prod.splits)
    have f: "r \<le> sz mod 4 \<and> put m1 d (replicate (sz mod 4 - r) 0) = Some m' \<and>
        (mapped m1 d (sz mod 4) \<longrightarrow> r = 0)"
      using rep_stos_user_exact [OF c2] l(2) by simp
    have "length (replicate (4 * ?q) (0 :: byte)) \<le> 2 ^ 32" using l(1) by simp
    then have dm: "dom m1 = dom m" using put_memE [OF d(2)] by blast
    have m': "mapped m to (4 * ?q)" using put_None [of m to "replicate (4 * ?q) 0"] d(2) by simp
    have s: "sz - r = 4 * ?q + (sz mod 4 - r)" using f sz by linarith
    have "put m to (replicate (sz - r) 0) = Some m'"
      unfolding s replicate_add put_append using d f by (simp only: length_replicate bind.bind_lunit)
    moreover have "r = 0 \<longleftrightarrow> mapped m1 d (sz mod 4)"
      using f put_None [of m1 d "replicate (sz mod 4 - r) 0"] by auto
    moreover have "mapped m1 d (sz mod 4) \<longleftrightarrow> mapped m d (sz mod 4)"
      by (rule iffI; erule mapped_dom) (simp_all add: dm)
    moreover have "r \<le> sz" using f sz by linarith
    ultimately show ?thesis using mp m' d(1) by simp
  qed
qed

section \<open>Properties\<close>

text \<open>
  The check of \<open>getuser.S\<close> on the last byte and the range check of \<open>put_user\<close> accept the
  same addresses. A value of 1, 2 or 4 bytes written by \<open>put_user\<close> is what \<open>get_user\<close> reads, and nothing else
  changes; where the address is beyond the limit or not mapped both give \<open>EFAULT\<close>, the memory stays as
  it was and the value read is zero.
\<close>
theorem put_get_user:
  assumes "k \<in> {1, 2, 4}" "put_user_check k limit x a m = (r, m')"
  shows "if access_ok limit a (of_nat k) \<and> mapped m a k
    then r = 0 \<and> get_user_x k limit a m' = (0, take_bit (8 * k) (ucast x)) \<and>
      (\<forall>y. y \<notin> region a k \<longrightarrow> m' y = m y) \<and> dom m' = dom m
    else r = - EFAULT \<and> m' = m \<and> get_user_x k limit a m = (- EFAULT, 0)"
proof -
  have k: "0 < k" "k \<le> 4" "k \<noteq> 8" using assms(1) by auto
  have ck: "get_user_check k limit a = access_ok limit a (of_nat k)"
    by (rule get_user_check_access) (use k in simp_all)
  let ?bs = "take k (le32 (ucast x))"
  have l: "length ?bs = k" using k by simp
  show ?thesis
  proof (cases "access_ok limit a (of_nat k) \<and> mapped m a k")
    case True
    then obtain m1 where m1: "put m a ?bs = Some m1" using put_None [of m a ?bs] l by auto
    have r: "r = 0" "m' = m1"
      using assms(2) True m1 k by (simp_all add: put_user_check_def put_user_size_def put_user_asm_def)
    have "length ?bs \<le> 2 ^ 32" using k by simp
    then have b: "bytes_at m' a ?bs" "\<forall>y. y \<notin> region a k \<longrightarrow> m' y = m y" "dom m' = dom m"
      using put_memE [OF m1] l unfolding r(2) by metis+
    have "get m' a k = Some ?bs" using get_bytes [OF b(1)] l by simp
    then have "get_user_x k limit a m' = (0, take_bit (8 * k) (ucast x))"
      using True of_le_take_le32 [OF k(2)] by (simp add: get_user_x_def ck)
    with True r b show ?thesis by simp
  next
    case False
    then show ?thesis
      using assms(2) k l put_None [of m a ?bs] get_None [of m a k]
      by (auto simp: put_user_check_def put_user_size_def put_user_asm_def get_user_x_def ck)
  qed
qed

definition user_mem :: mem where
  "user_mem = [0xBFFFFFFE \<mapsto> 104, 0xBFFFFFFF \<mapsto> 105, 0xC0000000 \<mapsto> 75, 0xC0000001 \<mapsto> 0,
     0xC0001000 \<mapsto> 9, 0xC0001001 \<mapsto> 9, 0xC0001002 \<mapsto> 9, 0xC0001003 \<mapsto> 9]"

theorem put_get_user_witness:
  "fst (get_user_x 2 0xC0000000 0xBFFFFFFE (snd (put_user_check 2 0xC0000000 0x4142 0xBFFFFFFE user_mem))) = 0"
proof -
  have "access_ok 0xC0000000 0xBFFFFFFE (of_nat 2)" by (simp add: access_ok_def range_ok_def)
  moreover have "mapped user_mem 0xBFFFFFFE (Suc (Suc 0))" by (simp add: mapped_Suc mapped_def [of _ _ 0] user_mem_def)
  then have "mapped user_mem 0xBFFFFFFE 2" by (simp only: numeral_2_eq_2)
  ultimately show ?thesis
    using put_get_user [of 2 "0xC0000000" "0x4142" "0xBFFFFFFE" user_mem, OF _ prod.collapse [symmetric]] by simp
qed

lemma strncpy_from_user_ok:
  assumes "access_ok limit src 1" "bytes_at m src bs" "0 \<notin> set bs" "length bs \<le> unat count" "unat count < 2 ^ 31"
    "length bs < unat count \<longrightarrow> m (src + of_nat (length bs)) = None \<or> m (src + of_nat (length bs)) = Some 0"
    "mapped m dst (unat count)" "region dst (unat count) \<inter> region src (unat count) = {}"
  shows "\<exists>m'. strncpy_from_user limit dst src count m =
      Some (if length bs < unat count \<and> m (src + of_nat (length bs)) = None then - EFAULT else int (length bs), m') \<and>
    bytes_at m' dst (if length bs < unat count \<and> m (src + of_nat (length bs)) = Some 0 then bs @ [0] else bs) \<and>
    (\<forall>x. x \<notin> region dst (unat count) \<longrightarrow> m' x = m x)"
proof (cases "count = 0")
  case True
  then show ?thesis using assms(1,2,4) by (simp add: strncpy_from_user_def do_strncpy_from_user_def)
next
  case False
  define c where "c = (if length bs < unat count then m (src + of_nat (length bs)) else None)"
  define ys where "ys = snd (strncpy_user_out (unat count) bs c)"
  have c: "c = None \<or> c = Some 0" using assms(6) by (auto simp: c_def)
  have ys: "ys = (if length bs < unat count \<and> m (src + of_nat (length bs)) = Some 0 then bs @ [0] else bs)"
    using assms(4) c by (auto simp: ys_def strncpy_user_out_def c_def)
  have l: "length ys \<le> unat count" using assms(4) by (simp add: ys)
  have mp: "mapped m dst (length ys)" using assms(7) mapped_add [of m dst "length ys" "unat count - length ys"] l by simp
  obtain m' where m': "put m dst ys = Some m'" "bytes_at m' dst ys" "\<forall>x. x \<notin> region dst (length ys) \<longrightarrow> m' x = m x"
    using put_ok [OF mp] l unat_u32 [of count] by auto
  have "region dst (length ys) \<subseteq> region dst (unat count)"
    using region_add [of dst "length ys" "unat count - length ys"] l by auto
  then have fr: "\<forall>x. x \<notin> region dst (unat count) \<longrightarrow> m' x = m x" using m'(3) by blast
  have "strncpy_user_loop (unat count) dst src m = Some (fst (strncpy_user_out (unat count) bs c), m')"
    using strncpy_user_loop_put [OF assms(2,3,4,8) _ c] m'(1) by (simp add: c_def ys_def)
  moreover have "sint (count - of_nat (unat count - length bs)) = int (length bs)"
  proof -
    have "count - of_nat (unat count - length bs) = of_nat (length bs)"
      using assms(4) by (simp add: of_nat_diff)
    then show ?thesis using assms(4,5) by (simp add: sint_of_nat_small)
  qed
  ultimately have "strncpy_from_user limit dst src count m =
      Some (if length bs < unat count \<and> m (src + of_nat (length bs)) = None then - EFAULT else int (length bs), m')"
    using False assms(1,4) c
    by (auto simp: strncpy_from_user_def do_strncpy_from_user_def strncpy_user_out_def c_def split: option.splits)
  with m'(2) fr show ?thesis unfolding ys by blast
qed

text \<open>
  C37. \<open>strncpy_from_user\<close> stores the characters of the string of the user up to
  \<open>count\<close> of them, the terminating zero only when it is one of these, and returns their number; where the
  string runs into memory that is not mapped it returns \<open>EFAULT\<close> and what was read before is stored. Of the
  source only the first byte is checked against the limit: the same holds for a string that goes on
  behind it, into the memory of the kernel. With a first byte at or above the limit nothing is copied.
\<close>
theorem strncpy_from_user_copies:
  assumes "bytes_at m src bs" "0 \<notin> set bs" "length bs \<le> unat count" "unat count < 2 ^ 31"
    "length bs < unat count \<longrightarrow> m (src + of_nat (length bs)) = None \<or> m (src + of_nat (length bs)) = Some 0"
    "mapped m dst (unat count)" "region dst (unat count) \<inter> region src (unat count) = {}"
  shows "if access_ok limit src 1 then
      \<exists>m'. strncpy_from_user limit dst src count m =
        Some (if length bs < unat count \<and> m (src + of_nat (length bs)) = None then - EFAULT else int (length bs), m') \<and>
      bytes_at m' dst (if length bs < unat count \<and> m (src + of_nat (length bs)) = Some 0 then bs @ [0] else bs) \<and>
      (\<forall>x. x \<notin> region dst (unat count) \<longrightarrow> m' x = m x)
    else strncpy_from_user limit dst src count m = Some (- EFAULT, m)"
proof (cases "access_ok limit src 1")
  case True
  show ?thesis unfolding if_P [OF True] by (rule strncpy_from_user_ok [OF True assms])
qed (simp add: strncpy_from_user_def)

text \<open>The string starts two bytes below the limit and ends behind it.\<close>
theorem strncpy_from_user_copies_witness:
  "\<exists>m'. strncpy_from_user 0xC0000000 0xC0001000 0xBFFFFFFE 4 user_mem = Some (3, m') \<and>
    bytes_at m' 0xC0001000 [104, 105, 75, 0] \<and> \<not> access_ok 0xC0000000 0xBFFFFFFE 3"
proof -
  have "access_ok 0xC0000000 0xBFFFFFFE 1" "\<not> access_ok 0xC0000000 0xBFFFFFFE 3"
    by (simp_all add: access_ok_def range_ok_def)
  moreover have "bytes_at user_mem 0xBFFFFFFE [104, 105, 75]" "user_mem 0xC0000001 = Some 0" by (simp_all add: user_mem_def)
  moreover have "mapped user_mem 0xC0001000 (Suc (Suc (Suc (Suc 0))))"
    by (simp add: mapped_Suc mapped_def [of _ _ 0] user_mem_def)
  then have "mapped user_mem 0xC0001000 4" by (simp add: numeral_eq_Suc)
  moreover have "region 0xC0001000 (Suc (Suc (Suc (Suc 0)))) \<inter> region 0xBFFFFFFE (Suc (Suc (Suc (Suc 0)))) = {}"
    by (simp add: region_Suc)
  then have "region 0xC0001000 4 \<inter> region 0xBFFFFFFE 4 = {}" by (simp add: numeral_eq_Suc)
  ultimately show ?thesis
    using strncpy_from_user_copies [of user_mem "0xBFFFFFFE" "[104, 105, 75]" 4 "0xC0001000" "0xC0000000"] by auto
qed

text \<open>
  For an address below the limit \<open>strnlen_user\<close> gives the length of the string with
  its terminating zero, \<open>n + 1\<close> when the first \<open>n\<close> bytes have no zero, and 0 when the string runs into
  memory that is not mapped; for other addresses it gives 0.
\<close>
theorem strnlen_user_counts:
  assumes "bytes_at m s bs" "0 \<notin> set bs" "length bs \<le> unat n" "unat n < 2 ^ 31"
    "length bs < unat n \<longrightarrow> m (s + of_nat (length bs)) = None \<or> m (s + of_nat (length bs)) = Some 0"
  shows "unat (strnlen_user limit s n m) =
    (if \<not> s < limit \<or> (length bs < unat n \<and> m (s + of_nat (length bs)) = None) then 0 else length bs + 1)"
proof -
  have scan: "repne_scasb k 0 s m =
      (if length bs = k then Some (False, 0, s + of_nat k)
       else if m (s + of_nat (length bs)) = None then None
       else Some (True, k - Suc (length bs), s + of_nat (Suc (length bs))))"
    if "length bs \<le> k" "length bs < k \<longrightarrow> m (s + of_nat (length bs)) = None \<or> m (s + of_nat (length bs)) = Some 0" for k
    using assms(1,2) that
  proof (induction bs arbitrary: s k)
    case Nil
    then show ?case by (cases k) auto
  next
    case (Cons b bs)
    then obtain j where k: "k = Suc j" by (cases k) auto
    show ?case using Cons.prems Cons.IH [of "s + 1" j] by (simp add: k add.assoc)
  qed
  have one: "unat (1 + n) = unat n + 1" using assms(4) by (simp add: unat_plus_if_size word_size)
  have nat: "unat (n - of_nat (unat n - Suc (length bs))) = Suc (length bs)" if "length bs < unat n"
  proof -
    have "n - of_nat (unat n - Suc (length bs)) = of_nat (Suc (length bs))" using that by (simp add: of_nat_diff)
    moreover have "unat (of_nat (Suc (length bs)) :: u32) = Suc (length bs)"
      using that assms(4) by (simp add: unat_of_nat del: of_nat_Suc)
    ultimately show ?thesis by simp
  qed
  have n0: "n = 0 \<longleftrightarrow> unat n = 0" by (simp add: unat_eq_0)
  show ?thesis
  proof (cases "s < limit")
    case True
    then show ?thesis
      using scan [OF assms(3,5)] nat one assms(3) n0
      by (auto simp: strnlen_user_def addr_ok_def Let_def)
  qed (simp add: strnlen_user_def addr_ok_def)
qed

theorem strnlen_user_counts_witness:
  "unat (strnlen_user 0xC0000000 0xBFFFFFFE 10 user_mem) = 4"
  using strnlen_user_counts [of user_mem "0xBFFFFFFE" "[104, 105, 75]" 10 "0xC0000000"] by (simp add: user_mem_def)

text \<open>
  \<open>clear_user\<close> returns the number of bytes it has not cleared, exactly: those before are
  zero, and everything else is as it was. It is 0 exactly when the range is below the limit and mapped.
\<close>
theorem clear_user_exact:
  assumes "clear_user limit to n m = (r, m')"
  shows "r \<le> unat n \<and> bytes_at m' to (replicate (unat n - r) 0) \<and>
    (\<forall>x. x \<notin> region to (unat n - r) \<longrightarrow> m' x = m x) \<and> (n \<noteq> 0 \<longrightarrow> (r = 0 \<longleftrightarrow> access_ok limit to n \<and> mapped m to (unat n)))"
proof (cases "access_ok limit to n")
  case True
  then have c: "do_clear_user to (unat n) m = (r, m')" using assms by (simp add: clear_user_def)
  note e = do_clear_user_exact [OF c less_imp_le [OF unat_u32]]
  have "unat n - r \<le> 2 ^ 32" using unat_u32 [of n] by linarith
  then show ?thesis using e True put_memE [of m to "replicate (unat n - r) 0" m'] by auto
qed (use assms in \<open>auto simp: clear_user_def unat_gt_0\<close>)

theorem clear_user_exact_witness:
  "fst (clear_user 0xC0000000 0xBFFFFFFE 2 user_mem) = 0"
proof -
  have "mapped user_mem 0xBFFFFFFE (Suc (Suc 0))" by (simp add: mapped_Suc mapped_def [of _ _ 0] user_mem_def)
  then have "mapped user_mem 0xBFFFFFFE (unat (2 :: u32))" by (simp add: numeral_2_eq_2 [symmetric])
  moreover have "access_ok 0xC0000000 0xBFFFFFFE 2" by (simp add: access_ok_def range_ok_def)
  ultimately show ?thesis using clear_user_exact [OF prod.collapse [symmetric], of "0xC0000000" "0xBFFFFFFE" 2 user_mem] by simp
qed

end
