(* ===== verification/Vsprintf.thy ===== *)
theory Vsprintf
  imports User_String
begin

text \<open>
  Printing and reading of numbers and formats, \<open>lib/vsprintf.c\<close>. Strings and formats are in byte memory;
  the arguments behind a format are the 32-bit words of the stack, a \<open>long long\<close> is two of them, and
  reading behind the last one is undefined (\<open>None\<close>). Characters are given by their codes. Values of
  type \<open>int\<close> wrap at 32 bits (\<open>s32\<close>).
\<close>

section \<open>Characters\<close>

definition isdigit :: "byte \<Rightarrow> bool" where
  "isdigit c = (48 \<le> unat c \<and> unat c \<le> 57)"

definition isxdigit :: "byte \<Rightarrow> bool" where
  "isxdigit c = (isdigit c \<or> (65 \<le> unat c \<and> unat c \<le> 70) \<or> (97 \<le> unat c \<and> unat c \<le> 102))"

definition isspace :: "byte \<Rightarrow> bool" where
  "isspace c = ((9 \<le> unat c \<and> unat c \<le> 13) \<or> unat c = 32 \<or> unat c = 160)"

definition islower :: "byte \<Rightarrow> bool" where
  "islower c = (let n = unat c in (97 \<le> n \<and> n \<le> 122) \<or> (223 \<le> n \<and> n \<le> 246) \<or> (248 \<le> n \<and> n \<le> 255))"

definition toupper :: "byte \<Rightarrow> byte" where
  "toupper c = (if islower c then c - (97 - 65) else c)"

definition s32 :: "int \<Rightarrow> int" where
  "s32 x = sint (of_int x :: u32)"

section \<open>Reading numbers\<close>

text \<open>The value of a digit: the difference is an \<open>int\<close> that is then unsigned.\<close>
definition digit_value :: "byte \<Rightarrow> 'a::len word" where
  "digit_value c = (if isdigit c then of_int (sint c - 48) else of_int (uint (toupper c) - 65 + 10))"

text \<open>The prefix of a number without a given base.\<close>
definition strto_base :: "addr \<Rightarrow> u32 \<Rightarrow> mem \<Rightarrow> (addr \<times> u32) option" where
  "strto_base cp base m =
     (if base = 0 then do {
        c \<leftarrow> m cp;
        if c = 48 then do {
          let cp = cp + 1;
          c \<leftarrow> m cp;
          if c = 120 then do {
            c \<leftarrow> m (cp + 1);
            if isxdigit c then Some (cp + 1, 16) else Some (cp, 8) }
          else Some (cp, 8) }
        else Some (cp, 10) }
      else Some (cp, base))"

partial_function (option) strto_loop :: "u32 \<Rightarrow> addr \<Rightarrow> 'a::len word \<Rightarrow> mem \<Rightarrow> ('a word \<times> addr) option" where
  "strto_loop base cp result m = do {
     c \<leftarrow> m cp;
     if isxdigit c \<and> digit_value c < (ucast base :: 'a word)
     then strto_loop base (cp + 1) (result * ucast base + digit_value c) m
     else Some (result, cp) }"

text \<open>The number and the address behind it.\<close>

definition simple_strtoul :: "addr \<Rightarrow> u32 \<Rightarrow> mem \<Rightarrow> (u32 \<times> addr) option" where
  "simple_strtoul cp base m = do { (cp, base) \<leftarrow> strto_base cp base m; strto_loop base cp 0 m }"

definition simple_strtol :: "addr \<Rightarrow> u32 \<Rightarrow> mem \<Rightarrow> (u32 \<times> addr) option" where
  "simple_strtol cp base m = do {
     c \<leftarrow> m cp;
     if c = 45 then do { (r, e) \<leftarrow> simple_strtoul (cp + 1) base m; Some (- r, e) }
     else simple_strtoul cp base m }"

definition simple_strtoull :: "addr \<Rightarrow> u32 \<Rightarrow> mem \<Rightarrow> (64 word \<times> addr) option" where
  "simple_strtoull cp base m = do { (cp, base) \<leftarrow> strto_base cp base m; strto_loop base cp 0 m }"

definition simple_strtoll :: "addr \<Rightarrow> u32 \<Rightarrow> mem \<Rightarrow> (64 word \<times> addr) option" where
  "simple_strtoll cp base m = do {
     c \<leftarrow> m cp;
     if c = 45 then do { (r, e) \<leftarrow> simple_strtoull (cp + 1) base m; Some (- r, e) }
     else simple_strtoull cp base m }"

partial_function (option) skip_atoi :: "addr \<Rightarrow> u32 \<Rightarrow> mem \<Rightarrow> (u32 \<times> addr) option" where
  "skip_atoi s i m = do {
     c \<leftarrow> m s;
     if isdigit c then skip_atoi (s + 1) (i * 10 + scast c - 48) m else Some (i, s) }"

section \<open>Printing numbers\<close>

definition ZEROPAD :: u32 where "ZEROPAD = 1"
definition SIGN :: u32 where "SIGN = 2"
definition PLUS :: u32 where "PLUS = 4"
definition SPACE :: u32 where "SPACE = 8"
definition LEFT :: u32 where "LEFT = 16"
definition SPECIAL :: u32 where "SPECIAL = 32"
definition LARGE :: u32 where "LARGE = 64"

lemmas flag_defs = ZEROPAD_def SIGN_def PLUS_def SPACE_def LEFT_def SPECIAL_def LARGE_def

text \<open>The next free address and the memory.\<close>
type_synonym out = "addr \<times> mem"

text \<open>\<open>if (buf <= end) *buf = c; ++buf;\<close>\<close>
definition emit :: "addr \<Rightarrow> byte \<Rightarrow> out \<Rightarrow> out option" where
  "emit en c p = (if fst p \<le> en then do { m \<leftarrow> store (fst p) c (snd p); Some (fst p + 1, m) } else Some (fst p + 1, snd p))"

fun emits :: "addr \<Rightarrow> byte list \<Rightarrow> out \<Rightarrow> out option" where
  "emits en [] p = Some p"
| "emits en (c # cs) p = do { p \<leftarrow> emit en c p; emits en cs p }"

text \<open>\<open>while (n-- > 0)\<close> around one character, with the counter at the end.\<close>
definition pad :: "addr \<Rightarrow> byte \<Rightarrow> int \<Rightarrow> out \<Rightarrow> (out \<times> int) option" where
  "pad en c n p = do { p \<leftarrow> emits en (replicate (nat n) c) p; Some (p, s32 (min n 0 - 1)) }"

text \<open>Division of a 64-bit number by a 32-bit one with the instruction that divides 64 by 32 bits: quotient and remainder.\<close>
definition do_div :: "64 word \<Rightarrow> u32 \<Rightarrow> 64 word \<times> u32" where
  "do_div n base =
     (let low = (ucast n :: u32); high = (ucast (drop_bit 32 n) :: u32);
          (upper, high) = (if high \<noteq> 0 then (high mod base, high div base) else (high, high));
          dividend = unat upper * 2 ^ 32 + unat low
      in (push_bit 32 (ucast high) OR ucast (of_nat (dividend div unat base) :: u32), of_nat (dividend mod unat base)))"

definition digit_chars :: "u32 \<Rightarrow> byte list" where
  "digit_chars type =
     (if type AND LARGE \<noteq> 0
      then [48, 49, 50, 51, 52, 53, 54, 55, 56, 57, 65, 66, 67, 68, 69, 70, 71, 72, 73, 74, 75, 76, 77, 78, 79, 80, 81, 82, 83, 84, 85, 86, 87, 88, 89, 90]
      else [48, 49, 50, 51, 52, 53, 54, 55, 56, 57, 97, 98, 99, 100, 101, 102, 103, 104, 105, 106, 107, 108, 109, 110, 111, 112, 113, 114, 115, 116, 117, 118, 119, 120, 121, 122])"

lemma do_div_eq:
  assumes "base \<noteq> 0"
  shows "unat (fst (do_div n base)) = unat n div unat base" "unat (snd (do_div n base)) = unat n mod unat base"
proof -
  define h l b where "h = unat n div 2 ^ 32" and "l = unat n mod 2 ^ 32" and "b = unat base"
  have n: "unat n = h * 2 ^ 32 + l" by (simp add: h_def l_def div_mult_mod_eq)
  have l: "l < 2 ^ 32" by (simp add: l_def)
  have b: "0 < b" "b < 2 ^ 32" using assms unat_u32 [of base] by (simp_all add: b_def unat_gt_0)
  have "unat n < 2 ^ LENGTH(64)" by (rule unsigned_less)
  then have h: "h < 2 ^ 32" by (simp add: h_def less_mult_imp_div_less)
  have low: "unat (ucast n :: u32) = l" by (simp add: l_def unsigned_ucast_eq take_bit_eq_mod)
  have high: "unat (ucast (drop_bit 32 n) :: u32) = h"
    using h by (simp add: h_def unsigned_ucast_eq drop_bit_eq_div unat_div_distrib take_bit_nat_eq_self)
  define u where "u = (if ucast (drop_bit 32 n) \<noteq> (0 :: u32) then ucast (drop_bit 32 n) mod base else ucast (drop_bit 32 n))"
  define g where "g = (if ucast (drop_bit 32 n) \<noteq> (0 :: u32) then ucast (drop_bit 32 n) div base else ucast (drop_bit 32 n))"
  have u: "unat u = h mod b" using high by (auto simp: u_def b_def unat_mod_distrib unat_eq_0)
  have g: "unat g = h div b" using high by (auto simp: g_def b_def unat_div_distrib unat_eq_0)
  define d where "d = (h mod b) * 2 ^ 32 + l"
  have "do_div n base = (push_bit 32 (ucast g) OR
      ucast (of_nat ((unat u * 2 ^ 32 + unat (ucast n :: u32)) div unat base) :: u32),
      of_nat ((unat u * 2 ^ 32 + unat (ucast n :: u32)) mod unat base))"
    by (simp add: do_div_def Let_def u_def g_def)
  then have dv: "do_div n base = (push_bit 32 (ucast g) OR ucast (of_nat (d div b) :: u32), of_nat (d mod b))"
    unfolding u low d_def b_def .
  have hb: "h = h div b * b + h mod b" by simp
  have nd: "unat n = (h div b * 2 ^ 32) * b + d"
    by (subst n, subst hb) (simp only: d_def distrib_right mult_ac)
  have db: "d div b < 2 ^ 32"
  proof -
    have "h mod b + 1 \<le> b" using b by (simp add: Suc_leI)
    then have "(h mod b + 1) * 2 ^ 32 \<le> b * 2 ^ 32" by (rule mult_right_mono) simp
    then have "d < 2 ^ 32 * b" using l by (simp add: d_def distrib_right)
    then show ?thesis by (simp add: less_mult_imp_div_less)
  qed
  show "unat (snd (do_div n base)) = unat n mod unat base"
  proof -
    have "d mod b < 2 ^ 32" using b by (meson mod_less_divisor order_less_trans)
    then have "unat (snd (do_div n base)) = d mod b" by (simp add: dv unsigned_of_nat take_bit_nat_eq_self)
    then show ?thesis by (simp add: nd b_def [symmetric])
  qed
  show "unat (fst (do_div n base)) = unat n div unat base"
  proof -
    have "push_bit 32 (ucast g) OR ucast (of_nat (d div b) :: u32) = push_bit 32 (ucast g :: 64 word) + ucast (of_nat (d div b) :: u32)"
      by (rule disjunctive_add [symmetric]) (auto simp: bit_simps)
    moreover have "push_bit 32 (ucast g :: 64 word) = of_nat (h div b * 2 ^ 32)"
    proof -
      have "(ucast g :: 64 word) = of_nat (h div b)" by (simp add: g [symmetric])
      then show ?thesis by (simp add: push_bit_eq_mult)
    qed
    moreover have "ucast (of_nat (d div b) :: u32) = (of_nat (d div b) :: 64 word)"
      using db of_nat_unat [of "of_nat (d div b) :: u32", where 'a = "64 word"] by (simp add: unsigned_of_nat take_bit_nat_eq_self)
    ultimately have f: "fst (do_div n base) = of_nat (h div b * 2 ^ 32 + d div b)" by (simp add: dv)
    have q: "h div b * 2 ^ 32 + d div b = unat n div b" using b by (simp add: nd)
    have "unat n div b < 2 ^ 64"
      using le_less_trans [OF div_le_dividend \<open>unat n < 2 ^ LENGTH(64)\<close>, of b] by simp
    with f [unfolded q]
    show ?thesis by (simp only: unsigned_of_nat) (simp add: take_bit_nat_eq_self b_def)
  qed
qed

text \<open>
  The digits in the order of \<open>tmp\<close>, the last one first; the caller has checked that the base is at least 2.
\<close>
function number_digits :: "byte list \<Rightarrow> u32 \<Rightarrow> 64 word \<Rightarrow> byte list" where
  "number_digits digits base num =
     (if num = 0 \<or> base < 2 then []
      else (case do_div num base of (num, r) \<Rightarrow> digits ! unat r # number_digits digits base num))"
  by pat_completeness auto
termination
proof (relation "measure (\<lambda>(_, _, num). unat num)")
  fix digits :: "byte list" and base :: u32 and num x r
  assume a: "\<not> (num = 0 \<or> base < 2)" "(x, r) = do_div num base"
  then have b: "2 \<le> unat base" by (simp add: word_less_nat_alt)
  then have "unat x = unat num div unat base" using do_div_eq(1) [of base num] a(2) by (metis fst_conv not_numeral_le_zero unat_0)
  moreover have "0 < unat num" using a(1) by (simp add: unat_gt_0)
  ultimately show "((digits, base, x), digits, base, num) \<in> measure (\<lambda>(_, _, num). unat num)"
    using b by simp
qed simp

declare number_digits.simps [simp del]

text \<open>The characters in front of the digits for the flag \<open>SPECIAL\<close>.\<close>
definition special_prefix :: "byte list \<Rightarrow> int \<Rightarrow> u32 \<Rightarrow> byte list" where
  "special_prefix digits base type =
     (if type AND SPECIAL \<noteq> 0 then (if base = 8 then [48] else if base = 16 then [48, digits ! 33] else []) else [])"

text \<open>The second half of \<open>number\<close>: \<open>sz\<close> and \<open>precision\<close> as they are behind line 171.\<close>
definition number_out :: "addr \<Rightarrow> byte \<Rightarrow> byte list \<Rightarrow> byte list \<Rightarrow> int \<Rightarrow> int \<Rightarrow> u32 \<Rightarrow> out \<Rightarrow> out option" where
  "number_out en sign prefix tmp sz precision type p = do {
     (p, sz) \<leftarrow> (if type AND (ZEROPAD + LEFT) = 0 then pad en 32 sz p else Some (p, sz));
     p \<leftarrow> (if sign \<noteq> 0 then emit en sign p else Some p);
     p \<leftarrow> emits en prefix p;
     (p, sz) \<leftarrow> (if type AND LEFT = 0 then pad en (if type AND ZEROPAD \<noteq> 0 then 48 else 32) sz p else Some (p, sz));
     p \<leftarrow> emits en (replicate (nat (precision - int (length tmp))) 48) p;
     p \<leftarrow> emits en (rev tmp) p;
     (p, sz) \<leftarrow> pad en 32 sz p;
     Some p }"

definition number :: "addr \<Rightarrow> 64 word \<Rightarrow> int \<Rightarrow> int \<Rightarrow> int \<Rightarrow> u32 \<Rightarrow> out \<Rightarrow> out option" where
  "number en num base sz precision type p =
     (let digits = digit_chars type;
          type = (if type AND LEFT \<noteq> 0 then type AND NOT ZEROPAD else type) in
      if base < 2 \<or> base > 36 then Some (0, snd p)
      else
       (let (sign, num, sz) =
              (if type AND SIGN \<noteq> 0 then
                 (if sint num < 0 then (45, - num, s32 (sz - 1))
                  else if type AND PLUS \<noteq> 0 then (43, num, s32 (sz - 1))
                  else if type AND SPACE \<noteq> 0 then (32, num, s32 (sz - 1))
                  else (0, num, sz))
               else (0, num, sz));
            sz = (if type AND SPECIAL \<noteq> 0 then
                 (if base = 16 then s32 (sz - 2) else if base = 8 then s32 (sz - 1) else sz)
               else sz);
            tmp = (if num = 0 then [48] else number_digits digits (of_int base) num);
            i = int (length tmp);
            precision = (if i > precision then i else precision);
            sz = s32 (sz - precision)
        in number_out en sign (special_prefix digits base type) tmp sz precision type p))"

section \<open>Formats\<close>

partial_function (option) fmt_flags :: "addr \<Rightarrow> u32 \<Rightarrow> mem \<Rightarrow> (u32 \<times> addr) option" where
  "fmt_flags fmt flags m = do {
     c \<leftarrow> m (fmt + 1);
     if c = 45 then fmt_flags (fmt + 1) (flags OR LEFT) m
     else if c = 43 then fmt_flags (fmt + 1) (flags OR PLUS) m
     else if c = 32 then fmt_flags (fmt + 1) (flags OR SPACE) m
     else if c = 35 then fmt_flags (fmt + 1) (flags OR SPECIAL) m
     else if c = 48 then fmt_flags (fmt + 1) (flags OR ZEROPAD) m
     else Some (flags, fmt + 1) }"

text \<open>The next word of the arguments.\<close>
fun va_arg :: "u32 list \<Rightarrow> (u32 \<times> u32 list) option" where
  "va_arg [] = None"
| "va_arg (a # args) = Some (a, args)"

definition va_arg64 :: "u32 list \<Rightarrow> (64 word \<times> u32 list) option" where
  "va_arg64 args = do {
     (lo, args) \<leftarrow> va_arg args;
     (hi, args) \<leftarrow> va_arg args;
     Some (push_bit 32 (ucast hi) OR ucast lo, args) }"

definition fmt_width :: "addr \<Rightarrow> u32 \<Rightarrow> u32 list \<Rightarrow> mem \<Rightarrow> (int \<times> u32 \<times> addr \<times> u32 list) option" where
  "fmt_width fmt flags args m = do {
     c \<leftarrow> m fmt;
     if isdigit c then do { (i, fmt) \<leftarrow> skip_atoi fmt 0 m; Some (sint i, flags, fmt, args) }
     else if c = 42 then do {
       (a, args) \<leftarrow> va_arg args;
       if sint a < 0 then Some (sint (- a), flags OR LEFT, fmt + 1, args)
       else Some (sint a, flags, fmt + 1, args) }
     else Some (-1, flags, fmt, args) }"

definition fmt_precision :: "addr \<Rightarrow> u32 list \<Rightarrow> mem \<Rightarrow> (int \<times> addr \<times> u32 list) option" where
  "fmt_precision fmt args m = do {
     c \<leftarrow> m fmt;
     if c = 46 then do {
       let fmt = fmt + 1;
       c \<leftarrow> m fmt;
       (precision, fmt, args) \<leftarrow>
         (if isdigit c then do { (i, fmt) \<leftarrow> skip_atoi fmt 0 m; Some (sint i, fmt, args) }
          else if c = 42 then do { (a, args) \<leftarrow> va_arg args; Some (sint a, fmt + 1, args) }
          else Some (-1, fmt, args));
       Some (if precision < 0 then 0 else precision, fmt, args) }
     else Some (-1, fmt, args) }"

definition fmt_qualifier :: "addr \<Rightarrow> mem \<Rightarrow> (byte option \<times> addr) option" where
  "fmt_qualifier fmt m = do {
     c \<leftarrow> m fmt;
     if c = 104 \<or> c = 108 \<or> c = 76 \<or> c = 90 then do {
       c2 \<leftarrow> m (fmt + 1);
       if c = 108 \<and> c2 = 108 then Some (Some 76, fmt + 2) else Some (Some c, fmt + 1) }
     else Some (None, fmt) }"

text \<open>\<open>%c\<close>: the padding loops count down before they compare.\<close>
definition conv_char :: "addr \<Rightarrow> int \<Rightarrow> u32 \<Rightarrow> byte \<Rightarrow> out \<Rightarrow> out option" where
  "conv_char en field_width flags c p = do {
     (p, w) \<leftarrow> (if flags AND LEFT = 0
       then do {
         let w = s32 (field_width - 1);
         p \<leftarrow> emits en (replicate (nat w) 32) p;
         Some (p, min w 0) }
       else Some (p, field_width));
     p \<leftarrow> emit en c p;
     emits en (replicate (nat (s32 (w - 1))) 32) p }"

text \<open>The loop of \<open>%s\<close>, which reads the string while the output is written.\<close>
fun emit_string :: "addr \<Rightarrow> nat \<Rightarrow> addr \<Rightarrow> out \<Rightarrow> out option" where
  "emit_string en 0 s p = Some p"
| "emit_string en (Suc n) s p =
     (if fst p \<le> en then do { c \<leftarrow> snd p s; p \<leftarrow> emit en c p; emit_string en n (s + 1) p }
      else do { p \<leftarrow> emit en 0 p; emit_string en n (s + 1) p })"

text \<open>\<open>null\<close> is the address of the literal \<open><NULL>\<close>.\<close>
definition conv_string :: "addr \<Rightarrow> addr \<Rightarrow> int \<Rightarrow> int \<Rightarrow> u32 \<Rightarrow> addr \<Rightarrow> out \<Rightarrow> out option" where
  "conv_string null en field_width precision flags s p = do {
     let s = (if s = 0 then null else s);
     len \<leftarrow> asm_strnlen s (of_int precision) (snd p);
     let len = sint len;
     (p, w) \<leftarrow> (if flags AND LEFT = 0
       then do { p \<leftarrow> emits en (replicate (nat (field_width - len)) 32) p; Some (p, s32 (min field_width len - 1)) }
       else Some (p, field_width));
     p \<leftarrow> emit_string en (nat len) s p;
     emits en (replicate (nat (w - len)) 32) p }"

text \<open>\<open>%n\<close>: the number of characters so far, in a variable of 32 bits.\<close>
definition conv_count :: "addr \<Rightarrow> addr \<Rightarrow> out \<Rightarrow> out option" where
  "conv_count buf ip p = do { m \<leftarrow> put (snd p) ip (le32 (fst p - buf)); Some (fst p, m) }"

text \<open>The value of an integer conversion.\<close>
definition conv_value :: "byte option \<Rightarrow> u32 \<Rightarrow> u32 list \<Rightarrow> (64 word \<times> u32 list) option" where
  "conv_value qualifier flags args =
     (if qualifier = Some 76 then va_arg64 args
      else do {
        (a, args) \<leftarrow> va_arg args;
        Some (if qualifier = Some 108 then (if flags AND SIGN \<noteq> 0 then scast a else ucast a)
          else if qualifier = Some 90 then ucast a
          else if qualifier = Some 104 then
            (let h = (ucast a :: 16 word) in if flags AND SIGN \<noteq> 0 then scast h else ucast h)
          else if flags AND SIGN \<noteq> 0 then scast a else ucast a, args) })"

definition conv_integer ::
  "addr \<Rightarrow> int \<Rightarrow> int \<Rightarrow> int \<Rightarrow> u32 \<Rightarrow> byte option \<Rightarrow> u32 list \<Rightarrow> out \<Rightarrow> (u32 list \<times> out) option" where
  "conv_integer en base field_width precision flags qualifier args p = do {
     (num, args) \<leftarrow> conv_value qualifier flags args;
     p \<leftarrow> number en num base field_width precision flags p;
     Some (args, p) }"

text \<open>
  The conversion whose letter is at \<open>fmt\<close>; the result has the address of the next character of the
  format.
\<close>
definition conv :: "addr \<Rightarrow> addr \<Rightarrow> addr \<Rightarrow> addr \<Rightarrow> int \<Rightarrow> int \<Rightarrow> u32 \<Rightarrow> byte option \<Rightarrow> u32 list \<Rightarrow> out
    \<Rightarrow> (addr \<times> u32 list \<times> out) option" where
  "conv null buf en fmt field_width precision flags qualifier args p = do {
     c \<leftarrow> snd p fmt;
     let int_conv = (\<lambda>base flags. do {
       (args, p) \<leftarrow> conv_integer en base field_width precision flags qualifier args p;
       Some (fmt + 1, args, p) });
     if c = 99 then do {
       (a, args) \<leftarrow> va_arg args;
       p \<leftarrow> conv_char en field_width flags (ucast a) p;
       Some (fmt + 1, args, p) }
     else if c = 115 then do {
       (s, args) \<leftarrow> va_arg args;
       p \<leftarrow> conv_string null en field_width precision flags s p;
       Some (fmt + 1, args, p) }
     else if c = 112 then do {
       (a, args) \<leftarrow> va_arg args;
       p \<leftarrow> (if field_width = -1 then number en (ucast a) 16 8 precision (flags OR ZEROPAD) p
         else number en (ucast a) 16 field_width precision flags p);
       Some (fmt + 1, args, p) }
     else if c = 110 then do {
       (ip, args) \<leftarrow> va_arg args;
       p \<leftarrow> conv_count buf ip p;
       Some (fmt + 1, args, p) }
     else if c = 37 then do { p \<leftarrow> emit en 37 p; Some (fmt + 1, args, p) }
     else if c = 111 then int_conv 8 flags
     else if c = 88 then int_conv 16 (flags OR LARGE)
     else if c = 120 then int_conv 16 flags
     else if c = 100 \<or> c = 105 then int_conv 10 (flags OR SIGN)
     else if c = 117 then int_conv 10 flags
     else do {
       p \<leftarrow> emit en 37 p;
       c \<leftarrow> snd p fmt;
       if c \<noteq> 0 then do {
         p \<leftarrow> (if fst p \<le> en then emit en c p else emit en 0 p);
         Some (fmt + 1, args, p) }
       else Some (fmt, args, p) } }"

text \<open>One directive, from the percent sign on.\<close>
definition directive :: "addr \<Rightarrow> addr \<Rightarrow> addr \<Rightarrow> addr \<Rightarrow> u32 list \<Rightarrow> out \<Rightarrow> (addr \<times> u32 list \<times> out) option" where
  "directive null buf en fmt args p = do {
     (flags, fmt) \<leftarrow> fmt_flags fmt 0 (snd p);
     (field_width, flags, fmt, args) \<leftarrow> fmt_width fmt flags args (snd p);
     (precision, fmt, args) \<leftarrow> fmt_precision fmt args (snd p);
     (qualifier, fmt) \<leftarrow> fmt_qualifier fmt (snd p);
     conv null buf en fmt field_width precision flags qualifier args p }"

partial_function (option) vsn_loop :: "addr \<Rightarrow> addr \<Rightarrow> addr \<Rightarrow> addr \<Rightarrow> u32 list \<Rightarrow> out \<Rightarrow> out option" where
  "vsn_loop null buf en fmt args p = do {
     c \<leftarrow> snd p fmt;
     if c = 0 then Some p
     else if c \<noteq> 37 then do { p \<leftarrow> emit en c p; vsn_loop null buf en (fmt + 1) args p }
     else do {
       r \<leftarrow> directive null buf en fmt args p;
       vsn_loop null buf en (fst r) (fst (snd r)) (snd (snd r)) } }"

definition vsnprintf :: "addr \<Rightarrow> addr \<Rightarrow> u32 \<Rightarrow> addr \<Rightarrow> u32 list \<Rightarrow> mem \<Rightarrow> (int \<times> mem) option" where
  "vsnprintf null buf sz fmt args m = do {
     let en = buf + sz - 1;
     let (en, sz) = (if en < buf - 1 then (-1, -1 - buf + 1) else (en, sz));
     (str, m) \<leftarrow> vsn_loop null buf en fmt args (buf, m);
     m \<leftarrow> (if str \<le> en then store str 0 m else if sz > 0 then store en 0 m else Some m);
     Some (sint (str - buf), m) }"

definition vsprintf :: "addr \<Rightarrow> addr \<Rightarrow> addr \<Rightarrow> u32 list \<Rightarrow> mem \<Rightarrow> (int \<times> mem) option" where
  "vsprintf null buf fmt args m = vsnprintf null buf 0xFFFFFFFF fmt args m"

section \<open>What is written\<close>

text \<open>
  From \<open>p\<close> to \<open>q\<close> some number of characters was put out: memory changes only below the end of the buffer
  and where they went, and in the set \<open>T\<close>.
\<close>
definition wrote :: "addr \<Rightarrow> addr set \<Rightarrow> out \<Rightarrow> out \<Rightarrow> bool" where
  "wrote en T p q = (\<exists>n. fst q = fst p + of_nat n \<and> dom (snd q) = dom (snd p) \<and>
     (\<forall>x. x \<notin> T \<and> (x \<notin> region (fst p) n \<or> en < x) \<longrightarrow> snd q x = snd p x))"

lemma wrote_refl [simp, intro]: "wrote en T p p"
  by (auto simp: wrote_def intro!: exI [of _ 0])

lemma wrote_trans [trans]: "wrote en T p q \<Longrightarrow> wrote en T q r \<Longrightarrow> wrote en T p r"
proof -
  assume "wrote en T p q" "wrote en T q r"
  then obtain i j where i: "fst q = fst p + of_nat i" "dom (snd q) = dom (snd p)"
      "\<forall>x. x \<notin> T \<and> (x \<notin> region (fst p) i \<or> en < x) \<longrightarrow> snd q x = snd p x"
    and j: "fst r = fst q + of_nat j" "dom (snd r) = dom (snd q)"
      "\<forall>x. x \<notin> T \<and> (x \<notin> region (fst q) j \<or> en < x) \<longrightarrow> snd r x = snd q x"
    unfolding wrote_def by blast
  show ?thesis unfolding wrote_def
    by (rule exI [of _ "i + j"]) (use i j in \<open>auto simp: region_add add.assoc\<close>)
qed

lemma wrote_mono: "wrote en T p q \<Longrightarrow> T \<subseteq> T' \<Longrightarrow> wrote en T' p q"
  unfolding wrote_def by blast

lemma wrote_emit: "emit en c p = Some q \<Longrightarrow> wrote en T p q"
  unfolding wrote_def
  by (rule exI [of _ 1]) (auto simp: emit_def store_def region_Suc split: if_splits)

lemma wrote_emits: "emits en cs p = Some q \<Longrightarrow> wrote en T p q"
proof (induction cs arbitrary: p)
  case (Cons c cs)
  then obtain p1 where "emit en c p = Some p1" "emits en cs p1 = Some q" by (auto split: bind_splits)
  then show ?case using Cons.IH wrote_emit wrote_trans by blast
qed simp

lemma wrote_pad: "pad en c n p = Some (q, k) \<Longrightarrow> wrote en T p q"
  by (auto simp: pad_def split: bind_splits intro: wrote_emits)

lemma wrote_if: "(if b then f p else Some p) = Some q \<Longrightarrow> (\<And>q. f p = Some q \<Longrightarrow> wrote en T p q) \<Longrightarrow> wrote en T p q"
  by (auto split: if_splits)

lemma wrote_emit_string: "emit_string en n s p = Some q \<Longrightarrow> wrote en T p q"
proof (induction n arbitrary: s p)
  case (Suc n)
  then obtain c p1 where "emit en c p = Some p1" "emit_string en n (s + 1) p1 = Some q"
    by (auto split: bind_splits if_splits)
  then show ?case using Suc.IH wrote_emit wrote_trans by blast
qed simp

lemma wrote_number_out:
  assumes "number_out en sign prefix tmp sz prec type p = Some q"
  shows "wrote en T p q"
proof -
  obtain p1 s1 p2 p3 p4 s2 p5 p6 s3 where
    1: "(if type AND (ZEROPAD + LEFT) = 0 then pad en 32 sz p else Some (p, sz)) = Some (p1, s1)" and
    2: "(if sign \<noteq> 0 then emit en sign p1 else Some p1) = Some p2" and 3: "emits en prefix p2 = Some p3" and
    4: "(if type AND LEFT = 0 then pad en (if type AND ZEROPAD \<noteq> 0 then 48 else 32) s1 p3 else Some (p3, s1)) = Some (p4, s2)" and
    5: "emits en (replicate (nat (prec - int (length tmp))) 48) p4 = Some p5" and 6: "emits en (rev tmp) p5 = Some p6" and
    7: "pad en 32 s2 p6 = Some (q, s3)"
    using assms unfolding number_out_def by (simp only: bind_eq_Some_conv option.inject split_paired_Ex prod.case) blast
  have "wrote en T p p1" using 1 by (auto split: if_splits intro: wrote_pad)
  also have "wrote en T p1 p2" using 2 by (auto split: if_splits intro: wrote_emit)
  also have "wrote en T p2 p3" using 3 by (rule wrote_emits)
  also have "wrote en T p3 p4" using 4 by (auto split: if_splits intro: wrote_pad)
  also have "wrote en T p4 p5" using 5 by (rule wrote_emits)
  also have "wrote en T p5 p6" using 6 by (rule wrote_emits)
  also have "wrote en T p6 q" using 7 by (rule wrote_pad)
  finally show ?thesis .
qed

lemma wrote_number:
  assumes "number en num base sz prec type p = Some q" "2 \<le> base" "base \<le> 36"
  shows "wrote en T p q"
proof -
  obtain sign prefix tmp z pr ty where "number_out en sign prefix tmp z pr ty p = Some q"
    using assms unfolding number_def Let_def by (auto split: prod.splits)
  then show ?thesis by (rule wrote_number_out)
qed

text \<open>
  The argument that the directive at \<open>fmt\<close> takes as the address of a count, if its letter is \<open>n\<close>, and all
  the addresses that the loop takes so on its way through the format.
\<close>
definition count_arg :: "addr \<Rightarrow> u32 list \<Rightarrow> mem \<Rightarrow> u32 option" where
  "count_arg fmt args m = do {
     (flags, fmt) \<leftarrow> fmt_flags fmt 0 m;
     (field_width, flags, fmt, args) \<leftarrow> fmt_width fmt flags args m;
     (precision, fmt, args) \<leftarrow> fmt_precision fmt args m;
     (qualifier, fmt) \<leftarrow> fmt_qualifier fmt m;
     c \<leftarrow> m fmt;
     (ip, args) \<leftarrow> va_arg args;
     if c = 110 then Some ip else None }"

inductive n_arg :: "addr \<Rightarrow> addr \<Rightarrow> addr \<Rightarrow> addr \<Rightarrow> u32 list \<Rightarrow> out \<Rightarrow> u32 \<Rightarrow> bool" for null buf en where
  here: "snd p fmt = Some 37 \<Longrightarrow> count_arg fmt args (snd p) = Some ip \<Longrightarrow> n_arg null buf en fmt args p ip"
| literal: "snd p fmt = Some c \<Longrightarrow> c \<noteq> 0 \<Longrightarrow> c \<noteq> 37 \<Longrightarrow> emit en c p = Some q \<Longrightarrow> n_arg null buf en (fmt + 1) args q ip \<Longrightarrow>
    n_arg null buf en fmt args p ip"
| skip: "snd p fmt = Some 37 \<Longrightarrow> directive null buf en fmt args p = Some (fmt', args', q) \<Longrightarrow>
    n_arg null buf en fmt' args' q ip \<Longrightarrow> n_arg null buf en fmt args p ip"

inductive_cases n_arg_cases: "n_arg null buf en fmt args p ip"

text \<open>The variables that the \<open>%n\<close> of a format set.\<close>
definition n_targets :: "addr \<Rightarrow> addr \<Rightarrow> addr \<Rightarrow> addr \<Rightarrow> u32 list \<Rightarrow> out \<Rightarrow> addr set" where
  "n_targets null buf en fmt args p = (\<Union>ip\<in>{ip. n_arg null buf en fmt args p ip}. region ip 4)"

lemma va_arg_Some: "va_arg args = Some (a, rest) \<longleftrightarrow> args = a # rest"
  by (cases args) auto

lemmas bind_simps = bind_eq_Some_conv option.inject split_paired_Ex prod.case

lemma wrote_conv_char: "conv_char en w flags c p = Some q \<Longrightarrow> wrote en T p q"
proof -
  assume "conv_char en w flags c p = Some q"
  then obtain p1 w1 p2 where
    1: "(if flags AND LEFT = 0
       then do { p \<leftarrow> emits en (replicate (nat (s32 (w - 1))) 32) p; Some (p, min (s32 (w - 1)) 0) }
       else Some (p, w)) = Some (p1, w1)" and
    2: "emit en c p1 = Some p2" and 3: "emits en (replicate (nat (s32 (w1 - 1))) 32) p2 = Some q"
    unfolding conv_char_def Let_def by (simp only: bind_simps) blast
  have "wrote en T p p1" using 1 by (auto split: if_splits bind_splits intro: wrote_emits)
  also have "wrote en T p1 p2" using 2 by (rule wrote_emit)
  also have "wrote en T p2 q" using 3 by (rule wrote_emits)
  finally show ?thesis .
qed

lemma wrote_conv_string: "conv_string null en w prec flags s p = Some q \<Longrightarrow> wrote en T p q"
proof -
  assume "conv_string null en w prec flags s p = Some q"
  then obtain len s' p1 w1 p2 where
    1: "(if flags AND LEFT = 0
       then do { p \<leftarrow> emits en (replicate (nat (w - len)) 32) p; Some (p, s32 (min w len - 1)) }
       else Some (p, w)) = Some (p1, w1)" and
    2: "emit_string en (nat len) s' p1 = Some p2" and 3: "emits en (replicate (nat (w1 - len)) 32) p2 = Some q"
    unfolding conv_string_def Let_def by (simp only: bind_simps) blast
  have "wrote en T p p1" using 1 by (auto split: if_splits bind_splits intro: wrote_emits)
  also have "wrote en T p1 p2" using 2 by (rule wrote_emit_string)
  also have "wrote en T p2 q" using 3 by (rule wrote_emits)
  finally show ?thesis .
qed

lemma wrote_conv_count:
  assumes "conv_count buf ip p = Some q"
  shows "wrote en (region ip 4) p q"
proof -
  obtain m where m: "put (snd p) ip (le32 (fst p - buf)) = Some m" "q = (fst p, m)"
    using assms by (auto simp: conv_count_def split: bind_splits)
  then have "mapped (snd p) ip 4" using put_None [of "snd p" ip "le32 (fst p - buf)"] by simp
  then show ?thesis using put_ok [of "snd p" ip "le32 (fst p - buf)"] m
    by (auto simp: wrote_def intro!: exI [of _ 0])
qed

lemma wrote_conv_integer:
  assumes "conv_integer en base w prec flags qual args p = Some (args', q)" "2 \<le> base" "base \<le> 36"
  shows "wrote en T p q"
proof -
  obtain num where "number en num base w prec flags p = Some q"
    using assms(1) unfolding conv_integer_def by (simp only: bind_simps) blast
  then show ?thesis using wrote_number assms(2,3) by blast
qed

text \<open>A conversion writes to the buffer, and to \<open>T\<close> only if it is \<open>%n\<close>.\<close>

lemma wrote_conv:
  assumes "conv null buf en fmt w prec flags qual args p = Some (fmt', args', q)"
    and n: "\<And>ip rest. snd p fmt = Some 110 \<Longrightarrow> args = ip # rest \<Longrightarrow> region ip 4 \<subseteq> T"
  shows "wrote en T p q"
proof -
  have int: "wrote en T p q" if "do { (args, p) \<leftarrow> conv_integer en b w prec fl qual args p; Some (fmt + 1, args, p) } = Some (fmt', args', q)"
    "2 \<le> b" "b \<le> 36" for b fl
  proof -
    have "conv_integer en b w prec fl qual args p = Some (args', q)" using that(1) by (auto split: bind_splits)
    then show ?thesis using wrote_conv_integer that(2,3) by blast
  qed
  have arg: "wrote en T p q" if "do { (a, args) \<leftarrow> va_arg args; p \<leftarrow> f a; Some (fmt + 1, args, p) } = Some (fmt', args', q)"
    "\<And>a. f a = Some q \<Longrightarrow> wrote en T p q" for f
    using that by (cases args) (auto split: bind_splits)
  obtain c where c: "snd p fmt = Some c" using assms unfolding conv_def by (simp only: bind_simps) blast
  note d = assms(1) [unfolded conv_def Let_def c, simplified]
  consider "c = 99" | "c = 115" | "c = 112" | "c = 110" | "c = 37" | "c \<in> {111, 88, 120, 100, 105, 117}"
    | (other) "c \<notin> {99, 115, 112, 110, 37, 111, 88, 120, 100, 105, 117}" by blast
  then show ?thesis
  proof cases
    case 1
    show ?thesis by (rule arg [of "\<lambda>a. conv_char en w flags (ucast a) p"]) (use d 1 in simp, erule wrote_conv_char)
  next
    case 2
    show ?thesis by (rule arg [of "\<lambda>a. conv_string null en w prec flags a p"]) (use d 2 in simp, erule wrote_conv_string)
  next
    case 3
    show ?thesis
      by (rule arg [of "\<lambda>a. if w = -1 then number en (ucast a) 16 8 prec (flags OR ZEROPAD) p
          else number en (ucast a) 16 w prec flags p"]) (use d 3 in simp, auto split: if_splits elim: wrote_number)
  next
    case 4
    then obtain ip rest where ip: "args = ip # rest" "conv_count buf ip p = Some q" using d by (cases args) (auto split: bind_splits)
    show ?thesis by (rule wrote_mono [OF wrote_conv_count [OF ip(2)] n [OF _ ip(1)]]) (use c 4 in simp)
  next
    case 5
    then show ?thesis using d by (auto split: bind_splits intro: wrote_emit)
  next
    case 6
    then show ?thesis using d int by (auto split: if_splits)
  next
    case other
    then obtain p1 where p1: "emit en 37 p = Some p1" using d by (auto split: bind_splits)
    have "wrote en T p1 q" using d other p1 by (auto split: if_splits bind_splits intro: wrote_emit)
    then show ?thesis using wrote_emit [OF p1] wrote_trans by blast
  qed
qed

lemma wrote_directive:
  assumes "directive null buf en fmt args p = Some (fmt', args', q)"
    and n: "\<And>ip. count_arg fmt args (snd p) = Some ip \<Longrightarrow> region ip 4 \<subseteq> T"
  shows "wrote en T p q"
proof -
  obtain flags1 fmt1 w flags fmt2 args1 pr fmt3 args2 qual fmt4 where
    p: "fmt_flags fmt 0 (snd p) = Some (flags1, fmt1)" "fmt_width fmt1 flags1 args (snd p) = Some (w, flags, fmt2, args1)"
    "fmt_precision fmt2 args1 (snd p) = Some (pr, fmt3, args2)" "fmt_qualifier fmt3 (snd p) = Some (qual, fmt4)"
    "conv null buf en fmt4 w pr flags qual args2 p = Some (fmt', args', q)"
    using assms(1) unfolding directive_def by (simp only: bind_simps) blast
  show ?thesis by (rule wrote_conv [OF p(5)]) (rule n, simp add: count_arg_def p)
qed

lemma wrote_vsn_loop:
  assumes "vsn_loop null buf en fmt args p = Some q" "\<And>ip. n_arg null buf en fmt args p ip \<Longrightarrow> region ip 4 \<subseteq> T"
  shows "wrote en T p q"
proof -
  let ?P = "\<lambda>null buf en fmt args p q. (\<forall>ip. n_arg null buf en fmt args p ip \<longrightarrow> region ip 4 \<subseteq> T) \<longrightarrow> wrote en T p q"
  have "?P null buf en fmt args p q"
  proof (rule vsn_loop.raw_induct [of ?P, OF _ assms(1)])
    fix f null buf en fmt args and p q :: out
    assume IH: "\<And>null buf en fmt args p q. f null buf en fmt args p = Some q \<Longrightarrow> ?P null buf en fmt args p q"
      and e: "Option.bind (snd p fmt) (\<lambda>c. if c = 0 then Some p
        else if c \<noteq> 37 then do { p \<leftarrow> emit en c p; f null buf en (fmt + 1) args p }
        else do { r \<leftarrow> directive null buf en fmt args p; f null buf en (fst r) (fst (snd r)) (snd (snd r)) }) = Some q"
    show "?P null buf en fmt args p q"
    proof
      assume n: "\<forall>ip. n_arg null buf en fmt args p ip \<longrightarrow> region ip 4 \<subseteq> T"
      obtain c where c: "snd p fmt = Some c" using e by (auto split: bind_splits)
      consider "c = 0" | "c \<noteq> 0" "c \<noteq> 37" | "c = 37" by blast
      then show "wrote en T p q"
      proof cases
        case 1
        then show ?thesis using e c by simp
      next
        case 2
        then obtain p1 where p1: "emit en c p = Some p1" "f null buf en (fmt + 1) args p1 = Some q"
          using e c by (auto split: bind_splits)
        have "wrote en T p1 q" using IH [OF p1(2)] n n_arg.literal [OF c 2 p1(1)] by blast
        then show ?thesis using wrote_emit [OF p1(1)] wrote_trans by blast
      next
        case 3
        then obtain fmt' args' p1 where p1: "directive null buf en fmt args p = Some (fmt', args', p1)" "f null buf en fmt' args' p1 = Some q"
          using e c by (auto split: bind_splits)
        have c': "snd p fmt = Some 37" using c 3 by simp
        have "wrote en T p p1" by (rule wrote_directive [OF p1(1)]) (use n n_arg.here [OF c'] in blast)
        moreover have "wrote en T p1 q" using IH [OF p1(2)] n n_arg.skip [OF c' p1(1)] by blast
        ultimately show ?thesis by (rule wrote_trans)
      qed
    qed
  qed
  with assms(2) show ?thesis by blast
qed

section \<open>The text of a number\<close>

text \<open>
  The reference: sign, prefix, zeros and digits, and the padding to the width on the side the flags say. The
  digits are those of the natural number in positional notation.
\<close>
fun ref_digits :: "nat \<Rightarrow> nat \<Rightarrow> nat list" where
  "ref_digits b n = (if n < b \<or> b < 2 then [n] else ref_digits b (n div b) @ [n mod b])"

declare ref_digits.simps [simp del]

definition digit_char :: "bool \<Rightarrow> nat \<Rightarrow> byte" where
  "digit_char large d = of_nat (if d < 10 then 48 + d else (if large then 55 else 87) + d)"

definition number_text :: "64 word \<Rightarrow> int \<Rightarrow> int \<Rightarrow> int \<Rightarrow> u32 \<Rightarrow> byte list" where
  "number_text num base width precision flags =
     (let large = (flags AND LARGE \<noteq> 0);
          neg = (flags AND SIGN \<noteq> 0 \<and> sint num < 0);
          sign = (if neg then [45]
            else if flags AND SIGN \<noteq> 0 \<and> flags AND PLUS \<noteq> 0 then [43]
            else if flags AND SIGN \<noteq> 0 \<and> flags AND SPACE \<noteq> 0 then [32] else []);
          prefix = (if flags AND SPECIAL = 0 then [] else if base = 8 then [48]
            else if base = 16 then [48, if large then 88 else 120] else []);
          v = (if neg then - num else num);
          ds = map (digit_char large) (ref_digits (nat base) (unat v));
          body = replicate (nat precision - length ds) 48 @ ds;
          fill = replicate (nat width - length (sign @ prefix @ body))
      in if flags AND LEFT \<noteq> 0 then sign @ prefix @ body @ fill 32
         else if flags AND ZEROPAD \<noteq> 0 then sign @ prefix @ fill 48 @ body
         else fill 32 @ sign @ prefix @ body)"

text \<open>The digits of the code are those of the reference.\<close>

lemma digit_chars_nth: "k < 36 \<Longrightarrow> digit_chars flags ! k = digit_char (flags AND LARGE \<noteq> 0) k"
proof -
  assume k: "k < 36"
  have "digit_chars flags = map (digit_char (flags AND LARGE \<noteq> 0)) [0..<36]"
    by (cases "flags AND LARGE \<noteq> 0") (simp_all add: digit_chars_def digit_char_def upt_rec)
  with k show ?thesis by simp
qed

lemma number_digits_ref:
  assumes "2 \<le> unat base" "unat base \<le> 36" "num \<noteq> 0"
  shows "rev (number_digits (digit_chars flags) base num) = map (digit_char (flags AND LARGE \<noteq> 0)) (ref_digits (unat base) (unat num))"
  using assms(3)
proof (induction "unat num" arbitrary: num rule: less_induct)
  case less
  have b: "base \<noteq> 0" "\<not> base < 2" using assms(1) by (auto simp: word_less_nat_alt)
  obtain d r where dr: "do_div num base = (d, r)" by fastforce
  have u: "unat d = unat num div unat base" "unat r = unat num mod unat base" using do_div_eq [OF b(1), of num] dr by simp_all
  have r: "digit_chars flags ! unat r = digit_char (flags AND LARGE \<noteq> 0) (unat num mod unat base)"
    unfolding u(2) by (rule digit_chars_nth) (use assms(1,2) mod_less_divisor [of "unat base" "unat num"] in linarith)
  have n: "rev (number_digits (digit_chars flags) base num) = rev (number_digits (digit_chars flags) base d) @ [digit_chars flags ! unat r]"
    using less.prems b(2) dr by (simp add: number_digits.simps [of _ _ num])
  show ?case
  proof (cases "unat num < unat base")
    case True
    then have "d = 0" using u(1) by (simp add: unat_eq_0)
    with n r True show ?thesis by (simp add: number_digits.simps [of _ _ 0] ref_digits.simps)
  next
    case False
    then have "0 < unat num div unat base" using assms(1) by (simp add: div_greater_zero_iff)
    then have "d \<noteq> 0" "unat d < unat num" using u(1) assms(1) less.prems by (auto simp: unat_gt_0 intro: div_less_dividend)
    from less.hyps [OF this(2,1)] n r False assms(1) u(1) show ?thesis by (simp add: ref_digits.simps [of _ "unat num"])
  qed
qed

lemma number_text_eq:
  assumes "2 \<le> base" "base \<le> 36"
  shows "number_text num base width precision flags =
     (let neg = (flags AND SIGN \<noteq> 0 \<and> sint num < 0);
          sign = (if neg then [45]
            else if flags AND SIGN \<noteq> 0 \<and> flags AND PLUS \<noteq> 0 then [43]
            else if flags AND SIGN \<noteq> 0 \<and> flags AND SPACE \<noteq> 0 then [32] else []);
          prefix = special_prefix (digit_chars flags) base flags;
          v = (if neg then - num else num);
          ds = (if v = 0 then [48] else rev (number_digits (digit_chars flags) (of_int base) v));
          body = replicate (nat precision - length ds) 48 @ ds;
          fill = replicate (nat width - length (sign @ prefix @ body))
      in if flags AND LEFT \<noteq> 0 then sign @ prefix @ body @ fill 32
         else if flags AND ZEROPAD \<noteq> 0 then sign @ prefix @ fill 48 @ body
         else fill 32 @ sign @ prefix @ body)"
proof -
  let ?L = "flags AND LARGE \<noteq> 0"
  have "unat (of_int base :: u32) = nat base"
    using assms by (simp add: unsigned_of_int take_bit_int_eq_self)
  then have u: "unat (of_int base :: u32) = nat base" "2 \<le> unat (of_int base :: u32)" "unat (of_int base :: u32) \<le> 36"
    using assms by simp_all
  have z: "map (digit_char ?L) (ref_digits (nat base) 0) = [48]" using assms by (simp add: ref_digits.simps digit_char_def)
  have d: "map (digit_char ?L) (ref_digits (nat base) (unat v)) =
      (if v = 0 then [48] else rev (number_digits (digit_chars flags) (of_int base) v))" for v
    using number_digits_ref [OF u(2,3), of v flags] u(1) z by simp
  have "digit_chars flags ! 33 = (if ?L then 88 else 120)" by (simp add: digit_chars_def)
  then have p: "(if flags AND SPECIAL = 0 then [] else if base = 8 then [48]
      else if base = 16 then [48, if ?L then 88 else 120] else []) = special_prefix (digit_chars flags) base flags"
    by (simp add: special_prefix_def)
  show ?thesis unfolding number_text_def Let_def d p ..
qed

lemma emits_append: "emits en (xs @ ys) p = do { p \<leftarrow> emits en xs p; emits en ys p }"
  by (induction xs arbitrary: p) (auto split: bind_splits)

lemma s32_id: "- (2 ^ 31) \<le> x \<Longrightarrow> x < 2 ^ 31 \<Longrightarrow> s32 x = x"
  by (simp add: s32_def signed_of_int signed_take_bit_int_eq_self)

lemma pad_emits: "- (2 ^ 31) < n \<Longrightarrow> pad en c n p = map_option (\<lambda>p. (p, min n 0 - 1)) (emits en (replicate (nat n) c) p)"
  by (cases "emits en (replicate (nat n) c) p") (simp_all add: pad_def s32_id min_def)

lemma number_out_text:
  assumes "- (2 ^ 30) < sz" "sz \<le> 2 ^ 30" "type AND LEFT \<noteq> 0 \<longrightarrow> type AND ZEROPAD = 0"
  shows "number_out en sign prefix tmp sz prec type p =
    emits en (let s = (if sign = 0 then [] else [sign]); body = replicate (nat (prec - int (length tmp))) 48 @ rev tmp in
      if type AND LEFT \<noteq> 0 then s @ prefix @ body @ replicate (nat sz) 32
      else if type AND ZEROPAD \<noteq> 0 then s @ prefix @ replicate (nat sz) 48 @ body
      else replicate (nat sz) 32 @ s @ prefix @ body) p"
proof -
  have zl: "type AND (ZEROPAD + LEFT) = 0 \<longleftrightarrow> type AND ZEROPAD = 0 \<and> type AND LEFT = 0"
  proof -
    have "ZEROPAD + LEFT = ZEROPAD OR LEFT" by (simp add: flag_defs)
    then have "type AND (ZEROPAD + LEFT) = (type AND ZEROPAD) OR (type AND LEFT)" by (simp add: bit.conj_disj_distrib)
    then show ?thesis by (auto simp: bit_eq_iff bit_or_iff)
  qed
  have sg: "(if sign \<noteq> 0 then emit en sign p else Some p) = emits en (if sign = 0 then [] else [sign]) p" for p
    by (cases "emit en sign p") simp_all
  have b: "- (2 ^ 31) < sz" "- (2 ^ 31) < min sz 0 - 1" "nat (min sz 0 - 1) = 0"
    "- (2 ^ 31) < min sz 0 - 2" "nat (min sz 0 - 2) = 0" using assms(1) by simp_all
  have mo: "Option.bind (map_option g x) f = Option.bind x (\<lambda>y. f (g y))" for g x and f :: "out \<times> int \<Rightarrow> out option"
    by (cases x) simp_all
  consider "type AND LEFT \<noteq> 0" | "type AND LEFT = 0" "type AND ZEROPAD \<noteq> 0" | "type AND LEFT = 0" "type AND ZEROPAD = 0" by blast
  then show ?thesis
    by cases (use assms(3) in \<open>simp_all add: number_out_def sg zl pad_emits [OF b(1)] pad_emits [OF b(2)] b(3) pad_emits [OF b(4)] b(5) mo
      emits_append Let_def bind_assoc cong: if_cong split del: if_split\<close>)
qed

lemma flag_clear:
  "(flags AND NOT ZEROPAD) AND SIGN = flags AND SIGN" "(flags AND NOT ZEROPAD) AND PLUS = flags AND PLUS"
  "(flags AND NOT ZEROPAD) AND SPACE = flags AND SPACE" "(flags AND NOT ZEROPAD) AND LEFT = flags AND LEFT"
  "(flags AND NOT ZEROPAD) AND SPECIAL = flags AND SPECIAL" "(flags AND NOT ZEROPAD) AND ZEROPAD = 0"
  by (simp_all add: and.assoc flag_defs)

lemma special_prefix_clear: "special_prefix ds base (flags AND NOT ZEROPAD) = special_prefix ds base flags"
  by (simp add: special_prefix_def flag_clear)

lemma number_digits_length: "2 \<le> base \<Longrightarrow> length (number_digits ds base num) \<le> 64"
proof -
  assume b: "2 \<le> base"
  have "unat num < 2 ^ k \<Longrightarrow> length (number_digits ds base num) \<le> k" for k
  proof (induction k arbitrary: num)
    case 0
    then show ?case by (simp add: unat_eq_0 number_digits.simps)
  next
    case (Suc k)
    have nb: "2 \<le> unat base" "base \<noteq> 0" using b by (auto simp: word_le_nat_alt)
    have "unat (fst (do_div num base)) = unat num div unat base" by (rule do_div_eq [OF nb(2)])
    also have "\<dots> \<le> unat num div 2" using nb(1) by (simp add: div_le_mono2)
    also have "\<dots> < 2 ^ k" using Suc.prems by simp
    finally have "length (number_digits ds base (fst (do_div num base))) \<le> k" by (rule Suc.IH)
    then show ?case by (simp add: case_prod_beta number_digits.simps [of _ _ num])
  qed
  moreover have "unat num < 2 ^ LENGTH(64)" by (rule unsigned_less)
  ultimately show ?thesis by simp
qed

lemma number_prints_aux:
  assumes "base \<in> {8, 10, 16}" "- (2 ^ 28) < width" "width < 2 ^ 28" "- (2 ^ 28) < prec" "prec < 2 ^ 28"
  shows "number en num base width prec flags p = emits en (number_text num base width prec flags) p"
proof -
  define ty where "ty = (if flags AND LEFT \<noteq> 0 then flags AND NOT ZEROPAD else flags)"
  have ty: "ty AND SIGN = flags AND SIGN" "ty AND PLUS = flags AND PLUS" "ty AND SPACE = flags AND SPACE"
    "ty AND LEFT = flags AND LEFT" "ty AND SPECIAL = flags AND SPECIAL"
    "ty AND ZEROPAD = (if flags AND LEFT \<noteq> 0 then 0 else flags AND ZEROPAD)"
    "special_prefix ds base ty = special_prefix ds base flags" for ds
    by (simp_all add: ty_def flag_clear special_prefix_clear)
  define neg where "neg = (flags AND SIGN \<noteq> 0 \<and> sint num < 0)"
  define v where "v = (if neg then - num else num)"
  define sign :: byte where "sign = (if neg then 45 else if flags AND SIGN \<noteq> 0 \<and> flags AND PLUS \<noteq> 0 then 43
    else if flags AND SIGN \<noteq> 0 \<and> flags AND SPACE \<noteq> 0 then 32 else 0)"
  define prefix where "prefix = special_prefix (digit_chars flags) base flags"
  define tmp where "tmp = (if v = 0 then [48] else number_digits (digit_chars flags) (of_int base) v)"
  define pr where "pr = (if int (length tmp) > prec then int (length tmp) else prec)"
  define sl where "sl = (if sign = 0 then 0 else 1 :: int)"
  define z where "z = width - sl - int (length prefix) - pr"
  have b2: "2 \<le> (of_int base :: u32)" using assms(1) by auto
  have b36: "2 \<le> base" "base \<le> 36" using assms(1) by auto
  have lt: "int (length tmp) \<le> 64" using number_digits_length [OF b2, of "digit_chars flags" v] by (simp add: tmp_def)
  have lp: "int (length prefix) \<le> 2" by (simp add: prefix_def special_prefix_def)
  have z: "- (2 ^ 30) < z" "z \<le> 2 ^ 30" using assms(2-5) lt lp by (auto simp: z_def pr_def sl_def)
  have s1: "s32 (width - 1) = width - 1" "s32 (width - 2) = width - 2" "s32 (width - 1 - 1) = width - 1 - 1" "s32 (width - 1 - 2) = width - 1 - 2"
    by (rule s32_id; use assms(2,3) in simp)+
  have z': "s32 z = z" by (rule s32_id) (use z in simp_all)
  have step: "number en num base width prec flags p = number_out en sign prefix tmp z pr ty p"
  proof -
    have sz: "(if flags AND SPECIAL \<noteq> 0 then (if base = 16 then s32 (w - 2) else if base = 8 then s32 (w - 1) else w) else w) = w - int (length prefix)"
      if "w = width - sl" for w
      using that s1 assms(1) by (auto simp: prefix_def special_prefix_def sl_def split: if_splits)
    have tr: "(if ty AND SIGN \<noteq> 0 then
        (if sint num < 0 then (45, - num, s32 (width - 1))
         else if ty AND PLUS \<noteq> 0 then (43, num, s32 (width - 1))
         else if ty AND SPACE \<noteq> 0 then (32, num, s32 (width - 1)) else (0, num, width))
       else (0, num, width)) = (sign, v, width - sl)"
      using s1(1) by (simp add: ty sign_def v_def neg_def sl_def)
    have "\<not> (base < 2 \<or> base > 36)" using assms(1) by auto
    then show ?thesis
      unfolding number_def Let_def ty_def [symmetric] tr prod.case
      by (simp only: ty sz [OF refl] if_False prefix_def [symmetric] tmp_def [symmetric] pr_def [symmetric] z_def [symmetric] z')
  qed
  have no: "number_out en sign prefix tmp z pr ty p =
    emits en (let s = (if sign = 0 then [] else [sign]); body = replicate (nat (pr - int (length tmp))) 48 @ rev tmp in
      if ty AND LEFT \<noteq> 0 then s @ prefix @ body @ replicate (nat z) 32
      else if ty AND ZEROPAD \<noteq> 0 then s @ prefix @ replicate (nat z) 48 @ body
      else replicate (nat z) 32 @ s @ prefix @ body) p"
    by (rule number_out_text [OF z]) (simp add: ty)
  have n1: "nat (pr - int (length tmp)) = nat prec - length tmp" by (auto simp: pr_def)
  have sl: "sl = int (length (if sign = 0 then [] else [sign]))" by (simp add: sl_def)
  have n2: "nat z = nat width - length ((if sign = 0 then [] else [sign]) @ prefix @ replicate (nat prec - length tmp) (48 :: byte) @ rev tmp)"
    unfolding z_def sl by (auto simp: pr_def)
  have sg: "(if sign = 0 then [] else [sign]) = (if neg then [45] else if flags AND SIGN \<noteq> 0 \<and> flags AND PLUS \<noteq> 0 then [43]
    else if flags AND SIGN \<noteq> 0 \<and> flags AND SPACE \<noteq> 0 then [32] else [])" by (auto simp: sign_def)
  have ds: "(if v = 0 then [48] else rev (number_digits (digit_chars flags) (of_int base) v)) = rev tmp" by (simp add: tmp_def)
  have "number_text num base width prec flags =
    (let s = (if sign = 0 then [] else [sign]); body = replicate (nat (pr - int (length tmp))) 48 @ rev tmp in
      if ty AND LEFT \<noteq> 0 then s @ prefix @ body @ replicate (nat z) 32
      else if ty AND ZEROPAD \<noteq> 0 then s @ prefix @ replicate (nat z) 48 @ body
      else replicate (nat z) 32 @ s @ prefix @ body)"
    unfolding number_text_eq [OF b36] Let_def neg_def [symmetric] v_def [symmetric] ds sg [symmetric] prefix_def [symmetric] n1 n2 length_rev
    by (auto simp: ty)
  then show ?thesis using step no by simp
qed

lemma emits_put:
  assumes "unat a + length cs \<le> 2 ^ 32"
  shows "emits en cs (a, m) = map_option (\<lambda>m. (a + of_nat (length cs), m)) (put m a (take (Suc (unat en) - unat a) cs))"
  using assms
proof (induction cs arbitrary: a m)
  case (Cons c cs)
  have l: "unat a + Suc (length cs) \<le> 2 ^ 32" using Cons.prems by simp
  have IH: "emits en cs (a + 1, m) = map_option (\<lambda>m. (a + 1 + of_nat (length cs), m)) (put m (a + 1) (take (unat en - unat a) cs))" for m
  proof (cases "cs = []")
    case False
    then have u: "unat (a + 1) = unat a + 1" using unat_Suc_addr [OF l] by simp
    then show ?thesis using Cons.IH [of "a + 1" m] l by simp
  qed simp
  show ?case
  proof (cases "a \<le> en")
    case True
    then have "Suc (unat en) - unat a = Suc (unat en - unat a)" by (simp add: word_le_nat_alt Suc_diff_le)
    then show ?thesis using True IH by (cases "store a c m") (simp_all add: emit_def add.assoc)
  next
    case False
    then have "unat en - unat a = 0" "Suc (unat en) - unat a = 0" by (simp_all add: word_le_nat_alt)
    then show ?thesis using False IH [of m] by (simp add: emit_def add.assoc)
  qed
qed simp

definition digits_value :: "u32 \<Rightarrow> 'a word \<Rightarrow> byte list \<Rightarrow> 'a::len word" where
  "digits_value base = foldl (\<lambda>r c. r * ucast base + digit_value c)"

lemma strto_loop_digits:
  assumes "bytes_at m cp ds" "\<forall>c\<in>set ds. isxdigit c \<and> (digit_value c :: 'a::len word) < ucast base"
    "m (cp + of_nat (length ds)) = Some e" "\<not> (isxdigit e \<and> (digit_value e :: 'a word) < ucast base)"
  shows "strto_loop base cp (r :: 'a word) m = Some (digits_value base r ds, cp + of_nat (length ds))"
  using assms
proof (induction ds arbitrary: cp r)
  case Nil
  then show ?case by (subst strto_loop.simps) (auto simp: digits_value_def)
next
  case (Cons c ds)
  then show ?case by (subst strto_loop.simps) (simp add: digits_value_def add.assoc)
qed

lemma digit_facts:
  assumes "r < 16"
  shows "isxdigit (digit_chars flags ! r)" "digit_value (digit_chars flags ! r) = (of_nat r :: 'a::len word)"
proof -
  have "r \<in> {0, 1, 2, 3, 4, 5, 6, 7, 8, 9, 10, 11, 12, 13, 14, 15}"
    using assms unfolding insert_iff empty_iff by presburger
  then show "isxdigit (digit_chars flags ! r)"
    by (elim insertE emptyE) (simp_all add: digit_chars_def isxdigit_def isdigit_def)
  have "(if isdigit (digit_chars flags ! r) then sint (digit_chars flags ! r) - 48 else uint (toupper (digit_chars flags ! r)) - 65 + 10) = int r"
    (is "?v = _")
    using \<open>r \<in> _\<close>
    by (elim insertE emptyE) (simp_all add: digit_chars_def isxdigit_def isdigit_def toupper_def islower_def)
  moreover have "digit_value (digit_chars flags ! r) = (of_int ?v :: 'a word)" by (simp only: digit_value_def if_distrib [of of_int])
  ultimately show "digit_value (digit_chars flags ! r) = (of_nat r :: 'a word)" by (simp only: of_int_of_nat_eq)
qed

lemma digits_value_append: "digits_value base r (xs @ [c]) = digits_value base r xs * ucast base + digit_value c"
  by (simp add: digits_value_def)

lemma number_digits_value:
  assumes "2 \<le> base" "base \<le> 16"
  shows "digits_value base (0 :: 'a::len word) (rev (number_digits (digit_chars flags) base num)) = of_nat (unat num)"
    "c \<in> set (number_digits (digit_chars flags) base num) \<Longrightarrow> \<exists>r < unat base. c = digit_chars flags ! r"
proof -
  have nb: "2 \<le> unat base" "unat base \<le> 16" "base \<noteq> 0" "\<not> base < 2"
    using assms by (auto simp: word_le_nat_alt word_less_nat_alt)
  have "digits_value base (0 :: 'a word) (rev (number_digits (digit_chars flags) base num)) = of_nat (unat num) \<and>
    (\<forall>c\<in>set (number_digits (digit_chars flags) base num). \<exists>r < unat base. c = digit_chars flags ! r)"
  proof (induction "unat num" arbitrary: num rule: less_induct)
    case less
    show ?case
    proof (cases "num = 0")
      case True
      then show ?thesis by (simp add: number_digits.simps digits_value_def)
    next
      case False
      obtain x r where xr: "do_div num base = (x, r)" by fastforce
      have x: "unat x = unat num div unat base" and r: "unat r = unat num mod unat base"
        using do_div_eq [OF nb(3), of num] xr by simp_all
      have "0 < unat num" using False by (simp add: unat_gt_0)
      then have lt: "unat x < unat num" using x nb(1) by simp
      have r16: "unat r < unat base" using r nb(1) by simp
      have nd: "number_digits (digit_chars flags) base num = digit_chars flags ! unat r # number_digits (digit_chars flags) base x"
        using False nb(4) xr by (simp add: number_digits.simps [of _ base num])
      have "(of_nat (unat x) * ucast base + of_nat (unat r) :: 'a word) = of_nat (unat x * unat base + unat r)" by simp
      also have "\<dots> = of_nat (unat num)" by (simp only: x r div_mult_mod_eq)
      finally have "(of_nat (unat x) * ucast base + of_nat (unat r) :: 'a word) = of_nat (unat num)" .
      moreover have "digit_value (digit_chars flags ! unat r) = (of_nat (unat r) :: 'a word)"
        using digit_facts(2) [of "unat r" flags, where 'a = 'a] r16 nb(2) by simp
      ultimately show ?thesis using less [OF lt] r16 by (auto simp: nd digits_value_append)
    qed
  qed
  then show "digits_value base (0 :: 'a word) (rev (number_digits (digit_chars flags) base num)) = of_nat (unat num)"
    "c \<in> set (number_digits (digit_chars flags) base num) \<Longrightarrow> \<exists>r < unat base. c = digit_chars flags ! r" by blast+
qed

lemma digit_below:
  assumes "2 \<le> base" "base \<le> (16 :: u32)" "r < unat base"
  shows "isxdigit (digit_chars flags ! r) \<and> digit_value (digit_chars flags ! r) < base"
proof -
  have "r < 16" using assms by (simp add: word_le_nat_alt)
  moreover have "(of_nat r :: u32) < base" using assms(3) unat_u32 [of base]
    by (simp add: word_less_nat_alt unsigned_of_nat take_bit_nat_eq_self)
  ultimately show ?thesis using digit_facts(1) [of r flags] digit_facts(2) [of r flags, where 'a = 32] by simp
qed

lemma digits_ok:
  fixes v :: "64 word" and flags :: u32
  assumes "2 \<le> base" "base \<le> (16 :: u32)"
  defines "ds \<equiv> (if v = 0 then [48] else rev (number_digits (digit_chars flags) base v))"
  shows "ds \<noteq> []" "length ds \<le> 64" "\<forall>c\<in>set ds. isxdigit c \<and> digit_value c < base" "digits_value base (0 :: u32) ds = of_nat (unat v)"
proof -
  have z: "digit_chars flags ! 0 = 48" by (simp add: digit_chars_def)
  show "ds \<noteq> []" using assms(1) by (auto simp: ds_def number_digits.simps [of _ _ v] split: prod.splits)
  show "length ds \<le> 64" using number_digits_length [OF assms(1)] by (simp add: ds_def)
  show "\<forall>c\<in>set ds. isxdigit c \<and> digit_value c < base"
    using number_digits_value(2) [OF assms(1,2), of _ flags v] digit_below [OF assms(1,2)] digit_below [OF assms(1,2), of 0 flags] z assms(1)
    by (auto simp: ds_def word_le_nat_alt)
  show "digits_value base (0 :: u32) ds = of_nat (unat v)"
    using number_digits_value(1) [OF assms(1,2), of flags v, where 'a = 32] digit_facts(2) [of 0 flags, where 'a = 32] z
    by (auto simp: ds_def digits_value_def)
qed

lemma digit_not_minus: "isxdigit c \<Longrightarrow> c \<noteq> 45"
  by (auto simp: isxdigit_def isdigit_def)

lemma zero_no_digit: "\<not> isxdigit 0"
  by (simp add: isxdigit_def isdigit_def)

lemma ucast_scast_64: "(ucast (scast (a :: u32) :: 64 word) :: u32) = a"
  by (rule bit_word_eqI) (simp add: bit_simps)

lemma ucast_ucast_64: "(ucast (ucast (a :: u32) :: 64 word) :: u32) = a"
  by (rule bit_word_eqI) (simp add: bit_simps)

lemma ucast_minus_64: "(ucast (- v :: 64 word) :: u32) = - ucast v"
proof transfer
  fix v :: int
  have "take_bit 32 (- take_bit 64 v) = take_bit 32 (- take_bit 32 (take_bit 64 v))" by (simp only: take_bit_minus)
  also have "\<dots> = take_bit 32 (- take_bit 32 v)" by simp
  finally show "take_bit LENGTH(32) (take_bit LENGTH(64) (- v)) = take_bit LENGTH(32) (- take_bit LENGTH(64) v)"
    by (simp add: take_bit_minus)
qed

text \<open>The text of a conversion without width and precision: a sign and digits whose value is the word.\<close>
lemma plain_text:
  fixes sg :: bool and a :: u32
  assumes c: "(sg, base) \<in> {(True, 10), (False, 8), (False, 10), (False, 16)}"
  defines "num \<equiv> (if sg then scast a else ucast a :: 64 word)"
  obtains neg ds where "number_text num base (-1) (-1) (if sg then SIGN else 0) = (if neg then [45] else []) @ ds"
    "ds \<noteq> []" "length ds \<le> 64" "\<forall>c\<in>set ds. isxdigit c \<and> digit_value c < (of_int base :: u32)"
    "digits_value (of_int base) (0 :: u32) ds = (if neg then - a else a)" "neg \<longleftrightarrow> sg \<and> sint a < 0"
proof -
  define flags :: u32 where "flags = (if sg then SIGN else 0)"
  have b: "2 \<le> (of_int base :: u32)" "(of_int base :: u32) \<le> 16" using c by auto
  have b36: "2 \<le> base" "base \<le> 36" using c by auto
  define neg where "neg = (sg \<and> sint num < 0)"
  define v where "v = (if neg then - num else num)"
  define ds where "ds = (if v = 0 then [48] else rev (number_digits (digit_chars flags) (of_int base) v))"
  have tx: "number_text num base (-1) (-1) flags = (if neg then [45] else []) @ ds"
    unfolding number_text_eq [OF b36] Let_def
    by (auto simp: flags_def neg_def v_def ds_def flag_defs special_prefix_def)
  note ok = digits_ok [OF b, of v flags, folded ds_def]
  have val: "(of_nat (unat v) :: u32) = (if neg then - a else a)"
    by (auto simp: v_def num_def neg_def ucast_minus_64 ucast_scast_64 ucast_ucast_64)
  have "sint (scast a :: 64 word) = sint a"
  proof -
    have "- (2 ^ 63) \<le> sint a" "sint a < 2 ^ 63" using sint_ge [of a] sint_lt [of a] by simp_all
    then show ?thesis by (simp add: signed_scast_eq signed_take_bit_int_eq_self)
  qed
  then have "neg \<longleftrightarrow> sg \<and> sint a < 0" by (simp add: neg_def num_def)
  then show thesis by (intro that [of neg ds]) (use tx ok val in \<open>simp_all add: flags_def\<close>)
qed

lemma strtol_plain_text:
  fixes sg :: bool and a :: u32
  assumes c: "(sg, base) \<in> {(True, 10), (False, 8), (False, 10), (False, 16)}"
  defines "tx \<equiv> number_text (if sg then scast a else ucast a) base (-1) (-1) (if sg then SIGN else 0)"
  shows "bytes_at m buf (tx @ [0]) \<Longrightarrow> simple_strtol buf (of_int base) m = Some (a, buf + of_nat (length tx))"
    "length tx \<le> 65" "0 \<notin> set tx"
proof -
  obtain neg ds where tx: "tx = (if neg then [45] else []) @ ds"
    and ds: "ds \<noteq> []" "length ds \<le> 64" "\<forall>c\<in>set ds. isxdigit c \<and> digit_value c < (of_int base :: u32)"
    "digits_value (of_int base) (0 :: u32) ds = (if neg then - a else a)"
    using plain_text [OF c, of a] unfolding tx_def by metis
  show "length tx \<le> 65" using ds(2) by (simp add: tx)
  show "0 \<notin> set tx" using ds(3) zero_no_digit by (auto simp: tx)
  assume m: "bytes_at m buf (tx @ [0])"
  have b: "of_int base \<noteq> (0 :: u32)" using c by auto
  have rd: "simple_strtoul cp (of_int base) m = Some (if neg then - a else a, cp + of_nat (length ds))"
    if "bytes_at m cp (ds @ [0])" for cp
  proof -
    have "bytes_at m cp ds" "m (cp + of_nat (length ds)) = Some 0" using that by (simp_all add: bytes_at_append)
    from strto_loop_digits [OF this(1) _ this(2), of "of_int base :: u32" "0 :: u32"] ds(3,4) zero_no_digit
    show ?thesis using b by (simp add: simple_strtoul_def strto_base_def)
  qed
  show "simple_strtol buf (of_int base) m = Some (a, buf + of_nat (length tx))"
  proof (cases neg)
    case True
    then show ?thesis using m rd [of "buf + 1"] by (simp add: tx simple_strtol_def add.assoc)
  next
    case False
    obtain d ds' where d: "ds = d # ds'" using ds(1) by (cases ds) auto
    have "m buf = Some d" "d \<noteq> 45" using m False ds(3) digit_not_minus by (simp_all add: tx d)
    then show ?thesis using m rd [of buf] False by (simp add: tx simple_strtol_def)
  qed
qed

text \<open>The letter, the sign and the base of an integer conversion.\<close>
definition int_letter :: "byte \<Rightarrow> bool \<Rightarrow> int \<Rightarrow> bool" where
  "int_letter c sg base = ((c, sg, base) \<in> {(100, True, 10), (111, False, 8), (117, False, 10), (120, False, 16)})"

lemma directive_int:
  assumes "int_letter c sg base" "m fmt = Some 37" "m (fmt + 1) = Some c"
  shows "directive null buf en fmt [a] (p, m) =
    map_option (\<lambda>p. (fmt + 1 + 1, [], p)) (emits en (number_text (if sg then scast a else ucast a) base (-1) (-1) (if sg then SIGN else 0)) (p, m))"
proof -
  have c: "c = 100 \<and> sg \<and> base = 10 \<or> c = 111 \<and> \<not> sg \<and> base = 8 \<or> c = 117 \<and> \<not> sg \<and> base = 10 \<or> c = 120 \<and> \<not> sg \<and> base = 16"
    using assms(1) by (auto simp: int_letter_def)
  have "fmt_flags fmt 0 m = Some (0, fmt + 1)" using assms(3) c by (subst fmt_flags.simps) auto
  moreover have "fmt_width (fmt + 1) 0 [a] m = Some (-1, 0, fmt + 1, [a])"
    using assms(3) c by (auto simp: fmt_width_def isdigit_def)
  moreover have "fmt_precision (fmt + 1) [a] m = Some (-1, fmt + 1, [a])" using assms(3) c by (auto simp: fmt_precision_def)
  moreover have "fmt_qualifier (fmt + 1) m = Some (None, fmt + 1)" using assms(3) c by (auto simp: fmt_qualifier_def)
  moreover have "number en num base (-1) (-1) fl p = emits en (number_text num base (-1) (-1) fl) p" for num fl and p :: out
    by (rule number_prints_aux) (use c in auto)
  moreover have "SIGN \<noteq> 0" by (simp add: SIGN_def)
  moreover have "map_option f x = do { y \<leftarrow> x; Some (f y) }" for x :: "out option" and f :: "out \<Rightarrow> addr \<times> u32 list \<times> out"
    by (cases x) simp_all
  ultimately show ?thesis
    using assms(3) c by (auto simp: directive_def conv_def conv_integer_def conv_value_def Let_def)
qed

lemma sprintf_end:
  "(if buf + 0xFFFFFFFF - 1 < buf - 1 then (-1, -1 - buf + 1) else (buf + 0xFFFFFFFF - 1, 0xFFFFFFFF)) =
    (-1 :: u32, if buf = 1 then 0xFFFFFFFF else - buf)"
proof -
  have e: "buf + 0xFFFFFFFF - 1 = (buf - 1) - 1" by simp
  have "(w :: u32) - 1 < w \<longleftrightarrow> w \<noteq> 0" for w
    by (cases "w = 0") (simp_all add: word_less_nat_alt unat_minus_one unat_gt_0)
  then have l: "buf - 1 - 1 < buf - 1 \<longleftrightarrow> buf \<noteq> 1" by (metis eq_iff_diff_eq_0)
  show ?thesis unfolding e by (cases "buf = 1") (simp, simp only: l simp_thms if_True if_False prod.inject, simp)
qed

section \<open>Properties\<close>

text \<open>
  C34. What \<open>sprintf\<close> prints for \<open>%d\<close>, \<open>%u\<close>, \<open>%x\<close> or \<open>%o\<close> is a string whose length it returns, and
  \<open>simple_strtol\<close> with the base of the conversion reads from it the same 32-bit number, up to its end.
\<close>
theorem print_parse:
  assumes "int_letter c sg base" "cstr m fmt [37, c]" "mapped m buf 66" "unat buf + 66 \<le> 2 ^ 32"
    "region buf 66 \<inter> region fmt 3 = {}"
  shows "\<exists>n m'. vsprintf null buf fmt [a] m = Some (int n, m') \<and> n \<le> 65 \<and> (\<exists>s. cstr m' buf s \<and> length s = n) \<and>
    simple_strtol buf (of_int base) m' = Some (a, buf + of_nat n)"
proof -
  let ?tx = "number_text (if sg then scast a else ucast a) base (-1) (-1) (if sg then SIGN else 0)"
  let ?n = "length ?tx"
  have sb: "(sg, base) \<in> {(True, 10), (False, 8), (False, 10), (False, 16)}" using assms(1) by (auto simp: int_letter_def)
  note rd = strtol_plain_text [OF sb, where a = a]
  have l: "length (?tx @ [0]) \<le> 66" using rd(2) by simp
  have mp: "mapped m buf (length (?tx @ [0]))"
    using assms(3) l mapped_add [of m buf "length (?tx @ [0])" "66 - length (?tx @ [0])"] by simp
  have "length (?tx @ [0]) \<le> 2 ^ 32" using l by simp
  from put_ok [OF mp this] obtain m2 where m2: "put m buf (?tx @ [0]) = Some m2" "bytes_at m2 buf (?tx @ [0])"
    "\<forall>x. x \<notin> region buf (length (?tx @ [0])) \<longrightarrow> m2 x = m x" by blast
  then obtain m1 where m1: "put m buf ?tx = Some m1" "store (buf + of_nat ?n) 0 m1 = Some m2"
    unfolding put_append by (auto split: bind_splits)
  have "mapped m buf ?n" "?n \<le> 2 ^ 32" using put_None [of m buf ?tx] m1(1) rd(2) by simp_all
  then have fr: "\<forall>x. x \<notin> region buf ?n \<longrightarrow> m1 x = m x" using put_ok [of m buf ?tx] m1(1) by auto
  have "fmt + 1 + 1 \<in> region fmt (Suc (Suc (Suc 0)))" by (simp only: region_Suc insert_iff simp_thms)
  then have "fmt + 1 + 1 \<in> region fmt 3" by (simp only: numeral_3_eq_3)
  then have "fmt + 1 + 1 \<notin> region buf ?n" using assms(5) region_mono [of ?n 66 buf] rd(2) by auto
  then have z: "m1 (fmt + 1 + 1) = Some 0" using fr assms(2) by (simp add: cstr_def add.assoc)
  have f: "m fmt = Some 37" "m (fmt + 1) = Some c" using assms(2) by (simp_all add: cstr_def)
  have tk: "take (Suc (unat (-1 :: u32)) - unat buf) ?tx = ?tx" using assms(4) rd(2) by (simp add: unsigned_minus_1_eq_mask mask_eq_exp_minus_1)
  have "unat buf + ?n \<le> 2 ^ 32" using assms(4) rd(2) by simp
  from emits_put [OF this, of "-1" m] have em: "emits (-1) ?tx (buf, m) = Some (buf + of_nat ?n, m1)" unfolding tk using m1(1) by simp
  have lp: "vsn_loop null buf (-1) fmt [a] (buf, m) = Some (buf + of_nat ?n, m1)"
    using f directive_int [OF assms(1) f, of null buf "-1" a buf] em z
    by (subst vsn_loop.simps, subst vsn_loop.simps) simp
  have "sint (of_nat ?n :: u32) = int ?n" using rd(2) by (intro sint_of_nat_small) simp
  then have "vsprintf null buf fmt [a] m = Some (int ?n, m2)"
    using lp m1(2) unfolding vsprintf_def vsnprintf_def Let_def sprintf_end by simp
  moreover have "cstr m2 buf ?tx" using m2(2) rd(3) by (simp add: cstr_def)
  ultimately show ?thesis using rd(1) [OF m2(2)] rd(2) by blast
qed

definition print_mem :: mem where
  "print_mem = (\<lambda>x. if x \<in> region 0x1000 66 then Some 7 else [0x2000 \<mapsto> 37, 0x2001 \<mapsto> 100, 0x2002 \<mapsto> 0] x)"

lemma region_1000: "x \<in> region 0x1000 66 \<longleftrightarrow> 0x1000 \<le> unat x \<and> unat x < 0x1042"
  using region_iff [of "0x1000" 66 x] by auto

lemma print_mem_ok:
  "cstr print_mem 0x2000 [37, 100]" "mapped print_mem 0x1000 66" "region 0x1000 66 \<inter> region 0x2000 3 = {}"
proof -
  have f: "(0x2000 :: addr) \<notin> region 0x1000 66" "(0x2001 :: addr) \<notin> region 0x1000 66" "(0x2002 :: addr) \<notin> region 0x1000 66"
    by (simp_all add: region_1000)
  then show "cstr print_mem 0x2000 [37, 100]" by (simp add: print_mem_def)
  show "mapped print_mem 0x1000 66" by (simp add: mapped_region print_mem_def)
  have "region 0x2000 (Suc (Suc (Suc 0))) = {0x2000, 0x2001, 0x2002 :: addr}" by (simp add: region_Suc)
  then show "region 0x1000 66 \<inter> region 0x2000 3 = {}" using f by (simp add: numeral_3_eq_3)
qed

theorem print_parse_witness:
  "\<exists>n m'. vsprintf 0 0x1000 0x2000 [-42] print_mem = Some (int n, m') \<and> simple_strtol 0x1000 10 m' = Some (-42, 0x1000 + of_nat n)"
  using print_parse [of 100 True 10 print_mem "0x2000" "0x1000" 0 "-42"] print_mem_ok by (auto simp: int_letter_def)

text \<open>
  C35. Whatever the format and the arguments, \<open>vsnprintf\<close> with a buffer that is not empty and
  lies within the address space changes no memory behind the end of the buffer, except the variables whose
  addresses the \<open>%n\<close> directives of the format take from the arguments. Unless the characters it counts run over
  the end of the address space, it changes none in front of the buffer either, and the text is cut and ends with a zero.
\<close>
theorem vsnprintf_bounded:
  assumes "vsnprintf null buf sz fmt args m = Some (r, m')" "0 < sz" "buf \<noteq> 0" "unat buf + unat sz \<le> 2 ^ 32"
  shows "\<exists>n. r = sint (of_nat n :: u32) \<and> dom m' = dom m \<and>
    (\<forall>x. x \<notin> n_targets null buf (buf + sz - 1) fmt args (buf, m) \<and> buf + sz - 1 < x \<longrightarrow> m' x = m x) \<and>
    (unat buf + n < 2 ^ 32 \<longrightarrow> m' (buf + of_nat (min n (unat sz - 1))) = Some 0 \<and>
      (\<forall>x. x \<notin> n_targets null buf (buf + sz - 1) fmt args (buf, m) \<and> x \<notin> region buf (unat sz) \<longrightarrow> m' x = m x))"
proof -
  define counts where "counts = n_targets null buf (buf + sz - 1) fmt args (buf, m)"
  let ?en = "buf + sz - 1"
  have u0: "0 < unat sz" using assms(2) by (simp add: unat_gt_0)
  have e: "?en = buf + of_nat (unat sz - 1)" using u0 by (simp add: of_nat_diff)
  have u1: "unat (of_nat k :: u32) = k" if "k < 2 ^ 32" for k
    using that by (simp only: unsigned_of_nat) (simp add: take_bit_nat_eq_self)
  have ub: "unat (buf + of_nat k) = unat buf + k" if "unat buf + k < 2 ^ 32" for k
    using that u1 [of k] by (subst unat_plus_if_size) (simp add: word_size)
  have ue: "unat ?en = unat buf + (unat sz - 1)" unfolding e using assms(4) u0 by (intro ub) linarith
  have "unat (buf - 1) = unat buf - 1" using assms(3) by (simp add: unat_minus_one)
  then have "\<not> ?en < buf - 1" using ue by (simp add: word_less_nat_alt)
  then obtain str m1 where l: "vsn_loop null buf ?en fmt args (buf, m) = Some (str, m1)" and r: "r = sint (str - buf)"
    and m': "(if str \<le> ?en then store str 0 m1 else if sz > 0 then store ?en 0 m1 else Some m1) = Some m'"
    using assms(1) unfolding vsnprintf_def Let_def by (auto split: bind_splits)
  have wr: "wrote ?en counts (buf, m) (str, m1)"
    by (rule wrote_vsn_loop [OF l]) (auto simp: counts_def n_targets_def)
  obtain n where n: "str = buf + of_nat n" "dom m1 = dom m"
    "\<forall>x. x \<notin> counts \<and> (x \<notin> region buf n \<or> ?en < x) \<longrightarrow> m1 x = m x"
    using wr unfolding wrote_def by auto
  define z where "z = (if str \<le> ?en then str else ?en)"
  have z: "m' = m1(z \<mapsto> 0)" "m1 z \<noteq> None" "z \<le> ?en" using m' assms(2) by (auto simp: z_def store_def split: if_splits)
  have r': "r = sint (of_nat n :: u32)" by (simp add: r n(1))
  have d: "dom m' = dom m" using z n(2) by auto
  have up: "m' x = m x" if "x \<notin> counts" "?en < x" for x using that z n(3) by auto
  have "m' (buf + of_nat (min n (unat sz - 1))) = Some 0 \<and> (\<forall>x. x \<notin> counts \<and> x \<notin> region buf (unat sz) \<longrightarrow> m' x = m x)"
    if nw: "unat buf + n < 2 ^ 32"
  proof -
    have "str \<le> ?en \<longleftrightarrow> n \<le> unat sz - 1" using ub [OF nw] ue by (simp add: n(1) word_le_nat_alt)
    then have ze: "z = buf + of_nat (min n (unat sz - 1))" by (simp add: z_def n(1) e min_def)
    have "min n (unat sz - 1) < unat sz" using u0 by linarith
    then have zr: "z \<in> region buf (unat sz)" unfolding ze region_def by blast
    have rn: "x \<in> region buf (unat sz)" if xn: "x \<in> region buf n" and "\<not> ?en < x" for x
    proof -
      obtain k where k: "x = buf + of_nat k" "k < n" using xn by (auto simp: region_def)
      then have "unat x = unat buf + k" using ub [of k] nw by simp
      then have "k < unat sz" using \<open>\<not> ?en < x\<close> ue u0 by (simp add: word_less_nat_alt)
      then show ?thesis using k by (auto simp: region_def)
    qed
    have "m' x = m x" if "x \<notin> counts" "x \<notin> region buf (unat sz)" for x
      using n(3) rn [of x] that zr z(1) by auto
    then show ?thesis using ze z(1) by simp
  qed
  then show ?thesis using r' d up unfolding counts_def by blast
qed

lemma print_directive:
  "directive 0 0x1000 0x1000 0x2000 [5] (0x1000, print_mem) = Some (0x2002, [], 0x1001, print_mem(0x1000 \<mapsto> 53))"
proof -
  have f: "(0x2000 :: addr) \<notin> region 0x1000 66" "(0x2001 :: addr) \<notin> region 0x1000 66" "(0x1000 :: addr) \<in> region 0x1000 66"
    by (simp_all add: region_1000)
  have p: "print_mem 0x2000 = Some 37" "print_mem 0x2001 = Some 100" "print_mem 0x1000 = Some 7"
    using f by (simp_all add: print_mem_def)
  have t: "number_text (scast (5 :: u32)) 10 (-1) (-1) SIGN = [53]"
    by (simp add: number_text_def ref_digits.simps digit_char_def flag_defs Let_def)
  show ?thesis
    using directive_int [of 100 True 10 print_mem "0x2000" 0 "0x1000" "0x1000" 5 "0x1000"] p t
    by (simp add: int_letter_def emit_def store_def)
qed

lemma print_loop: "vsn_loop 0 0x1000 0x1000 0x2000 [5] (0x1000, print_mem) = Some (0x1001, print_mem(0x1000 \<mapsto> 53))"
proof -
  have f: "(0x2000 :: addr) \<notin> region 0x1000 66" "(0x2002 :: addr) \<notin> region 0x1000 66" by (simp_all add: region_1000)
  then have p: "print_mem 0x2000 = Some 37" "print_mem 0x2002 = Some 0" by (simp_all add: print_mem_def)
  then show ?thesis using print_directive by (subst vsn_loop.simps, subst vsn_loop.simps) simp
qed

lemma print_no_count: "n_targets 0 0x1000 0x1000 0x2000 [5] (0x1000, print_mem) = {}"
proof -
  have f: "(0x2000 :: addr) \<notin> region 0x1000 66" "(0x2001 :: addr) \<notin> region 0x1000 66" "(0x2002 :: addr) \<notin> region 0x1000 66"
    by (simp_all add: region_1000)
  have p: "print_mem 0x2000 = Some 37" "print_mem 0x2001 = Some 100" "print_mem 0x2002 = Some 0"
    using f by (simp_all add: print_mem_def)
  have c: "count_arg 0x2000 [5] print_mem = None"
    using p by (simp add: count_arg_def fmt_flags.simps fmt_width_def fmt_precision_def fmt_qualifier_def isdigit_def)
  have e: "\<not> n_arg 0 0x1000 0x1000 0x2002 [] (0x1001, print_mem(0x1000 \<mapsto> 53)) ip" for ip
    using p by (auto elim: n_arg_cases)
  have "\<not> n_arg 0 0x1000 0x1000 0x2000 [5] (0x1000, print_mem) ip" for ip
  proof
    assume "n_arg 0 0x1000 0x1000 0x2000 [5] (0x1000, print_mem) ip"
    then show False
    proof cases
      case here
      with c show False by simp
    next
      case (literal x q)
      with p show False by simp
    next
      case (skip fmt' args' q)
      with e print_directive show False by simp
    qed
  qed
  then show ?thesis by (simp add: n_targets_def)
qed

theorem vsnprintf_bounded_witness:
  "\<exists>m'. vsnprintf 0 0x1000 1 0x2000 [5] print_mem = Some (1, m') \<and> m' 0x1000 = Some 0 \<and> m' 0x1001 = print_mem 0x1001"
proof -
  have "vsnprintf 0 0x1000 1 0x2000 [5] print_mem = Some (1, print_mem(0x1000 \<mapsto> 0))"
    using print_loop by (simp add: vsnprintf_def store_def)
  then show ?thesis using vsnprintf_bounded [of 0 "0x1000" 1 "0x2000" "[5]" print_mem] print_no_count by auto
qed

lemma padded_length:
  "w \<le> length (if l then s @ p @ b @ replicate (w - length (s @ p @ b)) c
    else if z then s @ p @ replicate (w - length (s @ p @ b)) d @ b else replicate (w - length (s @ p @ b)) c @ s @ p @ b)"
  by auto

text \<open>
  C36. \<open>number\<close> puts out the reference text of the number for every combination of the flags, cut
  at the end of the buffer, and moves on by its whole length, which is at least the field width. The digits fit
  into the array of 66 characters.
\<close>
theorem number_prints:
  assumes "base \<in> {8, 10, 16}" "- (2 ^ 28) < width" "width < 2 ^ 28" "- (2 ^ 28) < prec" "prec < 2 ^ 28"
    "unat str + length (number_text num base width prec flags) \<le> 2 ^ 32"
  shows "number en num base width prec flags (str, m) =
      map_option (\<lambda>m. (str + of_nat (length (number_text num base width prec flags)), m))
        (put m str (take (Suc (unat en) - unat str) (number_text num base width prec flags))) \<and>
    nat width \<le> length (number_text num base width prec flags) \<and>
    length (number_digits (digit_chars flags) (of_int base) num) \<le> 66"
proof -
  have "2 \<le> (of_int base :: u32)" using assms(1) by auto
  then have "length (number_digits (digit_chars flags) (of_int base) num) \<le> 64" by (rule number_digits_length)
  moreover have "nat width \<le> length (number_text num base width prec flags)"
    unfolding number_text_def Let_def by (rule padded_length)
  ultimately show ?thesis using number_prints_aux [OF assms(1-5)] emits_put [OF assms(6)] by simp
qed

theorem number_prints_witness:
  "number 0x1FFF 255 16 5 (-1) (SPECIAL OR ZEROPAD) (0x1000, print_mem) =
    map_option (\<lambda>m. (0x1005, m)) (put print_mem 0x1000 [48, 120, 48, 102, 102])"
proof -
  have "number_text 255 16 5 (-1) (SPECIAL OR ZEROPAD) = [48, 120, 48, 102, 102]"
    by (simp add: number_text_def flag_defs ref_digits.simps digit_char_def Let_def)
  then show ?thesis
    using number_prints [of 16 5 "-1" "0x1000" 255 "SPECIAL OR ZEROPAD" "0x1FFF" print_mem] by simp
qed

end
