(* ===== verification/Vsscanf.thy ===== *)
theory Vsscanf
  imports Vsprintf
begin

text \<open>
  \<open>vsscanf\<close> of \<open>lib/vsprintf.c\<close>, with the conventions of \<open>Vsprintf\<close>: input and format in byte memory, the
  pointers behind the format as a list of words. The variable \<open>field_width\<close> keeps its value from one
  conversion to the next, as in the code.
\<close>

partial_function (option) skip_space :: "addr \<Rightarrow> mem \<Rightarrow> addr option" where
  "skip_space s m = do { c \<leftarrow> m s; if isspace c then skip_space (s + 1) m else Some s }"

partial_function (option) skip_word :: "addr \<Rightarrow> mem \<Rightarrow> addr option" where
  "skip_word s m = do { c \<leftarrow> m s; if \<not> isspace c \<and> c \<noteq> 0 then skip_word (s + 1) m else Some s }"

text \<open>The loop of \<open>%c\<close>: the next character of the input, the width and the memory behind it.\<close>
partial_function (option) scan_char :: "addr \<Rightarrow> addr \<Rightarrow> int \<Rightarrow> mem \<Rightarrow> (addr \<times> int \<times> mem) option" where
  "scan_char s str field_width m = do {
     c \<leftarrow> m str;
     m \<leftarrow> store s c m;
     if field_width > 0 then do {
       d \<leftarrow> m (str + 1);
       if d \<noteq> 0 then scan_char (s + 1) (str + 1) (s32 (field_width - 1)) m
       else Some (str + 1, s32 (field_width - 1), m) }
     else Some (str + 1, s32 (field_width - 1), m) }"

text \<open>The copying loop of \<open>%s\<close>: the end of the copy, of the input, the width and the memory.\<close>
partial_function (option) scan_word :: "addr \<Rightarrow> addr \<Rightarrow> int \<Rightarrow> mem \<Rightarrow> (addr \<times> addr \<times> int \<times> mem) option" where
  "scan_word s str field_width m = do {
     c \<leftarrow> m str;
     if c \<noteq> 0 \<and> \<not> isspace c then
       (if field_width \<noteq> 0 then do {
          m \<leftarrow> store s c m;
          scan_word (s + 1) (str + 1) (s32 (field_width - 1)) m }
        else Some (s, str, s32 (field_width - 1), m))
     else Some (s, str, field_width, m) }"

text \<open>The integer at \<open>str\<close>, stored with the size the qualifier says: the address behind it and the memory.\<close>
definition scan_int :: "u32 \<Rightarrow> bool \<Rightarrow> byte option \<Rightarrow> addr \<Rightarrow> addr \<Rightarrow> mem \<Rightarrow> (addr \<times> mem) option" where
  "scan_int base is_sign qualifier p str m =
     (if qualifier = Some 76 then do {
        (v, next) \<leftarrow> (if is_sign then simple_strtoll str base m else simple_strtoull str base m);
        m \<leftarrow> put m p (le32 (ucast v) @ le32 (ucast (drop_bit 32 v)));
        Some (next, m) }
      else do {
        (v, next) \<leftarrow> (if is_sign \<and> qualifier \<noteq> Some 90 then simple_strtol str base m else simple_strtoul str base m);
        m \<leftarrow> put m p (take (if qualifier = Some 104 then 2 else 4) (le32 v));
        Some (next, m) })"

text \<open>Where the loop goes on: format, input, arguments, conversions done, width and memory.\<close>
type_synonym scan = "addr \<times> addr \<times> u32 list \<times> int \<times> int \<times> mem"

definition scan_integer ::
  "u32 \<Rightarrow> bool \<Rightarrow> byte option \<Rightarrow> addr \<Rightarrow> addr \<Rightarrow> u32 list \<Rightarrow> int \<Rightarrow> int \<Rightarrow> mem \<Rightarrow> (int \<times> mem + scan) option" where
  "scan_integer base is_sign qualifier fmt str args num field_width m = do {
     str \<leftarrow> skip_space str m;
     c \<leftarrow> m str;
     if c = 0 \<or> \<not> isdigit c then Some (Inl (num, m))
     else do {
       (p, args) \<leftarrow> va_arg args;
       (next, m) \<leftarrow> scan_int base is_sign qualifier p str m;
       if next = 0 then Some (Inl (num + 1, m)) else Some (Inr (fmt, next, args, num + 1, field_width, m)) } }"

text \<open>The conversion with the letter \<open>c\<close>; \<open>fmt\<close> is behind it.\<close>
definition scan_conv ::
  "addr \<Rightarrow> byte \<Rightarrow> byte option \<Rightarrow> addr \<Rightarrow> addr \<Rightarrow> u32 list \<Rightarrow> int \<Rightarrow> int \<Rightarrow> mem \<Rightarrow> (int \<times> mem + scan) option" where
  "scan_conv buf c qualifier fmt str args num field_width m =
     (if c = 99 then do {
        (s, args) \<leftarrow> va_arg args;
        (str, w, m) \<leftarrow> scan_char s str (if field_width = -1 then 1 else field_width) m;
        Some (Inr (fmt, str, args, num + 1, w, m)) }
      else if c = 115 then do {
        (s, args) \<leftarrow> va_arg args;
        let w = (if field_width = -1 then 0x7FFFFFFF else field_width);
        str \<leftarrow> skip_space str m;
        (s, str, w, m) \<leftarrow> scan_word s str w m;
        m \<leftarrow> store s 0 m;
        Some (Inr (fmt, str, args, num + 1, w, m)) }
      else if c = 110 then do {
        (i, args) \<leftarrow> va_arg args;
        m \<leftarrow> put m i (le32 (str - buf));
        Some (Inr (fmt, str, args, num, field_width, m)) }
      else if c = 111 then scan_integer 8 False qualifier fmt str args num field_width m
      else if c = 120 \<or> c = 88 then scan_integer 16 False qualifier fmt str args num field_width m
      else if c = 100 \<or> c = 105 then scan_integer 10 True qualifier fmt str args num field_width m
      else if c = 117 then scan_integer 10 False qualifier fmt str args num field_width m
      else if c = 37 then do {
        d \<leftarrow> m str;
        if d \<noteq> 37 then Some (Inl (num, m)) else Some (Inr (fmt, str + 1, args, num, field_width, m)) }
      else Some (Inl (num, m)))"

text \<open>A conversion from behind its percent sign.\<close>
definition scan_directive :: "addr \<Rightarrow> addr \<Rightarrow> addr \<Rightarrow> u32 list \<Rightarrow> int \<Rightarrow> int \<Rightarrow> mem \<Rightarrow> (int \<times> mem + scan) option" where
  "scan_directive buf fmt str args num field_width m = do {
     c \<leftarrow> m fmt;
     if c = 42 then do {
       fmt \<leftarrow> skip_word fmt m;
       str \<leftarrow> skip_word str m;
       Some (Inr (fmt, str, args, num, field_width, m)) }
     else do {
       (field_width, fmt) \<leftarrow> (if isdigit c then do { (i, fmt) \<leftarrow> skip_atoi fmt 0 m; Some (sint i, fmt) }
         else Some (field_width, fmt));
       c \<leftarrow> m fmt;
       let (qualifier, fmt) = (if c = 104 \<or> c = 108 \<or> c = 76 \<or> c = 90 then (Some c, fmt + 1) else (None, fmt));
       c \<leftarrow> m fmt;
       if c = 0 then Some (Inl (num, m))
       else do {
         d \<leftarrow> m str;
         if d = 0 then Some (Inl (num, m))
         else scan_conv buf c qualifier (fmt + 1) str args num field_width m } } }"

definition scan_step :: "addr \<Rightarrow> scan \<Rightarrow> (int \<times> mem + scan) option" where
  "scan_step buf s = (case s of (fmt, str, args, num, field_width, m) \<Rightarrow> do {
     c \<leftarrow> m fmt;
     (fmt, str) \<leftarrow> (if isspace c then do { fmt \<leftarrow> skip_space fmt m; str \<leftarrow> skip_space str m; Some (fmt, str) }
       else Some (fmt, str));
     c \<leftarrow> m fmt;
     if c \<noteq> 37 \<and> c \<noteq> 0 then do {
       d \<leftarrow> m str;
       if c \<noteq> d then Some (Inl (num, m)) else Some (Inr (fmt + 1, str + 1, args, num, field_width, m)) }
     else if c = 0 then Some (Inl (num, m))
     else scan_directive buf (fmt + 1) str args num field_width m })"

definition scan_more :: "scan \<Rightarrow> bool option" where
  "scan_more s = (case s of (fmt, str, args, num, field_width, m) \<Rightarrow> do {
     c \<leftarrow> m fmt;
     if c = 0 then Some False else do { d \<leftarrow> m str; Some (d \<noteq> 0) } })"

partial_function (option) scan_loop :: "addr \<Rightarrow> scan \<Rightarrow> (int \<times> mem) option" where
  "scan_loop buf s = do {
     more \<leftarrow> scan_more s;
     if more then do {
       r \<leftarrow> scan_step buf s;
       case r of Inl e \<Rightarrow> Some e | Inr s' \<Rightarrow> scan_loop buf s' }
     else Some (fst (snd (snd (snd s))), snd (snd (snd (snd (snd s))))) }"

definition vsscanf :: "addr \<Rightarrow> addr \<Rightarrow> u32 list \<Rightarrow> mem \<Rightarrow> (int \<times> mem) option" where
  "vsscanf buf fmt args m = scan_loop buf (fmt, buf, args, 0, -1, m)"

section \<open>Lemmas\<close>

lemma isdigit_decimal: "isxdigit c \<Longrightarrow> digit_value c < (10 :: u32) \<Longrightarrow> isdigit c"
proof -
  assume x: "isxdigit c" and v: "digit_value c < (10 :: u32)"
  have "c \<in> {65, 66, 67, 68, 69, 70, 97, 98, 99, 100, 101, 102}" if nd: "\<not> isdigit c"
  proof -
    have "65 \<le> unat c \<and> unat c \<le> 70 \<or> 97 \<le> unat c \<and> unat c \<le> 102" using x nd by (simp add: isxdigit_def)
    then have "unat c \<in> {65, 66, 67, 68, 69, 70, 97, 98, 99, 100, 101, 102}" unfolding insert_iff empty_iff by presburger
    then have "(of_nat (unat c) :: byte) \<in> of_nat ` {65, 66, 67, 68, 69, 70, 97, 98, 99, 100, 101, 102}" by (rule imageI)
    then show ?thesis by simp
  qed
  moreover have "c \<notin> {65, 66, 67, 68, 69, 70, 97, 98, 99, 100, 101, 102}"
    using v by (auto simp: digit_value_def isdigit_def toupper_def islower_def)
  ultimately show ?thesis by blast
qed

lemma isdigit_not_space: "isdigit c \<Longrightarrow> \<not> isspace c \<and> c \<noteq> 0"
  by (auto simp: isdigit_def isspace_def)

text \<open>The first step of the loop on a format that is one conversion with the letter \<open>c\<close>.\<close>
lemma scan_first:
  assumes "cstr m fmt [37, c]" "m buf = Some d" "d \<noteq> 0" "c \<notin> {42, 104, 108, 76, 90}" "\<not> isdigit c"
  shows "vsscanf buf fmt args m = do {
    r \<leftarrow> scan_conv buf c None (fmt + 1 + 1) buf args 0 (-1) m;
    case r of Inl e \<Rightarrow> Some e | Inr s' \<Rightarrow> scan_loop buf s' }"
proof -
  have f: "m fmt = Some 37" "m (fmt + 1) = Some c" "c \<noteq> 0" using assms(1) by (simp_all add: cstr_def)
  have "scan_step buf (fmt, buf, args, 0, -1, m) = scan_conv buf c None (fmt + 1 + 1) buf args 0 (-1) m"
    using f assms(2-5) by (simp add: scan_step_def scan_directive_def isspace_def)
  moreover have "scan_more (fmt, buf, args, 0, -1, m) = Some True" using f assms(2,3) by (simp add: scan_more_def)
  ultimately show ?thesis unfolding vsscanf_def by (subst scan_loop.simps) simp
qed

lemma scan_loop_end: "m fmt = Some 0 \<Longrightarrow> scan_loop buf (fmt, str, args, num, w, m) = Some (num, m)"
  by (subst scan_loop.simps) (simp add: scan_more_def)

section \<open>Properties\<close>

text \<open>
  \<open>sscanf\<close> with \<open>%d\<close> reads what \<open>sprintf\<close> with \<open>%d\<close> has printed only for numbers that are not
  negative: these are stored and one conversion is counted. For a negative number the test for a digit
  in front of the conversion meets the sign: nothing is stored and the result is 0.
\<close>
theorem sscanf_signed:
  assumes "cstr m fmt [37, 100]" "bytes_at m buf (number_text (scast a) 10 (-1) (-1) SIGN @ [0])"
    "mapped m p 4" "unat buf + 66 \<le> 2 ^ 32" "region p 4 \<inter> region fmt 3 = {}"
  shows "if 0 \<le> sint a then \<exists>m'. vsscanf buf fmt [p] m = Some (1, m') \<and> bytes_at m' p (le32 a) \<and>
      (\<forall>x. x \<notin> region p 4 \<longrightarrow> m' x = m x)
    else vsscanf buf fmt [p] m = Some (0, m)"
proof -
  let ?tx = "number_text (scast a) 10 (-1) (-1) SIGN"
  have sb: "(True, 10 :: int) \<in> {(True, 10), (False, 8), (False, 10), (False, 16)}" by simp
  note r = strtol_plain_text [OF sb, where a = a, simplified]
  obtain neg ds where "number_text (if True then scast a else ucast a) 10 (-1) (-1) (if True then SIGN else 0) = (if neg then [45] else []) @ ds"
    "ds \<noteq> []" "\<forall>c\<in>set ds. isxdigit c \<and> digit_value c < (of_int 10 :: u32)" "neg \<longleftrightarrow> True \<and> sint a < 0"
    by (rule plain_text [OF sb, of a])
  then have "?tx = (if neg then [45] else []) @ ds" "ds \<noteq> []" "\<forall>c\<in>set ds. isdigit c" "neg \<longleftrightarrow> sint a < 0"
    using isdigit_decimal by simp_all
  then obtain d rest where d: "?tx = d # rest" "if sint a < 0 then d = 45 else isdigit d"
    by (cases ds) (auto split: if_splits)
  have m: "m buf = Some d" using assms(2) by (simp add: d(1))
  have nz: "d \<noteq> 0" "\<not> isspace d" using d(2) isdigit_not_space by (auto split: if_splits simp: isspace_def)
  have sp: "skip_space buf m = Some buf" using m nz by (subst skip_space.simps) simp
  have first: "vsscanf buf fmt [p] m = do {
      r \<leftarrow> scan_integer 10 True None (fmt + 1 + 1) buf [p] 0 (-1) m;
      case r of Inl e \<Rightarrow> Some e | Inr s' \<Rightarrow> scan_loop buf s' }"
    using scan_first [OF assms(1) m nz(1), of "[p]"] by (simp add: isdigit_def scan_conv_def)
  show ?thesis
  proof (cases "sint a < 0")
    case True
    then show ?thesis using first sp m d(2) by (simp add: scan_integer_def isdigit_def)
  next
    case False
    have l: "length ?tx \<le> 65" by (rule r(2))
    obtain m' where m': "put m p (le32 a) = Some m'" "bytes_at m' p (le32 a)" "\<forall>x. x \<notin> region p 4 \<longrightarrow> m' x = m x"
      using put_ok [of m p "le32 a"] assms(3) by auto
    have "fmt + 1 + 1 \<in> region fmt (Suc (Suc (Suc 0)))" by (simp only: region_Suc insert_iff simp_thms)
    then have "fmt + 1 + 1 \<in> region fmt 3" by (simp only: numeral_3_eq_3)
    then have "fmt + 1 + 1 \<notin> region p 4" using assms(5) by auto
    then have z: "m' (fmt + 1 + 1) = Some 0" using m'(3) assms(1) by (simp add: cstr_def add.assoc)
    have "buf + of_nat (length ?tx) \<noteq> 0"
    proof -
      have "unat (buf + of_nat (length ?tx)) = unat buf + length ?tx"
        using l assms(4) by (subst unat_plus_if_size) (simp add: word_size unsigned_of_nat take_bit_nat_eq_self)
      moreover have "0 < length ?tx" by (simp add: d(1))
      ultimately show ?thesis by (metis add_gr_0 less_irrefl unat_0)
    qed
    then have "vsscanf buf fmt [p] m = Some (1, m')"
      using first sp m d(2) nz(1) False r(1) [OF assms(2)] m'(1) scan_loop_end [of m' "fmt + 1 + 1", OF z]
      by (simp add: scan_integer_def scan_int_def)
    then show ?thesis using False m' by auto
  qed
qed

text \<open>
  \<open>%c\<close> stores two characters when the input has two: the loop counts the width of 1
  down after its first character and goes on. The second one is written behind the variable.
\<close>
theorem sscanf_char_overruns:
  assumes "cstr m fmt [37, 99]" "bytes_at m buf [a, b]" "a \<noteq> 0" "b \<noteq> 0"
    "mapped m p 2" "region p 2 \<inter> (region fmt 3 \<union> region buf 2) = {}"
  shows "vsscanf buf fmt [p] m = Some (1, m(p \<mapsto> a, p + 1 \<mapsto> b))"
proof -
  have pr: "region p 2 = {p, p + 1}" and br: "region buf 2 = {buf, buf + 1}" and fr: "region fmt 3 = {fmt, fmt + 1, fmt + 1 + 1}"
    unfolding numeral_2_eq_2 numeral_3_eq_3 by (simp_all add: region_Suc)
  have n: "buf + 1 \<noteq> p" "buf + 1 \<noteq> p + 1" "fmt + 1 + 1 \<noteq> p" "fmt + 1 + 1 \<noteq> p + 1"
    using assms(6) unfolding pr br fr by blast+
  have mp: "m p \<noteq> None" "m (p + 1) \<noteq> None" using assms(5) unfolding mapped_region pr by simp_all
  have "m (fmt + 1 + 1) = Some 0" using assms(1) by (simp add: cstr_def add.assoc)
  then have z: "(m(p \<mapsto> a, p + 1 \<mapsto> b)) (fmt + 1 + 1) = Some 0" using n by simp
  have m: "m buf = Some a" "m (buf + 1) = Some b" using assms(2) by simp_all
  have s0: "s32 0 = 0" "s32 (- 1) = - 1" by (simp_all add: s32_def)
  have "scan_char (p + 1) (buf + 1) 0 (m(p \<mapsto> a)) = Some (buf + 1 + 1, -1, m(p \<mapsto> a, p + 1 \<mapsto> b))"
    using m mp n s0 by (subst scan_char.simps) (simp add: store_def del: add.assoc)
  then have "scan_char p buf 1 m = Some (buf + 1 + 1, -1, m(p \<mapsto> a, p + 1 \<mapsto> b))"
    using m mp n s0 assms(4) by (subst scan_char.simps) (simp add: store_def)
  then show ?thesis
    using scan_first [OF assms(1) m(1) assms(3), of "[p]"] scan_loop_end [of "m(p \<mapsto> a, p + 1 \<mapsto> b)" "fmt + 1 + 1", OF z]
    by (simp add: isdigit_def scan_conv_def)
qed

section \<open>Witnesses\<close>

definition scan_mem :: mem where
  "scan_mem = [0x1000 \<mapsto> 45, 0x1001 \<mapsto> 53, 0x1002 \<mapsto> 0, 0x2000 \<mapsto> 37, 0x2001 \<mapsto> 100, 0x2002 \<mapsto> 0,
     0x2100 \<mapsto> 37, 0x2101 \<mapsto> 99, 0x2102 \<mapsto> 0, 0x3000 \<mapsto> 1, 0x3001 \<mapsto> 1, 0x3002 \<mapsto> 1, 0x3003 \<mapsto> 1]"

lemma region_3000: "region 0x3000 4 = {0x3000, 0x3001, 0x3002, 0x3003 :: addr}"
proof -
  have "region 0x3000 (Suc (Suc (Suc (Suc 0)))) = {0x3000, 0x3001, 0x3002, 0x3003 :: addr}" by (simp add: region_Suc)
  then show ?thesis by (simp add: numeral_eq_Suc)
qed

theorem sscanf_signed_witness: "vsscanf 0x1000 0x2000 [0x3000] scan_mem = Some (0, scan_mem)"
proof -
  have "(scast (-5 :: u32) :: 64 word) = -5" by simp
  then have "number_text (scast (-5 :: u32)) 10 (-1) (-1) SIGN = [45, 53]"
    by (simp add: number_text_def flag_defs ref_digits.simps digit_char_def)
  then have b: "bytes_at scan_mem 0x1000 (number_text (scast (-5 :: u32)) 10 (-1) (-1) SIGN @ [0])" by (simp add: scan_mem_def)
  have f: "cstr scan_mem 0x2000 [37, 100]" by (simp add: scan_mem_def)
  have "mapped scan_mem 0x3000 4" by (simp add: mapped_region region_3000 scan_mem_def)
  moreover have "region 0x2000 (Suc (Suc (Suc 0))) = {0x2000, 0x2001, 0x2002 :: addr}" by (simp add: region_Suc)
  then have "region 0x3000 4 \<inter> region 0x2000 3 = {}" by (simp add: region_3000 numeral_3_eq_3)
  ultimately show ?thesis using sscanf_signed [OF f b, of "0x3000"] by simp
qed

theorem sscanf_char_overruns_witness:
  "vsscanf 0x1000 0x2100 [0x3000] scan_mem = Some (1, scan_mem(0x3000 \<mapsto> 45, 0x3001 \<mapsto> 53))"
proof -
  have "region 0x3000 (Suc (Suc 0)) = {0x3000, 0x3001 :: addr}" "region 0x1000 (Suc (Suc 0)) = {0x1000, 0x1001 :: addr}"
    "region 0x2100 (Suc (Suc (Suc 0))) = {0x2100, 0x2101, 0x2102 :: addr}" by (simp_all add: region_Suc)
  then have r: "region 0x3000 2 = {0x3000, 0x3001 :: addr}" "region 0x1000 2 = {0x1000, 0x1001 :: addr}"
    "region 0x2100 3 = {0x2100, 0x2101, 0x2102 :: addr}" by (simp_all add: numeral_3_eq_3 numeral_2_eq_2)
  have "cstr scan_mem 0x2100 [37, 99]" "bytes_at scan_mem 0x1000 [45, 53]" "mapped scan_mem 0x3000 2"
    by (simp_all add: scan_mem_def mapped_region r)
  then show ?thesis using sscanf_char_overruns [of scan_mem "0x2100" "0x1000" 45 53 "0x3000"] r by simp
qed

end
