(* ===== verification/Waitq.thy ===== *)
theory Waitq
  imports Sched
begin

text \<open>
  Wait queues: the primitives of \<open>include/linux/wait.h\<close>, \<open>add_wait_queue\<close> and its relatives of
  \<open>kernel/fork.c\<close>, the wake-up functions, \<open>sleep_on\<close> and completions of \<open>kernel/sched.c\<close>. A
  \<open>wait_queue_t\<close> is its number; it lives on the stack of the sleeping process and is an argument of the
  functions that declare it. A function that calls \<open>schedule\<close> in the middle is two definitions: the part
  up to the switch, and the part that runs when the process is switched to again.

  The specification of a wake-up is a function on the list of entries (\<open>abs_wake\<close>); on a queue that
  only \<open>add_wait_queue\<close> and \<open>add_wait_queue_exclusive\<close> filled, it wakes every sleeper that is not
  exclusive and the given number of exclusive ones.
\<close>

section \<open>Primitives\<close>

abbreviation (input) WQ_FLAG_EXCLUSIVE :: u32 where "WQ_FLAG_EXCLUSIVE \<equiv> 1"

abbreviation wq :: "kst \<Rightarrow> nat \<Rightarrow> wait_queue" where "wq st \<equiv> waitq (sys st)"

definition upd_waitq :: "nat \<Rightarrow> (wait_queue \<Rightarrow> wait_queue) \<Rightarrow> kst \<Rightarrow> kst" where
  "upd_waitq w f = upd_sys (\<lambda>s. s\<lparr>waitq := (waitq s)(w := f (waitq s w))\<rparr>)"

definition init_waitqueue_head :: "wq_head \<Rightarrow> kst \<Rightarrow> kst" where
  "init_waitqueue_head q = upd_lists (INIT_LIST_HEAD (WqHead q))"

definition init_waitqueue_entry :: "nat \<Rightarrow> task \<Rightarrow> kst \<Rightarrow> kst" where
  "init_waitqueue_entry w p = upd_waitq w (\<lambda>x. x\<lparr>wq_flags := 0, wq_task := p\<rparr>)"

definition waitqueue_active :: "wq_head \<Rightarrow> kst \<Rightarrow> bool" where
  "waitqueue_active q st = (\<not> list_empty (WqHead q) (lists st))"

definition add_wait_queue_raw :: "wq_head \<Rightarrow> nat \<Rightarrow> kst \<Rightarrow> kst" where
  "add_wait_queue_raw q w = upd_lists (list_add (WqNode w) (WqHead q))"

definition add_wait_queue_tail_raw :: "wq_head \<Rightarrow> nat \<Rightarrow> kst \<Rightarrow> kst" where
  "add_wait_queue_tail_raw q w = upd_lists (list_add_tail (WqNode w) (WqHead q))"

definition remove_wait_queue_raw :: "wq_head \<Rightarrow> nat \<Rightarrow> kst \<Rightarrow> kst" where
  "remove_wait_queue_raw q w = upd_lists (list_del (WqNode w))"

definition add_wait_queue :: "wq_head \<Rightarrow> nat \<Rightarrow> kst \<Rightarrow> kst" where
  "add_wait_queue q w st =
     add_wait_queue_raw q w (upd_waitq w (\<lambda>x. x\<lparr>wq_flags := wq_flags x AND NOT WQ_FLAG_EXCLUSIVE\<rparr>) st)"

definition add_wait_queue_exclusive :: "wq_head \<Rightarrow> nat \<Rightarrow> kst \<Rightarrow> kst" where
  "add_wait_queue_exclusive q w st =
     add_wait_queue_tail_raw q w (upd_waitq w (\<lambda>x. x\<lparr>wq_flags := wq_flags x OR WQ_FLAG_EXCLUSIVE\<rparr>) st)"

definition remove_wait_queue :: "wq_head \<Rightarrow> nat \<Rightarrow> kst \<Rightarrow> kst" where
  "remove_wait_queue q w st = remove_wait_queue_raw q w st"

section \<open>Waking up\<close>

text \<open>The loop from the node \<open>tmp\<close> on. With one processor \<open>sync\<close> makes no difference to \<open>try_to_wake_up\<close>.\<close>
partial_function (option) wake_up_loop :: "wq_head \<Rightarrow> u32 \<Rightarrow> u32 \<Rightarrow> node \<Rightarrow> kst \<Rightarrow> kst option" where
  "wake_up_loop q mode nr tmp st =
     (if tmp = WqHead q then Some st
      else case tmp of
        WqNode w \<Rightarrow> do {
          let p = wq_task (wq st w);
          if state (tasks st p) AND mode \<noteq> 0 then do {
            (success, st) \<leftarrow> try_to_wake_up p st;
            if success \<and> wq_flags (wq st w) AND WQ_FLAG_EXCLUSIVE \<noteq> 0 then
              (if nr - 1 = 0 then Some st else wake_up_loop q mode (nr - 1) (nxt (lists st) tmp) st)
            else wake_up_loop q mode nr (nxt (lists st) tmp) st }
          else wake_up_loop q mode nr (nxt (lists st) tmp) st }
      | _ \<Rightarrow> None)"

definition wake_up_common :: "wq_head \<Rightarrow> u32 \<Rightarrow> u32 \<Rightarrow> kst \<Rightarrow> kst option" where
  "wake_up_common q mode nr_exclusive st = wake_up_loop q mode nr_exclusive (nxt (lists st) (WqHead q)) st"

definition wake_up :: "wq_head option \<Rightarrow> u32 \<Rightarrow> u32 \<Rightarrow> kst \<Rightarrow> kst option" where
  "wake_up q mode nr_exclusive st = (case q of None \<Rightarrow> Some st | Some q \<Rightarrow> wake_up_common q mode nr_exclusive st)"

section \<open>Completions\<close>

definition init_completion :: "nat \<Rightarrow> kst \<Rightarrow> kst" where
  "init_completion x st =
     init_waitqueue_head (CompletionWait x) (upd_sys (\<lambda>s. s\<lparr>completion_done := (completion_done s)(x := 0)\<rparr>) st)"

definition complete :: "nat \<Rightarrow> kst \<Rightarrow> kst option" where
  "complete x st =
     wake_up_common (CompletionWait x) (TASK_UNINTERRUPTIBLE OR TASK_INTERRUPTIBLE) 1
       (upd_sys (\<lambda>s. s\<lparr>completion_done := (completion_done s)(x := completion_done s x + 1)\<rparr>) st)"

definition completion_taken :: "nat \<Rightarrow> kst \<Rightarrow> kst" where
  "completion_taken x = upd_sys (\<lambda>s. s\<lparr>completion_done := (completion_done s)(x := completion_done s x - 1)\<rparr>)"

text \<open>The entry of \<open>wait_for_completion\<close> with its stack entry \<open>w\<close>; the flag says that it has returned.\<close>
definition wait_for_completion :: "nat \<Rightarrow> nat \<Rightarrow> kst \<Rightarrow> (bool \<times> kst) option" where
  "wait_for_completion x w st =
     (if completion_done (sys st) x = 0 then do {
        let st = upd_waitq w (\<lambda>_. \<lparr>wq_flags = WQ_FLAG_EXCLUSIVE, wq_task = cur st\<rparr>) st;
        let st = add_wait_queue_tail_raw (CompletionWait x) w st;
        let st = upd_task (cur st) (\<lambda>t. t\<lparr>state := TASK_UNINTERRUPTIBLE\<rparr>) st;
        st \<leftarrow> schedule st;
        Some (False, st) }
      else Some (True, completion_taken x st))"

text \<open>What runs when the waiting process is switched to again: another round of the loop, or the end.\<close>
definition wait_for_completion_resumed :: "nat \<Rightarrow> nat \<Rightarrow> kst \<Rightarrow> (bool \<times> kst) option" where
  "wait_for_completion_resumed x w st =
     (if completion_done (sys st) x = 0 then do {
        let st = upd_task (cur st) (\<lambda>t. t\<lparr>state := TASK_UNINTERRUPTIBLE\<rparr>) st;
        st \<leftarrow> schedule st;
        Some (False, st) }
      else Some (True, completion_taken x (remove_wait_queue_raw (CompletionWait x) w st)))"

section \<open>Sleeping\<close>

definition SLEEP_ON_HEAD :: "wq_head \<Rightarrow> nat \<Rightarrow> kst \<Rightarrow> kst" where
  "SLEEP_ON_HEAD q w = add_wait_queue_raw q w"

definition SLEEP_ON_TAIL :: "wq_head \<Rightarrow> nat \<Rightarrow> kst \<Rightarrow> kst" where
  "SLEEP_ON_TAIL q w = remove_wait_queue_raw q w"

text \<open>\<open>sleep_on\<close> and \<open>interruptible_sleep_on\<close> up to the switch; both end with \<open>SLEEP_ON_TAIL\<close>.\<close>
definition sleep_on :: "wq_head \<Rightarrow> nat \<Rightarrow> kst \<Rightarrow> kst option" where
  "sleep_on q w st = do {
     let st = init_waitqueue_entry w (cur st) st;
     let st = upd_task (cur st) (\<lambda>t. t\<lparr>state := TASK_UNINTERRUPTIBLE\<rparr>) st;
     schedule (SLEEP_ON_HEAD q w st) }"

definition interruptible_sleep_on :: "wq_head \<Rightarrow> nat \<Rightarrow> kst \<Rightarrow> kst option" where
  "interruptible_sleep_on q w st = do {
     let st = init_waitqueue_entry w (cur st) st;
     let st = upd_task (cur st) (\<lambda>t. t\<lparr>state := TASK_INTERRUPTIBLE\<rparr>) st;
     schedule (SLEEP_ON_HEAD q w st) }"

section \<open>The specification of a wake-up\<close>

text \<open>The entries that a wake-up of \<open>nr\<close> exclusive sleepers wakes, from the front of the queue.\<close>
fun abs_wake :: "(nat \<Rightarrow> bool) \<Rightarrow> (nat \<Rightarrow> bool) \<Rightarrow> u32 \<Rightarrow> nat list \<Rightarrow> nat list" where
  "abs_wake sleeps excl nr [] = []"
| "abs_wake sleeps excl nr (w # ws) =
     (if \<not> sleeps w then abs_wake sleeps excl nr ws
      else if \<not> excl w then w # abs_wake sleeps excl nr ws
      else if nr = 1 then [w] else w # abs_wake sleeps excl (nr - 1) ws)"

definition exclusive :: "kst \<Rightarrow> nat \<Rightarrow> bool" where
  "exclusive st w = (wq_flags (wq st w) AND WQ_FLAG_EXCLUSIVE \<noteq> 0)"

definition sleeps_in :: "u32 \<Rightarrow> kst \<Rightarrow> nat \<Rightarrow> bool" where
  "sleeps_in mode st w = (state (tasks st (wq_task (wq st w))) AND mode \<noteq> 0)"

text \<open>A wait queue with the entries \<open>ws\<close>: the exclusive ones are behind the others.\<close>
definition wait_list :: "kst \<Rightarrow> wq_head \<Rightarrow> nat list \<Rightarrow> bool" where
  "wait_list st q ws = (dlist (lists st) (WqHead q) (map WqNode ws) \<and> sorted (map (\<lambda>w. exclusive st w) ws))"

lemma upd_waitq_sel [simp]:
  "tasks (upd_waitq w f st) = tasks st" "lists (upd_waitq w f st) = lists st" "cur (upd_waitq w f st) = cur st"
  "rq (upd_waitq w f st) = rq st" "wq (upd_waitq w f st) = (wq st)(w := f (wq st w))"
  by (simp_all add: upd_waitq_def)

lemma abs_wake_plain: "\<forall>w\<in>set ws. \<not> excl w \<Longrightarrow> abs_wake sleeps excl nr (ws @ vs) = filter sleeps ws @ abs_wake sleeps excl nr vs"
  by (induction ws) auto

lemma abs_wake_excl:
  assumes "\<forall>w\<in>set ws. excl w" "length ws < 2 ^ 32"
  shows "abs_wake sleeps excl nr ws = take (if nr = 0 then length ws else unat nr) (filter sleeps ws)"
  using assms
proof (induction ws arbitrary: nr)
  case (Cons w ws)
  consider "nr = 1" | "nr = 0" | "nr \<noteq> 0" "nr \<noteq> 1" by blast
  then show ?case
  proof cases
    case 2
    have "unat (- 1 :: u32) = 2 ^ 32 - 1" by (simp add: unsigned_minus_1_eq_mask mask_eq_exp_minus_1)
    moreover have "length (filter sleeps ws) \<le> 2 ^ 32 - 1" "length (filter sleeps ws) \<le> length ws"
      using Cons.prems(2) length_filter_le [of sleeps ws] by (simp_all del: length_filter_le)
    moreover have "take (Suc (length ws)) (filter sleeps ws) = filter sleeps ws"
      using length_filter_le [of sleeps ws] by (simp del: length_filter_le)
    ultimately show ?thesis using 2 Cons by simp
  next
    case 3
    have "unat nr \<noteq> 0" using 3(1) by (simp add: unsigned_eq_0_iff)
    then have "unat nr = Suc (unat (nr - 1))" "nr - 1 \<noteq> 0" using 3 by (simp_all add: unat_minus_one)
    with 3 Cons show ?thesis by simp
  qed (use Cons in simp)
qed simp

lemma sorted_bool_split:
  "sorted (map P ws) \<Longrightarrow> \<exists>ns es. ws = ns @ es \<and> (\<forall>w\<in>set ns. \<not> P w) \<and> (\<forall>w\<in>set es. P w)"
proof (induction ws)
  case (Cons w ws)
  show ?case
  proof (cases "P w")
    case True
    then have "\<forall>v\<in>set (w # ws). P v" using Cons.prems by auto
    then show ?thesis by (intro exI [of _ "[]"] exI [of _ "w # ws"]) simp
  next
    case False
    obtain ns es where "ws = ns @ es" "\<forall>w\<in>set ns. \<not> P w" "\<forall>w\<in>set es. P w" using Cons by auto
    with False show ?thesis by (intro exI [of _ "w # ns"] exI [of _ es]) simp
  qed
qed simp

section \<open>What scheduling leaves alone\<close>

text \<open>The nodes of the runqueue; enqueueing a task touches no other, and the invariant depends on no other.\<close>
definition run_node :: "node \<Rightarrow> bool" where
  "run_node n = (case n of QHead _ _ \<Rightarrow> True | RunList _ \<Rightarrow> True | _ \<Rightarrow> False)"

lemma run_node_simps [simp]:
  "run_node (QHead a i)" "run_node (RunList p)" "\<not> run_node (ThreadGroup p)" "\<not> run_node (SecHead s)"
  "\<not> run_node (SecNode s)" "\<not> run_node (WqHead q)" "\<not> run_node (WqNode w)"
  by (simp_all add: run_node_def)

definition same_lists :: "(node \<Rightarrow> bool) \<Rightarrow> kst \<Rightarrow> kst \<Rightarrow> bool" where
  "same_lists P st st' = (\<forall>n. P n \<longrightarrow> nxt (lists st') n = nxt (lists st) n \<and> prv (lists st') n = prv (lists st) n)"

lemma same_lists_dlist:
  assumes "same_lists P st st'" "dlist (lists st) q ns" "\<forall>n\<in>set (q # ns). P n"
  shows "dlist (lists st') q ns"
proof -
  have "dlist (lists st') q ns = dlist (lists st) q ns"
    by (rule dlist_cong) (use assms in \<open>auto simp: same_lists_def\<close>)
  with assms(2) show ?thesis by simp
qed

lemma rq_inv_lists:
  assumes "rq_inv st Q" "same_lists run_node st st'" "tasks st' = tasks st" "rq st' = rq st"
  shows "rq_inv st' Q"
proof -
  have "dlist (lists st') (QHead a i) (map RunList (Q a i))" if "a < 2" "i < 140" for a i
    by (rule same_lists_dlist [OF assms(2) queuesD(1) [OF rq_invD(1) [OF assms(1)] that]]) auto
  with assms show ?thesis by (simp add: rq_inv_def queues_def)
qed

lemma activate_task_lists:
  assumes inv: "rq_inv st Q" and i: "0 \<le> prio (tasks st p)" "prio (tasks st p) < 140"
    and act: "activate_task p st = Some st'"
  shows "same_lists (\<lambda>n. \<not> run_node n) st st'" "sys st' = sys st"
proof -
  let ?a = "active (rq st)" and ?i = "nat (prio (wake_bonus (jiffies st) (tasks st p)))"
  have i': "?i < 140" using wake_bonus_prio [OF i, of "jiffies st"] by linarith
  have "prv (lists st) (QHead ?a ?i) = last (QHead ?a ?i # map RunList (Q ?a ?i))"
    using dlist_nxt_prv(2) [OF queuesD(1) [OF rq_invD(1) [OF inv] rq_invD(4) [OF inv] i']] .
  then have "run_node (prv (lists st) (QHead ?a ?i))" by (simp add: last_map)
  moreover have "lists st' = list_add_tail (RunList p) (QHead ?a ?i) (lists st)"
    using act i' wake_bonus_prio [OF i, of "jiffies st"] by (auto simp: activate_task_eq enqueue_task_def queue_index_def Let_def)
  ultimately show "same_lists (\<lambda>n. \<not> run_node n) st st'"
    by (auto simp: same_lists_def list_add_tail_def list_add_raw_sel)
  show "sys st' = sys st" using activate_task_frame(2) [OF act] by (simp add: only_queues_def)
qed

lemma try_to_wake_up_lists:
  assumes inv: "rq_inv st Q" and p: "array (tasks st p) = None" and i: "0 \<le> prio (tasks st p)" "prio (tasks st p) < 140"
    and w: "try_to_wake_up p st = Some (b, st')"
  shows "same_lists (\<lambda>n. \<not> run_node n) st st'" "sys st' = sys st"
proof -
  define s0 where "s0 = (if state (tasks st p) = TASK_UNINTERRUPTIBLE
    then upd_rq (\<lambda>r. r\<lparr>nr_uninterruptible := nr_uninterruptible r - 1\<rparr>) st else st)"
  have s0: "tasks s0 = tasks st" "lists s0 = lists st" "sys s0 = sys st" by (simp_all add: s0_def)
  have i0: "rq_inv s0 Q"
    using inv queues_upd_rq [OF rq_invD(1) [OF inv]] by (simp add: s0_def rq_inv_def)
  obtain s1 where s1: "activate_task p s0 = Some s1" using activate_task_refines [OF i0, of p] p i by (auto simp: s0)
  have "lists st' = lists s1" "sys st' = sys s1"
    using w s1 p unfolding try_to_wake_up_def Let_def
    by (auto simp: s0_def [symmetric] resched_task_def set_tsk_need_resched_def split: if_splits)
  then show "same_lists (\<lambda>n. \<not> run_node n) st st'" "sys st' = sys st"
    using activate_task_lists [OF i0 _ _ s1] i by (simp_all add: s0 same_lists_def)
qed

section \<open>The loop\<close>

text \<open>The entries are those of tasks that are off the runqueue while they sleep, each task once.\<close>
definition waiters_ok :: "u32 \<Rightarrow> kst \<Rightarrow> nat list \<Rightarrow> bool" where
  "waiters_ok mode st ws = (distinct (map (\<lambda>w. wq_task (wq st w)) ws) \<and>
     (\<forall>w\<in>set ws. sleeps_in mode st w \<longrightarrow>
        (let t = tasks st (wq_task (wq st w)) in array t = None \<and> 0 \<le> prio t \<and> prio t < 140)))"

text \<open>A task up to its request to be rescheduled.\<close>
definition unresched :: "task_struct \<Rightarrow> task_struct" where
  "unresched t = t\<lparr>need_resched := 0\<rparr>"

lemma unresched_sel:
  assumes "unresched t = unresched u"
  shows "state t = state u" "array t = array u" "prio t = prio u"
proof -
  have "state (unresched t) = state (unresched u)" "array (unresched t) = array (unresched u)" "prio (unresched t) = prio (unresched u)"
    by (simp_all add: assms)
  then show "state t = state u" "array t = array u" "prio t = prio u" by (simp_all add: unresched_def)
qed

text \<open>What waking the tasks \<open>T\<close> does.\<close>
definition woken :: "task set \<Rightarrow> kst \<Rightarrow> queues \<Rightarrow> kst \<Rightarrow> queues \<Rightarrow> bool" where
  "woken T st Q st' Q' = (rq_inv st' Q' \<and> queued Q' = queued Q \<union> T \<and> sys st' = sys st \<and> cur st' = cur st \<and>
     same_lists (\<lambda>n. \<not> run_node n) st st' \<and> (\<forall>p\<in>T. state (tasks st' p) = TASK_RUNNING) \<and>
     (\<forall>p. p \<notin> T \<longrightarrow> unresched (tasks st' p) = unresched (tasks st p)))"

lemma woken_refl: "rq_inv st Q \<Longrightarrow> woken {} st Q st Q"
  by (simp add: woken_def same_lists_def)

lemma woken_trans:
  assumes "woken S st Q s1 Q1" "woken T s1 Q1 s2 Q2" "S \<inter> T = {}"
  shows "woken (S \<union> T) st Q s2 Q2"
proof -
  have "state (tasks s2 p) = TASK_RUNNING" if "p \<in> S" for p
    using assms that unresched_sel(1) [of "tasks s2 p" "tasks s1 p"] by (auto simp: woken_def)
  then show ?thesis using assms(1,2) by (auto simp: woken_def same_lists_def)
qed

lemma wake_step:
  assumes inv: "rq_inv st Q" and p: "array (tasks st p) = None" "0 \<le> prio (tasks st p)" "prio (tasks st p) < 140"
  shows "\<exists>st' Q'. try_to_wake_up p st = Some (True, st') \<and> woken {p} st Q st' Q'"
proof -
  obtain st' j where st': "try_to_wake_up p st = Some (True, st')" "j < 140" "rq_inv st' (abs_enqueue p (active (rq st)) j Q)"
    "state (tasks st' p) = TASK_RUNNING" "cur st' = cur st"
    and o: "\<And>q. q \<noteq> p \<Longrightarrow> tasks st' q = (tasks st q)\<lparr>need_resched := need_resched (tasks st' q)\<rparr>"
    using try_to_wake_up_refines [OF inv p] by blast
  have "unresched (tasks st' q) = unresched (tasks st q)" if "q \<noteq> p" for q
    by (subst o [OF that]) (simp add: unresched_def)
  moreover have "queued (abs_enqueue p (active (rq st)) j Q) = queued Q \<union> {p}"
    using queued_enqueue [OF rq_invD(4) [OF inv] st'(2)] by simp
  ultimately show ?thesis using st' try_to_wake_up_lists [OF inv p st'(1)] unfolding woken_def by blast
qed

lemma waiters_ok_step:
  assumes ok: "waiters_ok mode st (w # ws)" and k: "woken {wq_task (wq st w)} st Q s1 Q1"
  shows "waiters_ok mode s1 ws" "\<And>v. v \<in> set ws \<Longrightarrow> sleeps_in mode s1 v = sleeps_in mode st v" "exclusive s1 = exclusive st"
proof -
  have q: "wq s1 = wq st" using k by (simp add: woken_def)
  have "unresched (tasks s1 (wq_task (wq st v))) = unresched (tasks st (wq_task (wq st v)))" if "v \<in> set ws" for v
  proof -
    have "wq_task (wq st w) \<notin> (\<lambda>w. wq_task (wq st w)) ` set ws" using ok by (simp add: waiters_ok_def)
    then have "wq_task (wq st v) \<noteq> wq_task (wq st w)" using that by (metis image_eqI)
    then show ?thesis using k by (simp add: woken_def)
  qed
  note eq = unresched_sel [OF this]
  show s: "sleeps_in mode s1 v = sleeps_in mode st v" if "v \<in> set ws" for v
    using eq [OF that] by (simp add: sleeps_in_def q)
  show "exclusive s1 = exclusive st" by (simp add: exclusive_def q fun_eq_iff)
  show "waiters_ok mode s1 ws" using ok s eq by (auto simp: waiters_ok_def q Let_def)
qed

lemma abs_wake_cong: "(\<And>w. w \<in> set ws \<Longrightarrow> f w = g w) \<Longrightarrow> abs_wake f excl nr ws = abs_wake g excl nr ws"
  by (induction ws arbitrary: nr) auto

lemma abs_wake_subset: "set (abs_wake sleeps excl nr ws) \<subseteq> set ws"
  by (induction ws arbitrary: nr) auto

lemma wake_up_loop_refines:
  assumes "rq_inv st Q" "waiters_ok mode st ws" "dlist (lists st) (WqHead q) (map WqNode (us @ ws))"
  shows "\<exists>st' Q'. wake_up_loop q mode nr (hd (map WqNode ws @ [WqHead q])) st = Some st' \<and>
    woken ((\<lambda>w. wq_task (wq st w)) ` set (abs_wake (sleeps_in mode st) (exclusive st) nr ws)) st Q st' Q'"
  using assms
proof (induction ws arbitrary: nr st Q us)
  case Nil
  then show ?case using woken_refl by (subst wake_up_loop.simps) fastforce
next
  case (Cons w ws)
  let ?p = "wq_task (wq st w)"
  have nx: "nxt (lists s) (WqNode w) = hd (map WqNode ws @ [WqHead q])"
    if "dlist (lists s) (WqHead q) (map WqNode (us @ w # ws))" for s
    using dlist_neighbours(2) [of "lists s" "WqHead q" "map WqNode us" "WqNode w" "map WqNode ws"] that by simp
  have d: "dlist (lists s) (WqHead q) (map WqNode ((us @ [w]) @ ws))" if "same_lists (\<lambda>n. \<not> run_node n) st s" for s
    using same_lists_dlist [OF that Cons.prems(3)] by (simp add: ball_Un)
  show ?case
  proof (cases "sleeps_in mode st w")
    case False
    have "waiters_ok mode st ws" using Cons.prems(2) by (simp add: waiters_ok_def)
    note ih = Cons.IH [OF Cons.prems(1) this d, of nr]
    have "state (tasks st ?p) AND mode = 0" using False by (simp add: sleeps_in_def)
    then show ?thesis
      using False ih nx [OF Cons.prems(3)] by (subst wake_up_loop.simps) (simp add: same_lists_def)
  next
    case True
    then have "array (tasks st ?p) = None" "0 \<le> prio (tasks st ?p)" "prio (tasks st ?p) < 140"
      using Cons.prems(2) by (simp_all add: waiters_ok_def Let_def)
    then obtain s1 Q1 where s1: "try_to_wake_up ?p st = Some (True, s1)" "woken {?p} st Q s1 Q1"
      using wake_step [OF Cons.prems(1)] by blast
    have k: "sys s1 = sys st" "same_lists (\<lambda>n. \<not> run_node n) st s1" "rq_inv s1 Q1" using s1(2) by (simp_all add: woken_def)
    note ok = waiters_ok_step [OF Cons.prems(2) s1(2)]
    let ?W = "\<lambda>nr. abs_wake (sleeps_in mode st) (exclusive st) nr ws"
    have rest: "\<exists>st' Q'. wake_up_loop q mode n (nxt (lists s1) (WqNode w)) s1 = Some st' \<and>
        woken ({?p} \<union> (\<lambda>w. wq_task (wq st w)) ` set (?W n)) st Q st' Q'" for n
    proof -
      obtain st' Q' where st': "wake_up_loop q mode n (hd (map WqNode ws @ [WqHead q])) s1 = Some st'"
        "woken ((\<lambda>w. wq_task (wq st w)) ` set (?W n)) s1 Q1 st' Q'"
        using Cons.IH [OF k(3) ok(1) d [OF k(2)], of n] abs_wake_cong [of ws "sleeps_in mode s1" "sleeps_in mode st"] ok(2,3)
        by (auto simp: k(1))
      moreover have "?p \<notin> (\<lambda>w. wq_task (wq st w)) ` set (?W n)"
        using Cons.prems(2) abs_wake_subset [of "sleeps_in mode st" "exclusive st" n ws] by (auto simp: waiters_ok_def)
      moreover have "nxt (lists s1) (WqNode w) = hd (map WqNode ws @ [WqHead q])" using nx [of s1] d [OF k(2)] by simp
      ultimately show ?thesis using woken_trans [OF s1(2) st'(2)] by auto
    qed
    show ?thesis
    proof (cases "exclusive st w")
      case False
      then show ?thesis using rest [of nr] True s1(1)
        by (subst wake_up_loop.simps) (simp add: exclusive_def sleeps_in_def k(1))
    next
      case excl: True
      then show ?thesis
        using rest [of "nr - 1"] True s1
        by (subst wake_up_loop.simps) (auto simp: exclusive_def sleeps_in_def k(1))
    qed
  qed
qed

section \<open>Properties\<close>

lemma add_wait_queue_list:
  assumes "wait_list st q ws" "w \<notin> set ws"
  shows "wait_list (add_wait_queue q w st) q (w # ws)" "wait_list (add_wait_queue_exclusive q w st) q (ws @ [w])"
proof -
  have n: "WqNode w \<notin> set (WqHead q # map WqNode ws)" using assms(2) by auto
  have d: "dlist (lists st) (WqHead q) (map WqNode ws)" and s: "sorted (map (\<lambda>w. exclusive st w) ws)"
    using assms(1) by (simp_all add: wait_list_def)
  have e: "exclusive (upd_waitq w f st) v = exclusive st v" if "v \<in> set ws" for v f
    using assms(2) that by (auto simp: exclusive_def)
  have m: "map (\<lambda>v. exclusive (upd_waitq w f st) v) ws = map (\<lambda>w. exclusive st w) ws" for f using e by simp
  have l: "exclusive (upd_lists g s) = exclusive s" for g s by (simp add: exclusive_def fun_eq_iff)
  have "\<not> exclusive (upd_waitq w (\<lambda>x. x\<lparr>wq_flags := wq_flags x AND NOT WQ_FLAG_EXCLUSIVE\<rparr>) st) w"
    by (simp add: exclusive_def and.assoc)
  then show "wait_list (add_wait_queue q w st) q (w # ws)"
    using dlist_list_add [OF d n] s m [of "\<lambda>x. x\<lparr>wq_flags := wq_flags x AND NOT WQ_FLAG_EXCLUSIVE\<rparr>"]
    by (simp add: wait_list_def add_wait_queue_def add_wait_queue_raw_def l cong: map_cong)
  have "exclusive (upd_waitq w (\<lambda>x. x\<lparr>wq_flags := wq_flags x OR WQ_FLAG_EXCLUSIVE\<rparr>) st) w"
    by (simp add: exclusive_def bit.conj_disj_distrib2)
  then show "wait_list (add_wait_queue_exclusive q w st) q (ws @ [w])"
    using dlist_list_add_tail [OF d n] s m [of "\<lambda>x. x\<lparr>wq_flags := wq_flags x OR WQ_FLAG_EXCLUSIVE\<rparr>"]
    by (simp add: wait_list_def add_wait_queue_exclusive_def add_wait_queue_tail_raw_def l sorted_append cong: map_cong)
qed

lemma remove_wait_queue_list:
  assumes "wait_list st q ws" "w \<in> set ws"
  shows "wait_list (remove_wait_queue q w st) q (removeAll w ws)"
proof -
  have "map WqNode (removeAll w ws) = removeAll (WqNode w) (map WqNode ws)" by (induction ws) auto
  moreover have "sorted (map P xs) \<Longrightarrow> sorted (map P (removeAll w xs))" for P :: "nat \<Rightarrow> bool" and xs
    by (induction xs) auto
  moreover have "exclusive (upd_lists g s) = exclusive s" for g s by (simp add: exclusive_def fun_eq_iff)
  ultimately show ?thesis
    using dlist_list_del_member [of "lists st" "WqHead q" "map WqNode ws" "WqNode w"] assms
    by (simp add: wait_list_def remove_wait_queue_def remove_wait_queue_raw_def)
qed

text \<open>
  C20. A wake-up of a wait queue wakes every sleeper whose entry is not exclusive and the first
  \<open>nr\<close> exclusive ones (all of them for \<open>nr = 0\<close>), in the order of the queue, and nobody else: those tasks
  are running and queued, the others change at most their request to be rescheduled, the wait queue is the
  same, and the runqueue invariant holds. Adding and removing entries keep the order the queue needs.
\<close>
theorem wake_up_wakes:
  assumes inv: "rq_inv st Q" and q: "wait_list st q ws" "length ws < 2 ^ 32" and ok: "waiters_ok mode st ws"
  shows "\<exists>st' Q'. wake_up (Some q) mode nr st = Some st' \<and> wait_list st' q ws \<and>
    woken ((\<lambda>w. wq_task (wq st w)) ` set (filter (\<lambda>w. sleeps_in mode st w \<and> \<not> exclusive st w) ws @
      take (if nr = 0 then length ws else unat nr) (filter (\<lambda>w. sleeps_in mode st w \<and> exclusive st w) ws))) st Q st' Q'"
proof -
  obtain ns es where ws: "ws = ns @ es" "\<forall>w\<in>set ns. \<not> exclusive st w" "\<forall>w\<in>set es. exclusive st w"
    using q(1) sorted_bool_split [of "exclusive st" ws] by (auto simp: wait_list_def)
  let ?n = "if nr = 0 then length ws else unat nr"
  have f: "filter (\<lambda>w. sleeps_in mode st w \<and> \<not> exclusive st w) ws = filter (sleeps_in mode st) ns"
    "filter (\<lambda>w. sleeps_in mode st w \<and> exclusive st w) ws = filter (sleeps_in mode st) es"
    using ws by (auto intro: filter_cong simp: filter_empty_conv)
  have "take (if nr = 0 then length es else unat nr) (filter (sleeps_in mode st) es) = take ?n (filter (sleeps_in mode st) es)"
    using length_filter_le [of "sleeps_in mode st" es] by (simp add: ws(1) del: length_filter_le)
  then have a: "abs_wake (sleeps_in mode st) (exclusive st) nr ws =
      filter (sleeps_in mode st) ns @ take ?n (filter (sleeps_in mode st) es)"
    using q(2) ws by (simp add: abs_wake_plain abs_wake_excl)
  have d: "dlist (lists st) (WqHead q) (map WqNode ([] @ ws))" using q(1) by (simp add: wait_list_def)
  obtain st' Q' where st': "wake_up_loop q mode nr (hd (map WqNode ws @ [WqHead q])) st = Some st'"
    "woken ((\<lambda>w. wq_task (wq st w)) ` set (abs_wake (sleeps_in mode st) (exclusive st) nr ws)) st Q st' Q'"
    using wake_up_loop_refines [OF inv ok d] by blast
  have s: "same_lists (\<lambda>n. \<not> run_node n) st st'" "sys st' = sys st" using st'(2) by (simp_all add: woken_def)
  have "exclusive st' = exclusive st" by (simp add: exclusive_def fun_eq_iff s(2))
  then have "wait_list st' q ws" using same_lists_dlist [OF s(1) d] q(1) by (simp add: wait_list_def)
  moreover have "wake_up (Some q) mode nr st = Some st'"
    using st'(1) dlist_nxt_prv(1) [OF d] by (simp add: wake_up_def wake_up_common_def)
  ultimately show ?thesis using st'(2) unfolding a f by (intro exI [of _ st'] exI [of _ Q']) simp
qed

text \<open>Task 2 sleeps on a queue of the booted machine, with an entry that is not exclusive.\<close>
definition sleeper :: kst where
  "sleeper = add_wait_queue (WaitQueue 0) 7 (init_waitqueue_entry 7 2 (init_waitqueue_head (WaitQueue 0)
     (upd_task 2 (\<lambda>t. t\<lparr>state := TASK_INTERRUPTIBLE\<rparr>) booted)))"

lemma sleeper_sel:
  "tasks sleeper = (tasks booted)(2 := (tasks booted 2)\<lparr>state := TASK_INTERRUPTIBLE\<rparr>)"
  "wq sleeper 7 = \<lparr>wq_flags = 0, wq_task = 2\<rparr>"
  by (simp_all add: sleeper_def add_wait_queue_def add_wait_queue_raw_def init_waitqueue_entry_def init_waitqueue_head_def
    upd_waitq_def)

lemma sleeper_facts: "rq_inv sleeper booted_queues" "wait_list sleeper (WaitQueue 0) [7]"
proof -
  let ?s0 = "upd_task 2 (\<lambda>t. t\<lparr>state := TASK_INTERRUPTIBLE\<rparr>) booted"
  let ?s1 = "init_waitqueue_entry 7 2 (init_waitqueue_head (WaitQueue 0) ?s0)"
  have l: "lists ?s1 = INIT_LIST_HEAD (WqHead (WaitQueue 0)) (lists booted)"
    by (simp add: init_waitqueue_entry_def init_waitqueue_head_def)
  have w: "wait_list ?s1 (WaitQueue 0) []" by (simp add: wait_list_def l dlist_INIT_LIST_HEAD)
  from add_wait_queue_list(1) [OF this, of 7] show "wait_list sleeper (WaitQueue 0) [7]" by (simp add: sleeper_def)
  let ?h = "WqHead (WaitQueue 0)"
  have h: "nxt (lists ?s1) = (nxt (lists booted))(?h := ?h)" "prv (lists ?s1) = (prv (lists booted))(?h := ?h)"
    unfolding l by (simp_all add: INIT_LIST_HEAD_def)
  have "lists sleeper = list_add (WqNode 7) ?h (lists ?s1)"
    unfolding sleeper_def add_wait_queue_def add_wait_queue_raw_def by simp
  then have h': "nxt (lists sleeper) = (nxt (lists booted))(?h := WqNode 7, WqNode 7 := ?h)"
    "prv (lists sleeper) = (prv (lists booted))(?h := WqNode 7, WqNode 7 := ?h)"
    unfolding list_add_def by (simp_all add: list_add_raw_sel h fun_upd_twist)
  have "n \<noteq> ?h \<and> n \<noteq> WqNode 7" if "run_node n" for n using that by (cases n) simp_all
  then have "same_lists run_node ?s0 sleeper" unfolding same_lists_def h' by simp
  moreover have "rq sleeper = rq ?s0"
    by (simp add: sleeper_def add_wait_queue_def add_wait_queue_raw_def init_waitqueue_entry_def init_waitqueue_head_def)
  ultimately show "rq_inv sleeper booted_queues"
    using rq_inv_lists [of ?s0 booted_queues sleeper] booted_facts(1) by (simp add: sleeper_sel)
qed

theorem wake_up_wakes_witness:
  "\<exists>st' Q'. wake_up (Some (WaitQueue 0)) TASK_INTERRUPTIBLE 1 sleeper = Some st' \<and> rq_inv st' Q' \<and>
     state (tasks st' 2) = TASK_RUNNING \<and> queued Q' = queued booted_queues \<union> {2}"
proof -
  have s: "sleeps_in TASK_INTERRUPTIBLE sleeper 7" "\<not> exclusive sleeper 7"
    by (simp_all add: sleeps_in_def exclusive_def sleeper_sel)
  have "waiters_ok TASK_INTERRUPTIBLE sleeper [7]" by (simp add: waiters_ok_def sleeper_sel booted_sel Let_def)
  then show ?thesis using wake_up_wakes [OF sleeper_facts, of TASK_INTERRUPTIBLE 1] s
    by (auto simp: woken_def sleeper_sel)
qed

end
