(* ===== verification/Nlist.thy ===== *)
theory Nlist
  imports Prelude
begin

text \<open>
  Lists of structures that end with \<open>NULL\<close> and have a back pointer, as the kernel links children
  (\<open>p_cptr\<close>, \<open>p_osptr\<close>, \<open>p_ysptr\<close>) and the chains of the process hash table (\<open>pidhash_next\<close>,
  \<open>pidhash_pprev\<close>). \<open>nlist nx bk mk b c xs\<close>: from the pointer \<open>c\<close> on, \<open>nx\<close> visits \<open>xs\<close>; the back pointer
  of the first is \<open>b\<close> and that of the successor of \<open>x\<close> is \<open>mk x\<close>.
\<close>

primrec nlist :: "('a \<Rightarrow> 'a option) \<Rightarrow> ('a \<Rightarrow> 'b) \<Rightarrow> ('a \<Rightarrow> 'b) \<Rightarrow> 'b \<Rightarrow> 'a option \<Rightarrow> 'a list \<Rightarrow> bool" where
  "nlist nx bk mk b c [] = (c = None)"
| "nlist nx bk mk b c (x # xs) = (c = Some x \<and> bk x = b \<and> nlist nx bk mk (mk x) (nx x) xs)"

lemma nlist_cong:
  assumes "\<And>x. x \<in> set xs \<Longrightarrow> nx' x = nx x" "\<And>x. x \<in> set xs \<Longrightarrow> bk' x = bk x"
  shows "nlist nx' bk' mk b c xs = nlist nx bk mk b c xs"
  using assms by (induction xs arbitrary: b c) auto

lemma nlist_head: "nlist nx bk mk b c xs \<Longrightarrow> c = (if xs = [] then None else Some (hd xs))"
  by (cases xs) auto

lemma nlist_append:
  "nlist nx bk mk b c (ys @ x # zs) \<Longrightarrow>
     bk x = (if ys = [] then b else mk (last ys)) \<and> (ys \<noteq> [] \<longrightarrow> nx (last ys) = Some x) \<and>
     nx x = (if zs = [] then None else Some (hd zs))"
  by (induction ys arbitrary: b c) (auto dest: nlist_head)

lemma nlist_push:
  assumes "nlist nx bk mk b c xs" "distinct (x # xs)" "nx' x = c" "bk' x = b" "\<And>y. y \<in> set xs \<Longrightarrow> nx' y = nx y"
    "\<And>y. y \<in> set xs \<Longrightarrow> bk' y = (if c = Some y then mk x else bk y)"
  shows "nlist nx' bk' mk b (Some x) (x # xs)"
proof (cases xs)
  case (Cons y ys)
  have "nlist nx' bk' mk (mk y) (nx y) ys = nlist nx bk mk (mk y) (nx y) ys"
    by (rule nlist_cong) (use assms Cons in auto)
  then show ?thesis using assms Cons by simp
qed (use assms in simp)

lemma nlist_remove:
  assumes "nlist nx bk mk b c (ys @ x # zs)" "distinct (ys @ x # zs)"
    "\<And>y. y \<in> set (ys @ zs) \<Longrightarrow> nx' y = (if ys \<noteq> [] \<and> y = last ys then nx x else nx y)"
    "\<And>y. y \<in> set (ys @ zs) \<Longrightarrow> bk' y = (if nx x = Some y then bk x else bk y)"
  shows "nlist nx' bk' mk b (if ys = [] then nx x else c) (ys @ zs)"
  using assms
proof (induction ys arbitrary: b c)
  case Nil
  show ?case
  proof (cases zs)
    case (Cons z us)
    have "nlist nx' bk' mk (mk z) (nx z) us = nlist nx bk mk (mk z) (nx z) us"
      by (rule nlist_cong) (use Nil.prems Cons in auto)
    then show ?thesis using Nil.prems Cons by simp
  qed (use Nil.prems in simp)
next
  case (Cons y ys)
  have h: "c = Some y" "bk y = b" "nlist nx bk mk (mk y) (nx y) (ys @ x # zs)" using Cons.prems(1) by simp_all
  have "nx x \<noteq> Some y" using nlist_append [OF h(3)] Cons.prems(2) by (cases zs) auto
  then have y: "bk' y = b" "nx' y = (if ys = [] then nx x else nx y)" using Cons.prems(2,3,4) h(2) by auto
  have "nlist nx' bk' mk (mk y) (if ys = [] then nx x else nx y) (ys @ zs)"
    by (rule Cons.IH [OF h(3)]) (use Cons.prems in auto)
  then show ?case using y h(1) by simp
qed

end
