(* ===== verification/Ptable.thy ===== *)
theory Ptable
  imports Waitq Nlist Magic
begin

text \<open>
  The process table: the list of all processes through \<open>init_task\<close>, the family pointers and the hash
  table of process numbers (\<open>include/linux/sched.h\<close>), and the choice of a new process number
  (\<open>get_pid\<close> of \<open>kernel/fork.c\<close>). \<open>init_task\<close> is task 0.

  The list of all processes is a circular list in the sense of \<open>Klist\<close> (\<open>tlist\<close>), the children of
  a process and the chains of the hash table are lists that end with \<open>NULL\<close> (\<open>Nlist\<close>). \<open>ptable\<close> is the
  invariant of the whole structure; linking, hashing and their inverses keep it.
\<close>

section \<open>Operations\<close>

abbreviation (input) init_task :: task where "init_task \<equiv> 0"

definition SET_LINKS :: "task \<Rightarrow> kst \<Rightarrow> kst" where
  "SET_LINKS p st =
     (let st = upd_task p (\<lambda>t. t\<lparr>next_task := init_task\<rparr>) st;
          st = upd_task p (\<lambda>t. t\<lparr>prev_task := prev_task (tasks st init_task)\<rparr>) st;
          st = upd_task (prev_task (tasks st init_task)) (\<lambda>t. t\<lparr>next_task := p\<rparr>) st;
          st = upd_task init_task (\<lambda>t. t\<lparr>prev_task := p\<rparr>) st;
          st = upd_task p (\<lambda>t. t\<lparr>p_ysptr := None\<rparr>) st;
          st = upd_task p (\<lambda>t. t\<lparr>p_osptr := p_cptr (tasks st (p_pptr t))\<rparr>) st;
          st = (case p_osptr (tasks st p) of None \<Rightarrow> st | Some q \<Rightarrow> upd_task q (\<lambda>t. t\<lparr>p_ysptr := Some p\<rparr>) st)
      in upd_task (p_pptr (tasks st p)) (\<lambda>t. t\<lparr>p_cptr := Some p\<rparr>) st)"

definition REMOVE_LINKS :: "task \<Rightarrow> kst \<Rightarrow> kst" where
  "REMOVE_LINKS p st =
     (let st = upd_task (next_task (tasks st p)) (\<lambda>t. t\<lparr>prev_task := prev_task (tasks st p)\<rparr>) st;
          st = upd_task (prev_task (tasks st p)) (\<lambda>t. t\<lparr>next_task := next_task (tasks st p)\<rparr>) st;
          st = (case p_osptr (tasks st p) of None \<Rightarrow> st | Some q \<Rightarrow> upd_task q (\<lambda>t. t\<lparr>p_ysptr := p_ysptr (tasks st p)\<rparr>) st)
      in case p_ysptr (tasks st p) of
           Some q \<Rightarrow> upd_task q (\<lambda>t. t\<lparr>p_osptr := p_osptr (tasks st p)\<rparr>) st
         | None \<Rightarrow> upd_task (p_pptr (tasks st p)) (\<lambda>t. t\<lparr>p_cptr := p_osptr (tasks st p)\<rparr>) st)"

definition hash_pid :: "task \<Rightarrow> kst \<Rightarrow> kst" where
  "hash_pid p st =
     (let i = pid_hashfn (pid (tasks st p));
          st = upd_task p (\<lambda>t. t\<lparr>pidhash_next := pidhash st i\<rparr>) st;
          st = (case pidhash_next (tasks st p) of None \<Rightarrow> st
                | Some _ \<Rightarrow> (case pidhash st i of None \<Rightarrow> st | Some q \<Rightarrow> upd_task q (\<lambda>t. t\<lparr>pidhash_pprev := NextOf p\<rparr>) st));
          st = st\<lparr>pidhash := (pidhash st)(i := Some p)\<rparr>
      in upd_task p (\<lambda>t. t\<lparr>pidhash_pprev := Htable i\<rparr>) st)"

definition unhash_pid :: "task \<Rightarrow> kst \<Rightarrow> kst" where
  "unhash_pid p st =
     (let st = (case pidhash_next (tasks st p) of None \<Rightarrow> st
                | Some q \<Rightarrow> upd_task q (\<lambda>t. t\<lparr>pidhash_pprev := pidhash_pprev (tasks st p)\<rparr>) st)
      in case pidhash_pprev (tasks st p) of
           Htable i \<Rightarrow> st\<lparr>pidhash := (pidhash st)(i := pidhash_next (tasks st p))\<rparr>
         | NextOf q \<Rightarrow> upd_task q (\<lambda>t. t\<lparr>pidhash_next := pidhash_next (tasks st p)\<rparr>) st)"

definition unhash_process :: "task \<Rightarrow> kst \<Rightarrow> kst" where
  "unhash_process p st =
     (let st = upd_sys (\<lambda>s. s\<lparr>nr_threads := nr_threads s - 1\<rparr>) st;
          st = unhash_pid p st;
          st = REMOVE_LINKS p st
      in upd_lists (list_del (ThreadGroup p)) st)"

definition next_thread :: "task \<Rightarrow> kst \<Rightarrow> task option" where
  "next_thread p st = (case nxt (lists st) (ThreadGroup p) of ThreadGroup q \<Rightarrow> Some q | _ \<Rightarrow> None)"

text \<open>The tasks that \<open>for_each_task\<close> visits after \<open>p\<close>.\<close>
partial_function (option) for_each_task :: "task \<Rightarrow> kst \<Rightarrow> task list option" where
  "for_each_task p st =
     (let p = next_task (tasks st p) in
      if p = init_task then Some [] else do { ts \<leftarrow> for_each_task p st; Some (p # ts) })"

section \<open>Process numbers\<close>

abbreviation (input) PID_MAX :: int where "PID_MAX \<equiv> 0x8000"
abbreviation (input) CLONE_PID :: u32 where "CLONE_PID \<equiv> 0x1000"

text \<open>\<open>last_pid & 0xffff8000\<close>\<close>
definition pid_over :: "int \<Rightarrow> bool" where
  "pid_over l = ((of_int l :: u32) AND 0xffff8000 \<noteq> 0)"

text \<open>\<open>if (x > last_pid && next_safe > x) next_safe = x;\<close>\<close>
definition lower_safe :: "int \<Rightarrow> int \<Rightarrow> int \<Rightarrow> int" where
  "lower_safe l x ns = (if x > l \<and> ns > x then x else ns)"

text \<open>One pass over the tasks: whether \<open>l\<close> is in use (the pass stops there), and \<open>next_safe\<close>.\<close>
primrec pid_scan :: "task_struct list \<Rightarrow> int \<Rightarrow> int \<Rightarrow> bool \<times> int" where
  "pid_scan [] l ns = (False, ns)"
| "pid_scan (p # ps) l ns =
     (if pid p = l \<or> pgrp p = l \<or> tgid p = l \<or> session p = l then (True, ns)
      else pid_scan ps l
        (lower_safe l (session p) (lower_safe l (tgid p) (lower_safe l (pgrp p) (lower_safe l (pid p) ns)))))"

text \<open>The next candidate after a number in use.\<close>
definition pid_next :: "int \<Rightarrow> int \<Rightarrow> int \<times> int" where
  "pid_next l ns =
     (let l = l + 1 in if l \<ge> ns then (if pid_over l then 300 else l, PID_MAX) else (l, ns))"

text \<open>From the label \<open>repeat\<close> on: the number to return (0 for none), \<open>last_pid\<close> and \<open>next_safe\<close>.\<close>
partial_function (option) pid_repeat :: "task_struct list \<Rightarrow> int \<Rightarrow> int \<Rightarrow> int \<Rightarrow> (int \<times> int \<times> int) option" where
  "pid_repeat ps beginpid l ns =
     (case pid_scan ps l ns of (used, ns) \<Rightarrow>
        if \<not> used then Some (l, l, ns)
        else (case pid_next l ns of (l, ns) \<Rightarrow>
          if l = beginpid then Some (0, l, ns) else pid_repeat ps beginpid l ns))"

definition get_pid :: "u32 \<Rightarrow> kst \<Rightarrow> (int \<times> kst) option" where
  "get_pid clone_flags st =
     (if clone_flags AND CLONE_PID \<noteq> 0 then Some (pid (tsk st), st)
      else do {
        ts \<leftarrow> for_each_task init_task st;
        let ps = map (tasks st) ts;
        let beginpid = last_pid (sys st);
        let l = beginpid + 1;
        (r, l, ns) \<leftarrow>
          (if pid_over l then pid_repeat ps beginpid 300 PID_MAX
           else if l \<ge> next_safe (sys st) then pid_repeat ps beginpid l PID_MAX
           else Some (l, l, next_safe (sys st)));
        Some (r, upd_sys (\<lambda>s. s\<lparr>last_pid := l, next_safe := ns\<rparr>) st) })"

section \<open>Choosing a process number\<close>

text \<open>The numbers in use, and the invariant of \<open>last_pid\<close> and \<open>next_safe\<close>: no number in between is in use.\<close>
definition ids :: "task_struct list \<Rightarrow> int set" where
  "ids ps = (\<Union>p\<in>set ps. {pid p, pgrp p, tgid p, session p})"

definition safe :: "int set \<Rightarrow> int \<Rightarrow> int \<Rightarrow> bool" where
  "safe U l ns = (\<forall>x\<in>U. \<not> (l < x \<and> x < ns))"

lemma pid_over_iff: "0 \<le> l \<Longrightarrow> l \<le> 0x8000 \<Longrightarrow> pid_over l = (l = 0x8000)"
proof (cases "l = 0x8000")
  case False
  assume l: "0 \<le> l" "l \<le> 0x8000"
  define w where "w = (of_int l :: u32)"
  have "uint w = l" using l by (simp add: w_def unsigned_of_int take_bit_int_eq_self)
  then have "uint (take_bit 15 w) = uint w" using l False by (simp add: unsigned_take_bit_eq take_bit_int_eq_self)
  then have t: "take_bit 15 w = w" by (rule word_uint_eqI)
  have "take_bit 15 w AND NOT (mask 15) = 0" by (rule bit_word_eqI) (simp add: bit_simps)
  moreover have "(0xffff8000 :: u32) = NOT (mask 15)" by (simp add: mask_eq_exp_minus_1)
  ultimately show "pid_over l = (l = 0x8000)" using False by (simp add: pid_over_def flip: w_def) (simp add: t)
qed (simp add: pid_over_def)

lemma lower_safe_props:
  "lower_safe l x ns \<le> ns" "safe U l ns \<Longrightarrow> safe (insert x U) l (lower_safe l x ns)" "l < ns \<Longrightarrow> l < lower_safe l x ns"
  by (auto simp: lower_safe_def safe_def)

lemma pid_scan_spec:
  assumes "pid_scan ps l ns = (c, ns')"
  shows "c = (l \<in> ids ps)" "ns' \<le> ns" "l < ns \<Longrightarrow> l < ns'" "\<not> c \<Longrightarrow> safe U l ns \<Longrightarrow> safe (U \<union> ids ps) l ns'"
proof -
  have "c = (l \<in> ids ps) \<and> ns' \<le> ns \<and> (l < ns \<longrightarrow> l < ns') \<and> (\<not> c \<longrightarrow> safe U l ns \<longrightarrow> safe (U \<union> ids ps) l ns')"
    using assms
  proof (induction ps arbitrary: ns U)
    case (Cons p ps)
    let ?n = "lower_safe l (session p) (lower_safe l (tgid p) (lower_safe l (pgrp p) (lower_safe l (pid p) ns)))"
    have n: "?n \<le> ns" "l < ns \<Longrightarrow> l < ?n" by (meson lower_safe_props(1,3) order_trans)+
    show ?case
    proof (cases "l \<in> {pid p, pgrp p, tgid p, session p}")
      case False
      let ?V = "insert (session p) (insert (tgid p) (insert (pgrp p) (insert (pid p) U)))"
      have "pid_scan ps l ?n = (c, ns')" using Cons.prems False by auto
      from Cons.IH [OF this, of ?V]
      have ih: "c = (l \<in> ids ps)" "ns' \<le> ?n" "l < ?n \<longrightarrow> l < ns'" "\<not> c \<longrightarrow> safe ?V l ?n \<longrightarrow> safe (?V \<union> ids ps) l ns'" by blast+
      have "safe U l ns \<Longrightarrow> safe ?V l ?n" by (intro lower_safe_props)
      moreover have "U \<union> ids (p # ps) = ?V \<union> ids ps" "l \<in> ids (p # ps) \<longleftrightarrow> l \<in> ids ps" using False by (auto simp: ids_def)
      ultimately show ?thesis using ih n by (metis order_trans)
    qed (use Cons.prems in \<open>auto simp: ids_def\<close>)
  qed (simp add: ids_def)
  then show "c = (l \<in> ids ps)" "ns' \<le> ns" "l < ns \<Longrightarrow> l < ns'" "\<not> c \<Longrightarrow> safe U l ns \<Longrightarrow> safe (U \<union> ids ps) l ns'" by blast+
qed

text \<open>The order in which candidates are tried.\<close>
definition succ_pid :: "int \<Rightarrow> int" where
  "succ_pid l = (if l = 0x7fff then 300 else l + 1)"

lemma pid_next_eq:
  assumes "0 \<le> l" "l < 0x8000" "l < ns" "ns \<le> 0x8000"
  shows "\<exists>ns'. pid_next l ns = (succ_pid l, ns') \<and> succ_pid l < ns' \<and> ns' \<le> 0x8000"
  using assms pid_over_iff [of "l + 1"] by (auto simp: pid_next_def succ_pid_def Let_def)

text \<open>What a number the loop returns satisfies.\<close>
definition fresh_pid :: "task_struct list \<Rightarrow> int \<Rightarrow> int \<Rightarrow> bool" where
  "fresh_pid ps r ns = (r \<notin> ids ps \<and> safe (ids ps) r ns \<and> 0 < r \<and> r < 0x8000 \<and> ns \<le> 0x8000)"

lemma pid_repeat_stop:
  assumes l: "l \<notin> ids ps" "0 < l" "l < 0x8000" "ns \<le> 0x8000"
  shows "\<exists>ns'. pid_repeat ps b l ns = Some (l, l, ns') \<and> fresh_pid ps l ns'"
proof -
  obtain c ns' where c: "pid_scan ps l ns = (c, ns')" by fastforce
  from pid_scan_spec [OF this] have "\<not> c" "ns' \<le> 0x8000" "safe (ids ps) l ns'"
    using l pid_scan_spec(4) [OF c, of "{}"] by (auto simp: safe_def)
  then show ?thesis using c l by (subst pid_repeat.simps) (simp add: fresh_pid_def)
qed

lemma pid_repeat_free:
  assumes "(succ_pid ^^ n) l \<notin> ids ps" "\<forall>k<n. (succ_pid ^^ Suc k) l \<noteq> b" "0 < l" "l < 0x8000" "l < ns" "ns \<le> 0x8000"
  shows "\<exists>r ns'. pid_repeat ps b l ns = Some (r, r, ns') \<and> fresh_pid ps r ns'"
  using assms
proof (induction n arbitrary: l ns)
  case 0
  then show ?case using pid_repeat_stop [of l ps ns b] by auto
next
  case (Suc n)
  show ?case
  proof (cases "l \<in> ids ps")
    case False
    then show ?thesis using pid_repeat_stop [of l ps ns b] Suc.prems by blast
  next
    case True
    obtain c ns1 where c: "pid_scan ps l ns = (c, ns1)" by fastforce
    from pid_scan_spec [OF this] have c1: "c" "l < ns1" "ns1 \<le> 0x8000" using True Suc.prems by auto
    obtain ns2 where n2: "pid_next l ns1 = (succ_pid l, ns2)" "succ_pid l < ns2" "ns2 \<le> 0x8000"
      using pid_next_eq [of l ns1] c1 Suc.prems by auto
    have "(succ_pid ^^ Suc 0) l \<noteq> b" using Suc.prems(2) by blast
    moreover have "\<exists>r ns'. pid_repeat ps b (succ_pid l) ns2 = Some (r, r, ns') \<and> fresh_pid ps r ns'"
    proof (rule Suc.IH)
      show "(succ_pid ^^ n) (succ_pid l) \<notin> ids ps" using Suc.prems(1) by (simp add: funpow_swap1)
      show "\<forall>k<n. (succ_pid ^^ Suc k) (succ_pid l) \<noteq> b" using Suc.prems(2) by (metis Suc_less_eq comp_apply funpow_Suc_right)
    qed (use n2 Suc.prems in \<open>auto simp: succ_pid_def\<close>)
    ultimately show ?thesis using c c1(1) n2(1) by (subst pid_repeat.simps) simp
  qed
qed

lemma succ_pid_iter:
  assumes "0 \<le> b" "b \<le> 0x7fff" "int j \<le> (0x7fff - b) + (0x7fff - 300)"
  shows "(succ_pid ^^ j) (succ_pid b) = (if b + 1 + int j \<le> 0x7fff then b + 1 + int j else 300 + (b + 1 + int j - 0x8000))"
  using assms(3)
proof (induction j)
  case (Suc j)
  then show ?case using assms by (auto simp: succ_pid_def)
qed (use assms in \<open>auto simp: succ_pid_def\<close>)

lemma succ_pid_reaches:
  assumes b: "0 \<le> b" "b \<le> 0x7fff" and x: "300 \<le> x" "x \<le> 0x7fff" "x \<noteq> b"
  shows "\<exists>n. (succ_pid ^^ n) (succ_pid b) = x \<and> (\<forall>k<n. (succ_pid ^^ Suc k) (succ_pid b) \<noteq> b)"
proof -
  define n where "n = nat (if b < x then x - (b + 1) else 0x8000 - (b + 1) + (x - 300))"
  have n: "int n = (if b < x then x - (b + 1) else 0x8000 - (b + 1) + (x - 300))" using assms by (simp add: n_def)
  have "(succ_pid ^^ n) (succ_pid b) = x" using succ_pid_iter [OF b, of n] n assms by (auto split: if_splits)
  moreover have "(succ_pid ^^ Suc k) (succ_pid b) \<noteq> b" if "k < n" for k
  proof -
    have "int (Suc k) \<le> int n" using that by simp
    then show ?thesis using succ_pid_iter [OF b, of "Suc k"] n assms by (auto split: if_splits)
  qed
  ultimately show ?thesis by blast
qed

section \<open>The list of all processes\<close>

text \<open>The fields \<open>next_task\<close> and \<open>prev_task\<close> as a heap of list nodes.\<close>
definition theap :: "kst \<Rightarrow> task lheap" where
  "theap st = \<lparr>nxt = (\<lambda>t. next_task (tasks st t)), prv = (\<lambda>t. prev_task (tasks st t))\<rparr>"

abbreviation tlist :: "kst \<Rightarrow> task list \<Rightarrow> bool" where
  "tlist st ts \<equiv> dlist (theap st) init_task ts"

lemma theap_cong:
  "(\<And>t. next_task (tasks st' t) = next_task (tasks st t)) \<Longrightarrow> (\<And>t. prev_task (tasks st' t) = prev_task (tasks st t)) \<Longrightarrow>
   theap st' = theap st"
  by (simp add: theap_def)

lemma for_each_task_tlist: "tlist st ts \<Longrightarrow> for_each_task init_task st = Some ts"
proof -
  have "chain (theap st) p ts init_task \<Longrightarrow> init_task \<notin> set ts \<Longrightarrow> for_each_task p st = Some ts" for p
  proof (induction ts arbitrary: p)
    case Nil
    then show ?case by (subst for_each_task.simps) (simp add: theap_def)
  next
    case (Cons t ts)
    then show ?case by (subst for_each_task.simps) (simp add: theap_def)
  qed
  then show "tlist st ts \<Longrightarrow> for_each_task init_task st = Some ts" by (simp add: dlist_def)
qed

definition pid_ok :: "kst \<Rightarrow> task list \<Rightarrow> bool" where
  "pid_ok st ts = (0 \<le> last_pid (sys st) \<and> last_pid (sys st) < 0x8000 \<and> next_safe (sys st) \<le> 0x8000 \<and>
     safe (ids (map (tasks st) ts)) (last_pid (sys st)) (next_safe (sys st)))"

section \<open>Families and hash chains\<close>

definition family :: "kst \<Rightarrow> (task \<Rightarrow> task list) \<Rightarrow> bool" where
  "family st F = (\<forall>q. distinct (F q) \<and>
     nlist (\<lambda>t. p_osptr (tasks st t)) (\<lambda>t. p_ysptr (tasks st t)) Some None (p_cptr (tasks st q)) (F q) \<and>
     (\<forall>c\<in>set (F q). p_pptr (tasks st c) = q))"

definition hashed :: "kst \<Rightarrow> (nat \<Rightarrow> task list) \<Rightarrow> bool" where
  "hashed st H = (\<forall>i. distinct (H i) \<and>
     nlist (\<lambda>t. pidhash_next (tasks st t)) (\<lambda>t. pidhash_pprev (tasks st t)) NextOf (Htable i) (pidhash st i) (H i) \<and>
     (\<forall>x\<in>set (H i). pid_hashfn (pid (tasks st x)) = i))"

definition ptable :: "kst \<Rightarrow> task list \<Rightarrow> (task \<Rightarrow> task list) \<Rightarrow> (nat \<Rightarrow> task list) \<Rightarrow> bool" where
  "ptable st ts F H = (tlist st ts \<and> family st F \<and> hashed st H \<and> (\<forall>q. set (F q) \<subseteq> set ts) \<and> (\<forall>i. set (H i) \<subseteq> set ts))"

text \<open>A field of a task after an update: of another field, or of the same.\<close>

lemma fld_other: "(\<And>x. fld (f x) = fld x) \<Longrightarrow> fld (tasks (upd_task a f st) t) = fld (tasks st t)"
  by simp

lemmas link_other = fld_other [where fld = next_task]
  fld_other [where fld = prev_task]
  fld_other [where fld = p_cptr]
  fld_other [where fld = p_osptr]
  fld_other [where fld = p_ysptr]
  fld_other [where fld = pidhash_next]
  fld_other [where fld = pidhash_pprev]
  fld_other [where fld = p_pptr]
  fld_other [where fld = pid]
  fld_other [where fld = array]
  fld_other [where fld = prio]
  fld_other [where fld = pgrp]
  fld_other [where fld = tgid]
  fld_other [where fld = session]

lemma link_same:
  "next_task (tasks (upd_task a (\<lambda>t. t\<lparr>next_task := v0 t\<rparr>) st) t) = (if t = a then v0 (tasks st a) else next_task (tasks st t))"
  "prev_task (tasks (upd_task a (\<lambda>t. t\<lparr>prev_task := v1 t\<rparr>) st) t) = (if t = a then v1 (tasks st a) else prev_task (tasks st t))"
  "p_cptr (tasks (upd_task a (\<lambda>t. t\<lparr>p_cptr := v2 t\<rparr>) st) t) = (if t = a then v2 (tasks st a) else p_cptr (tasks st t))"
  "p_osptr (tasks (upd_task a (\<lambda>t. t\<lparr>p_osptr := v3 t\<rparr>) st) t) = (if t = a then v3 (tasks st a) else p_osptr (tasks st t))"
  "p_ysptr (tasks (upd_task a (\<lambda>t. t\<lparr>p_ysptr := v4 t\<rparr>) st) t) = (if t = a then v4 (tasks st a) else p_ysptr (tasks st t))"
  "pidhash_next (tasks (upd_task a (\<lambda>t. t\<lparr>pidhash_next := v5 t\<rparr>) st) t) = (if t = a then v5 (tasks st a) else pidhash_next (tasks st t))"
  "pidhash_pprev (tasks (upd_task a (\<lambda>t. t\<lparr>pidhash_pprev := v6 t\<rparr>) st) t) = (if t = a then v6 (tasks st a) else pidhash_pprev (tasks st t))"
  by simp_all

lemmas links = link_other link_same

lemma SET_LINKS_sel:
  assumes p: "p \<noteq> init_task" "p_cptr (tasks st (p_pptr (tasks st p))) \<noteq> Some p"
  defines "c \<equiv> p_cptr (tasks st (p_pptr (tasks st p)))"
  shows "theap (SET_LINKS p st) = list_add_tail p init_task (theap st)"
    "p_osptr (tasks (SET_LINKS p st) t) = (if t = p then c else p_osptr (tasks st t))"
    "p_ysptr (tasks (SET_LINKS p st) t) = (if c = Some t then Some p else if t = p then None else p_ysptr (tasks st t))"
    "p_cptr (tasks (SET_LINKS p st) t) = (if t = p_pptr (tasks st p) then Some p else p_cptr (tasks st t))"
    "p_pptr (tasks (SET_LINKS p st) t) = p_pptr (tasks st t)" "pid (tasks (SET_LINKS p st) t) = pid (tasks st t)"
    "pidhash_next (tasks (SET_LINKS p st) t) = pidhash_next (tasks st t)"
    "pidhash_pprev (tasks (SET_LINKS p st) t) = pidhash_pprev (tasks st t)"
    "pidhash (SET_LINKS p st) = pidhash st" "sys (SET_LINKS p st) = sys st"
proof -
  have n: "next_task (tasks (SET_LINKS p st) t) = (if t = prev_task (tasks st init_task) then p else if t = p then init_task else next_task (tasks st t))" for t
    using p(1) by (cases c) (simp_all add: SET_LINKS_def Let_def links c_def del: tasks_upd)
  have v: "prev_task (tasks (SET_LINKS p st) t) = (if t = init_task then p else if t = p then prev_task (tasks st init_task) else prev_task (tasks st t))" for t
    using p(1) by (cases c) (simp_all add: SET_LINKS_def Let_def links c_def del: tasks_upd)
  show "theap (SET_LINKS p st) = list_add_tail p init_task (theap st)"
    using p(1) by (auto simp: theap_def n v list_add_tail_def list_add_raw_def Let_def fun_eq_iff)
  show "p_osptr (tasks (SET_LINKS p st) t) = (if t = p then c else p_osptr (tasks st t))" 
    "p_ysptr (tasks (SET_LINKS p st) t) = (if c = Some t then Some p else if t = p then None else p_ysptr (tasks st t))"
    "p_cptr (tasks (SET_LINKS p st) t) = (if t = p_pptr (tasks st p) then Some p else p_cptr (tasks st t))"
    "p_pptr (tasks (SET_LINKS p st) t) = p_pptr (tasks st t)" "pid (tasks (SET_LINKS p st) t) = pid (tasks st t)"
    "pidhash_next (tasks (SET_LINKS p st) t) = pidhash_next (tasks st t)"
    "pidhash_pprev (tasks (SET_LINKS p st) t) = pidhash_pprev (tasks st t)"
    "pidhash (SET_LINKS p st) = pidhash st" "sys (SET_LINKS p st) = sys st"
    using p(2) by (cases c; simp add: SET_LINKS_def Let_def links c_def del: tasks_upd)+
qed

text \<open>Fields that linking and hashing do not write.\<close>

lemma SET_LINKS_other:
  assumes "\<And>x v. fld (x\<lparr>next_task := v\<rparr>) = fld x" "\<And>x v. fld (x\<lparr>prev_task := v\<rparr>) = fld x" "\<And>x v. fld (x\<lparr>p_cptr := v\<rparr>) = fld x"
    "\<And>x v. fld (x\<lparr>p_osptr := v\<rparr>) = fld x" "\<And>x v. fld (x\<lparr>p_ysptr := v\<rparr>) = fld x"
  shows "fld (tasks (SET_LINKS p st) t) = fld (tasks st t)"
  by (simp add: SET_LINKS_def Let_def fld_other [where fld = fld] assms split: option.split del: tasks_upd)

lemma hash_pid_other:
  assumes "\<And>x v. fld (x\<lparr>pidhash_next := v\<rparr>) = fld x" "\<And>x v. fld (x\<lparr>pidhash_pprev := v\<rparr>) = fld x"
  shows "fld (tasks (hash_pid p st) t) = fld (tasks st t)"
proof -
  have k: "tasks (s\<lparr>pidhash := h\<rparr>) = tasks s" for s h by simp
  show ?thesis by (simp add: hash_pid_def Let_def fld_other [where fld = fld] k assms split: option.split del: tasks_upd)
qed

lemma REMOVE_LINKS_sel:
  assumes p: "p_osptr (tasks st p) \<noteq> Some p"
  shows "theap (REMOVE_LINKS p st) = list_del p (theap st)"
    "p_osptr (tasks (REMOVE_LINKS p st) t) = (if p_ysptr (tasks st p) = Some t then p_osptr (tasks st p) else p_osptr (tasks st t))"
    "p_ysptr (tasks (REMOVE_LINKS p st) t) = (if p_osptr (tasks st p) = Some t then p_ysptr (tasks st p) else p_ysptr (tasks st t))"
    "p_cptr (tasks (REMOVE_LINKS p st) t) =
       (if p_ysptr (tasks st p) = None \<and> t = p_pptr (tasks st p) then p_osptr (tasks st p) else p_cptr (tasks st t))"
    "p_pptr (tasks (REMOVE_LINKS p st) t) = p_pptr (tasks st t)" "pid (tasks (REMOVE_LINKS p st) t) = pid (tasks st t)"
    "pidhash_next (tasks (REMOVE_LINKS p st) t) = pidhash_next (tasks st t)"
    "pidhash_pprev (tasks (REMOVE_LINKS p st) t) = pidhash_pprev (tasks st t)"
    "pidhash (REMOVE_LINKS p st) = pidhash st" "sys (REMOVE_LINKS p st) = sys st"
proof -
  have n: "next_task (tasks (REMOVE_LINKS p st) t) = (if t = prev_task (tasks st p) then next_task (tasks st p) else next_task (tasks st t))" for t
    by (cases "p_osptr (tasks st p)"; cases "p_ysptr (tasks st p)")
      (use p in \<open>simp_all add: REMOVE_LINKS_def Let_def links del: tasks_upd\<close>)
  have v: "prev_task (tasks (REMOVE_LINKS p st) t) = (if t = next_task (tasks st p) then prev_task (tasks st p) else prev_task (tasks st t))" for t
    by (cases "p_osptr (tasks st p)"; cases "p_ysptr (tasks st p)")
      (use p in \<open>simp_all add: REMOVE_LINKS_def Let_def links del: tasks_upd\<close>)
  show "theap (REMOVE_LINKS p st) = list_del p (theap st)"
    by (auto simp: theap_def n v list_del_def list_del_raw_def Let_def fun_eq_iff)
  show "p_osptr (tasks (REMOVE_LINKS p st) t) = (if p_ysptr (tasks st p) = Some t then p_osptr (tasks st p) else p_osptr (tasks st t))"
    "p_ysptr (tasks (REMOVE_LINKS p st) t) = (if p_osptr (tasks st p) = Some t then p_ysptr (tasks st p) else p_ysptr (tasks st t))"
    "p_cptr (tasks (REMOVE_LINKS p st) t) =
       (if p_ysptr (tasks st p) = None \<and> t = p_pptr (tasks st p) then p_osptr (tasks st p) else p_cptr (tasks st t))"
    "p_pptr (tasks (REMOVE_LINKS p st) t) = p_pptr (tasks st t)" "pid (tasks (REMOVE_LINKS p st) t) = pid (tasks st t)"
    "pidhash_next (tasks (REMOVE_LINKS p st) t) = pidhash_next (tasks st t)"
    "pidhash_pprev (tasks (REMOVE_LINKS p st) t) = pidhash_pprev (tasks st t)"
    "pidhash (REMOVE_LINKS p st) = pidhash st" "sys (REMOVE_LINKS p st) = sys st"
    by (cases "p_osptr (tasks st p)"; cases "p_ysptr (tasks st p)"; use p in \<open>simp add: REMOVE_LINKS_def Let_def links del: tasks_upd\<close>)+
qed

lemma hash_pid_sel:
  assumes p: "pidhash st (pid_hashfn (pid (tasks st p))) \<noteq> Some p"
  defines "i \<equiv> pid_hashfn (pid (tasks st p))"
  shows "pidhash_next (tasks (hash_pid p st) t) = (if t = p then pidhash st i else pidhash_next (tasks st t))"
    "pidhash_pprev (tasks (hash_pid p st) t) =
       (if t = p then Htable i else if pidhash st i = Some t then NextOf p else pidhash_pprev (tasks st t))"
    "pidhash (hash_pid p st) = (pidhash st)(i := Some p)"
    "p_pptr (tasks (hash_pid p st) t) = p_pptr (tasks st t)" "pid (tasks (hash_pid p st) t) = pid (tasks st t)"
    "theap (hash_pid p st) = theap st" "p_osptr (tasks (hash_pid p st) t) = p_osptr (tasks st t)" "p_ysptr (tasks (hash_pid p st) t) = p_ysptr (tasks st t)"
    "p_cptr (tasks (hash_pid p st) t) = p_cptr (tasks st t)" "sys (hash_pid p st) = sys st"
proof -
  have k: "tasks (s\<lparr>pidhash := h\<rparr>) = tasks s" "sys (s\<lparr>pidhash := h\<rparr>) = sys s" for s h by simp_all
  show "pidhash_next (tasks (hash_pid p st) t) = (if t = p then pidhash st i else pidhash_next (tasks st t))"
    "pidhash_pprev (tasks (hash_pid p st) t) =
       (if t = p then Htable i else if pidhash st i = Some t then NextOf p else pidhash_pprev (tasks st t))"
    "pidhash (hash_pid p st) = (pidhash st)(i := Some p)"
    "p_pptr (tasks (hash_pid p st) t) = p_pptr (tasks st t)" "pid (tasks (hash_pid p st) t) = pid (tasks st t)"
    "theap (hash_pid p st) = theap st" "p_osptr (tasks (hash_pid p st) t) = p_osptr (tasks st t)" "p_ysptr (tasks (hash_pid p st) t) = p_ysptr (tasks st t)"
    "p_cptr (tasks (hash_pid p st) t) = p_cptr (tasks st t)" "sys (hash_pid p st) = sys st"
    by (cases "pidhash st i"; use p in \<open>simp add: hash_pid_def Let_def links theap_def i_def k del: tasks_upd\<close>)+
qed

lemma unhash_pid_sel:
  assumes p: "pidhash_next (tasks st p) \<noteq> Some p"
  shows "pidhash_next (tasks (unhash_pid p st) t) =
      (if pidhash_pprev (tasks st p) = NextOf t then pidhash_next (tasks st p) else pidhash_next (tasks st t))"
    "pidhash_pprev (tasks (unhash_pid p st) t) =
       (if pidhash_next (tasks st p) = Some t then pidhash_pprev (tasks st p) else pidhash_pprev (tasks st t))"
    "pidhash (unhash_pid p st) i = (if pidhash_pprev (tasks st p) = Htable i then pidhash_next (tasks st p) else pidhash st i)"
    "p_pptr (tasks (unhash_pid p st) t) = p_pptr (tasks st t)" "pid (tasks (unhash_pid p st) t) = pid (tasks st t)"
    "theap (unhash_pid p st) = theap st" "p_osptr (tasks (unhash_pid p st) t) = p_osptr (tasks st t)" "p_ysptr (tasks (unhash_pid p st) t) = p_ysptr (tasks st t)"
    "p_cptr (tasks (unhash_pid p st) t) = p_cptr (tasks st t)" "sys (unhash_pid p st) = sys st"
proof -
  have k: "tasks (s\<lparr>pidhash := h\<rparr>) = tasks s" "sys (s\<lparr>pidhash := h\<rparr>) = sys s" for s h by simp_all
  show "pidhash_next (tasks (unhash_pid p st) t) =
      (if pidhash_pprev (tasks st p) = NextOf t then pidhash_next (tasks st p) else pidhash_next (tasks st t))"
    "pidhash_pprev (tasks (unhash_pid p st) t) =
       (if pidhash_next (tasks st p) = Some t then pidhash_pprev (tasks st p) else pidhash_pprev (tasks st t))"
    "pidhash (unhash_pid p st) i = (if pidhash_pprev (tasks st p) = Htable i then pidhash_next (tasks st p) else pidhash st i)"
    "p_pptr (tasks (unhash_pid p st) t) = p_pptr (tasks st t)" "pid (tasks (unhash_pid p st) t) = pid (tasks st t)"
    "theap (unhash_pid p st) = theap st" "p_osptr (tasks (unhash_pid p st) t) = p_osptr (tasks st t)" "p_ysptr (tasks (unhash_pid p st) t) = p_ysptr (tasks st t)"
    "p_cptr (tasks (unhash_pid p st) t) = p_cptr (tasks st t)" "sys (unhash_pid p st) = sys st"
    by (cases "pidhash_next (tasks st p)"; cases "pidhash_pprev (tasks st p)";
        use p in \<open>simp add: unhash_pid_def Let_def links theap_def k del: tasks_upd\<close>)+
qed

section \<open>Linking and unlinking keep the table\<close>

lemma family_cong:
  assumes "\<And>t. p_osptr (tasks st' t) = p_osptr (tasks st t)" "\<And>t. p_ysptr (tasks st' t) = p_ysptr (tasks st t)"
    "\<And>t. p_cptr (tasks st' t) = p_cptr (tasks st t)" "\<And>t. p_pptr (tasks st' t) = p_pptr (tasks st t)"
  shows "family st' F = family st F"
  by (simp add: family_def assms)

lemma hashed_cong:
  assumes "\<And>t. pidhash_next (tasks st' t) = pidhash_next (tasks st t)" "\<And>t. pidhash_pprev (tasks st' t) = pidhash_pprev (tasks st t)"
    "pidhash st' = pidhash st" "\<And>t. pid (tasks st' t) = pid (tasks st t)"
  shows "hashed st' H = hashed st H"
  by (simp add: hashed_def assms)

lemma family_link:
  assumes F: "family st F" and p: "p \<noteq> init_task" "\<And>q. p \<notin> set (F q)"
  shows "family (SET_LINKS p st) (F(p_pptr (tasks st p) := p # F (p_pptr (tasks st p))))"
proof -
  let ?q = "p_pptr (tasks st p)" and ?st = "SET_LINKS p st"
  have fq: "distinct (F r)" "nlist (\<lambda>t. p_osptr (tasks st t)) (\<lambda>t. p_ysptr (tasks st t)) Some None (p_cptr (tasks st r)) (F r)"
    "c \<in> set (F r) \<Longrightarrow> p_pptr (tasks st c) = r" for r c using F by (auto simp: family_def)
  have c: "p_cptr (tasks st ?q) = (if F ?q = [] then None else Some (hd (F ?q)))" using nlist_head [OF fq(2)] .
  then have ne: "p_cptr (tasks st ?q) \<noteq> Some p" using p(2) [of ?q] by (metis hd_in_set option.distinct(1) option.inject)
  note S = SET_LINKS_sel [OF p(1) ne]
  have "nlist (\<lambda>t. p_osptr (tasks ?st t)) (\<lambda>t. p_ysptr (tasks ?st t)) Some None (Some p) (p # F ?q)"
    by (rule nlist_push [OF fq(2)]) (use fq(1) p(2) S ne in auto)
  moreover have "nlist (\<lambda>t. p_osptr (tasks ?st t)) (\<lambda>t. p_ysptr (tasks ?st t)) Some None (p_cptr (tasks st r)) (F r)" if r: "r \<noteq> ?q" for r
  proof -
    have "p_cptr (tasks st ?q) \<noteq> Some x" if "x \<in> set (F r)" for x
    proof
      assume "p_cptr (tasks st ?q) = Some x"
      then have "x \<in> set (F ?q)" using c by (auto split: if_splits)
      with that show False using fq(3) r by metis
    qed
    then have "nlist (\<lambda>t. p_osptr (tasks ?st t)) (\<lambda>t. p_ysptr (tasks ?st t)) Some None (p_cptr (tasks st r)) (F r) =
      nlist (\<lambda>t. p_osptr (tasks st t)) (\<lambda>t. p_ysptr (tasks st t)) Some None (p_cptr (tasks st r)) (F r)"
      by (intro nlist_cong) (use p(2) S in auto)
    with fq(2) show ?thesis by simp
  qed
  ultimately show ?thesis using fq(1,3) p(2) by (auto simp: family_def S)
qed

lemma hashed_link:
  assumes H: "hashed st H" and p: "\<And>i. p \<notin> set (H i)"
  defines "i \<equiv> pid_hashfn (pid (tasks st p))"
  shows "hashed (hash_pid p st) (H(i := p # H i))"
proof -
  let ?st = "hash_pid p st"
  have hi: "distinct (H j)" "nlist (\<lambda>t. pidhash_next (tasks st t)) (\<lambda>t. pidhash_pprev (tasks st t)) NextOf (Htable j) (pidhash st j) (H j)"
    "x \<in> set (H j) \<Longrightarrow> pid_hashfn (pid (tasks st x)) = j" for j x using H by (auto simp: hashed_def)
  have c: "pidhash st i = (if H i = [] then None else Some (hd (H i)))" using nlist_head [OF hi(2)] .
  then have "pidhash st (pid_hashfn (pid (tasks st p))) \<noteq> Some p" using p [of i] unfolding i_def by (metis hd_in_set option.distinct(1) option.inject)
  note S = hash_pid_sel [OF this, folded i_def]
  have "nlist (\<lambda>t. pidhash_next (tasks ?st t)) (\<lambda>t. pidhash_pprev (tasks ?st t)) NextOf (Htable i) (Some p) (p # H i)"
    by (rule nlist_push [OF hi(2)]) (use hi(1) p S in auto)
  moreover have "nlist (\<lambda>t. pidhash_next (tasks ?st t)) (\<lambda>t. pidhash_pprev (tasks ?st t)) NextOf (Htable j) (pidhash st j) (H j)"
    if j: "j \<noteq> i" for j
  proof -
    have "pidhash st i \<noteq> Some x" if "x \<in> set (H j)" for x
    proof
      assume "pidhash st i = Some x"
      then have "x \<in> set (H i)" using c by (auto split: if_splits)
      with that show False using hi(3) j by metis
    qed
    then have "nlist (\<lambda>t. pidhash_next (tasks ?st t)) (\<lambda>t. pidhash_pprev (tasks ?st t)) NextOf (Htable j) (pidhash st j) (H j) =
      nlist (\<lambda>t. pidhash_next (tasks st t)) (\<lambda>t. pidhash_pprev (tasks st t)) NextOf (Htable j) (pidhash st j) (H j)"
      by (intro nlist_cong) (use p S in auto)
    with hi(2) show ?thesis by simp
  qed
  ultimately show ?thesis using hi(1,3) p by (auto simp: hashed_def S i_def)
qed

lemma removeAll_split:
  assumes "distinct xs" "p \<in> set xs"
  shows "\<exists>ys zs. xs = ys @ p # zs \<and> p \<notin> set ys \<and> p \<notin> set zs \<and> removeAll p xs = ys @ zs"
proof -
  from assms(2) obtain ys zs where "xs = ys @ p # zs" by (meson split_list)
  with assms(1) show ?thesis by (intro exI [of _ ys] exI [of _ zs]) simp
qed

lemma family_unlink:
  assumes F: "family st F" and p: "p \<in> set (F q)"
  shows "family (REMOVE_LINKS p st) (F(q := removeAll p (F q)))" "p_osptr (tasks st p) \<noteq> Some p"
proof -
  let ?st = "REMOVE_LINKS p st"
  have fq: "distinct (F r)" "nlist (\<lambda>t. p_osptr (tasks st t)) (\<lambda>t. p_ysptr (tasks st t)) Some None (p_cptr (tasks st r)) (F r)"
    "c \<in> set (F r) \<Longrightarrow> p_pptr (tasks st c) = r" for r c using F by (auto simp: family_def)
  obtain ys zs where ys: "F q = ys @ p # zs" "p \<notin> set ys" "p \<notin> set zs" "removeAll p (F q) = ys @ zs"
    using removeAll_split [OF fq(1) p] by blast
  note n = fq(2) [of q, unfolded ys(1)]
  note nb = nlist_append [OF n]
  show o: "p_osptr (tasks st p) \<noteq> Some p" using nb ys(3) by (cases zs) auto
  note S = REMOVE_LINKS_sel [OF o]
  have q: "p_pptr (tasks st p) = q" using fq(3) p .
  have "nlist (\<lambda>t. p_osptr (tasks ?st t)) (\<lambda>t. p_ysptr (tasks ?st t)) Some None
      (if ys = [] then p_osptr (tasks st p) else p_cptr (tasks st q)) (ys @ zs)"
    by (rule nlist_remove [OF n]) (use fq(1) [of q] ys(1) nb S in auto)
  moreover have "p_cptr (tasks ?st q) = (if ys = [] then p_osptr (tasks st p) else p_cptr (tasks st q))" using nb by (simp add: S q)
  moreover have "nlist (\<lambda>t. p_osptr (tasks ?st t)) (\<lambda>t. p_ysptr (tasks ?st t)) Some None (p_cptr (tasks ?st r)) (F r)" if r: "r \<noteq> q" for r
  proof -
    have "x \<notin> set (F q)" if "x \<in> set (F r)" for x using that fq(3) r by metis
    moreover have "p_ysptr (tasks st p) = Some x \<Longrightarrow> x \<in> set (F q)" "p_osptr (tasks st p) = Some x \<Longrightarrow> x \<in> set (F q)" for x
      using nb by (auto simp: ys(1) split: if_splits)
    ultimately have "nlist (\<lambda>t. p_osptr (tasks ?st t)) (\<lambda>t. p_ysptr (tasks ?st t)) Some None (p_cptr (tasks st r)) (F r) =
      nlist (\<lambda>t. p_osptr (tasks st t)) (\<lambda>t. p_ysptr (tasks st t)) Some None (p_cptr (tasks st r)) (F r)"
      by (intro nlist_cong) (auto simp: S)
    with fq(2) r show ?thesis by (simp add: S q)
  qed
  ultimately show "family ?st (F(q := removeAll p (F q)))" using fq(1) [of q] fq(1,3) ys by (auto simp: family_def S)
qed

lemma hashed_unlink:
  assumes H: "hashed st H" and p: "p \<in> set (H i)"
  shows "hashed (unhash_pid p st) (H(i := removeAll p (H i)))" "pidhash_next (tasks st p) \<noteq> Some p"
proof -
  let ?st = "unhash_pid p st"
  have hi: "distinct (H j)" "nlist (\<lambda>t. pidhash_next (tasks st t)) (\<lambda>t. pidhash_pprev (tasks st t)) NextOf (Htable j) (pidhash st j) (H j)"
    "x \<in> set (H j) \<Longrightarrow> pid_hashfn (pid (tasks st x)) = j" for j x using H by (auto simp: hashed_def)
  obtain ys zs where ys: "H i = ys @ p # zs" "p \<notin> set ys" "p \<notin> set zs" "removeAll p (H i) = ys @ zs"
    using removeAll_split [OF hi(1) p] by blast
  note n = hi(2) [of i, unfolded ys(1)]
  note nb = nlist_append [OF n]
  show o: "pidhash_next (tasks st p) \<noteq> Some p" using nb ys(3) by (cases zs) auto
  note S = unhash_pid_sel [OF o]
  have "nlist (\<lambda>t. pidhash_next (tasks ?st t)) (\<lambda>t. pidhash_pprev (tasks ?st t)) NextOf (Htable i)
      (if ys = [] then pidhash_next (tasks st p) else pidhash st i) (ys @ zs)"
    by (rule nlist_remove [OF n]) (use hi(1) [of i] ys(1) nb S in auto)
  moreover have "pidhash ?st i = (if ys = [] then pidhash_next (tasks st p) else pidhash st i)" using nb by (simp add: S)
  moreover have "nlist (\<lambda>t. pidhash_next (tasks ?st t)) (\<lambda>t. pidhash_pprev (tasks ?st t)) NextOf (Htable j) (pidhash ?st j) (H j)"
    if j: "j \<noteq> i" for j
  proof -
    have "x \<notin> set (H i)" if "x \<in> set (H j)" for x using that hi(3) j by metis
    moreover have "pidhash_pprev (tasks st p) = NextOf x \<Longrightarrow> x \<in> set (H i)" "pidhash_next (tasks st p) = Some x \<Longrightarrow> x \<in> set (H i)" for x
      using nb by (auto simp: ys(1) split: if_splits)
    ultimately have "nlist (\<lambda>t. pidhash_next (tasks ?st t)) (\<lambda>t. pidhash_pprev (tasks ?st t)) NextOf (Htable j) (pidhash st j) (H j) =
      nlist (\<lambda>t. pidhash_next (tasks st t)) (\<lambda>t. pidhash_pprev (tasks st t)) NextOf (Htable j) (pidhash st j) (H j)"
      by (intro nlist_cong) (auto simp: S)
    moreover have "pidhash ?st j = pidhash st j" using nb j by (simp add: S)
    ultimately show ?thesis using hi(2) by simp
  qed
  ultimately show "hashed ?st (H(i := removeAll p (H i)))" using hi(1) [of i] hi(1,3) ys by (auto simp: hashed_def S)
qed

text \<open>What the table depends on.\<close>
definition lview :: "task_struct \<Rightarrow> _" where
  "lview t = (next_task t, prev_task t, p_cptr t, p_osptr t, p_ysptr t, p_pptr t, pid t, pidhash_next t, pidhash_pprev t)"

lemma ptable_cong:
  assumes "\<And>t. lview (tasks st' t) = lview (tasks st t)" "pidhash st' = pidhash st"
  shows "ptable st' ts F H = ptable st ts F H"
proof -
  have "theap st' = theap st" by (rule theap_cong) (use assms in \<open>simp_all add: lview_def\<close>)
  moreover have "family st' F = family st F" by (rule family_cong) (use assms in \<open>simp_all add: lview_def\<close>)
  moreover have "hashed st' H = hashed st H" by (rule hashed_cong) (use assms in \<open>simp_all add: lview_def\<close>)
  ultimately show ?thesis by (simp add: ptable_def)
qed

text \<open>A process that is not in the table may change in every field but the pointer to its children.\<close>
lemma ptable_upd_new:
  assumes t: "ptable st ts F H" and p: "p \<notin> set ts" "p \<noteq> init_task" and f: "\<And>x. p_cptr (f x) = p_cptr x"
  shows "ptable (upd_task p f st) ts F H"
proof -
  have n: "x \<noteq> p" if "x \<in> set (F q)" for x q using that t p by (auto simp: ptable_def)
  have m: "x \<noteq> p" if "x \<in> set (H i)" for x i using that t p by (auto simp: ptable_def)
  have "dlist (theap (upd_task p f st)) init_task ts = dlist (theap st) init_task ts"
    by (rule dlist_cong) (use p in \<open>auto simp: theap_def\<close>)
  moreover have "nlist (\<lambda>x. p_osptr (tasks (upd_task p f st) x)) (\<lambda>x. p_ysptr (tasks (upd_task p f st) x)) Some None c (F q) =
      nlist (\<lambda>x. p_osptr (tasks st x)) (\<lambda>x. p_ysptr (tasks st x)) Some None c (F q)" for c q
    by (rule nlist_cong) (use n in auto)
  moreover have "nlist (\<lambda>x. pidhash_next (tasks (upd_task p f st) x)) (\<lambda>x. pidhash_pprev (tasks (upd_task p f st) x)) NextOf b c (H i) =
      nlist (\<lambda>x. pidhash_next (tasks st x)) (\<lambda>x. pidhash_pprev (tasks st x)) NextOf b c (H i)" for b c i
    by (rule nlist_cong) (use m in auto)
  ultimately show ?thesis using t n m f unfolding ptable_def family_def hashed_def by auto
qed

lemma find_task_by_pid_hashed:
  assumes "hashed st H"
  shows "find_task_by_pid n st = Some (find (\<lambda>x. pid (tasks st x) = n) (H (pid_hashfn n)))"
proof -
  have "nlist (\<lambda>t. pidhash_next (tasks st t)) (\<lambda>t. pidhash_pprev (tasks st t)) NextOf b c xs \<Longrightarrow>
      find_task_chain n c st = Some (find (\<lambda>x. pid (tasks st x) = n) xs)" for b c xs
    by (induction xs arbitrary: b c; subst find_task_chain.simps) auto
  then show ?thesis using assms by (auto simp: find_task_by_pid_def hashed_def)
qed

lemma tlist_upd [simp]:
  "theap (upd_sys f st) = theap st" "theap (upd_lists g st) = theap st"
  "family (upd_sys f st) F = family st F" "family (upd_lists g st) F = family st F"
  "hashed (upd_sys f st) H = hashed st H" "hashed (upd_lists g st) H = hashed st H"
  by (simp_all add: theap_def family_def hashed_def)

lemma ptable_linked:
  assumes t: "ptable st ts F H" and p: "p \<notin> set ts" "p \<noteq> init_task"
  shows "ptable (hash_pid p (SET_LINKS p st)) (ts @ [p]) (F(p_pptr (tasks st p) := p # F (p_pptr (tasks st p))))
      (H(pid_hashfn (pid (tasks st p)) := p # H (pid_hashfn (pid (tasks st p))))) \<and>
    find_task_by_pid (pid (tasks st p)) (hash_pid p (SET_LINKS p st)) = Some (Some p)"
proof -
  let ?q = "p_pptr (tasks st p)" and ?i = "pid_hashfn (pid (tasks st p))"
  let ?s = "SET_LINKS p st" and ?H = "H(pid_hashfn (pid (tasks st p)) := p # H (pid_hashfn (pid (tasks st p))))"
  have h: "tlist st ts" "family st F" "hashed st H" "\<And>q. p \<notin> set (F q)" "\<And>i. p \<notin> set (H i)"
    using t p by (auto simp: ptable_def)
  have c: "p_cptr (tasks st ?q) \<noteq> Some p"
    using h(2,4) nlist_head [of "\<lambda>t. p_osptr (tasks st t)" "\<lambda>t. p_ysptr (tasks st t)" Some None "p_cptr (tasks st ?q)" "F ?q"]
    unfolding family_def by (metis hd_in_set option.distinct(1) option.inject)
  note S = SET_LINKS_sel [OF p(2) c]
  have hs: "hashed ?s H" using h(3) hashed_cong [of ?s st H] S by simp
  have i: "pidhash ?s (pid_hashfn (pid (tasks ?s p))) \<noteq> Some p"
  proof -
    let ?j = "pid_hashfn (pid (tasks ?s p))"
    have "pidhash ?s ?j = (if H ?j = [] then None else Some (hd (H ?j)))"
      using hs unfolding hashed_def by (intro nlist_head) blast
    then show ?thesis using h(5) [of ?j] by (metis hd_in_set option.distinct(1) option.inject)
  qed
  note K = hash_pid_sel [OF i]
  have tl: "tlist (hash_pid p ?s) (ts @ [p])"
    using dlist_list_add_tail [OF h(1), of p] p by (simp add: K S)
  have fm: "family (hash_pid p ?s) (F(?q := p # F ?q))"
    using family_link [OF h(2) p(2) h(4)] family_cong [of "hash_pid p ?s" ?s] K by simp
  have hd: "hashed (hash_pid p ?s) ?H" using hashed_link [OF hs h(5)] by (simp add: S)
  have "find_task_by_pid (pid (tasks st p)) (hash_pid p ?s) = Some (Some p)"
    using find_task_by_pid_hashed [OF hd] by (simp add: K S)
  with tl fm hd t show ?thesis unfolding ptable_def by auto
qed

lemma ptable_unlinked:
  assumes t: "ptable st ts F H" and p: "p \<in> set ts" "p \<in> set (F q)" "p \<in> set (H i)"
  shows "ptable (unhash_process p st) (removeAll p ts) (F(q := removeAll p (F q))) (H(i := removeAll p (H i))) \<and>
    nr_threads (sys (unhash_process p st)) = nr_threads (sys st) - 1 \<and>
    ((\<forall>x\<in>set ts. pid (tasks st x) = pid (tasks st p) \<longrightarrow> x = p) \<longrightarrow>
      find_task_by_pid (pid (tasks st p)) (unhash_process p st) = Some None)"
proof -
  let ?s0 = "upd_sys (\<lambda>s. s\<lparr>nr_threads := nr_threads s - 1\<rparr>) st"
  let ?s1 = "unhash_pid p ?s0"
  let ?s2 = "REMOVE_LINKS p ?s1"
  have h: "tlist ?s0 ts" "family ?s0 F" "hashed ?s0 H" using t by (simp_all add: ptable_def)
  note U = unhash_pid_sel [OF hashed_unlink(2) [OF h(3) p(3)]]
  have f1: "family ?s1 F" using h(2) family_cong [of ?s1 ?s0] U by simp
  note R = REMOVE_LINKS_sel [OF family_unlink(2) [OF f1 p(2)]]
  have "hashed ?s2 (H(i := removeAll p (H i)))"
    using hashed_unlink(1) [OF h(3) p(3)] hashed_cong [of ?s2 ?s1] R by simp
  then have hd: "hashed (unhash_process p st) (H(i := removeAll p (H i)))" by (simp add: unhash_process_def Let_def)
  have fm: "family (unhash_process p st) (F(q := removeAll p (F q)))"
    using family_unlink(1) [OF f1 p(2)] by (simp add: unhash_process_def Let_def)
  have tl: "tlist (unhash_process p st) (removeAll p ts)"
    using dlist_list_del_member [OF h(1) p(1)] by (simp add: unhash_process_def Let_def R U)
  have sub: "set (F r) \<subseteq> set ts" "set (H j) \<subseteq> set ts" "r \<noteq> q \<Longrightarrow> p \<notin> set (F r)" "j \<noteq> i \<Longrightarrow> p \<notin> set (H j)" for r j
    using t p unfolding ptable_def family_def hashed_def by auto metis+
  have pt: "ptable (unhash_process p st) (removeAll p ts) (F(q := removeAll p (F q))) (H(i := removeAll p (H i)))"
    unfolding ptable_def using tl fm hd sub by auto
  have pid: "pid (tasks (unhash_process p st) x) = pid (tasks st x)" for x by (simp add: unhash_process_def Let_def R U)
  have "find_task_by_pid (pid (tasks st p)) (unhash_process p st) = Some None"
    if un: "\<forall>x\<in>set ts. pid (tasks st x) = pid (tasks st p) \<longrightarrow> x = p"
  proof -
    have "x \<in> set (removeAll p ts)" if "x \<in> set ((H(i := removeAll p (H i))) j)" for x j
      using that pt unfolding ptable_def by blast
    then have "pid (tasks st x) \<noteq> pid (tasks st p)" if "x \<in> set ((H(i := removeAll p (H i))) j)" for x j
      using that un by fastforce
    then have "find (\<lambda>x. pid (tasks st x) = pid (tasks st p)) ((H(i := removeAll p (H i))) j) = None" for j
      by (simp only: find_None_iff) blast
    then show ?thesis using find_task_by_pid_hashed [OF hd] by (simp only: pid)
  qed
  moreover have "nr_threads (sys (unhash_process p st)) = nr_threads (sys st) - 1" by (simp add: unhash_process_def Let_def R U)
  ultimately show ?thesis using pt by blast
qed

section \<open>Properties\<close>

text \<open>
  C21. When some number from 300 on other than the last one given is free, the search of
  \<open>get_pid\<close> ends, whatever numbers are in use, and gives a number between 1 and 32767 that is no
  process, group, thread group or session number of any process; \<open>next_safe\<close> is again a bound below
  which the numbers behind the given one are free.
\<close>
theorem get_pid_fresh:
  assumes tl: "tlist st ts" and ok: "pid_ok st ts" and fl: "clone_flags AND CLONE_PID = 0"
    and x: "300 \<le> x" "x < 0x8000" "x \<notin> ids (map (tasks st) ts)" "x \<noteq> last_pid (sys st)"
  shows "\<exists>r st'. get_pid clone_flags st = Some (r, st') \<and> 0 < r \<and> r < 0x8000 \<and> r \<notin> ids (map (tasks st) ts) \<and>
    last_pid (sys st') = r \<and> pid_ok st' ts \<and> tasks st' = tasks st"
proof -
  let ?ps = "map (tasks st) ts" and ?b = "last_pid (sys st)" and ?n = "next_safe (sys st)"
  have b: "0 \<le> ?b" "?b \<le> 0x7fff" "?n \<le> 0x8000" "safe (ids ?ps) ?b ?n" using ok by (simp_all add: pid_ok_def)
  have "\<exists>r ns. (if pid_over (?b + 1) then pid_repeat ?ps ?b 300 PID_MAX
      else if ?b + 1 \<ge> ?n then pid_repeat ?ps ?b (?b + 1) PID_MAX else Some (?b + 1, ?b + 1, ?n)) = Some (r, r, ns) \<and>
      fresh_pid ?ps r ns"
  proof (cases "\<not> pid_over (?b + 1) \<and> \<not> ?b + 1 \<ge> ?n")
    case True
    then have "?b + 1 \<notin> ids ?ps" "safe (ids ?ps) (?b + 1) ?n" using b(4) by (auto simp: safe_def)
    then show ?thesis using True b pid_over_iff [of "?b + 1"] by (simp add: fresh_pid_def)
  next
    case False
    obtain n where "(succ_pid ^^ n) (succ_pid ?b) = x" "\<forall>k<n. (succ_pid ^^ Suc k) (succ_pid ?b) \<noteq> ?b"
      using succ_pid_reaches [OF b(1,2) x(1) _ x(4)] x(2) by auto
    then have "\<exists>r ns. pid_repeat ?ps ?b (succ_pid ?b) PID_MAX = Some (r, r, ns) \<and> fresh_pid ?ps r ns"
      by (intro pid_repeat_free [of n]) (use x(3) b in \<open>auto simp: succ_pid_def\<close>)
    then show ?thesis using False b pid_over_iff [of "?b + 1"] by (auto simp: succ_pid_def)
  qed
  then obtain r ns where r: "get_pid clone_flags st = Some (r, upd_sys (\<lambda>s. s\<lparr>last_pid := r, next_safe := ns\<rparr>) st)" "fresh_pid ?ps r ns"
    using fl for_each_task_tlist [OF tl] unfolding get_pid_def Let_def by auto
  then show ?thesis by (auto simp: fresh_pid_def pid_ok_def)
qed

text \<open>
  Putting a new process into the table (\<open>SET_LINKS\<close>, then \<open>hash_pid\<close>) keeps the table
  well formed: the process is the last of the list of all processes, the youngest child of its parent and
  the first of its hash chain, all other lists are as before, and looking up its number finds it.
\<close>
theorem ptable_link:
  assumes t: "ptable st ts F H" and p: "p \<notin> set ts" "p \<noteq> init_task"
  shows "ptable (hash_pid p (SET_LINKS p st)) (ts @ [p]) (F(p_pptr (tasks st p) := p # F (p_pptr (tasks st p))))
      (H(pid_hashfn (pid (tasks st p)) := p # H (pid_hashfn (pid (tasks st p))))) \<and>
    find_task_by_pid (pid (tasks st p)) (hash_pid p (SET_LINKS p st)) = Some (Some p)"
  using ptable_linked [OF t p] .

text \<open>
  C22. Taking a process out of the table (\<open>unhash_process\<close>) keeps it well formed: the process
  is gone from the list of all processes, from the children of its parent and from its hash chain, all
  other lists are as before, the number of threads is one less, and, when no other process has its number,
  looking the number up finds nothing.
\<close>
theorem ptable_unlink:
  assumes t: "ptable st ts F H" and p: "p \<in> set ts" "p \<in> set (F q)" "p \<in> set (H i)"
  shows "ptable (unhash_process p st) (removeAll p ts) (F(q := removeAll p (F q))) (H(i := removeAll p (H i))) \<and>
    nr_threads (sys (unhash_process p st)) = nr_threads (sys st) - 1 \<and>
    ((\<forall>x\<in>set ts. pid (tasks st x) = pid (tasks st p) \<longrightarrow> x = p) \<longrightarrow>
      find_task_by_pid (pid (tasks st p)) (unhash_process p st) = Some None)"
  using ptable_unlinked [OF t p] .

section \<open>A table with one process\<close>

text \<open>Task 1, a child of the boot task, is put into the empty table of the machine at boot.\<close>
definition orphan :: kst where
  "orphan = upd_task 1 (\<lambda>t. t\<lparr>p_opptr := 0, p_pptr := 0\<rparr>) boot_kst"

definition one_child :: kst where
  "one_child = hash_pid 1 (SET_LINKS 1 orphan)"

lemma orphan_sel:
  "next_task (tasks orphan t) = t" "prev_task (tasks orphan t) = t" "p_cptr (tasks orphan t) = None"
  "p_pptr (tasks orphan 1) = 0" "pidhash orphan i = None" "pid (tasks orphan t) = int t"
  by (simp_all add: orphan_def boot_kst_def INIT_TASK_def)

lemma orphan_ptable: "ptable orphan [] (\<lambda>_. []) (\<lambda>_. [])"
  by (simp add: ptable_def dlist_def theap_def family_def hashed_def orphan_sel)

theorem ptable_link_witness:
  "ptable one_child [1] ((\<lambda>_. [])(0 := [1])) ((\<lambda>_. [])(pid_hashfn 1 := [1])) \<and> find_task_by_pid 1 one_child = Some (Some 1)"
  using ptable_link [OF orphan_ptable, of 1] by (simp add: orphan_sel one_child_def del: One_nat_def)

lemma one_child_ptable: "ptable one_child [1] ((\<lambda>_. [])(0 := [1])) ((\<lambda>_. [])(pid_hashfn 1 := [1]))"
  using ptable_linked [OF orphan_ptable, of 1] by (simp add: orphan_sel one_child_def del: One_nat_def)

lemma one_child_pid: "pid (tasks one_child t) = int t"
proof -
  have c: "p_cptr (tasks orphan (p_pptr (tasks orphan 1))) \<noteq> Some 1" by (simp add: orphan_sel)
  note S = SET_LINKS_sel [of 1 orphan, OF _ c]
  have i: "pidhash (SET_LINKS 1 orphan) (pid_hashfn (pid (tasks (SET_LINKS 1 orphan) 1))) \<noteq> Some 1"
    by (simp add: S orphan_sel del: One_nat_def)
  show ?thesis using hash_pid_sel(5) [OF i] S by (simp add: one_child_def orphan_sel)
qed

theorem ptable_unlink_witness:
  "ptable (unhash_process 1 one_child) [] (\<lambda>_. []) (\<lambda>_. []) \<and> find_task_by_pid 1 (unhash_process 1 one_child) = Some None"
proof -
  have "(\<lambda>_. [] :: task list)(a := []) = (\<lambda>_. [])" for a :: nat by (simp add: fun_eq_iff)
  then show ?thesis using ptable_unlink [OF one_child_ptable, of 1 0 "pid_hashfn 1"] by (simp add: one_child_pid del: One_nat_def)
qed

text \<open>The number 1 is in use, and the search starts there.\<close>
theorem get_pid_fresh_witness:
  "\<exists>r st'. get_pid 0 (upd_sys (\<lambda>s. s\<lparr>last_pid := 0, next_safe := 1\<rparr>) one_child) = Some (r, st') \<and> 1 < r \<and> r < 0x8000"
proof -
  let ?s = "upd_sys (\<lambda>s. s\<lparr>last_pid := 0, next_safe := 1\<rparr>) one_child"
  have f: "pgrp (tasks one_child 1) = 0 \<and> tgid (tasks one_child 1) = 0 \<and> session (tasks one_child 1) = 0"
    unfolding one_child_def
    by (simp add: hash_pid_other SET_LINKS_other del: One_nat_def) (simp add: orphan_def boot_kst_def INIT_TASK_def)
  then have i: "ids (map (tasks ?s) [1]) = {0, 1}" by (auto simp: ids_def one_child_pid)
  have "tlist ?s [1]" using one_child_ptable by (simp add: ptable_def)
  moreover have "pid_ok ?s [1]" unfolding pid_ok_def i by (simp add: safe_def)
  moreover have "300 \<notin> ids (map (tasks ?s) [1])" unfolding i by simp
  ultimately obtain r st' where "get_pid 0 ?s = Some (r, st')" "0 < r" "r < 0x8000" "r \<notin> ids (map (tasks ?s) [1])"
    using get_pid_fresh [of ?s "[1]" 0 300] by auto
  then show ?thesis unfolding i by (intro exI [of _ r] exI [of _ st']) auto
qed

end
