(* ===== verification/Sched_Calls.thy ===== *)
theory Sched_Calls
  imports Magic
begin

text \<open>
  The system calls of \<open>kernel/sched.c\<close> that change or report priorities, policies and affinities. A
  structure of one or two words that a call copies from or to the user is read or written as 32-bit
  numbers; the copy of one word is all or nothing.
\<close>

section \<open>Helpers\<close>

definition copy_in32 :: "addr \<Rightarrow> addr \<Rightarrow> mem \<Rightarrow> u32 option" where
  "copy_in32 limit from m = (if access_ok limit from 4 then map_option of_le (get m from 4) else None)"

text \<open>The words are written one after the other; the flag says that all were.\<close>
fun copy_out32 :: "addr \<Rightarrow> u32 list \<Rightarrow> mem \<Rightarrow> bool \<times> mem" where
  "copy_out32 to [] m = (True, m)"
| "copy_out32 to (w # ws) m = (case put m to (le32 w) of None \<Rightarrow> (False, m) | Some m \<Rightarrow> copy_out32 (to + 4) ws m)"

definition copy_out :: "addr \<Rightarrow> addr \<Rightarrow> u32 list \<Rightarrow> mem \<Rightarrow> bool \<times> mem" where
  "copy_out limit to ws m = (if access_ok limit to (of_nat (4 * length ws)) then copy_out32 to ws m else (False, m))"

definition capable :: "nat \<Rightarrow> kst \<Rightarrow> bool \<times> kst" where
  "capable cap st =
     (if cap_effective (tsk st) AND push_bit cap 1 \<noteq> 0
      then (True, upd_task (cur st) (\<lambda>t. t\<lparr>flags := flags t OR PF_SUPERPRIV\<rparr>) st) else (False, st))"

definition find_process_by_pid :: "int \<Rightarrow> kst \<Rightarrow> task option option" where
  "find_process_by_pid n st = (if n \<noteq> 0 then find_task_by_pid n st else Some (Some (cur st)))"

section \<open>Nice values\<close>

definition set_user_nice :: "task \<Rightarrow> int \<Rightarrow> kst \<Rightarrow> kst option" where
  "set_user_nice p nice st =
     (if TASK_NICE (tasks st p) = nice \<or> nice < -20 \<or> nice > 19 then Some st
      else if rt_task (tasks st p) then Some (upd_task p (\<lambda>t. t\<lparr>static_prio := NICE_TO_PRIO nice\<rparr>) st)
      else do {
        let arr = array (tasks st p);
        st \<leftarrow> (if arr \<noteq> None then dequeue_task p arr st else Some st);
        let st = upd_task p (\<lambda>t. t\<lparr>static_prio := NICE_TO_PRIO nice, prio := NICE_TO_PRIO nice\<rparr>) st;
        if arr \<noteq> None then do {
          st \<leftarrow> enqueue_task p arr st;
          Some (if NICE_TO_PRIO nice < static_prio (tasks st p) \<or> p = rq_curr (rq st)
                then resched_task (rq_curr (rq st)) st else st) }
        else Some st })"

text \<open>The part of \<open>sys_nice\<close> behind the check of the capability.\<close>
definition nice_by :: "int \<Rightarrow> kst \<Rightarrow> (int \<times> kst) option" where
  "nice_by increment st = do {
     let increment = (if increment > 40 then 40 else increment);
     let nice = TASK_NICE (tsk st) + increment;
     let nice = (if nice < -20 then -20 else nice);
     let nice = (if nice > 19 then 19 else nice);
     st \<leftarrow> set_user_nice (cur st) nice st;
     Some (0, st) }"

definition sys_nice :: "int \<Rightarrow> kst \<Rightarrow> (int \<times> kst) option" where
  "sys_nice increment st =
     (if increment < 0 then
        (case capable CAP_SYS_NICE st of (ok, st) \<Rightarrow>
         if \<not> ok then Some (- EPERM, st)
         else nice_by (if increment < -40 then -40 else increment) st)
      else nice_by increment st)"

definition task_prio :: "task_struct \<Rightarrow> int" where
  "task_prio p = prio p - MAX_USER_RT_PRIO"

definition task_nice :: "task_struct \<Rightarrow> int" where
  "task_nice p = TASK_NICE p"

definition idle_cpu :: "kst \<Rightarrow> bool" where
  "idle_cpu st = (rq_curr (rq st) = rq_idle (rq st))"

section \<open>Policies\<close>

text \<open>The assignment of the new policy, with the task off its queue and back on.\<close>
definition change_policy :: "task \<Rightarrow> int \<Rightarrow> int \<Rightarrow> kst \<Rightarrow> kst option" where
  "change_policy p pol lp st = do {
     let arr = array (tasks st p);
     st \<leftarrow> (if arr \<noteq> None then deactivate_task p st else Some st);
     let st = upd_task p (\<lambda>t. t\<lparr>policy := of_int pol, rt_priority := of_int lp,
         prio := (if pol \<noteq> 0 then MAX_USER_RT_PRIO - 1 - lp else static_prio t)\<rparr>) st;
     if arr \<noteq> None then activate_task p st else Some st }"

definition setscheduler :: "int \<Rightarrow> int \<Rightarrow> addr \<Rightarrow> kst \<Rightarrow> (int \<times> kst) option" where
  "setscheduler n pol param st =
     (if param = 0 \<or> n < 0 then Some (- EINVAL, st)
      else case copy_in32 (addr_limit (tsk st)) param (mem st) of
        None \<Rightarrow> Some (- EFAULT, st)
      | Some lp \<Rightarrow> do {
          q \<leftarrow> find_process_by_pid n st;
          case q of
            None \<Rightarrow> Some (- ESRCH, st)
          | Some p \<Rightarrow>
            if pol \<ge> 0 \<and> pol \<noteq> 1 \<and> pol \<noteq> 2 \<and> pol \<noteq> 0 then Some (- EINVAL, st)
            else (let pol = (if pol < 0 then sint (policy (tasks st p)) else pol); lp = sint lp in
              if lp < 0 \<or> lp > MAX_USER_RT_PRIO - 1 then Some (- EINVAL, st)
              else if (pol = 0) \<noteq> (lp = 0) then Some (- EINVAL, st)
              else (case (if pol = 1 \<or> pol = 2 then capable CAP_SYS_NICE st else (True, st)) of (ok, st) \<Rightarrow>
                if \<not> ok then Some (- EPERM, st)
                else (case (if euid (tsk st) \<noteq> euid (tasks st p) \<and> euid (tsk st) \<noteq> uid (tasks st p)
                            then capable CAP_SYS_NICE st else (True, st)) of (ok, st) \<Rightarrow>
                  if \<not> ok then Some (- EPERM, st)
                  else do { st \<leftarrow> change_policy p pol lp st; Some (0, st) }))) })"

definition sys_sched_setscheduler :: "int \<Rightarrow> int \<Rightarrow> addr \<Rightarrow> kst \<Rightarrow> (int \<times> kst) option" where
  "sys_sched_setscheduler n pol param st = setscheduler n pol param st"

definition sys_sched_setparam :: "int \<Rightarrow> addr \<Rightarrow> kst \<Rightarrow> (int \<times> kst) option" where
  "sys_sched_setparam n param st = setscheduler n (- 1) param st"

definition sys_sched_getscheduler :: "int \<Rightarrow> kst \<Rightarrow> int option" where
  "sys_sched_getscheduler n st =
     (if n < 0 then Some (- EINVAL)
      else do {
        q \<leftarrow> find_process_by_pid n st;
        Some (case q of None \<Rightarrow> - ESRCH | Some p \<Rightarrow> sint (policy (tasks st p))) })"

definition sys_sched_getparam :: "int \<Rightarrow> addr \<Rightarrow> kst \<Rightarrow> (int \<times> kst) option" where
  "sys_sched_getparam n param st =
     (if param = 0 \<or> n < 0 then Some (- EINVAL, st)
      else do {
        q \<leftarrow> find_process_by_pid n st;
        Some (case q of
          None \<Rightarrow> (- ESRCH, st)
        | Some p \<Rightarrow> (case copy_out (addr_limit (tsk st)) param [rt_priority (tasks st p)] (mem st) of (ok, m) \<Rightarrow>
            (if ok then 0 else - EFAULT, st\<lparr>mem := m\<rparr>))) })"

definition sys_sched_get_priority_max :: "int \<Rightarrow> int" where
  "sys_sched_get_priority_max pol =
     (if pol = 1 \<or> pol = 2 then MAX_USER_RT_PRIO - 1 else if pol = 0 then 0 else - EINVAL)"

definition sys_sched_get_priority_min :: "int \<Rightarrow> int" where
  "sys_sched_get_priority_min pol = (if pol = 1 \<or> pol = 2 then 1 else if pol = 0 then 0 else - EINVAL)"

section \<open>Affinity: one processor\<close>

definition sys_sched_setaffinity :: "int \<Rightarrow> u32 \<Rightarrow> addr \<Rightarrow> kst \<Rightarrow> (int \<times> kst) option" where
  "sys_sched_setaffinity n len user_mask_ptr st =
     (if len < 4 then Some (- EINVAL, st)
      else case copy_in32 (addr_limit (tsk st)) user_mask_ptr (mem st) of
        None \<Rightarrow> Some (- EFAULT, st)
      | Some new_mask \<Rightarrow> (let new_mask = new_mask AND 1 in
          if new_mask = 0 then Some (- EINVAL, st)
          else do {
            q \<leftarrow> find_process_by_pid n st;
            case q of
              None \<Rightarrow> Some (- ESRCH, st)
            | Some p \<Rightarrow> Some (case capable CAP_SYS_NICE st of (ok, st) \<Rightarrow>
                (let new_mask = (if \<not> ok then new_mask AND cpus_allowed_mask (tasks st p) else new_mask);
                     st = (if ok then upd_task p (\<lambda>t. t\<lparr>cpus_allowed_mask := cpus_allowed_mask t OR new_mask\<rparr>) st else st) in
                 if new_mask = 0 then (- EINVAL, st)
                 else if euid (tsk st) \<noteq> euid (tasks st p) \<and> euid (tsk st) \<noteq> uid (tasks st p) \<and> \<not> fst (capable CAP_SYS_NICE st)
                   then (- EPERM, st)
                 else (0, st))) }))"

definition sys_sched_getaffinity :: "int \<Rightarrow> u32 \<Rightarrow> addr \<Rightarrow> kst \<Rightarrow> (int \<times> kst) option" where
  "sys_sched_getaffinity n len user_mask_ptr st =
     (if len < 4 then Some (- EINVAL, st)
      else do {
        q \<leftarrow> find_process_by_pid n st;
        Some (case q of
          None \<Rightarrow> (- ESRCH, st)
        | Some p \<Rightarrow> (case copy_out (addr_limit (tsk st)) user_mask_ptr [cpus_allowed (tasks st p) AND 1] (mem st) of (ok, m) \<Rightarrow>
            (if ok then 4 else - EFAULT, st\<lparr>mem := m\<rparr>))) })"

section \<open>Yield and intervals\<close>

definition yield_queue :: "kst \<Rightarrow> kst option" where
  "yield_queue st = do {
     let p = cur st;
     a \<leftarrow> array (tasks st p);
     i \<leftarrow> queue_index p st;
     if rt_task (tasks st p) then
       Some (upd_lists (list_add_tail (RunList p) (QHead a i)) (upd_lists (list_del (RunList p)) st))
     else do {
       let st = upd_lists (list_del (RunList p)) st;
       if \<not> list_empty (QHead a i) (lists st) then
         Some (upd_lists (list_add (RunList p) (nxt (lists st) (QHead a i))) st)
       else do {
         let st = upd_array a (\<lambda>x. x\<lparr>bitmap := bitmap_clear i (bitmap x)\<rparr>) st;
         j \<leftarrow> sched_find_first_bit (bitmap (arrays (rq st) a));
         let (j, st) = (if j = 140 \<or> j \<le> i then (i, st) else (j, upd_task p (\<lambda>t. t\<lparr>prio := int j\<rparr>) st));
         let st = upd_lists (list_add (RunList p) (nxt (lists st) (QHead a j))) st;
         Some (upd_array a (\<lambda>x. x\<lparr>bitmap := bitmap_set j (bitmap x)\<rparr>) st) } } }"

definition sys_sched_yield :: "kst \<Rightarrow> (int \<times> kst) option" where
  "sys_sched_yield st = do { st \<leftarrow> yield_queue st; st \<leftarrow> schedule st; Some (0, st) }"

text \<open>Seconds and nanoseconds.\<close>
definition jiffies_to_timespec :: "u32 \<Rightarrow> u32 \<times> u32" where
  "jiffies_to_timespec j = (j div HZ, (j mod HZ) * (1000000000 div HZ))"

definition sys_sched_rr_get_interval :: "int \<Rightarrow> addr \<Rightarrow> kst \<Rightarrow> (int \<times> kst) option" where
  "sys_sched_rr_get_interval n interval st =
     (if n < 0 then Some (- EINVAL, st)
      else do {
        q \<leftarrow> find_process_by_pid n st;
        Some (case q of
          None \<Rightarrow> (- ESRCH, st)
        | Some p \<Rightarrow>
            (let (s, ns) = jiffies_to_timespec (if policy (tasks st p) AND SCHED_FIFO \<noteq> 0 then 0 else of_int (TASK_TIMESLICE (tasks st p)));
                 (ok, m) = copy_out (addr_limit (tsk st)) interval [s, ns] (mem st) in
             (if ok then 0 else - EFAULT, st\<lparr>mem := m\<rparr>))) })"

section \<open>Lemmas\<close>

lemma change_policy_ok:
  assumes inv: "rq_inv st Q" and pol: "pol \<noteq> 0 \<Longrightarrow> 1 \<le> lp \<and> lp \<le> 99" and sp: "0 \<le> static_prio (tasks st p)" "static_prio (tasks st p) < 140"
  shows "\<exists>st' Q'. change_policy p pol lp st = Some st' \<and> rq_inv st' Q' \<and> queued Q' = queued Q \<and>
    policy (tasks st' p) = of_int pol \<and> rt_priority (tasks st' p) = of_int lp \<and> (pol \<noteq> 0 \<longrightarrow> prio (tasks st' p) = 99 - lp) \<and>
    (\<forall>q. q \<noteq> p \<longrightarrow> tasks st' q = tasks st q)"
proof (cases "array (tasks st p)")
  case None
  let ?f = "\<lambda>t. t\<lparr>policy := of_int pol, rt_priority := of_int lp, prio := (if pol \<noteq> 0 then MAX_USER_RT_PRIO - 1 - lp else static_prio t)\<rparr>"
  have "rq_inv (upd_task p ?f st) Q" by (rule rq_inv_upd_prio [OF inv None]) simp
  then show ?thesis using None by (auto simp: change_policy_def)
next
  case (Some a)
  let ?f = "\<lambda>t. t\<lparr>policy := of_int pol, rt_priority := of_int lp, prio := (if pol \<noteq> 0 then MAX_USER_RT_PRIO - 1 - lp else static_prio t)\<rparr>"
  obtain i where i: "p \<in> set (Q a i)" "a < 2" "i < 140" using rq_inv_place [OF inv Some] by blast
  obtain st1 where s1: "deactivate_task p st = Some st1" "rq_inv st1 (abs_dequeue p a i Q)"
    using deactivate_task_refines [OF inv i] by blast
  have t1: "tasks st1 = (tasks st)(p := (tasks st p)\<lparr>array := None\<rparr>)" using deactivate_task_frame(1) [OF s1(1)] .
  have inv2: "rq_inv (upd_task p ?f st1) (abs_dequeue p a i Q)" by (rule rq_inv_upd_prio [OF s1(2)]) (simp_all add: t1)
  let ?t = "tasks (upd_task p ?f st1) p"
  have pr: "array ?t = None" "0 \<le> prio ?t" "prio ?t < 140" using pol sp by (auto simp: t1)
  obtain st3 j where s3: "activate_task p (upd_task p ?f st1) = Some st3" "j < 140"
    "rq_inv st3 (abs_enqueue p (active (rq st1)) j (abs_dequeue p a i Q))"
    using activate_task_refines [OF inv2 pr] by auto
  have t3: "tasks st3 = (tasks (upd_task p ?f st1))(p := (wake_bonus (jiffies st1) ?t)\<lparr>array := Some (active (rq st1))\<rparr>)"
    using activate_task_frame(1) [OF s3(1)] by simp
  have "active (rq st1) < 2" using rq_invD(4) [OF s1(2)] .
  then have q: "queued (abs_enqueue p (active (rq st1)) j (abs_dequeue p a i Q)) = queued Q"
    using queued_enqueue s3(2) queued_dequeue [OF rq_invD(1) [OF inv] i] i by (auto simp: queued_def)
  have "change_policy p pol lp st = Some st3" using Some s1(1) s3(1) by (simp add: change_policy_def)
  moreover have "policy (tasks st3 p) = of_int pol \<and> rt_priority (tasks st3 p) = of_int lp \<and> (pol \<noteq> 0 \<longrightarrow> prio (tasks st3 p) = 99 - lp) \<and>
    (\<forall>q. q \<noteq> p \<longrightarrow> tasks st3 q = tasks st q)"
    using pol unfolding t3 by (auto simp: t1 wake_bonus_def rt_task_def Let_def)
  ultimately show ?thesis using s3(3) q by blast
qed

lemma capable_keeps:
  assumes "capable cap st = (ok, st')"
  shows "rq_inv st Q \<Longrightarrow> rq_inv st' Q" "cur st' = cur st" "q \<noteq> cur st \<Longrightarrow> tasks st' q = tasks st q"
    "static_prio (tasks st' q) = static_prio (tasks st q)" "ok = fst (capable cap st)" "euid (tasks st' q) = euid (tasks st q)"
    "uid (tasks st' q) = uid (tasks st q)" "cap_effective (tasks st' q) = cap_effective (tasks st q)"
    "policy (tasks st' q) = policy (tasks st q)" "rt_priority (tasks st' q) = rt_priority (tasks st q)"
  using assms rq_inv_upd_same [of st Q "\<lambda>t. t\<lparr>flags := flags t OR PF_SUPERPRIV\<rparr>" "cur st"]
  by (auto simp: capable_def split: if_splits)

section \<open>Properties\<close>

text \<open>
  C19. \<open>set_user_nice\<close> of a valid new value on a task that is not real time sets its
  static and dynamic priority, moves it from its queue to the tail of the queue of the new priority
  in the same array if it is queued, and keeps the runqueue invariant. A reschedule is requested only
  when the task is the running one: the test for a raised priority compares the new value with
  itself.
\<close>
theorem set_user_nice_moves:
  assumes inv: "rq_inv st Q" and p: "\<not> rt_task (tasks st p)" "TASK_NICE (tasks st p) \<noteq> nice" "-20 \<le> nice" "nice \<le> 19"
  shows "\<exists>st'. set_user_nice p nice st = Some st' \<and>
    rq_inv st' (case array (tasks st p) of None \<Rightarrow> Q
      | Some a \<Rightarrow> abs_enqueue p a (nat (120 + nice)) (abs_dequeue p a (nat (prio (tasks st p))) Q)) \<and>
    TASK_NICE (tasks st' p) = nice \<and> prio (tasks st' p) = 120 + nice \<and>
    (\<forall>q. need_resched (tasks st' q) =
      (if q = p \<and> array (tasks st p) \<noteq> None \<and> p = rq_curr (rq st) then 1 else need_resched (tasks st q)))"
proof (cases "array (tasks st p)")
  case None
  let ?f = "\<lambda>t. t\<lparr>static_prio := NICE_TO_PRIO nice, prio := NICE_TO_PRIO nice\<rparr>"
  have "rq_inv (upd_task p ?f st) Q" by (rule rq_inv_upd_prio [OF inv None]) simp
  then show ?thesis using None p by (simp add: set_user_nice_def TASK_NICE_def NICE_TO_PRIO_def)
next
  case (Some a)
  let ?f = "\<lambda>t. t\<lparr>static_prio := NICE_TO_PRIO nice, prio := NICE_TO_PRIO nice\<rparr>"
  obtain i where i: "p \<in> set (Q a i)" "a < 2" "i < 140" "prio (tasks st p) = int i" using rq_inv_place [OF inv Some] by blast
  have j: "prio (?f (tasks st p)) = int (nat (120 + nice))" "nat (120 + nice) < 140" using p by (simp_all add: NICE_TO_PRIO_def)
  obtain st1 st2 where s: "dequeue_task p (Some a) st = Some st1" "enqueue_task p (Some a) (upd_task p ?f st1) = Some st2"
    "rq_inv st2 (abs_enqueue p a (nat (120 + nice)) (abs_dequeue p a i Q))" "only_queues st st2"
    "tasks st2 = (tasks st)(p := (?f (tasks st p))\<lparr>array := Some a\<rparr>)"
    using pa.requeue [OF inv i(1-3) i(2), of ?f, OF j] by blast
  define st3 where "st3 = (if p = rq_curr (rq st2) then resched_task p st2 else st2)"
  have c: "rq_curr (rq st2) = rq_curr (rq st)" using s(4) by (simp add: only_queues_def)
  have "set_user_nice p nice st = Some st3"
    using p Some s(1,2,5) by (simp add: set_user_nice_def st3_def)
  moreover have "rq_inv st3 (abs_enqueue p a (nat (120 + nice)) (abs_dequeue p a i Q))"
    using s(3) by (auto simp: st3_def)
  moreover have "TASK_NICE (tasks st3 p) = nice" "prio (tasks st3 p) = 120 + nice"
    "\<And>q. need_resched (tasks st3 q) = (if q = p \<and> p = rq_curr (rq st) then 1 else need_resched (tasks st q))"
    using s(5) c by (auto simp: st3_def TASK_NICE_def NICE_TO_PRIO_def)
  ultimately show ?thesis using Some i(4) by auto
qed

text \<open>The contract of \<open>setscheduler\<close>: the policy asked for, when it fits the priority, and who may set it.\<close>
definition asked_policy :: "int \<Rightarrow> nat \<Rightarrow> kst \<Rightarrow> int" where
  "asked_policy pol p st = (if pol < 0 then sint (policy (tasks st p)) else pol)"

definition policy_fits :: "int \<Rightarrow> int \<Rightarrow> nat \<Rightarrow> kst \<Rightarrow> bool" where
  "policy_fits pol lp p st = ((pol < 0 \<or> pol \<in> {0, 1, 2}) \<and> 0 \<le> lp \<and> lp \<le> 99 \<and> (asked_policy pol p st = 0) = (lp = 0))"

definition policy_allowed :: "int \<Rightarrow> nat \<Rightarrow> kst \<Rightarrow> bool" where
  "policy_allowed pol p st = (fst (capable CAP_SYS_NICE st) \<or>
    asked_policy pol p st \<notin> {1, 2} \<and> (euid (tsk st) = euid (tasks st p) \<or> euid (tsk st) = uid (tasks st p)))"

text \<open>
  With a parameter that can be read and an existing task, \<open>setscheduler\<close> returns
  \<open>EINVAL\<close> for an unknown policy or a priority that does not fit the policy, \<open>EPERM\<close> when the caller
  lacks the capability, 0 otherwise. On success the task has the policy and priority; in every case
  the runqueue invariant holds and the same tasks are queued.
\<close>
theorem setscheduler_decides:
  assumes inv: "rq_inv st Q" and arg: "0 \<le> n" "param \<noteq> 0" "copy_in32 (addr_limit (tsk st)) param (mem st) = Some lp"
    and p: "find_process_by_pid n st = Some (Some p)" "0 \<le> static_prio (tasks st p)" "static_prio (tasks st p) < 140"
  shows "\<exists>st' Q'. setscheduler n pol param st = Some
      (if \<not> policy_fits pol (sint lp) p st then - EINVAL else if \<not> policy_allowed pol p st then - EPERM else 0, st') \<and>
    rq_inv st' Q' \<and> queued Q' = queued Q \<and>
    (if policy_fits pol (sint lp) p st \<and> policy_allowed pol p st
     then policy (tasks st' p) = of_int (asked_policy pol p st) \<and> rt_priority (tasks st' p) = lp \<and>
       (asked_policy pol p st \<noteq> 0 \<longrightarrow> prio (tasks st' p) = 99 - sint lp)
     else \<forall>q. policy (tasks st' q) = policy (tasks st q) \<and> rt_priority (tasks st' q) = rt_priority (tasks st q))"
proof (cases "policy_fits pol (sint lp) p st")
  case False
  then have "setscheduler n pol param st = Some (- EINVAL, st)"
    using arg p(1) by (auto simp: setscheduler_def policy_fits_def asked_policy_def Let_def)
  then show ?thesis using False inv by auto
next
  case fits: True
  define pol' where "pol' = asked_policy pol p st"
  obtain ok1 s1 where s1: "(if pol' = 1 \<or> pol' = 2 then capable CAP_SYS_NICE st else (True, st)) = (ok1, s1)" by fastforce
  obtain ok2 s2 where s2: "(if euid (tsk s1) \<noteq> euid (tasks s1 p) \<and> euid (tsk s1) \<noteq> uid (tasks s1 p)
      then capable CAP_SYS_NICE s1 else (True, s1)) = (ok2, s2)" by fastforce
  have k1: "rq_inv s1 Q" "cur s1 = cur st" "\<And>q. static_prio (tasks s1 q) = static_prio (tasks st q)" "\<And>q. euid (tasks s1 q) = euid (tasks st q)"
    "\<And>q. uid (tasks s1 q) = uid (tasks st q)" "\<And>q. cap_effective (tasks s1 q) = cap_effective (tasks st q)"
    "\<And>q. policy (tasks s1 q) = policy (tasks st q)" "\<And>q. rt_priority (tasks s1 q) = rt_priority (tasks st q)"
    using s1 inv capable_keeps [of CAP_SYS_NICE st ok1 s1] by (auto split: if_splits)
  have k2: "rq_inv s2 Q" "\<And>q. static_prio (tasks s2 q) = static_prio (tasks st q)"
    "\<And>q. policy (tasks s2 q) = policy (tasks st q)" "\<And>q. rt_priority (tasks s2 q) = rt_priority (tasks st q)"
    using s2 k1 capable_keeps [of CAP_SYS_NICE s1 ok2 s2] by (auto split: if_splits)
  have c1: "fst (capable CAP_SYS_NICE s1) = fst (capable CAP_SYS_NICE st)" using k1(2,6) by (simp add: capable_def)
  have o1: "ok1 = (pol' \<in> {1, 2} \<longrightarrow> fst (capable CAP_SYS_NICE st))" using s1 by (auto split: if_splits)
  have o2: "ok2 = (euid (tsk s1) \<noteq> euid (tasks s1 p) \<and> euid (tsk s1) \<noteq> uid (tasks s1 p) \<longrightarrow> fst (capable CAP_SYS_NICE st))"
    using s2 c1 by (auto split: if_splits)
  have al: "policy_allowed pol p st = (ok1 \<and> ok2)"
    using o1 o2 k1(2) unfolding policy_allowed_def pol'_def [symmetric] by (auto simp: k1(4,5))
  have ok: "\<not> (pol \<ge> 0 \<and> pol \<noteq> 1 \<and> pol \<noteq> 2 \<and> pol \<noteq> 0)" "\<not> sint lp < 0" "\<not> 99 < sint lp"
    "(pol' = 0) = (sint lp = 0)" using fits by (auto simp: policy_fits_def pol'_def)
  have eq: "setscheduler n pol param st = (if \<not> ok1 then Some (- EPERM, s1) else if \<not> ok2 then Some (- EPERM, s2)
      else do { st \<leftarrow> change_policy p pol' (sint lp) s2; Some (0, st) })"
    using arg(1,2) unfolding setscheduler_def arg(3) p(1) Let_def
    by (simp add: asked_policy_def [symmetric] pol'_def [symmetric] ok s1 s2 cong: if_cong)
  show ?thesis
  proof (cases "policy_allowed pol p st")
    case False
    then show ?thesis using al eq k1 k2 fits by auto
  next
    case True
    have "pol' \<noteq> 0 \<Longrightarrow> 1 \<le> sint lp \<and> sint lp \<le> 99" using fits by (auto simp: policy_fits_def pol'_def)
    from change_policy_ok [where p = p and pol = pol', OF k2(1) this] obtain st' Q' where st': "change_policy p pol' (sint lp) s2 = Some st'" "rq_inv st' Q'"
      "queued Q' = queued Q" "policy (tasks st' p) = of_int pol'" "rt_priority (tasks st' p) = of_int (sint lp)"
      "pol' \<noteq> 0 \<longrightarrow> prio (tasks st' p) = 99 - sint lp" using p(2,3) k2(2) by auto
    then show ?thesis using True al eq fits by (auto simp: pol'_def)
  qed
qed

lemma booted_pid: "tasks booted 1 = (INIT_TASK 1)\<lparr>prio := 110, pid := 1, array := Some 0\<rparr>"
  using booted_facts(9) [of 1] booted_facts(11) [of 1] by (simp add: boot_kst_def INIT_TASK_def)

text \<open>The boot task gives task 1 the nice value 5: it moves from queue 110 to queue 125.\<close>
theorem set_user_nice_moves_witness:
  "\<exists>st'. set_user_nice 1 5 booted = Some st' \<and> rq_inv st' (abs_enqueue 1 0 125 (abs_dequeue 1 0 110 booted_queues)) \<and>
    TASK_NICE (tasks st' 1) = 5"
proof -
  have t: "prio (tasks booted 1) = 110" "static_prio (tasks booted 1) = 120" "array (tasks booted 1) = Some 0"
    unfolding booted_pid by (simp_all add: INIT_TASK_def)
  then show ?thesis using set_user_nice_moves [OF booted_facts(1), of 1 5]
    by (simp add: rt_task_def TASK_NICE_def del: One_nat_def) blast
qed

definition rt_param :: kst where
  "rt_param = booted\<lparr>mem := (\<lambda>a. if 0x1000 \<le> a \<and> a < 0x1004 then Some (if a = 0x1000 then 7 else 0) else None)\<rparr>"

text \<open>The boot task makes itself a round-robin task of priority 7; a negative priority is refused.\<close>
theorem setscheduler_decides_witness:
  "\<exists>st'. setscheduler 0 2 0x1000 rt_param = Some (0, st') \<and> policy (tasks st' 0) = 2 \<and> prio (tasks st' 0) = 92"
proof -
  have t: "tasks rt_param 0 = tasks booted 0" "mem rt_param = (\<lambda>a. if 0x1000 \<le> a \<and> a < 0x1004 then Some (if a = 0x1000 then 7 else 0) else None)"
    "cur rt_param = 0" "static_prio (tasks booted 0) = 120" "addr_limit (tasks booted 0) = 0xFFFFFFFF" "cap_effective (tasks booted 0) = 0xFFFFFEFF"
    by (simp_all add: rt_param_def booted_facts(2)) (subst booted_facts(9), simp add: boot_kst_def INIT_TASK_def)+
  have "rq_inv rt_param booted_queues" using booted_facts(1) by (simp add: rt_param_def)
  moreover have "copy_in32 (addr_limit (tsk rt_param)) 0x1000 (mem rt_param) = Some 7"
    unfolding t by code_simp
  moreover have "find_process_by_pid 0 rt_param = Some (Some 0)" by (simp add: find_process_by_pid_def t)
  moreover have "policy_fits 2 7 0 rt_param" "policy_allowed 2 0 rt_param" "asked_policy 2 0 rt_param = 2"
    by (simp_all add: policy_fits_def policy_allowed_def asked_policy_def capable_def t)
  ultimately show ?thesis
    using setscheduler_decides [where st = rt_param and Q = booted_queues and n = 0 and param = "0x1000" and lp = 7 and p = 0 and pol = 2] t
    by auto
qed

end
