(* ===== verification/Fork.thy ===== *)
theory Fork
  imports Ptable Sched_Calls
begin

text \<open>
  The creation of a process, \<open>do_fork\<close> of \<open>kernel/fork.c\<close> with the changes of the assignments: the checks
  and the copy of the task structure, the new process number, the wand fields and the empty list of stolen
  secrets, the split of the time slice, the links, and the first wake-up.

  Parameters: \<open>kmalloc\<close>; \<open>alloc\<close>, which chooses a \<open>task_struct\<close> that is not in use (the page
  allocator); \<open>copies\<close>, the copying of files, file-system context, signal handlers, address space,
  namespace and registers, with the release of what was copied when one of them fails (its result is 0 or
  the error); \<open>send_sig\<close>. Fields of the task that no modelled code reads (accounting, timers, executable
  format, terminal) do not occur. The queue of pending signals belongs to the state of \<open>Signal\<close>, so of the
  signal fields only the flag \<open>sigpending\<close> is cleared here; \<open>init_sigpending\<close> itself is defined in \<open>Sigqueue\<close>.
\<close>

section \<open>The function\<close>

abbreviation (input) CSIGNAL :: u32 where "CSIGNAL \<equiv> 0xff"
abbreviation (input) CLONE_FS :: u32 where "CLONE_FS \<equiv> 0x200"
abbreviation (input) CLONE_PTRACE :: u32 where "CLONE_PTRACE \<equiv> 0x2000"
abbreviation (input) CLONE_VFORK :: u32 where "CLONE_VFORK \<equiv> 0x4000"
abbreviation (input) CLONE_PARENT :: u32 where "CLONE_PARENT \<equiv> 0x8000"
abbreviation (input) CLONE_THREAD :: u32 where "CLONE_THREAD \<equiv> 0x10000"
abbreviation (input) CLONE_NEWNS :: u32 where "CLONE_NEWNS \<equiv> 0x20000"
abbreviation (input) PF_FORKNOEXEC :: u32 where "PF_FORKNOEXEC \<equiv> 0x40"
abbreviation (input) PF_USEDFPU :: u32 where "PF_USEDFPU \<equiv> 0x100000"
abbreviation (input) PT_PTRACED :: u32 where "PT_PTRACED \<equiv> 1"
abbreviation (input) CAP_SYS_ADMIN :: nat where "CAP_SYS_ADMIN \<equiv> 21"
abbreviation (input) CAP_SYS_RESOURCE :: nat where "CAP_SYS_RESOURCE \<equiv> 24"
abbreviation (input) SIGSTOP :: int where "SIGSTOP \<equiv> 19"

type_synonym copier = "u32 \<Rightarrow> task \<Rightarrow> kst \<Rightarrow> int \<times> kst"
type_synonym sender = "int \<Rightarrow> task \<Rightarrow> kst \<Rightarrow> kst"

definition fork_init :: "u32 \<Rightarrow> kst \<Rightarrow> kst" where
  "fork_init mempages st =
     (let st = upd_sys (\<lambda>s. s\<lparr>max_threads := sint (mempages div 2 div 8)\<rparr>) st
      in upd_task init_task (\<lambda>t. t\<lparr>rlim_nproc := of_int (cdiv (max_threads (sys st)) 2)\<rparr>) st)"

definition copy_flags :: "u32 \<Rightarrow> task \<Rightarrow> kst \<Rightarrow> kst" where
  "copy_flags clone_flags p st =
     (let new_flags = flags (tasks st p);
          new_flags = new_flags AND NOT (PF_SUPERPRIV OR PF_USEDFPU);
          new_flags = new_flags OR PF_FORKNOEXEC;
          st = (if clone_flags AND CLONE_PTRACE = 0 then upd_task p (\<lambda>t. t\<lparr>ptrace := 0\<rparr>) st else st)
      in upd_task p (\<lambda>t. t\<lparr>flags := new_flags\<rparr>) st)"

text \<open>\<open>free_uid\<close> gives one reference back; the memory of a user nobody refers to is not modelled.\<close>
definition free_uid :: "nat \<Rightarrow> kst \<Rightarrow> kst" where
  "free_uid u = upd_sys (\<lambda>s. s\<lparr>user_count := (user_count s)(u := user_count s u - 1)\<rparr>)"

definition free_task_struct :: "task \<Rightarrow> kst \<Rightarrow> kst" where
  "free_task_struct p = upd_sys (\<lambda>s. s\<lparr>task_used := (task_used s)(p := False)\<rparr>)"

text \<open>From the label \<open>bad_fork_cleanup_count\<close> on; executable formats and domains are not modelled.\<close>
definition bad_fork_cleanup :: "task \<Rightarrow> kst \<Rightarrow> kst" where
  "bad_fork_cleanup p st =
     (let u = user (tasks st p);
          st = upd_sys (\<lambda>s. s\<lparr>processes := (processes s)(u := processes s u - 1)\<rparr>) st
      in free_task_struct p (free_uid u st))"

text \<open>\<open>*p = *current\<close>, the nodes and wait queue embedded in the structure included.\<close>
definition copy_node :: "node \<Rightarrow> node \<Rightarrow> node lheap \<Rightarrow> node lheap" where
  "copy_node a b h = h\<lparr>nxt := (nxt h)(b := nxt h a), prv := (prv h)(b := prv h a)\<rparr>"

definition copy_task :: "task \<Rightarrow> task \<Rightarrow> kst \<Rightarrow> kst" where
  "copy_task q p st =
     (let st = upd_task p (\<lambda>_. tasks st q) st;
          st = upd_lists (copy_node (RunList q) (RunList p)) st;
          st = upd_lists (copy_node (ThreadGroup q) (ThreadGroup p)) st
      in upd_lists (copy_node (WqHead (WaitChldexit q)) (WqHead (WaitChldexit p))) st)"

text \<open>The limit of processes of a user, which two capabilities lift.\<close>
definition fork_allowed :: "task \<Rightarrow> kst \<Rightarrow> bool \<times> kst" where
  "fork_allowed p st =
     (if processes (sys st) (user (tasks st p)) \<ge> rlim_nproc (tasks st p)
      then (case capable CAP_SYS_ADMIN st of (ok, st) \<Rightarrow> if ok then (True, st) else capable CAP_SYS_RESOURCE st)
      else (True, st))"

text \<open>From the counting of the process to the initialisation of its fields.\<close>
definition fork_number :: "u32 \<Rightarrow> nat \<Rightarrow> task \<Rightarrow> kst \<Rightarrow> (int \<times> kst) option" where
  "fork_number clone_flags vfork p st = do {
     let u = user (tasks st p);
     let st = upd_sys (\<lambda>s. s\<lparr>user_count := (user_count s)(u := user_count s u + 1)\<rparr>) st;
     let st = upd_sys (\<lambda>s. s\<lparr>processes := (processes s)(u := processes s u + 1)\<rparr>) st;
     if nr_threads (sys st) \<ge> max_threads (sys st) then Some (- EAGAIN, bad_fork_cleanup p st)
     else do {
       let st = upd_task p (\<lambda>t. t\<lparr>state := TASK_UNINTERRUPTIBLE\<rparr>) st;
       let st = copy_flags clone_flags p st;
       (n, st) \<leftarrow> get_pid clone_flags st;
       let st = upd_task p (\<lambda>t. t\<lparr>pid := n\<rparr>) st;
       if n = 0 \<and> pid (tsk st) \<noteq> 0 then Some (- EAGAIN, bad_fork_cleanup p st)
       else do {
         let st = upd_lists (INIT_LIST_HEAD (RunList p)) st;
         let st = upd_task p (\<lambda>t. t\<lparr>p_cptr := None\<rparr>) st;
         let st = init_waitqueue_head (WaitChldexit p) st;
         let st = upd_task p (\<lambda>t. t\<lparr>vfork_done := None\<rparr>) st;
         let st = (if clone_flags AND CLONE_VFORK \<noteq> 0
                   then init_completion vfork (upd_task p (\<lambda>t. t\<lparr>vfork_done := Some vfork\<rparr>) st) else st);
         Some (0, upd_task p (\<lambda>t. t\<lparr>sigpending := 0, leader := 0, tms_utime := 0, tms_stime := 0,
           tms_cutime := 0, tms_cstime := 0, array := None, lock_depth := -1\<rparr>) st) } } }"

text \<open>The first part: 0, or an error after which everything taken so far has been given back.\<close>
definition fork_head :: "u32 \<Rightarrow> nat \<Rightarrow> task \<Rightarrow> kst \<Rightarrow> (int \<times> kst) option" where
  "fork_head clone_flags vfork p st =
     (let st = copy_task (cur st) p st;
          st = upd_task p (\<lambda>t. t\<lparr>cpus_allowed_mask := cpus_allowed_mask t AND cpus_allowed t\<rparr>) st
      in case fork_allowed p st of (ok, st) \<Rightarrow>
           if \<not> ok then Some (- EAGAIN, free_task_struct p st) else fork_number clone_flags vfork p st)"

text \<open>The changes of the assignments: no wand, no magic, an empty list of secrets; whether there was memory.\<close>
definition fork_wand :: "kmalloc \<Rightarrow> task \<Rightarrow> kst \<Rightarrow> bool \<times> kst" where
  "fork_wand kmalloc p st =
     (let st = upd_task p (\<lambda>t. t\<lparr>holding_wand := 0, my_secret := 0, magic_time := 0, started_magic := 0,
                                magic_call_time := 0\<rparr>) st;
          (new_head, m) = kmalloc 8 (mem st);
          st = st\<lparr>mem := m\<rparr>
      in if new_head = 0 then (False, st)
         else (let st = upd_lists (INIT_LIST_HEAD (SecHead new_head)) st
               in (True, upd_task p (\<lambda>t. t\<lparr>secrets_ptr := new_head\<rparr>) st)))"

text \<open>The time slice is shared between parent and child; \<open>BUG()\<close> does not return.\<close>
definition fork_slices :: "task \<Rightarrow> kst \<Rightarrow> kst option" where
  "fork_slices p st =
     (if time_slice (tsk st) = 0 then None
      else do {
        let st = upd_task p (\<lambda>t. t\<lparr>time_slice := drop_bit 1 (time_slice (tsk st) + 1)\<rparr>) st;
        let st = upd_task p (\<lambda>t. t\<lparr>first_time_slice := 1\<rparr>) st;
        let st = upd_task (cur st) (\<lambda>t. t\<lparr>time_slice := drop_bit 1 (time_slice t)\<rparr>) st;
        let st = upd_task p (\<lambda>t. t\<lparr>sleep_timestamp := jiffies st\<rparr>) st;
        if time_slice (tsk st) = 0
        then scheduler_tick 0 0 (upd_task (cur st) (\<lambda>t. t\<lparr>time_slice := 1\<rparr>) st)
        else Some st })"

definition fork_link :: "u32 \<Rightarrow> task \<Rightarrow> kst \<Rightarrow> kst" where
  "fork_link clone_flags p st =
     (let c = cur st;
          st = upd_task p (\<lambda>t. t\<lparr>tgid := pid t\<rparr>) st;
          st = upd_lists (INIT_LIST_HEAD (ThreadGroup p)) st;
          st = upd_task p (\<lambda>t. t\<lparr>p_opptr := p_opptr (tasks st c), p_pptr := p_pptr (tasks st c)\<rparr>) st;
          st = (if clone_flags AND CLONE_PARENT = 0 then
                  (let st = upd_task p (\<lambda>t. t\<lparr>p_opptr := c\<rparr>) st
                   in if ptrace (tasks st p) AND PT_PTRACED = 0 then upd_task p (\<lambda>t. t\<lparr>p_pptr := c\<rparr>) st else st)
                else st);
          st = (if clone_flags AND CLONE_THREAD \<noteq> 0 then
                  upd_lists (list_add (ThreadGroup p) (ThreadGroup c)) (upd_task p (\<lambda>t. t\<lparr>tgid := tgid (tasks st c)\<rparr>) st)
                else st);
          st = hash_pid p (SET_LINKS p st)
      in upd_sys (\<lambda>s. s\<lparr>nr_threads := nr_threads s + 1\<rparr>) st)"

text \<open>
  What follows the copying. With \<open>CLONE_VFORK\<close> the parent waits (its stack entry is \<open>w\<close>); the value is
  returned when \<open>wait_for_completion\<close> has returned.
\<close>
definition fork_tail :: "kmalloc \<Rightarrow> sender \<Rightarrow> u32 \<Rightarrow> nat \<Rightarrow> nat \<Rightarrow> task \<Rightarrow> kst \<Rightarrow> (int \<times> kst) option" where
  "fork_tail kmalloc send_sig clone_flags vfork w p st = do {
     let st = upd_task p (\<lambda>t. t\<lparr>parent_exec_id := self_exec_id t\<rparr>) st;
     let st = upd_task p (\<lambda>t. t\<lparr>exit_signal := uint (clone_flags AND CSIGNAL), pdeath_signal := 0\<rparr>) st;
     let (ok, st) = fork_wand kmalloc p st;
     if \<not> ok then Some (- ENOMEM, st)
     else do {
       st \<leftarrow> fork_slices p st;
       let retval = pid (tasks st p);
       let st = fork_link clone_flags p st;
       let st = (if ptrace (tasks st p) AND PT_PTRACED \<noteq> 0 then send_sig SIGSTOP p st else st);
       st \<leftarrow> wake_up_forked_process p st;
       let st = upd_sys (\<lambda>s. s\<lparr>total_forks := total_forks s + 1\<rparr>) st;
       if clone_flags AND CLONE_VFORK \<noteq> 0 then do {
         (_, st) \<leftarrow> wait_for_completion vfork w st;
         Some (retval, st) }
       else Some (retval, upd_task (cur st) (\<lambda>t. t\<lparr>need_resched := 1\<rparr>) st) } }"

definition do_fork ::
  "kmalloc \<Rightarrow> ((task \<Rightarrow> bool) \<Rightarrow> task option) \<Rightarrow> copier \<Rightarrow> sender \<Rightarrow> u32 \<Rightarrow> nat \<Rightarrow> nat \<Rightarrow> kst \<Rightarrow> (int \<times> kst) option" where
  "do_fork kmalloc alloc copies send_sig clone_flags vfork w st =
     (if clone_flags AND (CLONE_NEWNS OR CLONE_FS) = CLONE_NEWNS OR CLONE_FS then Some (- EINVAL, st)
      else if clone_flags AND CLONE_PID \<noteq> 0 \<and> pid (tsk st) \<noteq> 0 then Some (- EPERM, st)
      else case alloc (task_used (sys st)) of
        None \<Rightarrow> Some (- ENOMEM, st)
      | Some p \<Rightarrow> do {
          let st = upd_sys (\<lambda>s. s\<lparr>task_used := (task_used s)(p := True)\<rparr>) st;
          (r, st) \<leftarrow> fork_head clone_flags vfork p st;
          if r \<noteq> 0 then Some (r, st)
          else do {
            let (r, st) = copies clone_flags p st;
            if r \<noteq> 0 then Some (r, bad_fork_cleanup p st)
            else fork_tail kmalloc send_sig clone_flags vfork w p st } })"

section \<open>What the parts do\<close>

lemma rq_inv_view:
  assumes inv: "rq_inv st Q" and l: "same_lists run_node st st'" "rq st' = rq st"
    and t: "\<And>t. array (tasks st' t) = array (tasks st t)" "\<And>t. prio (tasks st' t) = prio (tasks st t)"
  shows "rq_inv st' Q"
proof -
  have d: "dlist (lists st') (QHead a i) (map RunList (Q a i))" if "a < 2" "i < 140" for a i
    by (rule same_lists_dlist [OF l(1) queuesD(1) [OF rq_invD(1) [OF inv] that]]) auto
  then show ?thesis using inv by (simp add: rq_inv_def queues_def l(2) t)
qed

lemma fork_wand_eq:
  assumes "kmalloc 8 (mem st) = (a, m)" "a \<noteq> 0"
  shows "fork_wand kmalloc p st = (True, upd_task p (\<lambda>t. t\<lparr>holding_wand := 0, my_secret := 0, magic_time := 0, started_magic := 0,
    magic_call_time := 0, secrets_ptr := a\<rparr>) (upd_lists (INIT_LIST_HEAD (SecHead a)) (st\<lparr>mem := m\<rparr>)))"
  using assms by (simp add: fork_wand_def Let_def upd_task_def upd_lists_def)

lemma unat_half: "unat (drop_bit 1 (x :: u32)) = unat x div 2"
  by (simp add: drop_bit_eq_div unat_div)

lemma half_nonzero: "1 < (x :: u32) \<Longrightarrow> drop_bit 1 x \<noteq> 0"
proof
  assume x: "1 < x" "drop_bit 1 x = 0"
  have "1 < unat x" using x(1) by (simp add: word_less_nat_alt)
  then show False using x(2) unat_half [of x] by simp
qed

text \<open>The two halves of a time slice.\<close>
lemma slice_split:
  assumes "1 < (x :: u32)" "x \<noteq> - 1"
  shows "unat (drop_bit 1 (x + 1)) + unat (drop_bit 1 x) = unat x" "0 < drop_bit 1 (x + 1)" "0 < drop_bit 1 x"
proof -
  have s: "unat (x + 1) = Suc (unat x)" using assms(2) by (metis add.commute add_eq_0_iff unatSuc)
  then show "unat (drop_bit 1 (x + 1)) + unat (drop_bit 1 x) = unat x" unfolding unat_half s by presburger
  have "1 < unat x" using assms(1) by (simp add: word_less_nat_alt)
  then have "0 < unat (drop_bit 1 (x + 1))" "0 < unat (drop_bit 1 x)" using s unfolding unat_half by auto
  then show "0 < drop_bit 1 (x + 1)" "0 < drop_bit 1 x" by (simp_all only: word_less_nat_alt unsigned_0)
qed

lemma fork_slices_eq:
  assumes "cur st \<noteq> p" "1 < time_slice (tsk st)"
  shows "fork_slices p st = Some (upd_task (cur st) (\<lambda>t. t\<lparr>time_slice := drop_bit 1 (time_slice t)\<rparr>)
    (upd_task p (\<lambda>t. t\<lparr>time_slice := drop_bit 1 (time_slice (tsk st) + 1), first_time_slice := 1, sleep_timestamp := jiffies st\<rparr>) st))"
proof -
  have "time_slice (tsk st) \<noteq> 0" using assms(2) by auto
  then show ?thesis using assms half_nonzero [OF assms(2)]
    by (simp add: fork_slices_def Let_def) (simp add: upd_task_def fun_upd_twist)
qed

lemma fork_link_eq:
  assumes "cur st \<noteq> p" "clone_flags AND CLONE_PARENT = 0" "clone_flags AND CLONE_THREAD = 0" "ptrace (tasks st p) AND PT_PTRACED = 0"
  shows "fork_link clone_flags p st = upd_sys (\<lambda>s. s\<lparr>nr_threads := nr_threads s + 1\<rparr>) (hash_pid p (SET_LINKS p
    (upd_task p (\<lambda>t. t\<lparr>tgid := pid t, p_opptr := cur st, p_pptr := cur st\<rparr>) (upd_lists (INIT_LIST_HEAD (ThreadGroup p)) st))))"
  using assms by (simp add: fork_link_def Let_def) (simp add: upd_task_def upd_lists_def)

text \<open>The fields the wand calls and the parent of a fork look at.\<close>
definition wview :: "task_struct \<Rightarrow> _" where
  "wview t = (holding_wand t, health t, power t, my_secret t, secrets_ptr t, time_slice t)"

lemma wake_bonus_views: "lview (wake_bonus now t) = lview t" "wview (wake_bonus now t) = wview t"
  by (simp_all add: wake_bonus_def Let_def lview_def wview_def)

lemma view_upd:
  "lview (t\<lparr>array := a\<rparr>) = lview t" "wview (t\<lparr>array := a\<rparr>) = wview t"
  "lview (t\<lparr>state := s\<rparr>) = lview t" "wview (t\<lparr>state := s\<rparr>) = wview t"
  "lview (t\<lparr>sleep_avg := x\<rparr>) = lview t" "wview (t\<lparr>sleep_avg := x\<rparr>) = wview t"
  "lview (t\<lparr>prio := i\<rparr>) = lview t" "wview (t\<lparr>prio := i\<rparr>) = wview t"
  "lview (t\<lparr>need_resched := r\<rparr>) = lview t" "wview (t\<lparr>need_resched := r\<rparr>) = wview t"
  "lview (t\<lparr>time_slice := u\<rparr>) = lview t"
  by (simp_all add: lview_def wview_def)

text \<open>What the wake-up of the child keeps.\<close>
definition kept :: "kst \<Rightarrow> kst \<Rightarrow> bool" where
  "kept st st' = ((\<forall>t. lview (tasks st' t) = lview (tasks st t) \<and> wview (tasks st' t) = wview (tasks st t)) \<and>
     pidhash st' = pidhash st \<and> sys st' = sys st \<and> cur st' = cur st \<and> mem st' = mem st \<and>
     same_lists (\<lambda>n. \<not> run_node n) st st')"

lemma wake_up_forked_ok:
  assumes inv: "rq_inv st Q" and p: "array (tasks st p) = None" "0 \<le> prio (tasks st p)" "prio (tasks st p) < 140" "cur st \<noteq> p"
  shows "\<exists>st' Q'. wake_up_forked_process p st = Some st' \<and> rq_inv st' Q' \<and> queued Q' = insert p (queued Q) \<and> kept st st'"
proof -
  define s1 where "s1 = upd_task p (\<lambda>t. t\<lparr>state := TASK_RUNNING\<rparr>) st"
  define s2 where "s2 = (if \<not> rt_task (tasks s1 p)
    then upd_task p (\<lambda>t. t\<lparr>prio := effective_prio t\<rparr>) (upd_task p (\<lambda>t. t\<lparr>sleep_avg := sleep_avg t * 95 div 100\<rparr>)
      (upd_task (cur st) (\<lambda>t. t\<lparr>sleep_avg := sleep_avg t * 100 div 100\<rparr>) s1)) else s1)"
  have eq: "wake_up_forked_process p st = activate_task p s2"
    unfolding wake_up_forked_process_def Let_def s2_def s1_def by simp
  have r: "0 \<le> effective_prio t" "effective_prio t < 140" for t using effective_prio_range [of t] by auto
  have s2: "array (tasks s2 p) = None" "0 \<le> prio (tasks s2 p)" "prio (tasks s2 p) < 140"
    using p r by (simp_all add: s2_def s1_def)
  have "rq_inv s1 Q" using inv by (simp add: s1_def)
  moreover have "rq_inv (upd_task (cur st) (\<lambda>t. t\<lparr>sleep_avg := sleep_avg t * 100 div 100\<rparr>) s1) Q"
    using \<open>rq_inv s1 Q\<close> by (rule rq_inv_upd_same) simp_all
  then have "rq_inv (upd_task p (\<lambda>t. t\<lparr>sleep_avg := sleep_avg t * 95 div 100\<rparr>)
      (upd_task (cur st) (\<lambda>t. t\<lparr>sleep_avg := sleep_avg t * 100 div 100\<rparr>) s1)) Q" by (rule rq_inv_upd_same) simp_all
  then have "rq_inv (upd_task p (\<lambda>t. t\<lparr>prio := effective_prio t\<rparr>) (upd_task p (\<lambda>t. t\<lparr>sleep_avg := sleep_avg t * 95 div 100\<rparr>)
      (upd_task (cur st) (\<lambda>t. t\<lparr>sleep_avg := sleep_avg t * 100 div 100\<rparr>) s1))) Q"
    by (rule rq_inv_upd_prio) (use p in \<open>simp_all add: s1_def\<close>)
  ultimately have i2: "rq_inv s2 Q" by (simp add: s2_def)
  obtain st' j where st': "activate_task p s2 = Some st'" "j < 140" "rq_inv st' (abs_enqueue p (active (rq s2)) j Q)"
    using activate_task_refines [OF i2 s2] by blast
  note f = activate_task_frame [OF st'(1)] activate_task_lists [OF i2 s2(2,3) st'(1)]
  have l2: "lists s2 = lists st" "sys s2 = sys st" "cur s2 = cur st" "mem s2 = mem st" "pidhash s2 = pidhash st"
    by (simp_all add: s2_def s1_def)
  have v: "lview (tasks s2 t) = lview (tasks st t) \<and> wview (tasks s2 t) = wview (tasks st t)" for t
    by (simp add: s2_def s1_def view_upd)
  have "lview (tasks st' t) = lview (tasks s2 t) \<and> wview (tasks st' t) = wview (tasks s2 t)" for t
    by (simp add: f(1) view_upd wake_bonus_views)
  then have "kept st st'" using v f(2,3,4) l2 by (simp add: kept_def only_queues_def same_lists_def)
  moreover have "queued (abs_enqueue p (active (rq s2)) j Q) = insert p (queued Q)"
    using queued_enqueue [OF rq_invD(4) [OF i2] st'(2)] .
  ultimately show ?thesis using eq st' by auto
qed

lemma link_frame:
  "lists (SET_LINKS p st) = lists st" "rq (SET_LINKS p st) = rq st" "cur (SET_LINKS p st) = cur st" "mem (SET_LINKS p st) = mem st"
  "sys (SET_LINKS p st) = sys st" "lists (hash_pid p st) = lists st" "rq (hash_pid p st) = rq st" "cur (hash_pid p st) = cur st"
  "mem (hash_pid p st) = mem st" "sys (hash_pid p st) = sys st"
  by (simp_all add: SET_LINKS_def hash_pid_def Let_def split: option.split del: tasks_upd)

lemma link_keeps:
  "wview (tasks (hash_pid p (SET_LINKS p st)) t) = wview (tasks st t)" "array (tasks (hash_pid p (SET_LINKS p st)) t) = array (tasks st t)"
  "prio (tasks (hash_pid p (SET_LINKS p st)) t) = prio (tasks st t)" "ptrace (tasks (hash_pid p (SET_LINKS p st)) t) = ptrace (tasks st t)"
proof -
  have h: "wview (tasks (hash_pid p s) t) = wview (tasks s t)" for s by (rule hash_pid_other) (simp_all add: wview_def)
  have l: "wview (tasks (SET_LINKS p st) t) = wview (tasks st t)" by (rule SET_LINKS_other) (simp_all add: wview_def)
  show "wview (tasks (hash_pid p (SET_LINKS p st)) t) = wview (tasks st t)" using h l by simp
qed (simp_all add: hash_pid_other SET_LINKS_other)

lemma ptable_new:
  assumes t: "ptable st ts F H" and p: "p \<notin> set ts" "p \<noteq> init_task"
    and v: "\<And>t. t \<noteq> p \<Longrightarrow> lview (tasks st' t) = lview (tasks st t)" "p_cptr (tasks st' p) = p_cptr (tasks st p)" "pidhash st' = pidhash st"
  shows "ptable st' ts F H"
proof -
  let ?s = "upd_task p (\<lambda>x. (tasks st' p)\<lparr>p_cptr := p_cptr x\<rparr>) st"
  have "ptable ?s ts F H" by (rule ptable_upd_new [OF t p]) simp
  moreover have "lview (tasks st' x) = lview (tasks ?s x)" for x using v(1) [of x] v(2) by (simp add: lview_def)
  ultimately show ?thesis using ptable_cong [of st' ?s] v(3) by simp
qed

text \<open>The state of the child when it is linked: what the earlier parts made of it.\<close>
lemma fork_prepared:
  fixes p :: task and e :: int
  assumes km: "kmalloc 8 (mem st) = (a, m)" "a \<noteq> 0" and c: "cur st \<noteq> p" and ts: "1 < time_slice (tsk st)"
  defines "s0 \<equiv> upd_task p (\<lambda>t. t\<lparr>exit_signal := e, pdeath_signal := 0\<rparr>) (upd_task p (\<lambda>t. t\<lparr>parent_exec_id := self_exec_id t\<rparr>) st)"
  shows "\<exists>s1 s2. fork_wand kmalloc p s0 = (True, s1) \<and> fork_slices p s1 = Some s2 \<and>
    (\<forall>t. t \<noteq> p \<longrightarrow> lview (tasks s2 t) = lview (tasks st t) \<and> (t \<noteq> cur st \<longrightarrow> wview (tasks s2 t) = wview (tasks st t))) \<and>
    (\<forall>t. array (tasks s2 t) = array (tasks st t) \<and> prio (tasks s2 t) = prio (tasks st t)) \<and>
    wview (tasks s2 (cur st)) = (case wview (tsk st) of (w, h, k, ms, sp, u) \<Rightarrow> (w, h, k, ms, sp, drop_bit 1 u)) \<and>
    wview (tasks s2 p) = (0, health (tasks st p), power (tasks st p), 0, a, drop_bit 1 (time_slice (tsk st) + 1)) \<and>
    pid (tasks s2 p) = pid (tasks st p) \<and> p_cptr (tasks s2 p) = p_cptr (tasks st p) \<and> ptrace (tasks s2 p) = ptrace (tasks st p) \<and>
    lists s2 = INIT_LIST_HEAD (SecHead a) (lists st) \<and> mem s2 = m \<and> rq s2 = rq st \<and> sys s2 = sys st \<and> cur s2 = cur st \<and>
    pidhash s2 = pidhash st"
proof -
  let ?g = "\<lambda>t. t\<lparr>holding_wand := 0, my_secret := 0, magic_time := 0, started_magic := 0, magic_call_time := 0, secrets_ptr := a\<rparr>"
  define s1 where "s1 = upd_task p ?g (upd_lists (INIT_LIST_HEAD (SecHead a)) (s0\<lparr>mem := m\<rparr>))"
  have w: "fork_wand kmalloc p s0 = (True, s1)" unfolding s1_def by (rule fork_wand_eq) (use km in \<open>simp_all add: s0_def\<close>)
  have t1: "cur s1 = cur st" "tasks s1 (cur st) = tsk st" using c by (simp_all add: s1_def s0_def)
  note sl = fork_slices_eq [of s1 p, unfolded t1, OF c ts]
  show ?thesis
    by (intro exI conjI) (rule w, rule sl, use c in \<open>auto simp: s1_def s0_def lview_def wview_def\<close>)
qed

lemma fork_tail_ok:
  assumes inv: "rq_inv st Q" and t: "ptable st ts F H" and p: "p \<notin> set ts" "p \<noteq> init_task" "cur st \<noteq> p"
    and q: "array (tasks st p) = None" "0 \<le> prio (tasks st p)" "prio (tasks st p) < 140" "ptrace (tasks st p) AND PT_PTRACED = 0"
    and f: "clone_flags AND CLONE_VFORK = 0" "clone_flags AND CLONE_PARENT = 0" "clone_flags AND CLONE_THREAD = 0"
    and km: "kmalloc 8 (mem st) = (a, m)" "a \<noteq> 0" and sl: "1 < time_slice (tsk st)" "time_slice (tsk st) \<noteq> - 1"
  shows "\<exists>st' Q'. fork_tail kmalloc send_sig clone_flags vfork w p st = Some (pid (tasks st p), st') \<and>
    rq_inv st' Q' \<and> queued Q' = insert p (queued Q) \<and> cur st' = cur st \<and> mem st' = m \<and>
    ptable st' (ts @ [p]) (F(cur st := p # F (cur st)))
      (H(pid_hashfn (pid (tasks st p)) := p # H (pid_hashfn (pid (tasks st p))))) \<and>
    find_task_by_pid (pid (tasks st p)) st' = Some (Some p) \<and>
    unat (time_slice (tasks st' p)) + unat (time_slice (tsk st')) = unat (time_slice (tsk st)) \<and>
    0 < time_slice (tasks st' p) \<and> 0 < time_slice (tsk st') \<and> need_resched (tsk st') = 1 \<and>
    nr_threads (sys st') = nr_threads (sys st) + 1 \<and>
    wview (tasks st' p) = (0, health (tasks st p), power (tasks st p), 0, a, drop_bit 1 (time_slice (tsk st) + 1)) \<and>
    (\<forall>x. x \<noteq> p \<longrightarrow> wview ((tasks st' x)\<lparr>time_slice := 0\<rparr>) = wview ((tasks st x)\<lparr>time_slice := 0\<rparr>)) \<and>
    (\<forall>n. \<not> run_node n \<and> n \<noteq> ThreadGroup p \<longrightarrow>
       nxt (lists st') n = nxt (INIT_LIST_HEAD (SecHead a) (lists st)) n \<and> prv (lists st') n = prv (INIT_LIST_HEAD (SecHead a) (lists st)) n)"
proof -
  obtain s1 s2 where s1: "fork_wand kmalloc p (upd_task p (\<lambda>t. t\<lparr>exit_signal := uint (clone_flags AND CSIGNAL), pdeath_signal := 0\<rparr>)
      (upd_task p (\<lambda>t. t\<lparr>parent_exec_id := self_exec_id t\<rparr>) st)) = (True, s1)" and s2: "fork_slices p s1 = Some s2"
    and v: "\<And>t. t \<noteq> p \<Longrightarrow> lview (tasks s2 t) = lview (tasks st t)" "\<And>t. t \<noteq> p \<Longrightarrow> t \<noteq> cur st \<Longrightarrow> wview (tasks s2 t) = wview (tasks st t)"
    and o: "\<And>t. array (tasks s2 t) = array (tasks st t)" "\<And>t. prio (tasks s2 t) = prio (tasks st t)"
    and wc: "wview (tasks s2 (cur st)) = (case wview (tsk st) of (w, h, k, ms, sp, u) \<Rightarrow> (w, h, k, ms, sp, drop_bit 1 u))"
    and wp: "wview (tasks s2 p) = (0, health (tasks st p), power (tasks st p), 0, a, drop_bit 1 (time_slice (tsk st) + 1))"
    and k: "pid (tasks s2 p) = pid (tasks st p)" "p_cptr (tasks s2 p) = p_cptr (tasks st p)" "ptrace (tasks s2 p) = ptrace (tasks st p)"
      "lists s2 = INIT_LIST_HEAD (SecHead a) (lists st)" "mem s2 = m" "rq s2 = rq st" "sys s2 = sys st" "cur s2 = cur st" "pidhash s2 = pidhash st"
    using fork_prepared [of kmalloc st a m p "uint (clone_flags AND CSIGNAL)"] km p(3) sl(1) by blast
  define s3 where "s3 = upd_task p (\<lambda>t. t\<lparr>tgid := pid t, p_opptr := cur s2, p_pptr := cur s2\<rparr>) (upd_lists (INIT_LIST_HEAD (ThreadGroup p)) s2)"
  define s4 where "s4 = fork_link clone_flags p s2"
  have s4: "s4 = upd_sys (\<lambda>s. s\<lparr>nr_threads := nr_threads s + 1\<rparr>) (hash_pid p (SET_LINKS p s3))"
    unfolding s4_def s3_def by (rule fork_link_eq) (use p(3) k f q in auto)
  have p3: "ptable s3 ts F H"
    by (rule ptable_new [OF t p(1,2)]) (use v k in \<open>auto simp: s3_def lview_def\<close>)
  have "pid (tasks s3 p) = pid (tasks st p)" "p_pptr (tasks s3 p) = cur st" using k by (simp_all add: s3_def)
  note p4 = ptable_linked [OF p3 p(1,2), unfolded this]
  have kept: "wview (tasks s4 x) = wview (tasks s2 x)" "array (tasks s4 x) = array (tasks st x)" "prio (tasks s4 x) = prio (tasks st x)"
    "ptrace (tasks s4 x) = ptrace (tasks s2 x)" for x
    unfolding s4 by (simp_all add: link_keeps) (simp_all add: s3_def o wview_def)
  have s4s: "lists s4 = lists s3" "rq s4 = rq st" "cur s4 = cur st" "mem s4 = m" "sys s4 = (sys st)\<lparr>nr_threads := nr_threads (sys st) + 1\<rparr>"
    unfolding s4 using k by (simp_all add: s3_def link_frame)
  have l4: "lists s4 = INIT_LIST_HEAD (ThreadGroup p) (INIT_LIST_HEAD (SecHead a) (lists st))" using s4s(1) k(4) by (simp add: s3_def)
  have i4: "rq_inv s4 Q"
    by (rule rq_inv_view [OF inv]) (use l4 s4s kept in \<open>auto simp: same_lists_def INIT_LIST_HEAD_def\<close>)
  obtain s5 Q' where s5: "wake_up_forked_process p s4 = Some s5" "rq_inv s5 Q'" "queued Q' = insert p (queued Q)" "kept s4 s5"
    using wake_up_forked_ok [OF i4, of p] kept q p(3) s4s(3) by auto
  define s6 where "s6 = upd_task (cur st) (\<lambda>t. t\<lparr>need_resched := 1\<rparr>) (upd_sys (\<lambda>s. s\<lparr>total_forks := total_forks s + 1\<rparr>) s5)"
  have k5: "cur s5 = cur st" "mem s5 = m" "sys s5 = sys s4" "pidhash s5 = pidhash s4" using s5(4) s4s by (simp_all add: kept_def)
  have eq: "fork_tail kmalloc send_sig clone_flags vfork w p st = Some (pid (tasks st p), s6)"
    unfolding fork_tail_def Let_def s1 using s2 s5(1) f(1) q(4) k k5 kept(4) [of p] by (simp add: s4_def [symmetric] s6_def)
  have v6: "lview (tasks s6 x) = lview (tasks s4 x)" "wview (tasks s6 x) = wview (tasks s2 x)" for x
    using s5(4) kept(1) by (simp_all add: s6_def kept_def view_upd)
  have pt: "ptable s6 (ts @ [p]) (F(cur st := p # F (cur st))) (H(pid_hashfn (pid (tasks st p)) := p # H (pid_hashfn (pid (tasks st p)))))"
    using p4 ptable_cong [of s6 "hash_pid p (SET_LINKS p s3)"] v6(1) k5(4) by (simp add: s6_def s4)
  note split = slice_split [OF sl]
  have w6: "time_slice (tasks s6 p) = drop_bit 1 (time_slice (tsk st) + 1)" "time_slice (tasks s6 (cur st)) = drop_bit 1 (time_slice (tsk st))"
    using v6(2) [of p] v6(2) [of "cur st"] wp wc by (simp_all add: wview_def)
  have wo: "wview ((tasks s6 x)\<lparr>time_slice := 0\<rparr>) = wview ((tasks st x)\<lparr>time_slice := 0\<rparr>)" if "x \<noteq> p" for x
    using v6(2) [of x] v(2) [of x] that wc by (cases "x = cur st") (simp_all add: wview_def)
  have nx: "\<forall>n. \<not> run_node n \<and> n \<noteq> ThreadGroup p \<longrightarrow>
      nxt (lists s6) n = nxt (INIT_LIST_HEAD (SecHead a) (lists st)) n \<and> prv (lists s6) n = prv (INIT_LIST_HEAD (SecHead a) (lists st)) n"
  proof -
    have "same_lists (\<lambda>n. \<not> run_node n) s4 s6" using s5(4) by (simp add: kept_def s6_def same_lists_def)
    then show ?thesis using l4 by (simp add: same_lists_def INIT_LIST_HEAD_def Let_def)
  qed
  have fd: "find_task_by_pid (pid (tasks st p)) s6 = Some (Some p)"
  proof -
    have "pid (tasks s6 p) = pid (tasks st p)" using v6(1) [of p] k(1) by (simp add: lview_def s4 hash_pid_other SET_LINKS_other s3_def)
    moreover have "hashed s6 (H(pid_hashfn (pid (tasks st p)) := p # H (pid_hashfn (pid (tasks st p)))))" using pt by (simp add: ptable_def)
    ultimately show ?thesis using find_task_by_pid_hashed by simp
  qed
  have q6: "rq_inv s6 Q'" by (rule rq_inv_view [OF s5(2)]) (simp_all add: s6_def same_lists_def)
  show ?thesis
    using eq q6 s5(3) pt fd w6 split wo nx v6(2) [of p] wp k5 s4s(5) by (intro exI [of _ s6] exI [of _ Q']) (simp add: s6_def)
qed

lemma magic_rel_fork:
  assumes rel: "magic_rel T N st W" and p: "p \<notin> T" and km: "kmalloc_ok km" "km 8 (mem st) = (a, m)" "a \<noteq> 0"
    and heads: "\<And>q. q \<in> T \<Longrightarrow> mem st (secrets_ptr (tasks st q)) \<noteq> None"
    and mem: "mem st' = m" and wp: "holding_wand (tasks st' p) = 0" "secrets_ptr (tasks st' p) = a"
    and wo: "\<And>x. x \<noteq> p \<Longrightarrow> wview ((tasks st' x)\<lparr>time_slice := 0\<rparr>) = wview ((tasks st x)\<lparr>time_slice := 0\<rparr>)"
    and l: "\<And>n. \<not> run_node n \<Longrightarrow> n \<noteq> ThreadGroup p \<Longrightarrow>
      nxt (lists st') n = nxt (INIT_LIST_HEAD (SecHead a) (lists st)) n \<and> prv (lists st') n = prv (INIT_LIST_HEAD (SecHead a) (lists st)) n"
  shows "magic_rel (insert p T) (N(p := [])) st'
    (W(p := \<lparr>has_wand = False, hp = health (tasks st' p), pw = power (tasks st' p), secret = [], stolen = []\<rparr>))"
proof -
  have f: "m a \<noteq> None" "mem st a = None" "mem st \<subseteq>\<^sub>m m"
  proof -
    have k: "mapped m a 8" "\<forall>x\<in>region a 8. mem st x = None" "\<forall>x. x \<notin> region a 8 \<longrightarrow> m x = mem st x"
      using km by (fastforce simp: kmalloc_ok_def)+
    show "m a \<noteq> None" "mem st a = None" using k(1,2) region_first [of 8 a] by (auto simp: mapped_region)
    show "mem st \<subseteq>\<^sub>m m" using k(2,3) by (auto simp: map_le_def dom_def) (metis option.distinct(1))
  qed
  have ne: "secrets_ptr (tasks st q) \<noteq> a" if "q \<in> T" for q using heads [OF that] f(2) by auto
  have w: "holding_wand (tasks st' q) = holding_wand (tasks st q)" "health (tasks st' q) = health (tasks st q)"
    "power (tasks st' q) = power (tasks st q)" "my_secret (tasks st' q) = my_secret (tasks st q)"
    "secrets_ptr (tasks st' q) = secrets_ptr (tasks st q)" if "q \<in> T" for q
    using wo [of q] p that by (auto simp: wview_def)
  have d: "dlist (lists st') (SecHead s) (map SecNode ns)" if "dlist (lists st) (SecHead s) (map SecNode ns)" "s \<noteq> a" for s ns
  proof -
    have "dlist (lists st') (SecHead s) (map SecNode ns) = dlist (lists st) (SecHead s) (map SecNode ns)"
      by (rule dlist_cong) (use l that(2) in \<open>auto simp: INIT_LIST_HEAD_def\<close>)
    with that(1) show ?thesis by simp
  qed
  have "dlist (lists st') (SecHead a) []" using l [of "SecHead a"] by (simp add: dlist_def INIT_LIST_HEAD_def Let_def)
  then have "wizard_ok st' [] (tasks st' p) \<lparr>has_wand = False, hp = health (tasks st' p), pw = power (tasks st' p), secret = [], stolen = []\<rparr>"
    using wp km(3) by (simp add: wizard_ok_def)
  moreover have "wizard_ok st' (N q) (tasks st' q) (W q)" if q: "q \<in> T" for q
  proof -
    have ok: "wizard_ok st (N q) (tasks st q) (W q)" using rel q by (simp add: magic_rel_def)
    have "list_all2 (\<lambda>n s. cstr (mem st) (sec_chars n) s) (N q) (stolen (W q))" using ok by (simp add: wizard_ok_def)
    then have "list_all2 (\<lambda>n s. cstr m (sec_chars n) s) (N q) (stolen (W q))"
      by (rule list_all2_mono) (rule cstr_mono [OF _ f(3)])
    then show ?thesis using ok d ne [OF q] w [OF q] cstr_mono [OF _ f(3)] by (auto simp: wizard_ok_def mem)
  qed
  moreover have "inj_on (\<lambda>q. secrets_ptr (tasks st' q)) T" using rel w(5) by (auto simp: magic_rel_def inj_on_def)
  moreover have "a \<notin> (\<lambda>q. secrets_ptr (tasks st' q)) ` T" using ne w(5) by (metis imageE)
  then have "inj_on (\<lambda>q. secrets_ptr (tasks st' q)) (insert p T)" using calculation(3) wp(2) p by simp
  moreover have "m n \<noteq> None" if qn: "q \<in> T" "n \<in> set (N q)" for q n
  proof -
    have "\<forall>p\<in>T. \<forall>n\<in>set (N p). mem st n \<noteq> None" using rel by (simp add: magic_rel_def)
    then obtain y where "mem st n = Some y" using qn by blast
    then show ?thesis using map_leD [OF f(3)] by auto
  qed
  ultimately show ?thesis using rel p unfolding magic_rel_def mem by auto
qed

section \<open>Properties\<close>

text \<open>
  C23. When there is memory for the list of secrets, the parent has at least two ticks left and
  the flags are those of \<open>fork\<close> (no \<open>CLONE_VFORK\<close>, \<open>CLONE_PARENT\<close>, \<open>CLONE_THREAD\<close>), the part of \<open>do_fork\<close>
  behind the copying returns the process number of the child; the child is the youngest child of the caller,
  is found under its number and is queued, the process table and the runqueue are well formed, the ticks
  of the parent are shared out between the two without loss, and the parent is to be rescheduled.
\<close>
theorem fork_child:
  assumes inv: "rq_inv st Q" and t: "ptable st ts F H" and p: "p \<notin> set ts" "p \<noteq> init_task" "cur st \<noteq> p"
    and q: "array (tasks st p) = None" "0 \<le> prio (tasks st p)" "prio (tasks st p) < 140" "ptrace (tasks st p) AND PT_PTRACED = 0"
    and f: "clone_flags AND CLONE_VFORK = 0" "clone_flags AND CLONE_PARENT = 0" "clone_flags AND CLONE_THREAD = 0"
    and km: "kmalloc 8 (mem st) = (a, m)" "a \<noteq> 0" and sl: "1 < time_slice (tsk st)" "time_slice (tsk st) \<noteq> - 1"
  shows "\<exists>st' Q'. fork_tail kmalloc send_sig clone_flags vfork w p st = Some (pid (tasks st p), st') \<and>
    rq_inv st' Q' \<and> queued Q' = insert p (queued Q) \<and> cur st' = cur st \<and>
    ptable st' (ts @ [p]) (F(cur st := p # F (cur st)))
      (H(pid_hashfn (pid (tasks st p)) := p # H (pid_hashfn (pid (tasks st p))))) \<and>
    find_task_by_pid (pid (tasks st p)) st' = Some (Some p) \<and>
    unat (time_slice (tasks st' p)) + unat (time_slice (tsk st')) = unat (time_slice (tsk st)) \<and>
    0 < time_slice (tasks st' p) \<and> 0 < time_slice (tsk st') \<and> need_resched (tsk st') = 1 \<and>
    nr_threads (sys st') = nr_threads (sys st) + 1"
  using fork_tail_ok [of st Q ts F H p clone_flags kmalloc a m send_sig vfork w] assms by blast

text \<open>
  C24. A fork adds a wizard without a wand and without stolen secrets, with the health and
  power of its parent, to the processes the wand calls work on, and changes no other: the relation between
  the machine and the abstract wizards holds for the child too.
\<close>
theorem fork_wizard:
  assumes inv: "rq_inv st Q" and t: "ptable st ts F H" and p: "p \<notin> set ts" "p \<noteq> init_task" "cur st \<noteq> p"
    and q: "array (tasks st p) = None" "0 \<le> prio (tasks st p)" "prio (tasks st p) < 140" "ptrace (tasks st p) AND PT_PTRACED = 0"
    and f: "clone_flags AND CLONE_VFORK = 0" "clone_flags AND CLONE_PARENT = 0" "clone_flags AND CLONE_THREAD = 0"
    and km: "kmalloc_ok kmalloc" "kmalloc 8 (mem st) = (a, m)" "a \<noteq> 0" and sl: "1 < time_slice (tsk st)" "time_slice (tsk st) \<noteq> - 1"
    and rel: "magic_rel T N st W" "p \<notin> T" "\<And>q. q \<in> T \<Longrightarrow> mem st (secrets_ptr (tasks st q)) \<noteq> None"
  shows "\<exists>st'. fork_tail kmalloc send_sig clone_flags vfork w p st = Some (pid (tasks st p), st') \<and>
    magic_rel (insert p T) (N(p := [])) st'
      (W(p := \<lparr>has_wand = False, hp = health (tasks st p), pw = power (tasks st p), secret = [], stolen = []\<rparr>))"
proof -
  obtain st' where st': "fork_tail kmalloc send_sig clone_flags vfork w p st = Some (pid (tasks st p), st')" "mem st' = m"
    "wview (tasks st' p) = (0, health (tasks st p), power (tasks st p), 0, a, drop_bit 1 (time_slice (tsk st) + 1))"
    and o: "\<And>x. x \<noteq> p \<Longrightarrow> wview ((tasks st' x)\<lparr>time_slice := 0\<rparr>) = wview ((tasks st x)\<lparr>time_slice := 0\<rparr>)"
    "\<And>n. \<not> run_node n \<Longrightarrow> n \<noteq> ThreadGroup p \<Longrightarrow>
       nxt (lists st') n = nxt (INIT_LIST_HEAD (SecHead a) (lists st)) n \<and> prv (lists st') n = prv (INIT_LIST_HEAD (SecHead a) (lists st)) n"
    using fork_tail_ok [of st Q ts F H p clone_flags kmalloc a m send_sig vfork w] assms by blast
  have "holding_wand (tasks st' p) = 0" "secrets_ptr (tasks st' p) = a" "health (tasks st' p) = health (tasks st p)"
    "power (tasks st' p) = power (tasks st p)" using st'(3) by (simp_all add: wview_def)
  with magic_rel_fork [OF rel(1,2) km rel(3) st'(2) _ _ o] st'(1) show ?thesis by auto
qed

lemma get_pid_sys:
  "get_pid clone_flags st = Some (n, st') \<Longrightarrow> tasks st' = tasks st \<and> cur st' = cur st \<and>
     processes (sys st') = processes (sys st) \<and> task_used (sys st') = task_used (sys st) \<and> nr_threads (sys st') = nr_threads (sys st)"
proof (cases "clone_flags AND CLONE_PID = 0")
  case True
  assume "get_pid clone_flags st = Some (n, st')"
  then obtain l ns where "st' = upd_sys (\<lambda>s. s\<lparr>last_pid := l, next_safe := ns\<rparr>) st"
    using True unfolding get_pid_def Let_def by auto
  then show ?thesis by simp
qed (simp add: get_pid_def)

lemma fork_allowed_frame:
  assumes "fork_allowed p s = (ok, s')"
  shows "sys s' = sys s" "user (tasks s' t) = user (tasks s t)"
  using assms by (auto simp: fork_allowed_def capable_def split: if_splits)

lemma fork_number_counts:
  assumes h: "fork_number clone_flags vfork p st = Some (0, st')"
  shows "processes (sys st') (user (tasks st p)) = processes (sys st) (user (tasks st p)) + 1" "task_used (sys st') = task_used (sys st)"
    "nr_threads (sys st') = nr_threads (sys st)"
proof -
  define u where "u = user (tasks st p)"
  define s4 where "s4 = upd_sys (\<lambda>s. s\<lparr>processes := (processes s)(u := processes s u + 1)\<rparr>)
    (upd_sys (\<lambda>s. s\<lparr>user_count := (user_count s)(u := user_count s u + 1)\<rparr>) st)"
  define s5 where "s5 = copy_flags clone_flags p (upd_task p (\<lambda>t. t\<lparr>state := TASK_UNINTERRUPTIBLE\<rparr>) s4)"
  have e: "EAGAIN \<noteq> 0" by (simp add: errno_defs)
  obtain n s6 where g: "get_pid clone_flags s5 = Some (n, s6)"
    and z: "processes (sys st') = processes (sys s6)" "task_used (sys st') = task_used (sys s6)" "nr_threads (sys st') = nr_threads (sys s6)"
    using h e unfolding fork_number_def Let_def u_def [symmetric] s4_def [symmetric] s5_def [symmetric]
    by (auto simp: init_waitqueue_head_def init_completion_def split: if_splits)
  have "sys s5 = sys s4" by (simp add: s5_def copy_flags_def Let_def)
  then show "processes (sys st') (user (tasks st p)) = processes (sys st) (user (tasks st p)) + 1" "task_used (sys st') = task_used (sys st)"
    "nr_threads (sys st') = nr_threads (sys st)"
    using get_pid_sys [OF g] z by (simp_all add: s4_def u_def)
qed

lemma fork_head_counts:
  assumes h: "fork_head clone_flags vfork p st = Some (0, st')"
  shows "processes (sys st') (user (tsk st)) = processes (sys st) (user (tsk st)) + 1" "task_used (sys st') = task_used (sys st)"
    "nr_threads (sys st') = nr_threads (sys st)"
proof -
  define s1 where "s1 = upd_task p (\<lambda>t. t\<lparr>cpus_allowed_mask := cpus_allowed_mask t AND cpus_allowed t\<rparr>) (copy_task (cur st) p st)"
  obtain ok s2 where s2: "fork_allowed p s1 = (ok, s2)" by fastforce
  have "EAGAIN \<noteq> 0" by (simp add: errno_defs)
  then have n: "fork_number clone_flags vfork p s2 = Some (0, st')"
    using h s2 unfolding fork_head_def Let_def s1_def [symmetric] by (auto split: if_splits)
  have "user (tasks s2 p) = user (tsk st)" "sys s2 = sys st"
    using fork_allowed_frame [OF s2] by (simp_all add: s1_def copy_task_def Let_def)
  then show "processes (sys st') (user (tsk st)) = processes (sys st) (user (tsk st)) + 1" "task_used (sys st') = task_used (sys st)"
    "nr_threads (sys st') = nr_threads (sys st)" using fork_number_counts [OF n] by simp_all
qed

text \<open>
  C25. When everything else of a fork has worked and the allocation of the list of stolen
  secrets fails, \<open>do_fork\<close> returns \<open>ENOMEM\<close> without giving anything back: the task structure stays in
  use and the count of the user's processes stays one higher, though there is no new process.
\<close>
theorem fork_nomem_leaks:
  assumes f: "clone_flags AND (CLONE_NEWNS OR CLONE_FS) \<noteq> CLONE_NEWNS OR CLONE_FS" "clone_flags AND CLONE_PID = 0"
    and al: "alloc (task_used (sys st)) = Some p"
    and h: "fork_head clone_flags vfork p (upd_sys (\<lambda>s. s\<lparr>task_used := (task_used s)(p := True)\<rparr>) st) = Some (0, st1)"
    and c: "copies clone_flags p st1 = (0, st2)" "sys st2 = sys st1" and km: "kmalloc 8 (mem st2) = (0, m)"
  shows "\<exists>st'. do_fork kmalloc alloc copies send_sig clone_flags vfork w st = Some (- ENOMEM, st') \<and> task_used (sys st') p \<and>
    processes (sys st') (user (tsk st)) = processes (sys st) (user (tsk st)) + 1 \<and> nr_threads (sys st') = nr_threads (sys st)"
proof -
  have "\<exists>st'. fork_tail kmalloc send_sig clone_flags vfork w p st2 = Some (- ENOMEM, st') \<and> sys st' = sys st2"
    using km by (simp add: fork_tail_def fork_wand_def Let_def)
  then obtain st' where st': "fork_tail kmalloc send_sig clone_flags vfork w p st2 = Some (- ENOMEM, st')" "sys st' = sys st1"
    using c(2) by auto
  have "do_fork kmalloc alloc copies send_sig clone_flags vfork w st = Some (- ENOMEM, st')"
    unfolding do_fork_def Let_def using f al h c(1) st'(1) by simp
  then show ?thesis using fork_head_counts [OF h] st'(2) by simp
qed

section \<open>A fork on the booted machine\<close>

definition fork_demo :: kst where
  "fork_demo = booted\<lparr>pidhash := (\<lambda>_. None), mem := (\<lambda>_. None)\<rparr>"

lemma fork_demo_sel:
  "tasks fork_demo = tasks booted" "cur fork_demo = 0" "mem fork_demo = (\<lambda>_. None)" "rq_inv fork_demo booted_queues"
proof -
  show "rq_inv fork_demo booted_queues" by (rule rq_inv_view [OF booted_facts(1)]) (simp_all add: fork_demo_def same_lists_def)
qed (simp_all add: fork_demo_def booted_facts(2))

lemma fork_demo_tasks:
  "time_slice (tasks booted t) = 512" "ptrace (tasks booted t) = 0" "p_cptr (tasks booted t) = None"
  "next_task (tasks booted t) = t" "prev_task (tasks booted t) = t"
  by (subst booted_facts(9), simp add: boot_kst_def INIT_TASK_def)+

lemma fork_demo_ptable: "ptable fork_demo [] (\<lambda>_. []) (\<lambda>_. [])"
  by (simp add: ptable_def dlist_def theap_def family_def hashed_def fork_demo_sel fork_demo_tasks) (simp add: fork_demo_def)

lemma fork_demo_kmalloc: "demo_kmalloc 8 (mem fork_demo) = (0x8000, \<lambda>x. if x \<in> region 0x8000 8 then Some 0 else None)"
  by (simp add: demo_kmalloc_def fork_demo_sel)

theorem fork_child_witness:
  "\<exists>st' Q'. fork_tail demo_kmalloc (\<lambda>_ _ st. st) 17 0 0 2 fork_demo = Some (2, st') \<and> rq_inv st' Q' \<and>
     queued Q' = insert 2 (queued booted_queues) \<and> find_task_by_pid 2 st' = Some (Some 2)"
proof -
  have "\<exists>st' Q'. fork_tail demo_kmalloc (\<lambda>_ _ st. st) 17 0 0 2 fork_demo = Some (pid (tasks fork_demo 2), st') \<and> rq_inv st' Q' \<and>
     queued Q' = insert 2 (queued booted_queues) \<and> find_task_by_pid (pid (tasks fork_demo 2)) st' = Some (Some 2)"
    using fork_child [OF fork_demo_sel(4) fork_demo_ptable, where p = 2 and clone_flags = 17 and kmalloc = demo_kmalloc and vfork = 0 and w = 0 and
      send_sig = "\<lambda>_ _ st. st", OF _ _ _ _ _ _ _ _ _ _ fork_demo_kmalloc]
    by (auto simp: fork_demo_sel fork_demo_tasks booted_sel)
  then show ?thesis by (simp add: fork_demo_sel booted_sel)
qed

theorem fork_wizard_witness:
  "\<exists>st' w. fork_tail demo_kmalloc (\<lambda>_ _ st. st) 17 0 0 2 fork_demo = Some (2, st') \<and> magic_rel {2} (\<lambda>_. []) st' (\<lambda>_. w)"
proof -
  define w where "w = \<lparr>has_wand = False, hp = health (tasks fork_demo 2), pw = power (tasks fork_demo 2), secret = [], stolen = []\<rparr>"
  have "\<exists>st'. fork_tail demo_kmalloc (\<lambda>_ _ st. st) 17 0 0 2 fork_demo = Some (pid (tasks fork_demo 2), st') \<and>
      magic_rel (insert 2 {}) ((\<lambda>_. [])(2 := [])) st' ((\<lambda>_. w)(2 := w))"
    using fork_wizard [OF fork_demo_sel(4) fork_demo_ptable, where p = 2 and clone_flags = 17 and kmalloc = demo_kmalloc and vfork = 0 and w = 0 and
      send_sig = "\<lambda>_ _ st. st" and T = "{}" and N = "\<lambda>_. []" and W = "\<lambda>_. w", OF _ _ _ _ _ _ _ _ _ _ demo_kmalloc_ok fork_demo_kmalloc]
    by (simp add: fork_demo_sel fork_demo_tasks booted_sel magic_rel_def w_def)
  moreover have "(\<lambda>_. [] :: addr list)(2 := []) = (\<lambda>_ :: task. [])" "(\<lambda>_. w)(2 := w) = (\<lambda>_ :: task. w)" by (simp_all add: fun_eq_iff)
  ultimately show ?thesis by (simp add: fork_demo_sel booted_sel) blast
qed

text \<open>No memory for the list head on the machine at boot, with room for ten processes.\<close>
theorem fork_nomem_leaks_witness:
  "\<exists>st'. do_fork (\<lambda>_ m. (0, m)) (\<lambda>_. Some 2) (\<lambda>_ p st. (0, st)) (\<lambda>_ _ st. st) 17 0 0
      (upd_sys (\<lambda>s. s\<lparr>max_threads := 10\<rparr>) boot_kst) = Some (- ENOMEM, st') \<and> task_used (sys st') 2 \<and> processes (sys st') 0 = 2"
proof -
  let ?s = "upd_sys (\<lambda>s. s\<lparr>max_threads := 10\<rparr>) boot_kst"
  obtain st1 where st1: "fork_head 17 0 2 (upd_sys (\<lambda>s. s\<lparr>task_used := (task_used s)(2 := True)\<rparr>) ?s) = Some (0, st1)"
  proof -
    have "for_each_task 0 s = Some []" if "next_task (tasks s 0) = 0" for s
      by (subst for_each_task.simps) (simp add: that)
    then show thesis
      by (intro that) (simp add: fork_head_def fork_allowed_def fork_number_def copy_task_def copy_flags_def capable_def get_pid_def boot_kst_def
        INIT_TASK_def pid_over_def)
  qed
  have u: "user (tsk ?s) = 0" "processes (sys ?s) 0 = 1" by (simp_all add: boot_kst_def INIT_TASK_def)
  show ?thesis
    using fork_nomem_leaks [where clone_flags = 17 and alloc = "\<lambda>_. Some 2" and copies = "\<lambda>_ p st. (0, st)" and kmalloc = "\<lambda>_ m. (0, m)"
      and st = ?s and p = 2 and vfork = 0 and w = 0 and send_sig = "\<lambda>_ _ st. st", OF _ _ _ st1, of st1 "mem st1"] u by auto
qed

end
