(* ===== verification/Exit.thy ===== *)
theory Exit
  imports Fork
begin

text \<open>
  The end of a process, \<open>kernel/exit.c\<close> with the changes of the assignments: the release of its secret
  and of the secrets it stole, the hand-over of its children, the zombie and its removal by the parent.

  Parameters: \<open>kfree\<close>; \<open>release\<close>, the release of the address space, files, file-system context, namespace,
  signal handlers, semaphores and timer of the process; the signal functions \<open>send_sig\<close>, \<open>do_notify_parent\<close>
  and \<open>kill_pg\<close> of \<open>kernel/signal.c\<close>.
\<close>

section \<open>Questions about process groups\<close>

abbreviation (input) PF_EXITING :: u32 where "PF_EXITING \<equiv> 4"
abbreviation (input) SIGHUP :: int where "SIGHUP \<equiv> 1"
abbreviation (input) SIGCHLD :: int where "SIGCHLD \<equiv> 17"
abbreviation (input) SIGCONT :: int where "SIGCONT \<equiv> 18"
abbreviation (input) CAP_KILL :: nat where "CAP_KILL \<equiv> 5"

primrec session_loop :: "int \<Rightarrow> int \<Rightarrow> task_struct list \<Rightarrow> int" where
  "session_loop g fallback [] = fallback"
| "session_loop g fallback (p # ps) =
     (if session p \<le> 0 then session_loop g fallback ps
      else if pgrp p = g then session p
      else session_loop g (if pid p = g then session p else fallback) ps)"

definition session_of_pgrp :: "int \<Rightarrow> kst \<Rightarrow> int option" where
  "session_of_pgrp g st = do { ts \<leftarrow> for_each_task init_task st; Some (session_loop g (- 1) (map (tasks st) ts)) }"

definition will_become_orphaned_pgrp :: "int \<Rightarrow> task option \<Rightarrow> kst \<Rightarrow> bool option" where
  "will_become_orphaned_pgrp g ignored_task st = do {
     ts \<leftarrow> for_each_task init_task st;
     Some (\<forall>t\<in>set ts.
       let p = tasks st t; q = tasks st (p_pptr p) in
       Some t = ignored_task \<or> pgrp p \<noteq> g \<or> state p = TASK_ZOMBIE \<or> pid q = 1 \<or> \<not> (pgrp q \<noteq> g \<and> session q = session p)) }"

definition is_orphaned_pgrp :: "int \<Rightarrow> kst \<Rightarrow> bool option" where
  "is_orphaned_pgrp g st = will_become_orphaned_pgrp g None st"

definition has_stopped_jobs :: "int \<Rightarrow> kst \<Rightarrow> bool option" where
  "has_stopped_jobs g st = do {
     ts \<leftarrow> for_each_task init_task st;
     Some (\<exists>t\<in>set ts. pgrp (tasks st t) = g \<and> state (tasks st t) = TASK_STOPPED) }"

section \<open>Children\<close>

text \<open>The loop that looks for a thread of the group that is not exiting.\<close>
partial_function (option) find_reaper :: "task \<Rightarrow> task \<Rightarrow> kst \<Rightarrow> task option" where
  "find_reaper father reaper st = do {
     reaper \<leftarrow> next_thread reaper st;
     if flags (tasks st reaper) AND PF_EXITING = 0 then Some reaper
     else if reaper \<noteq> father then find_reaper father reaper st
     else Some reaper }"

definition adopt :: "sender \<Rightarrow> task \<Rightarrow> task \<Rightarrow> task \<Rightarrow> kst \<Rightarrow> kst" where
  "adopt send_sig father reaper p st =
     (if p_opptr (tasks st p) = father then
        (let st = upd_task p (\<lambda>t. t\<lparr>exit_signal := SIGCHLD, self_exec_id := self_exec_id t + 1\<rparr>) st;
             st = upd_task p (\<lambda>t. t\<lparr>p_opptr := (if p = reaper then child_reaper (sys st) else reaper)\<rparr>) st;
             st = upd_task p (\<lambda>t. t\<lparr>first_time_slice := 0\<rparr>) st
         in if pdeath_signal (tasks st p) \<noteq> 0 then send_sig (pdeath_signal (tasks st p)) p st else st)
      else st)"

definition forget_original_parent :: "sender \<Rightarrow> task \<Rightarrow> kst \<Rightarrow> kst option" where
  "forget_original_parent send_sig father st = do {
     reaper \<leftarrow> find_reaper father father st;
     let reaper = (if reaper = father then child_reaper (sys st) else reaper);
     ts \<leftarrow> for_each_task init_task st;
     Some (fold (adopt send_sig father reaper) ts st) }"

type_synonym pg_sender = "int \<Rightarrow> int \<Rightarrow> kst \<Rightarrow> kst"

text \<open>A process group that has become orphaned and has stopped members is sent \<open>SIGHUP\<close> and \<open>SIGCONT\<close>.\<close>
definition hangup_pgrp :: "pg_sender \<Rightarrow> int \<Rightarrow> bool \<Rightarrow> kst \<Rightarrow> kst option" where
  "hangup_pgrp kill_pg g orphaned st = do {
     stopped \<leftarrow> has_stopped_jobs g st;
     Some (if orphaned \<and> stopped then kill_pg g SIGCONT (kill_pg g SIGHUP st) else st) }"

text \<open>The loop that gives the children of the exiting process to their new parents.\<close>
partial_function (option) exit_children :: "sender \<Rightarrow> pg_sender \<Rightarrow> kst \<Rightarrow> kst option" where
  "exit_children do_notify_parent kill_pg st =
     (case p_cptr (tsk st) of
        None \<Rightarrow> Some st
      | Some p \<Rightarrow> do {
          let c = cur st;
          let st = upd_task c (\<lambda>t. t\<lparr>p_cptr := p_osptr (tasks st p)\<rparr>) st;
          let st = upd_task p (\<lambda>t. t\<lparr>p_ysptr := None, ptrace := 0, p_pptr := p_opptr t\<rparr>) st;
          let st = upd_task p (\<lambda>t. t\<lparr>p_osptr := p_cptr (tasks st (p_pptr t))\<rparr>) st;
          let st = (case p_osptr (tasks st p) of None \<Rightarrow> st | Some o' \<Rightarrow> upd_task o' (\<lambda>t. t\<lparr>p_ysptr := Some p\<rparr>) st);
          let st = upd_task (p_pptr (tasks st p)) (\<lambda>t. t\<lparr>p_cptr := Some p\<rparr>) st;
          let st = (if state (tasks st p) = TASK_ZOMBIE then do_notify_parent (exit_signal (tasks st p)) p st else st);
          st \<leftarrow> (if pgrp (tasks st p) \<noteq> pgrp (tasks st c) \<and> session (tasks st p) = session (tasks st c) then do {
                   orphaned \<leftarrow> is_orphaned_pgrp (pgrp (tasks st p)) st;
                   hangup_pgrp kill_pg (pgrp (tasks st p)) orphaned st }
                 else Some st);
          exit_children do_notify_parent kill_pg st })"

definition exit_notify :: "sender \<Rightarrow> sender \<Rightarrow> pg_sender \<Rightarrow> kst \<Rightarrow> kst option" where
  "exit_notify send_sig do_notify_parent kill_pg st = do {
     let c = cur st;
     st \<leftarrow> forget_original_parent send_sig c st;
     let t = p_pptr (tasks st c);
     st \<leftarrow> (if pgrp (tasks st t) \<noteq> pgrp (tasks st c) \<and> session (tasks st t) = session (tasks st c) then do {
              orphaned \<leftarrow> will_become_orphaned_pgrp (pgrp (tasks st c)) (Some c) st;
              hangup_pgrp kill_pg (pgrp (tasks st c)) orphaned st }
            else Some st);
     let st = (if exit_signal (tasks st c) \<noteq> SIGCHLD \<and>
                  (parent_exec_id (tasks st c) \<noteq> self_exec_id (tasks st t) \<or> self_exec_id (tasks st c) \<noteq> parent_exec_id (tasks st c))
               then (case capable CAP_KILL st of (ok, st) \<Rightarrow>
                 if ok then st else upd_task c (\<lambda>t. t\<lparr>exit_signal := SIGCHLD\<rparr>) st)
               else st);
     let st = upd_task c (\<lambda>t. t\<lparr>state := TASK_ZOMBIE\<rparr>) st;
     let st = do_notify_parent (exit_signal (tasks st c)) c st;
     exit_children do_notify_parent kill_pg st }"

section \<open>The secrets\<close>

text \<open>\<open>list_for_each_safe\<close> over the stolen secrets from \<open>itr\<close> on: each is unlinked and freed.\<close>
partial_function (option) free_secrets :: "kfree \<Rightarrow> node \<Rightarrow> node \<Rightarrow> kst \<Rightarrow> kst option" where
  "free_secrets kfree head itr st =
     (if itr = head then Some st
      else do {
        let tmp = nxt (lists st) itr;
        current_secret \<leftarrow> sec_entry itr;
        let st = upd_lists (list_del itr) st;
        free_secrets kfree head tmp (st\<lparr>mem := kfree current_secret (mem st)\<rparr>) })"

definition exit_secrets :: "kfree \<Rightarrow> kst \<Rightarrow> kst option" where
  "exit_secrets kfree st = do {
     let p = cur st;
     let st = st\<lparr>mem := kfree (my_secret (tasks st p)) (mem st)\<rparr>;
     head \<leftarrow> sec_head p st;
     st \<leftarrow> (if nxt (lists st) head \<noteq> head then free_secrets kfree head (nxt (lists st) head) st else Some st);
     Some (st\<lparr>mem := kfree (secrets_ptr (tasks st p)) (mem st)\<rparr>) }"

section \<open>Exit and release\<close>

text \<open>
  \<open>do_exit\<close> up to the switch to another process; \<open>panic\<close> does not return. The exiting process is not
  switched to again.
\<close>
definition do_exit ::
  "kfree \<Rightarrow> (task \<Rightarrow> kst \<Rightarrow> kst) \<Rightarrow> sender \<Rightarrow> sender \<Rightarrow> pg_sender \<Rightarrow> u32 \<Rightarrow> kst \<Rightarrow> kst option" where
  "do_exit kfree release send_sig do_notify_parent kill_pg code st = do {
     let p = cur st;
     st \<leftarrow> exit_secrets kfree st;
     if local_irq_count st + local_bh_count st \<noteq> 0 then None
     else if pid (tasks st p) = 0 then None
     else if pid (tasks st p) = 1 then None
     else do {
       let st = upd_task p (\<lambda>t. t\<lparr>flags := flags t OR PF_EXITING\<rparr>) st;
       let st = release p st;
       let st = upd_task p (\<lambda>t. t\<lparr>exit_code := code\<rparr>) st;
       st \<leftarrow> exit_notify send_sig do_notify_parent kill_pg st;
       schedule st } }"

definition sys_exit ::
  "kfree \<Rightarrow> (task \<Rightarrow> kst \<Rightarrow> kst) \<Rightarrow> sender \<Rightarrow> sender \<Rightarrow> pg_sender \<Rightarrow> u32 \<Rightarrow> kst \<Rightarrow> kst option" where
  "sys_exit kfree release send_sig do_notify_parent kill_pg error_code st =
     do_exit kfree release send_sig do_notify_parent kill_pg (push_bit 8 (error_code AND 0xff)) st"

definition complete_and_exit ::
  "kfree \<Rightarrow> (task \<Rightarrow> kst \<Rightarrow> kst) \<Rightarrow> sender \<Rightarrow> sender \<Rightarrow> pg_sender \<Rightarrow> nat option \<Rightarrow> u32 \<Rightarrow> kst \<Rightarrow> kst option" where
  "complete_and_exit kfree release send_sig do_notify_parent kill_pg cp code st = do {
     st \<leftarrow> (case cp of None \<Rightarrow> Some st | Some x \<Rightarrow> complete x st);
     do_exit kfree release send_sig do_notify_parent kill_pg code st }"

text \<open>The counters of page faults and the thread state of the processor are not part of the model.\<close>
definition release_task :: "task \<Rightarrow> kst \<Rightarrow> kst option" where
  "release_task p st =
     (if p = cur st then None
      else (let u = user (tasks st p);
                st = upd_sys (\<lambda>s. s\<lparr>processes := (processes s)(u := processes s u - 1)\<rparr>) st;
                st = free_uid u st;
                st = unhash_process p st;
                st = sched_exit p st;
                st = upd_task p (\<lambda>t. t\<lparr>pid := 0\<rparr>) st
            in Some (free_task_struct p st)))"

text \<open>
  Of the limits only the first (\<open>RLIMIT_CPU\<close>) is copied from the first task: the length given to \<open>memcpy\<close>
  is the size of one element of the array. The capability sets that no modelled code reads do not occur.
\<close>
definition reparent_to_init :: "kst \<Rightarrow> kst option" where
  "reparent_to_init st = do {
     let c = cur st;
     let st = REMOVE_LINKS c st;
     let st = upd_task c (\<lambda>t. t\<lparr>p_pptr := child_reaper (sys st), p_opptr := child_reaper (sys st)\<rparr>) st;
     let st = SET_LINKS c st;
     let st = upd_task c (\<lambda>t. t\<lparr>exit_signal := SIGCHLD, ptrace := 0\<rparr>) st;
     st \<leftarrow> (if policy (tasks st c) = SCHED_OTHER \<and> task_nice (tasks st c) < 0 then set_user_nice c 0 st else Some st);
     Some (upd_task c (\<lambda>t. t\<lparr>cap_effective := 0xFFFFFEFF, user := 0\<rparr>) st) }"

section \<open>Waiting for children\<close>

abbreviation (input) WNOHANG :: u32 where "WNOHANG \<equiv> 1"
abbreviation (input) WUNTRACED :: u32 where "WUNTRACED \<equiv> 2"
abbreviation (input) WNOTHREAD :: u32 where "WNOTHREAD \<equiv> 0x20000000"
abbreviation (input) WALL :: u32 where "WALL \<equiv> 0x40000000"
abbreviation (input) WCLONE :: u32 where "WCLONE \<equiv> 0x80000000"

text \<open>The conditions at the head of the loop: is \<open>p\<close> a child the call waits for?\<close>
definition wait4_eligible :: "int \<Rightarrow> u32 \<Rightarrow> task_struct \<Rightarrow> task_struct \<Rightarrow> bool" where
  "wait4_eligible n options p c =
     ((if n > 0 then pid p = n else if n = 0 then pgrp p = pgrp c else if n \<noteq> -1 then pgrp p = - n else True) \<and>
      \<not> (((exit_signal p \<noteq> SIGCHLD) \<noteq> (options AND WCLONE \<noteq> 0)) \<and> options AND WALL = 0))"

text \<open>A child the call can report: stopped with a code not yet reported, or a zombie.\<close>
definition wait4_ready :: "u32 \<Rightarrow> task_struct \<Rightarrow> bool" where
  "wait4_ready options p =
     (if state p = TASK_STOPPED
      then exit_code p \<noteq> 0 \<and> (options AND WUNTRACED \<noteq> 0 \<or> ptrace p AND PT_PTRACED \<noteq> 0)
      else state p = TASK_ZOMBIE)"

text \<open>The loop over the children from \<open>p\<close> on: the flag, and the child to report.\<close>
partial_function (option) wait4_children :: "int \<Rightarrow> u32 \<Rightarrow> bool \<Rightarrow> task option \<Rightarrow> kst \<Rightarrow> (bool \<times> task option) option" where
  "wait4_children n options flag p st = (case p of
     None \<Rightarrow> Some (flag, None)
   | Some q \<Rightarrow>
     if \<not> wait4_eligible n options (tasks st q) (tsk st) then wait4_children n options flag (p_osptr (tasks st q)) st
     else if wait4_ready options (tasks st q) then Some (True, Some q)
     else wait4_children n options True (p_osptr (tasks st q)) st)"

partial_function (option) wait4_threads :: "int \<Rightarrow> u32 \<Rightarrow> bool \<Rightarrow> task \<Rightarrow> kst \<Rightarrow> (bool \<times> task option) option" where
  "wait4_threads n options flag t st = do {
     (flag, found) \<leftarrow> wait4_children n options flag (p_cptr (tasks st t)) st;
     if found \<noteq> None \<or> options AND WNOTHREAD \<noteq> 0 then Some (flag, found)
     else do {
       t \<leftarrow> next_thread t st;
       if t \<noteq> cur st then wait4_threads n options flag t st else Some (flag, None) } }"

type_synonym rusage = "task \<Rightarrow> addr \<Rightarrow> kst \<Rightarrow> int \<times> kst"

text \<open>The resource usage and the status are written to the user; \<open>put_user\<close> of one word.\<close>
definition wait4_status :: "rusage \<Rightarrow> task \<Rightarrow> addr \<Rightarrow> addr \<Rightarrow> u32 \<Rightarrow> kst \<Rightarrow> int \<times> kst" where
  "wait4_status getrusage p stat_addr ru v st =
     (case (if ru \<noteq> 0 then getrusage p ru st else (0, st)) of (retval, st) \<Rightarrow>
        if retval = 0 \<and> stat_addr \<noteq> 0
        then (case copy_out (addr_limit (tsk st)) stat_addr [v] (mem st) of (ok, m) \<Rightarrow>
          (if ok then 0 else - EFAULT, st\<lparr>mem := m\<rparr>))
        else (retval, st))"

definition wait4_report :: "rusage \<Rightarrow> sender \<Rightarrow> addr \<Rightarrow> addr \<Rightarrow> task \<Rightarrow> kst \<Rightarrow> (int \<times> kst) option" where
  "wait4_report getrusage do_notify_parent stat_addr ru p st =
     (if state (tasks st p) = TASK_STOPPED then
        Some (case wait4_status getrusage p stat_addr ru (push_bit 8 (exit_code (tasks st p)) OR 0x7f) st of (retval, st) \<Rightarrow>
          if retval = 0 then (pid (tasks st p), upd_task p (\<lambda>t. t\<lparr>exit_code := 0\<rparr>) st) else (retval, st))
      else do {
        let st = upd_task (cur st) (\<lambda>t. t\<lparr>tms_cutime := tms_cutime t + (tms_utime (tasks st p) + tms_cutime (tasks st p)),
                                          tms_cstime := tms_cstime t + (tms_stime (tasks st p) + tms_cstime (tasks st p))\<rparr>) st;
        let (retval, st) = wait4_status getrusage p stat_addr ru (exit_code (tasks st p)) st;
        if retval \<noteq> 0 then Some (retval, st)
        else do {
          let retval = pid (tasks st p);
          if p_opptr (tasks st p) \<noteq> p_pptr (tasks st p) then do {
            let st = REMOVE_LINKS p st;
            let st = upd_task p (\<lambda>t. t\<lparr>p_pptr := p_opptr t\<rparr>) st;
            let st = SET_LINKS p st;
            Some (retval, do_notify_parent SIGCHLD p st) }
          else do { st \<leftarrow> release_task p st; Some (retval, st) } } })"

text \<open>From the label \<open>repeat\<close> on: \<open>Inl\<close> when the process sleeps, \<open>Inr\<close> when the call returns.\<close>
definition wait4_round ::
  "rusage \<Rightarrow> sender \<Rightarrow> int \<Rightarrow> addr \<Rightarrow> u32 \<Rightarrow> addr \<Rightarrow> nat \<Rightarrow> kst \<Rightarrow> (kst + int \<times> kst) option" where
  "wait4_round getrusage do_notify_parent n stat_addr options ru w st = do {
     let c = cur st;
     let st = upd_task c (\<lambda>t. t\<lparr>state := TASK_INTERRUPTIBLE\<rparr>) st;
     (flag, found) \<leftarrow> wait4_threads n options False c st;
     let finish = (\<lambda>retval st. Inr (retval, remove_wait_queue (WaitChldexit c) w (upd_task c (\<lambda>t. t\<lparr>state := TASK_RUNNING\<rparr>) st)));
     case found of
       Some p \<Rightarrow> do { (retval, st) \<leftarrow> wait4_report getrusage do_notify_parent stat_addr ru p st; Some (finish retval st) }
     | None \<Rightarrow>
       if \<not> flag then Some (finish (- ECHILD) st)
       else if options AND WNOHANG \<noteq> 0 then Some (finish 0 st)
       else if sigpending (tasks st c) \<noteq> 0 then Some (finish (- ERESTARTSYS) st)
       else do { st \<leftarrow> schedule st; Some (Inl st) } }"

definition sys_wait4 ::
  "rusage \<Rightarrow> sender \<Rightarrow> int \<Rightarrow> addr \<Rightarrow> u32 \<Rightarrow> addr \<Rightarrow> nat \<Rightarrow> kst \<Rightarrow> (kst + int \<times> kst) option" where
  "sys_wait4 getrusage do_notify_parent n stat_addr options ru w st =
     (if options AND NOT (WNOHANG OR WUNTRACED OR WNOTHREAD OR WCLONE OR WALL) \<noteq> 0 then Some (Inr (- EINVAL, st))
      else (let st = upd_waitq w (\<lambda>_. \<lparr>wq_flags = 0, wq_task = cur st\<rparr>) st;
                st = add_wait_queue (WaitChldexit (cur st)) w st
            in wait4_round getrusage do_notify_parent n stat_addr options ru w st))"

definition sys_waitpid ::
  "rusage \<Rightarrow> sender \<Rightarrow> int \<Rightarrow> addr \<Rightarrow> u32 \<Rightarrow> nat \<Rightarrow> kst \<Rightarrow> (kst + int \<times> kst) option" where
  "sys_waitpid getrusage do_notify_parent n stat_addr options w st =
     sys_wait4 getrusage do_notify_parent n stat_addr options 0 w st"

section \<open>Freeing the secrets\<close>

lemma free_secrets_ok:
  assumes "dlist (lists st) head (map SecNode ns)"
  shows "\<exists>st'. free_secrets kfree head (hd (map SecNode ns @ [head])) st = Some st' \<and> mem st' = fold kfree ns (mem st) \<and>
    dlist (lists st') head [] \<and> tasks st' = tasks st \<and> cur st' = cur st \<and> pidhash st' = pidhash st \<and>
    (\<forall>q xs. dlist (lists st) q xs \<longrightarrow> set (q # xs) \<inter> set (head # map SecNode ns) = {} \<longrightarrow> dlist (lists st') q xs)"
  using assms
proof (induction ns arbitrary: st)
  case Nil
  then show ?case by (subst free_secrets.simps) simp
next
  case (Cons n ns)
  let ?s = "upd_lists (list_del (SecNode n)) st\<lparr>mem := kfree n (mem st)\<rparr>"
  have ne: "SecNode n \<noteq> head" "SecNode n \<notin> set (map SecNode ns)" using Cons.prems by (auto simp: dlist_def)
  have nx: "nxt (lists st) (SecNode n) = hd (map SecNode ns @ [head])"
    using dlist_neighbours(2) [of "lists st" head "[]" "SecNode n" "map SecNode ns"] Cons.prems by simp
  have "dlist (lists ?s) head (map SecNode ns)"
    using dlist_list_del_member [OF Cons.prems, of "SecNode n"] ne(2) by simp
  from Cons.IH [OF this] obtain st' where st': "free_secrets kfree head (hd (map SecNode ns @ [head])) ?s = Some st'"
    "mem st' = fold kfree ns (kfree n (mem st))" "dlist (lists st') head []" "tasks st' = tasks st" "cur st' = cur st" "pidhash st' = pidhash st"
    and o: "\<And>q xs. dlist (list_del (SecNode n) (lists st)) q xs \<Longrightarrow> set (q # xs) \<inter> set (head # map SecNode ns) = {} \<Longrightarrow> dlist (lists st') q xs"
    by auto
  have "dlist (lists st') q xs" if d: "dlist (lists st) q xs" "set (q # xs) \<inter> set (head # map SecNode (n # ns)) = {}" for q xs
    by (rule o [OF dlist_frame_del [OF Cons.prems _ d(1)]]) (use d(2) in auto)
  then show ?case using st' ne(1) nx by (subst free_secrets.simps) (simp add: sec_entry_def)
qed

lemma find_chain_mono:
  assumes "find_task_chain n p st = Some r"
    "\<And>t. pid (tasks st' t) = pid (tasks st t) \<and> pidhash_next (tasks st' t) = pidhash_next (tasks st t)"
  shows "find_task_chain n p st' = Some r"
  using assms(1,2)
proof (induction n p st r arbitrary: st' rule: find_task_chain.raw_induct [rotated, consumes 1])
  case (1 f n p st r)
  have v: "pid (tasks st' t) = pid (tasks st t)" "pidhash_next (tasks st' t) = pidhash_next (tasks st t)" for t
    using 1(3) [of t] by simp_all
  show ?case
  proof (cases p)
    case (Some q)
    show ?thesis
    proof (cases "pid (tasks st q) = n")
      case False
      then have "f n (pidhash_next (tasks st q)) st = Some r" using 1(2) Some by simp
      then have "find_task_chain n (pidhash_next (tasks st q)) st' = Some r" using 1 by blast
      then show ?thesis using False Some v by (subst find_task_chain.simps) simp
    qed (use 1(2) v Some in \<open>subst find_task_chain.simps; auto\<close>)
  qed (use 1(2) in \<open>subst find_task_chain.simps; simp\<close>)
qed

lemma find_task_cong:
  assumes "\<And>t. lview (tasks st' t) = lview (tasks st t)" "pidhash st' = pidhash st" "find_task_by_pid n st = Some r"
  shows "find_task_by_pid n st' = Some r"
  using assms find_chain_mono [of n _ st r st'] by (simp add: find_task_by_pid_def lview_def)

lemma exit_secrets_ok:
  assumes rel: "magic_rel T N st W" and c: "cur st \<in> T"
  shows "\<exists>st'. exit_secrets kfree st = Some st' \<and>
    mem st' = kfree (secrets_ptr (tsk st)) (fold kfree (N (cur st)) (kfree (my_secret (tsk st)) (mem st))) \<and>
    dlist (lists st') (SecHead (secrets_ptr (tsk st))) [] \<and> tasks st' = tasks st \<and> cur st' = cur st \<and> pidhash st' = pidhash st \<and>
    (\<forall>q\<in>T. q \<noteq> cur st \<longrightarrow> dlist (lists st') (SecHead (secrets_ptr (tasks st q))) (map SecNode (N q)))"
proof -
  let ?h = "SecHead (secrets_ptr (tsk st))" and ?n = "N (cur st)" and ?s = "st\<lparr>mem := kfree (my_secret (tsk st)) (mem st)\<rparr>"
  have ok: "wizard_ok st (N q) (tasks st q) (W q)" if "q \<in> T" for q using rel that by (simp add: magic_rel_def)
  have hd: "sec_head (cur st) ?s = Some ?h" using ok [OF c] by (simp add: sec_head_def wizard_ok_def)
  have d: "dlist (lists ?s) ?h (map SecNode ?n)" using ok [OF c] by (simp add: wizard_ok_def)
  obtain st1 where s1: "free_secrets kfree ?h (hd (map SecNode ?n @ [?h])) ?s = Some st1" "mem st1 = fold kfree ?n (mem ?s)"
    "dlist (lists st1) ?h []" "tasks st1 = tasks st" "cur st1 = cur st" "pidhash st1 = pidhash st"
    and o: "\<And>q xs. dlist (lists st) q xs \<Longrightarrow> set (q # xs) \<inter> set (?h # map SecNode ?n) = {} \<Longrightarrow> dlist (lists st1) q xs"
    using free_secrets_ok [OF d, of kfree] by auto
  have nx: "nxt (lists st) ?h = hd (map SecNode ?n @ [?h])" using dlist_nxt_prv(1) [OF d] by simp
  have "(if nxt (lists ?s) ?h \<noteq> ?h then free_secrets kfree ?h (nxt (lists ?s) ?h) ?s else Some ?s) = Some st1"
  proof (cases "nxt (lists st) ?h = ?h")
    case True
    then have "Some st1 = Some ?s" using s1(1) nx by (metis free_secrets.simps)
    then show ?thesis using True by simp
  qed (use s1(1) nx in simp)
  then have "exit_secrets kfree st = Some (st1\<lparr>mem := kfree (secrets_ptr (tsk st)) (mem st1)\<rparr>)"
    unfolding exit_secrets_def Let_def using hd s1(4) by simp
  moreover have "dlist (lists st1) (SecHead (secrets_ptr (tasks st q))) (map SecNode (N q))" if q: "q \<in> T" "q \<noteq> cur st" for q
  proof (rule o)
    show "dlist (lists st) (SecHead (secrets_ptr (tasks st q))) (map SecNode (N q))" using ok [OF q(1)] by (simp add: wizard_ok_def)
    have "secrets_ptr (tasks st q) \<noteq> secrets_ptr (tsk st)" "set (N q) \<inter> set ?n = {}"
      using rel c q unfolding magic_rel_def inj_on_def by blast+
    then show "set (SecHead (secrets_ptr (tasks st q)) # map SecNode (N q)) \<inter> set (?h # map SecNode ?n) = {}" by auto
  qed
  ultimately show ?thesis using s1 by auto
qed

section \<open>Reaping a child\<close>

lemma wait4_children_find:
  assumes "nlist (\<lambda>t. p_osptr (tasks st t)) bk mk b c xs"
  shows "wait4_children n options flag c st =
    Some (case find (\<lambda>x. wait4_eligible n options (tasks st x) (tsk st) \<and> wait4_ready options (tasks st x)) xs of
      Some x \<Rightarrow> (True, Some x)
    | None \<Rightarrow> (flag \<or> (\<exists>x\<in>set xs. wait4_eligible n options (tasks st x) (tsk st)), None))"
  using assms by (induction xs arbitrary: b c flag; subst wait4_children.simps) (auto split: option.split)

lemma find_first: "\<forall>y\<in>set ys. \<not> P y \<Longrightarrow> P x \<Longrightarrow> find P (ys @ x # zs) = Some x"
  by (induction ys) auto

lemma wait4_threads_first:
  assumes "family st F" "F (cur st) = ys @ p # zs"
    "\<forall>y\<in>set ys. \<not> (wait4_eligible n options (tasks st y) (tsk st) \<and> wait4_ready options (tasks st y))"
    "wait4_eligible n options (tasks st p) (tsk st) \<and> wait4_ready options (tasks st p)"
  shows "wait4_threads n options flag (cur st) st = Some (True, Some p)"
proof -
  have "nlist (\<lambda>t. p_osptr (tasks st t)) (\<lambda>t. p_ysptr (tasks st t)) Some None (p_cptr (tsk st)) (F (cur st))"
    using assms(1) by (simp add: family_def)
  from wait4_children_find [OF this] find_first [OF assms(3,4)] show ?thesis
    unfolding assms(2) by (subst wait4_threads.simps) simp
qed

lemma sched_exit_sel:
  "lview (tasks (sched_exit p st) t) = lview (tasks st t)" "pidhash (sched_exit p st) = pidhash st" "sys (sched_exit p st) = sys st"
  "mem (sched_exit p st) = mem st" "cur (sched_exit p st) = cur st"
  by (auto simp: sched_exit_def lview_def Let_def)

lemma unlink_frame:
  "sys (REMOVE_LINKS p st) = sys st" "mem (REMOVE_LINKS p st) = mem st" "cur (REMOVE_LINKS p st) = cur st"
  "sys (unhash_pid p st) = sys st" "mem (unhash_pid p st) = mem st" "cur (unhash_pid p st) = cur st"
  unfolding REMOVE_LINKS_def unhash_pid_def Let_def by (simp_all split: option.split pprev.split del: tasks_upd)

lemma unhash_sel:
  "sys (unhash_process p st) = (sys st)\<lparr>nr_threads := nr_threads (sys st) - 1\<rparr>"
  "mem (unhash_process p st) = mem st" "cur (unhash_process p st) = cur st"
  by (simp_all add: unhash_process_def unlink_frame Let_def)

lemma release_task_ok:
  assumes t: "ptable st ts F H" and p: "p \<in> set ts" "p \<in> set (F q)" "p \<in> set (H i)" "p \<noteq> cur st" "p \<noteq> init_task"
    and u: "\<forall>x\<in>set ts. pid (tasks st x) = pid (tasks st p) \<longrightarrow> x = p"
  shows "\<exists>st'. release_task p st = Some st' \<and> mem st' = mem st \<and> cur st' = cur st \<and>
    ptable st' (removeAll p ts) (F(q := removeAll p (F q))) (H(i := removeAll p (H i))) \<and>
    find_task_by_pid (pid (tasks st p)) st' = Some None \<and> \<not> task_used (sys st') p \<and>
    processes (sys st') = (processes (sys st))(user (tasks st p) := processes (sys st) (user (tasks st p)) - 1) \<and>
    nr_threads (sys st') = nr_threads (sys st) - 1"
proof -
  let ?u = "user (tasks st p)" and ?F = "F(q := removeAll p (F q))" and ?H = "H(i := removeAll p (H i))"
  define s0 where "s0 = free_uid ?u (upd_sys (\<lambda>s. s\<lparr>processes := (processes s)(?u := processes s ?u - 1)\<rparr>) st)"
  have s0: "tasks s0 = tasks st" "pidhash s0 = pidhash st" by (simp_all add: s0_def free_uid_def)
  have "ptable s0 ts F H" using t s0 by (subst ptable_cong [of _ st]) simp_all
  from ptable_unlinked [OF this p(1-3)] u
  have t1: "ptable (unhash_process p s0) (removeAll p ts) ?F ?H" "find_task_by_pid (pid (tasks st p)) (unhash_process p s0) = Some None"
    by (simp_all add: s0)
  have t2: "ptable (sched_exit p (unhash_process p s0)) (removeAll p ts) ?F ?H"
    using t1(1) by (subst ptable_cong [of _ "unhash_process p s0"]) (simp_all add: sched_exit_sel)
  let ?e = "upd_task p (\<lambda>t. t\<lparr>pid := 0\<rparr>) (sched_exit p (unhash_process p s0))"
  have t3: "ptable ?e (removeAll p ts) ?F ?H" by (rule ptable_upd_new [OF t2]) (use p in simp_all)
  have out: "release_task p st = Some (free_task_struct p ?e)" using p(4) by (simp add: release_task_def Let_def s0_def free_uid_def)
  have t4: "ptable (free_task_struct p ?e) (removeAll p ts) ?F ?H"
    using t3 by (subst ptable_cong [of _ ?e]) (simp_all add: free_task_struct_def)
  have "find_task_by_pid (pid (tasks st p)) (free_task_struct p ?e) = Some None"
  proof -
    have "find_task_by_pid (pid (tasks st p)) (sched_exit p (unhash_process p s0)) = Some None"
      by (rule find_task_cong [OF _ _ t1(2)]) (simp_all add: sched_exit_sel)
    moreover have "hashed (sched_exit p (unhash_process p s0)) ?H" using t2 by (simp only: ptable_def)
    ultimately have f: "find (\<lambda>x. pid (tasks (sched_exit p (unhash_process p s0)) x) = pid (tasks st p)) (?H (pid_hashfn (pid (tasks st p)))) = None"
      using find_task_by_pid_hashed by (metis option.inject)
    have "\<forall>j. set (?H j) \<subseteq> set (removeAll p ts)" using t3 unfolding ptable_def by (elim conjE)
    then have np: "p \<notin> set (?H j)" for j by fastforce
    have o: "pid (tasks (free_task_struct p ?e) x) = pid (tasks (sched_exit p (unhash_process p s0)) x)" if "x \<noteq> p" for x
      using that by (simp add: free_task_struct_def)
    have "find (\<lambda>x. pid (tasks (free_task_struct p ?e) x) = pid (tasks st p)) (?H (pid_hashfn (pid (tasks st p)))) = None"
      using f np [of "pid_hashfn (pid (tasks st p))"] o unfolding find_None_iff by metis
    moreover have "hashed (free_task_struct p ?e) ?H" using t4 by (simp only: ptable_def)
    ultimately show ?thesis using find_task_by_pid_hashed by metis
  qed
  then show ?thesis using out t4
    by (simp add: free_task_struct_def sched_exit_sel unhash_sel) (simp add: s0_def free_uid_def)
qed

text \<open>
  C26. When the first child that \<open>sys_wait4\<close> can report is a zombie of the caller, the call
  returns its process number, writes its exit code to the address given, and the child is gone: it is
  not in the process table, its number finds nothing, its descriptor is free and its user has one
  process less. The table keeps its invariant and the caller runs.
\<close>
theorem wait4_reaps:
  assumes t: "ptable st ts F H" and opts: "options AND NOT (WNOHANG OR WUNTRACED OR WNOTHREAD OR WCLONE OR WALL) = 0"
    and F: "F (cur st) = ys @ p # zs" "cur st \<notin> set (F (cur st))" "p \<noteq> init_task" "p \<in> set (H i)"
    and ys: "\<forall>y\<in>set ys. \<not> (wait4_eligible n options (tasks st y) (tsk st) \<and> wait4_ready options (tasks st y))"
    and p: "wait4_eligible n options (tasks st p) (tsk st)" "state (tasks st p) = TASK_ZOMBIE" "p_opptr (tasks st p) = cur st"
    and u: "\<forall>x\<in>set ts. pid (tasks st x) = pid (tasks st p) \<longrightarrow> x = p"
    and out: "if stat_addr = 0 then m = mem st
      else copy_out (addr_limit (tsk st)) stat_addr [exit_code (tasks st p)] (mem st) = (True, m)"
  shows "\<exists>st'. sys_wait4 getrusage do_notify_parent n stat_addr options 0 w st = Some (Inr (pid (tasks st p), st')) \<and>
    mem st' = m \<and> ptable st' (removeAll p ts) (F(cur st := ys @ zs)) (H(i := removeAll p (H i))) \<and>
    find_task_by_pid (pid (tasks st p)) st' = Some None \<and> \<not> task_used (sys st') p \<and>
    processes (sys st') (user (tasks st p)) = processes (sys st) (user (tasks st p)) - 1 \<and>
    state (tasks st' (cur st)) = TASK_RUNNING"
proof -
  let ?c = "cur st"
  define s0 where "s0 = add_wait_queue (WaitChldexit ?c) w (upd_waitq w (\<lambda>_. \<lparr>wq_flags = 0, wq_task = ?c\<rparr>) st)"
  define s1 where "s1 = upd_task ?c (\<lambda>t. t\<lparr>state := TASK_INTERRUPTIBLE\<rparr>) s0"
  have s1: "tasks s1 = (tasks st)(?c := (tsk st)\<lparr>state := TASK_INTERRUPTIBLE\<rparr>)" "cur s1 = ?c" "mem s1 = mem st" "pidhash s1 = pidhash st"
    "processes (sys s1) = processes (sys st)"
    by (simp_all add: s1_def s0_def add_wait_queue_def add_wait_queue_raw_def upd_waitq_def)
  have c0: "cur s0 = ?c" by (simp add: s0_def add_wait_queue_def add_wait_queue_raw_def upd_waitq_def)
  have cw: "cur (upd_waitq w f st) = ?c" for f by (simp add: upd_waitq_def)
  have r: "sys_wait4 getrusage do_notify_parent n stat_addr options 0 w st = wait4_round getrusage do_notify_parent n stat_addr options 0 w s0"
    unfolding sys_wait4_def Let_def s0_def cw using opts by simp
  have pc: "p \<noteq> ?c" using F by auto
  have t1: "ptable s1 ts F H" using t by (subst ptable_cong [of _ st]) (auto simp: s1 lview_def)
  have e: "wait4_eligible n options x (t\<lparr>state := v\<rparr>) = wait4_eligible n options x t" for x t v by (simp add: wait4_eligible_def)
  have "wait4_threads n options False (cur s1) s1 = Some (True, Some p)"
  proof (rule wait4_threads_first)
    show "family s1 F" "F (cur s1) = ys @ p # zs" using t1 F(1) by (simp_all add: ptable_def s1)
    show "\<forall>y\<in>set ys. \<not> (wait4_eligible n options (tasks s1 y) (tsk s1) \<and> wait4_ready options (tasks s1 y))"
      using ys F(1,2) by (auto simp: s1 e)
  qed (use p pc in \<open>simp add: s1 e wait4_ready_def\<close>)
  then have th: "wait4_threads n options False ?c s1 = Some (True, Some p)" by (simp add: s1)
  define s2 where "s2 = upd_task ?c (\<lambda>t. t\<lparr>tms_cutime := tms_cutime t + (tms_utime (tasks s1 p) + tms_cutime (tasks s1 p)),
    tms_cstime := tms_cstime t + (tms_stime (tasks s1 p) + tms_cstime (tasks s1 p))\<rparr>) s1\<lparr>mem := m\<rparr>"
  have s2: "tasks s2 p = tasks st p" "cur s2 = ?c" "mem s2 = m" "pidhash s2 = pidhash st" "processes (sys s2) = processes (sys st)"
    "lview (tasks s2 x) = lview (tasks st x)" for x
    using pc by (simp_all add: s2_def s1 lview_def)
  have t2: "ptable s2 ts F H" using t by (subst ptable_cong [of _ st]) (simp_all add: s2)
  have "set (F ?c) \<subseteq> set ts" "\<forall>x\<in>set (F ?c). p_pptr (tasks st x) = ?c" "distinct (F ?c)" using t by (simp_all add: ptable_def family_def)
  then have pp: "p_pptr (tasks st p) = ?c" "p \<in> set ts" and d: "removeAll p (F ?c) = ys @ zs" by (simp_all add: F(1))
  have u2: "\<forall>x\<in>set ts. pid (tasks s2 x) = pid (tasks s2 p) \<longrightarrow> x = p" using u s2(6) by (simp add: lview_def)
  obtain s3 where s3: "release_task p s2 = Some s3" "mem s3 = m" "cur s3 = ?c" "ptable s3 (removeAll p ts) (F(?c := ys @ zs)) (H(i := removeAll p (H i)))"
    "find_task_by_pid (pid (tasks st p)) s3 = Some None" "\<not> task_used (sys s3) p"
    "processes (sys s3) (user (tasks st p)) = processes (sys st) (user (tasks st p)) - 1"
    using release_task_ok [OF t2 pp(2) _ F(4) _ F(3) u2, of ?c] F(1) pc d by (auto simp: s2)
  have i: "x\<lparr>mem := mem st\<rparr> = x" if "mem x = mem st" for x :: kst using that by (cases x) simp
  have "wait4_report getrusage do_notify_parent stat_addr 0 p s1 = Some (pid (tasks st p), s3)"
    using s3(1) p pp pc out
    by (cases "stat_addr = 0") (simp_all add: wait4_report_def wait4_status_def Let_def s1 s2_def i)
  then have "sys_wait4 getrusage do_notify_parent n stat_addr options 0 w st =
      Some (Inr (pid (tasks st p), remove_wait_queue (WaitChldexit ?c) w (upd_task ?c (\<lambda>t. t\<lparr>state := TASK_RUNNING\<rparr>) s3)))"
    using th unfolding r wait4_round_def Let_def c0 s1_def [symmetric] by simp
  moreover have "ptable (remove_wait_queue (WaitChldexit ?c) w (upd_task ?c (\<lambda>t. t\<lparr>state := TASK_RUNNING\<rparr>) s3))
      (removeAll p ts) (F(?c := ys @ zs)) (H(i := removeAll p (H i)))"
    using s3(4) by (subst ptable_cong [of _ s3]) (simp_all add: remove_wait_queue_def remove_wait_queue_raw_def lview_def)
  moreover have "find_task_by_pid (pid (tasks st p)) (remove_wait_queue (WaitChldexit ?c) w (upd_task ?c (\<lambda>t. t\<lparr>state := TASK_RUNNING\<rparr>) s3)) = Some None"
    by (rule find_task_cong [OF _ _ s3(5)]) (simp_all add: remove_wait_queue_def remove_wait_queue_raw_def lview_def)
  ultimately show ?thesis using s3 by (simp add: remove_wait_queue_def remove_wait_queue_raw_def)
qed

section \<open>Properties\<close>

text \<open>
  C27. At its exit a process frees its secret, then each secret it stole exactly once, in the order
  it stole them, then the head of its list, and nothing else; its list is empty, no other process's list
  and no task changes.
\<close>
theorem exit_frees:
  assumes rel: "magic_rel T N st W" and c: "cur st \<in> T"
  shows "\<exists>st'. exit_secrets kfree st = Some st' \<and> distinct (N (cur st)) \<and>
    mem st' = kfree (secrets_ptr (tsk st)) (fold kfree (N (cur st)) (kfree (my_secret (tsk st)) (mem st))) \<and>
    dlist (lists st') (SecHead (secrets_ptr (tsk st))) [] \<and> tasks st' = tasks st \<and>
    (\<forall>q\<in>T. q \<noteq> cur st \<longrightarrow> dlist (lists st') (SecHead (secrets_ptr (tasks st q))) (map SecNode (N q)))"
proof -
  have "dlist (lists st) (SecHead (secrets_ptr (tsk st))) (map SecNode (N (cur st)))"
    using rel c by (auto simp: magic_rel_def wizard_ok_def)
  then have "distinct (N (cur st))" by (auto simp: dlist_def distinct_map)
  then show ?thesis using exit_secrets_ok [OF assms, of kfree] by blast
qed

text \<open>What \<open>kfree\<close> promises: the object is not mapped any more, no memory appears, \<open>kfree(NULL)\<close> does nothing.\<close>
definition kfree_ok :: "kfree \<Rightarrow> bool" where
  "kfree_ok kf = (\<forall>a m. kf a m \<subseteq>\<^sub>m m \<and> (if a = 0 then kf a m = m else kf a m a = None))"

lemma fold_kfree_less: "kfree_ok kf \<Longrightarrow> fold kf ns m \<subseteq>\<^sub>m m"
proof (induction ns arbitrary: m)
  case (Cons n ns)
  have "fold kf ns (kf n m) \<subseteq>\<^sub>m kf n m" "kf n m \<subseteq>\<^sub>m m" using Cons by (simp_all add: kfree_ok_def)
  then show ?case using map_le_trans by simp
qed simp

section \<open>What the rest of the exit leaves alone\<close>

text \<open>
  Neither the rest of \<open>do_exit\<close> nor the switch to another process touches what the wand calls look at in a
  task or makes memory appear, and a zombie stays one.
\<close>

definition wizview :: "task_struct \<Rightarrow> _" where
  "wizview t = (holding_wand t, my_secret t, secrets_ptr t, pid t, pidhash_next t)"

definition keeps :: "task \<Rightarrow> kst \<Rightarrow> kst \<Rightarrow> bool" where
  "keeps p st st' \<longleftrightarrow> (\<forall>t. wizview (tasks st' t) = wizview (tasks st t)) \<and> pidhash st' = pidhash st \<and> mem st' \<subseteq>\<^sub>m mem st \<and>
     (state (tasks st p) = TASK_ZOMBIE \<longrightarrow> state (tasks st' p) = TASK_ZOMBIE)"

text \<open>What is assumed of the functions that \<open>do_exit\<close> is given: release of resources and sending of signals.\<close>
definition quiet_fun :: "task \<Rightarrow> (kst \<Rightarrow> kst) \<Rightarrow> bool" where
  "quiet_fun p f \<longleftrightarrow> (\<forall>st. keeps p st (f st) \<and> cur (f st) = cur st)"

lemma keeps_refl [simp, intro]: "keeps p st st"
  by (simp add: keeps_def)

lemma keeps_trans [trans]: "keeps p st st' \<Longrightarrow> keeps p st' st'' \<Longrightarrow> keeps p st st''"
  by (auto simp: keeps_def intro: map_le_trans)

lemma keeps_upd:
  "(\<And>t. wizview (f t) = wizview t) \<Longrightarrow> (\<And>t. state t = TASK_ZOMBIE \<Longrightarrow> state (f t) = TASK_ZOMBIE) \<Longrightarrow> keeps p st (upd_task q f st)"
  by (simp add: keeps_def)

lemma keeps_view:
  assumes "\<And>t. wizview (tasks st' t) = wizview (tasks st t)" "pidhash st' = pidhash st" "mem st' = mem st"
    "\<And>t. state (tasks st' t) = state (tasks st t)"
  shows "keeps p st st'"
  using assms by (simp add: keeps_def)

lemma quiet_keeps: "quiet_fun p f \<Longrightarrow> keeps p st (f st)"
  by (simp add: quiet_fun_def)

lemma free_secrets_less:
  assumes kf: "kfree_ok kfree" and f: "free_secrets kfree head itr st = Some st'"
  shows "tasks st' = tasks st \<and> pidhash st' = pidhash st \<and> cur st' = cur st \<and> mem st' \<subseteq>\<^sub>m mem st"
  using f
proof (induction kfree\<equiv>kfree head itr st st' rule: free_secrets.raw_induct [rotated, consumes 1])
  case (1 f head itr st st')
  show ?case
  proof (cases "itr = head")
    case False
    then obtain e where "f kfree head (nxt (lists st) itr) ((upd_lists (list_del itr) st)\<lparr>mem := kfree e (mem st)\<rparr>) = Some st'"
      using 1(2) by (auto split: bind_splits)
    from 1(1) [OF this] have "tasks st' = tasks st" "pidhash st' = pidhash st" "cur st' = cur st" "mem st' \<subseteq>\<^sub>m kfree e (mem st)" by simp_all
    moreover have "kfree e (mem st) \<subseteq>\<^sub>m mem st" using kf by (simp add: kfree_ok_def)
    ultimately show ?thesis using map_le_trans by blast
  qed (use 1(2) in simp)
qed

lemma exit_secrets_keeps:
  assumes kf: "kfree_ok kfree" and e: "exit_secrets kfree st = Some st'" and s: "my_secret (tsk st) \<noteq> 0"
  shows "keeps p st st'" "cur st' = cur st" "mem st' (my_secret (tsk st)) = None" "tasks st' = tasks st"
proof -
  let ?s = "st\<lparr>mem := kfree (my_secret (tsk st)) (mem st)\<rparr>"
  obtain h s1 where h: "(if nxt (lists ?s) h \<noteq> h then free_secrets kfree h (nxt (lists ?s) h) ?s else Some ?s) = Some s1"
    and st': "st' = s1\<lparr>mem := kfree (secrets_ptr (tasks s1 (cur st))) (mem s1)\<rparr>"
    using e unfolding exit_secrets_def Let_def by (simp only: bind_eq_Some_conv option.inject) blast
  have s1: "tasks s1 = tasks st" "pidhash s1 = pidhash st" "cur s1 = cur st" "mem s1 \<subseteq>\<^sub>m mem ?s"
    using h free_secrets_less [OF kf, of h "nxt (lists ?s) h" ?s s1] by (auto split: if_splits)
  have k: "kfree a m \<subseteq>\<^sub>m m" "a \<noteq> 0 \<Longrightarrow> kfree a m a = None" for a m using kf by (auto simp: kfree_ok_def split: if_splits)
  have "mem st' \<subseteq>\<^sub>m mem s1" using k(1) by (simp add: st')
  then have m: "mem st' \<subseteq>\<^sub>m mem ?s" "mem ?s \<subseteq>\<^sub>m mem st" "mem ?s (my_secret (tsk st)) = None"
    using map_le_trans [OF _ s1(4)] k s by simp_all
  show "mem st' (my_secret (tsk st)) = None"
  proof (rule ccontr)
    assume "mem st' (my_secret (tsk st)) \<noteq> None"
    then have "mem st' (my_secret (tsk st)) = mem ?s (my_secret (tsk st))" using m(1) by (simp add: map_le_def dom_def)
    with m(3) \<open>mem st' (my_secret (tsk st)) \<noteq> None\<close> show False by simp
  qed
  have "mem st' \<subseteq>\<^sub>m mem st" using m(1,2) by (rule map_le_trans)
  then show "keeps p st st'" using s1(1,2) by (simp add: keeps_def st')
  show "cur st' = cur st" "tasks st' = tasks st" using s1 by (simp_all add: st')
qed

text \<open>The scheduler.\<close>

lemma queue_keeps:
  "dequeue_task q a st = Some st' \<Longrightarrow> keeps p st st'" "enqueue_task q a st = Some st' \<Longrightarrow> keeps p st st'"
  "deactivate_task q st = Some st' \<Longrightarrow> keeps p st st'"
proof -
  show "dequeue_task q a st = Some st' \<Longrightarrow> keeps p st st'"
    using dequeue_task_frame(1,2) by (auto simp: keeps_def only_queues_def)
  show "enqueue_task q a st = Some st' \<Longrightarrow> keeps p st st'"
    using enqueue_task_frame(1,2) by (fastforce simp: keeps_def only_queues_def wizview_def)
  show "deactivate_task q st = Some st' \<Longrightarrow> keeps p st st'"
    using deactivate_task_frame(1,2) by (fastforce simp: keeps_def only_queues_def wizview_def)
qed

lemma start_magic_keeps:
  assumes "start_magic st = Some st'"
  shows "keeps p st st'"
proof -
  let ?c = "cur st"
  let ?s = "upd_task ?c (\<lambda>t. t\<lparr>started_magic := 1\<rparr>) (st\<lparr>magicProcess := Some ?c, magicDuration := magic_time (tsk st)\<rparr>)"
  obtain s1 s2 where s1: "dequeue_task ?c (array (tasks ?s ?c)) ?s = Some s1"
    and s2: "enqueue_task ?c (array (tasks (upd_task ?c (\<lambda>t. t\<lparr>prio := 50\<rparr>) s1) ?c)) (upd_task ?c (\<lambda>t. t\<lparr>prio := 50\<rparr>) s1) = Some s2"
    and st': "st' = (upd_task ?c (\<lambda>t. t\<lparr>time_slice := magic_time t\<rparr>) s2)\<lparr>MAGICTIME := magicDuration s2, magic_was_called := 1,
      global_magic_call_time := magic_call_time (tasks s2 ?c)\<rparr>"
    using assms by (auto simp: start_magic_def Let_def split: bind_splits)
  have "keeps p st ?s" by (rule keeps_view) (simp_all add: wizview_def)
  also have "keeps p ?s s1" using s1 by (rule queue_keeps)
  also have "keeps p s1 (upd_task ?c (\<lambda>t. t\<lparr>prio := 50\<rparr>) s1)" by (rule keeps_upd) (simp_all add: wizview_def)
  also have "keeps p (upd_task ?c (\<lambda>t. t\<lparr>prio := 50\<rparr>) s1) s2" using s2 by (rule queue_keeps)
  also have "keeps p s2 st'" unfolding st' by (rule keeps_view) (simp_all add: wizview_def)
  finally show ?thesis .
qed

lemma exit_from_magic_keeps:
  assumes "exit_from_magic st = Some st'"
  shows "keeps p st st'"
proof -
  obtain m s1 where m: "magicProcess st = Some m"
    and s1: "(if magic_sleep_flag st = 0 then do {
        st \<leftarrow> dequeue_task m (array (tasks st m)) st;
        let st = upd_task (cur st) (\<lambda>t. t\<lparr>prio := 130\<rparr>) st;
        enqueue_task m (array (tasks st m)) st }
      else Some (upd_task m (\<lambda>t. t\<lparr>prio := 130\<rparr>) st)) = Some s1"
    and st': "st' = (upd_task m (\<lambda>t. t\<lparr>started_magic := 0, magic_time := 0, time_slice := 0, magic_call_time := 0\<rparr>)
      (s1\<lparr>idle_from_magic := 0, magic_sleep_flag := 0, magicDuration := 0\<rparr>))\<lparr>magicProcess := None, MAGICTIME := 0\<rparr>"
    using assms unfolding exit_from_magic_def Let_def by (simp only: bind_eq_Some_conv option.inject) blast
  have u: "keeps p s (upd_task q (\<lambda>t. t\<lparr>prio := 130\<rparr>) s)" for s q by (rule keeps_upd) (simp_all add: wizview_def)
  have "keeps p st s1"
  proof (cases "magic_sleep_flag st = 0")
    case True
    then obtain d where d: "dequeue_task m (array (tasks st m)) st = Some d"
      "enqueue_task m (array (tasks (upd_task (cur d) (\<lambda>t. t\<lparr>prio := 130\<rparr>) d) m)) (upd_task (cur d) (\<lambda>t. t\<lparr>prio := 130\<rparr>) d) = Some s1"
      using s1 by (auto simp: Let_def split: bind_splits)
    show ?thesis using keeps_trans [OF keeps_trans [OF queue_keeps(1) [OF d(1)] u] queue_keeps(2) [OF d(2)]] .
  qed (use s1 u in auto)
  also have "keeps p s1 st'" unfolding st' by (rule keeps_view) (simp_all add: wizview_def)
  finally show ?thesis .
qed

lemma schedule_magic_keeps:
  assumes "schedule_magic st = Some (st', j)"
  shows "keeps p st st'"
proof (cases "magicProcess st")
  case (Some m)
  obtain s1 where s1: "(if global_magic_call_time st \<noteq> magic_call_time (tasks st m)
        then update_magic (magic_time (tasks st m)) st else Some st) = Some s1"
    and r: "(if state (tasks s1 m) = TASK_ZOMBIE then do { st \<leftarrow> exit_from_magic s1; Some (st, None) }
     else if MAGICTIME s1 = 0 then do { st \<leftarrow> exit_from_magic s1; Some (st\<lparr>bugblocker := 1\<rparr>, None) }
     else if idle_from_magic s1 = 1 then
       (if state (tasks s1 m) = TASK_RUNNING then Some (s1\<lparr>idle_from_magic := 0, magic_sleep_flag := 0\<rparr>, Some m)
        else if state (tasks s1 m) = TASK_INTERRUPTIBLE then Some (s1, Some (rq_idle (rq s1)))
        else if state (tasks s1 m) = TASK_ZOMBIE then None else Some (s1, None))
     else Some (s1, None)) = Some (st', j)"
    using assms unfolding schedule_magic_def Some option.case by (simp only: bind_eq_Some_conv) blast
  have u: "keeps p st s1" using s1 Some by (auto simp: update_magic_def intro!: keeps_view split: if_splits)
  have k: "keeps p s (s\<lparr>bugblocker := 1\<rparr>)" "keeps p s (s\<lparr>idle_from_magic := 0, magic_sleep_flag := 0\<rparr>)" for s
    by (rule keeps_view; simp)+
  have "keeps p s1 st'"
  proof (cases "state (tasks s1 m) = TASK_ZOMBIE \<or> MAGICTIME s1 = 0")
    case True
    then obtain s2 where s2: "exit_from_magic s1 = Some s2" using r
      by (cases "exit_from_magic s1"; cases "state (tasks s1 m) = TASK_ZOMBIE") simp_all
    note e = exit_from_magic_keeps [OF s2, of p]
    show ?thesis
    proof (cases "state (tasks s1 m) = TASK_ZOMBIE")
      case z: True
      have "s2 = st'" using r unfolding if_P [OF z] s2 by simp
      with e show ?thesis by simp
    next
      case z: False
      have "s2\<lparr>bugblocker := 1\<rparr> = st'" using r True z unfolding if_not_P [OF z] s2 by simp
      with keeps_trans [OF e k(1)] show ?thesis by simp
    qed
  next
    case False
    then have z: "state (tasks s1 m) \<noteq> TASK_ZOMBIE" "MAGICTIME s1 \<noteq> 0" by simp_all
    note r' = r [unfolded if_not_P [OF z(1)] if_not_P [OF z(2)]]
    show ?thesis
    proof (cases "idle_from_magic s1 = 1 \<and> state (tasks s1 m) = TASK_RUNNING")
      case True
      then have "s1\<lparr>idle_from_magic := 0, magic_sleep_flag := 0\<rparr> = st'" using r' by simp
      with k(2) [of s1] show ?thesis by simp
    next
      case False
      then have "s1 = st'" using r' by (simp split: if_split_asm)
      then show ?thesis by simp
    qed
  qed
  with u show ?thesis by (rule keeps_trans)
qed (use assms in \<open>simp add: schedule_magic_def\<close>)

lemma schedule_running_keeps:
  assumes "schedule_running q st = Some (st', j)"
  shows "keeps p st st'"
proof -
  have "st' = st \<or> start_magic st = Some st'"
    using assms by (auto simp: schedule_running_def split: if_splits bind_splits)
  then show ?thesis using start_magic_keeps by auto
qed

lemma schedule_state_keeps:
  assumes "schedule_state q st = Some (st', j)"
  shows "keeps p st st'"
proof -
  consider (sleep) s1 where "s1 = st \<or> start_magic st = Some s1" "deactivate_task q (s1\<lparr>idle_from_magic := 1, magic_sleep_flag := 1\<rparr>) = Some st'"
    | (signal) "state (tasks st q) = TASK_INTERRUPTIBLE" "st' = upd_task q (\<lambda>t. t\<lparr>state := TASK_RUNNING\<rparr>) st"
    | (run) "schedule_running q st = Some (st', j)"
    | (off) s1 where "deactivate_task q st = Some s1" "schedule_running q s1 = Some (st', j)"
    using assms unfolding schedule_state_def Let_def by (auto split: if_splits bind_splits)
  then show ?thesis
  proof cases
    case sleep
    have "keeps p st s1" using sleep(1) start_magic_keeps by auto
    also have "keeps p s1 (s1\<lparr>idle_from_magic := 1, magic_sleep_flag := 1\<rparr>)" by (rule keeps_view) simp_all
    also have "keeps p (s1\<lparr>idle_from_magic := 1, magic_sleep_flag := 1\<rparr>) st'" using sleep(2) by (rule queue_keeps)
    finally show ?thesis .
  next
    case signal
    then show ?thesis by (auto simp: keeps_def wizview_def)
  next
    case run
    then show ?thesis by (rule schedule_running_keeps)
  next
    case off
    then show ?thesis using queue_keeps(3) schedule_running_keeps keeps_trans by blast
  qed
qed

lemma mmdrop_keeps: "keeps p st (mmdrop m st)"
  by (rule keeps_view) (simp_all add: mmdrop_def Let_def)

lemma switch_tasks_keeps:
  assumes "switch_tasks prev next st = Some st'"
  shows "keeps p st st'"
proof -
  let ?s = "clear_tsk_need_resched prev st"
  let ?r = "upd_rq (\<lambda>r. r\<lparr>nr_switches := nr_switches r + 1, rq_curr := next\<rparr>) ?s"
  have s: "keeps p st ?s" unfolding clear_tsk_need_resched_def by (rule keeps_upd) (simp_all add: wizview_def)
  have r: "keeps p ?s ?r" by (rule keeps_view) simp_all
  have a: "keeps p s (upd_task q (\<lambda>t. t\<lparr>active_mm := x\<rparr>) s)" for s q x by (rule keeps_upd) (simp_all add: wizview_def)
  have c: "keeps p s (s\<lparr>mm_count := x\<rparr>)" "keeps p s (s\<lparr>cur := y\<rparr>)" for s x y by (rule keeps_view; simp)+
  show ?thesis
  proof (cases "prev = next")
    case True
    then show ?thesis using assms s by (simp add: switch_tasks_def)
  next
    case False
    then have "context_switch prev next ?r = Some st'" using assms by (simp add: switch_tasks_def)
    then obtain s1 s2 where 1: "(if mm (tasks ?r next) = None then do {
              let st = upd_task next (\<lambda>t. t\<lparr>active_mm := active_mm (tasks ?r prev)\<rparr>) ?r;
              m \<leftarrow> active_mm (tasks ?r prev);
              Some (st\<lparr>mm_count := (mm_count st)(m := mm_count st m + 1)\<rparr>) }
            else Some ?r) = Some s1" and
      2: "(if mm (tasks s1 prev) = None then do {
              let st = upd_task prev (\<lambda>t. t\<lparr>active_mm := None\<rparr>) s1;
              m \<leftarrow> active_mm (tasks ?r prev);
              Some (mmdrop m st) }
            else Some s1) = Some s2" and 3: "st' = s2\<lparr>cur := next\<rparr>"
      unfolding context_switch_def Let_def by (simp only: bind_eq_Some_conv option.inject) blast
    have "keeps p ?r s1"
      using 1 keeps_trans [OF a c(1)] by (cases "mm (tasks ?r next)"; cases "active_mm (tasks ?r prev)") (auto simp: Let_def)
    moreover have "keeps p s1 s2"
      using 2 keeps_trans [OF a mmdrop_keeps] by (cases "mm (tasks s1 prev)"; cases "active_mm (tasks ?r prev)") (auto simp: Let_def)
    ultimately show ?thesis unfolding 3 by (intro keeps_trans [OF s keeps_trans [OF r keeps_trans [OF _ keeps_trans [OF _ c(2)]]]])
  qed
qed

lemma switch_keeps:
  "pick_next_task st = Some (st', t) \<Longrightarrow> keeps p st st'"
  "switch_tasks prev next st = Some st' \<Longrightarrow> keeps p st st'"
proof -
  assume "pick_next_task st = Some (st', t)"
  then have "tasks st' = tasks st \<and> pidhash st' = pidhash st \<and> mem st' = mem st"
    by (fastforce simp: pick_next_task_def Let_def split: if_split_asm)
  then show "keeps p st st'" by (simp add: keeps_view)
next
  assume "switch_tasks prev next st = Some st'"
  then show "keeps p st st'"
    by (rule switch_tasks_keeps)
qed

lemma pass_keeps:
  assumes "schedule_pass st = Some st'"
  shows "keeps p st st'"
proof -
  let ?s = "upd_task (cur st) (\<lambda>t. t\<lparr>sleep_timestamp := jiffies st\<rparr>) st"
  obtain s1 j1 s2 j2 s3 n where
    1: "schedule_magic ?s = Some (s1, j1)" and
    2: "(case j1 of Some next \<Rightarrow> Some (s1, Some next) | None \<Rightarrow> schedule_state (cur st) s1) = Some (s2, j2)" and
    3: "(case j2 of Some next \<Rightarrow> Some (s2, next) | None \<Rightarrow> pick_next_task s2) = Some (s3, n)" and
    4: "switch_tasks (cur st) n s3 = Some st'"
    using assms unfolding schedule_pass_def Let_def by (simp only: bind_eq_Some_conv option.inject split_paired_Ex prod.case) blast
  have "keeps p st ?s" by (rule keeps_upd) (simp_all add: wizview_def)
  also have "keeps p ?s s1" using 1 by (rule schedule_magic_keeps)
  also have "keeps p s1 s2" using 2 by (auto split: option.splits intro: schedule_state_keeps)
  also have "keeps p s2 s3" using 3 by (auto split: option.splits intro: switch_keeps)
  also have "keeps p s3 st'" using 4 by (rule switch_keeps)
  finally show ?thesis .
qed

lemma schedule_keeps: "schedule st = Some st' \<Longrightarrow> keeps p st st'"
proof -
  have "keeps p st st'" if "schedule_loop st = Some st'" for st st'
    using that
  proof (induction st st' rule: schedule_loop.raw_induct [rotated, consumes 1])
    case (1 f st st')
    then obtain s where "schedule_pass st = Some s" "keeps p s st'" by (auto split: bind_splits if_splits)
    then show ?case using pass_keeps keeps_trans by blast
  qed
  then show "schedule st = Some st' \<Longrightarrow> keeps p st st'" by (simp add: schedule_def split: if_splits)
qed

text \<open>Telling the relatives.\<close>

lemma fold_keeps: "(\<And>t s. t \<in> set ts \<Longrightarrow> keeps p s (f t s)) \<Longrightarrow> keeps p st (fold f ts st)"
proof (induction ts arbitrary: st)
  case (Cons t ts)
  have "keeps p st (f t st)" using Cons.prems by simp
  also have "keeps p (f t st) (fold f ts (f t st))" using Cons by simp
  finally show ?case by simp
qed simp

lemma adopt_keeps:
  assumes "\<And>n t. quiet_fun p (send_sig n t)"
  shows "keeps p st (adopt send_sig father reaper q st)"
proof (cases "p_opptr (tasks st q) = father")
  case True
  let ?s = "upd_task q (\<lambda>t. t\<lparr>first_time_slice := 0\<rparr>) (upd_task q (\<lambda>t. t\<lparr>p_opptr := (if q = reaper then child_reaper (sys st) else reaper)\<rparr>)
    (upd_task q (\<lambda>t. t\<lparr>exit_signal := SIGCHLD, self_exec_id := self_exec_id t + 1\<rparr>) st))"
  have s: "keeps p st ?s" by (rule keeps_view) (simp_all add: wizview_def)
  have "adopt send_sig father reaper q st = (if pdeath_signal (tasks ?s q) \<noteq> 0 then send_sig (pdeath_signal (tasks ?s q)) q ?s else ?s)"
    using True by (simp add: adopt_def Let_def)
  then show ?thesis using s keeps_trans [OF s quiet_keeps [OF assms]] by (simp split: if_split_asm)
qed (simp add: adopt_def)

lemma hangup_keeps:
  assumes "\<And>g n. quiet_fun p (kill_pg g n)" "hangup_pgrp kill_pg g o' st = Some st'"
  shows "keeps p st st'"
proof -
  obtain b where "st' = (if b then kill_pg g SIGCONT (kill_pg g SIGHUP st) else st)"
    using assms(2) unfolding hangup_pgrp_def by (simp only: bind_eq_Some_conv option.inject) blast
  then show ?thesis using keeps_trans [OF quiet_keeps [OF assms(1)] quiet_keeps [OF assms(1)]] by simp
qed

lemma exit_children_keeps:
  assumes q: "\<And>n t. quiet_fun p (do_notify_parent n t)" "\<And>g n. quiet_fun p (kill_pg g n)"
    and e: "exit_children do_notify_parent kill_pg st = Some st'"
  shows "keeps p st st'"
  using e
proof (induction do_notify_parent\<equiv>do_notify_parent kill_pg\<equiv>kill_pg st st' rule: exit_children.raw_induct [rotated, consumes 1])
  case (1 f st st')
  show ?case
  proof (cases "p_cptr (tsk st)")
    case (Some x)
    let ?c = "cur st"
    define s1 where "s1 = upd_task x (\<lambda>t. t\<lparr>p_ysptr := None, ptrace := 0, p_pptr := p_opptr t\<rparr>)
      (upd_task ?c (\<lambda>t. t\<lparr>p_cptr := p_osptr (tasks st x)\<rparr>) st)"
    define s2 where "s2 = upd_task x (\<lambda>t. t\<lparr>p_osptr := p_cptr (tasks s1 (p_pptr t))\<rparr>) s1"
    define s3 where "s3 = (case p_osptr (tasks s2 x) of None \<Rightarrow> s2 | Some o' \<Rightarrow> upd_task o' (\<lambda>t. t\<lparr>p_ysptr := Some x\<rparr>) s2)"
    define s4 where "s4 = upd_task (p_pptr (tasks s3 x)) (\<lambda>t. t\<lparr>p_cptr := Some x\<rparr>) s3"
    define s5 where "s5 = (if state (tasks s4 x) = TASK_ZOMBIE then do_notify_parent (exit_signal (tasks s4 x)) x s4 else s4)"
    obtain s6 where s6: "(if pgrp (tasks s5 x) \<noteq> pgrp (tasks s5 ?c) \<and> session (tasks s5 x) = session (tasks s5 ?c) then do {
        orphaned \<leftarrow> is_orphaned_pgrp (pgrp (tasks s5 x)) s5;
        hangup_pgrp kill_pg (pgrp (tasks s5 x)) orphaned s5 } else Some s5) = Some s6" "f do_notify_parent kill_pg s6 = Some st'"
      using 1(2) unfolding Some option.case Let_def s1_def [symmetric] s2_def [symmetric] s3_def [symmetric] s4_def [symmetric] s5_def [symmetric]
      by (simp only: bind_eq_Some_conv) blast
    have "keeps p st s1" unfolding s1_def by (rule keeps_view) (simp_all add: wizview_def)
    also have "keeps p s1 s2" unfolding s2_def by (rule keeps_upd) (simp_all add: wizview_def)
    also have "keeps p s2 s3" unfolding s3_def by (auto split: option.splits intro!: keeps_upd simp: wizview_def)
    also have "keeps p s3 s4" unfolding s4_def by (rule keeps_upd) (simp_all add: wizview_def)
    also have "keeps p s4 s5" using quiet_keeps [OF q(1)] by (simp add: s5_def)
    also have "keeps p s5 s6"
      using s6(1) hangup_keeps [OF q(2)] by (cases "is_orphaned_pgrp (pgrp (tasks s5 x)) s5") (auto split: if_split_asm)
    also have "keeps p s6 st'" using 1(1) [OF s6(2)] .
    finally show ?thesis .
  qed (use 1(2) in simp)
qed

lemma exit_notify_keeps:
  assumes q: "\<And>n t. quiet_fun p (send_sig n t)" "\<And>n t. quiet_fun p (do_notify_parent n t)" "\<And>g n. quiet_fun p (kill_pg g n)"
    and e: "exit_notify send_sig do_notify_parent kill_pg st = Some st'" and c: "cur st = p"
  shows "keeps p st st' \<and> state (tasks st' p) = TASK_ZOMBIE"
proof -
  let ?cap = "\<lambda>s1 s2. if exit_signal (tasks s2 p) \<noteq> SIGCHLD \<and>
      (parent_exec_id (tasks s2 p) \<noteq> self_exec_id (tasks s2 (p_pptr (tasks s1 p))) \<or> self_exec_id (tasks s2 p) \<noteq> parent_exec_id (tasks s2 p))
    then (case capable CAP_KILL s2 of (ok, st) \<Rightarrow> if ok then st else upd_task p (\<lambda>t. t\<lparr>exit_signal := SIGCHLD\<rparr>) st) else s2"
  let ?zom = "upd_task p (\<lambda>t. t\<lparr>state := TASK_ZOMBIE\<rparr>)"
  obtain s1 s2 where 1: "forget_original_parent send_sig p st = Some s1" and
    2: "(if pgrp (tasks s1 (p_pptr (tasks s1 p))) \<noteq> pgrp (tasks s1 p) \<and> session (tasks s1 (p_pptr (tasks s1 p))) = session (tasks s1 p) then do {
        orphaned \<leftarrow> will_become_orphaned_pgrp (pgrp (tasks s1 p)) (Some p) s1;
        hangup_pgrp kill_pg (pgrp (tasks s1 p)) orphaned s1 } else Some s1) = Some s2" and
    4: "exit_children do_notify_parent kill_pg (do_notify_parent (exit_signal (tasks (?zom (?cap s1 s2)) p)) p (?zom (?cap s1 s2))) = Some st'"
    using e unfolding exit_notify_def Let_def c by (simp only: bind_eq_Some_conv) blast
  define s3 where "s3 = ?cap s1 s2"
  note 4 = 4 [folded s3_def]
  let ?z = "upd_task p (\<lambda>t. t\<lparr>state := TASK_ZOMBIE\<rparr>) s3"
  let ?n = "do_notify_parent (exit_signal (tasks ?z p)) p ?z"
  obtain reaper ts where "s1 = fold (adopt send_sig p reaper) ts st"
    using 1 unfolding forget_original_parent_def Let_def by (simp only: bind_eq_Some_conv option.inject) blast
  then have "keeps p st s1" by (simp add: fold_keeps adopt_keeps q(1))
  also have "keeps p s1 s2"
    using 2 hangup_keeps [OF q(3)] by (cases "will_become_orphaned_pgrp (pgrp (tasks s1 p)) (Some p) s1") (auto split: if_split_asm)
  also have "keeps p s2 s3" by (auto simp: s3_def capable_def wizview_def intro!: keeps_view)
  also have "keeps p s3 ?z" by (rule keeps_upd) (simp_all add: wizview_def)
  finally have z: "keeps p st ?z" .
  have n: "keeps p ?z st'" using keeps_trans [OF quiet_keeps [OF q(2)] exit_children_keeps [OF q(2,3) 4]] .
  have "state (tasks ?z p) = TASK_ZOMBIE" by simp
  with n have "state (tasks st' p) = TASK_ZOMBIE" unfolding keeps_def by blast
  with keeps_trans [OF z n] show ?thesis by simp
qed

section \<open>The zombie\<close>

lemma legilimens_reads:
  assumes n: "find_task_by_pid n st = Some (Some t)" and q: "cur st \<noteq> t" "holding_wand (tsk st) \<noteq> 0" "holding_wand (tasks st t) \<noteq> 0"
    "sec_head (cur st) st = Some h"
    and m: "mem st (my_secret (tasks st t)) = None"
    and l: "(\<exists>e. nxt (lists st) h = SecNode e) \<or>
       nxt (lists st) h = h \<and> fst (kmalloc 40 (mem st)) \<noteq> 0 \<and> snd (kmalloc 40 (mem st)) (my_secret (tasks st t)) = None"
  shows "sys_magic_legilimens kmalloc kfree n st = None"
proof -
  have h: "h = SecHead (secrets_ptr (tsk st))" using q(4) by (simp add: sec_head_def split: if_splits)
  have "sys_magic_legilimens kmalloc kfree n st = do {
      known \<leftarrow> knows_secret h (nxt (lists st) h) (my_secret (tasks st t)) st;
      if known then Some (- leg_exists errno_codes, st)
      else do {
        let (newSec, m) = kmalloc 40 (mem st);
        let st = st\<lparr>mem := m\<rparr>;
        if newSec = 0 then Some (- leg_nomem errno_codes, st)
        else do {
          (d, m) \<leftarrow> strcpy (sec_chars newSec) (my_secret (tasks st t)) (mem st);
          let st = st\<lparr>mem := m\<rparr>;
          if d = 0 then Some (- leg_fault errno_codes, st\<lparr>mem := kfree newSec (mem st)\<rparr>)
          else Some (0, upd_lists (list_add_tail (SecNode newSec) h) st) } } }"
    using n q by (simp add: sys_magic_legilimens_def legilimens_def)
  note eq = this
  from l show ?thesis
  proof (elim disjE exE conjE)
    fix e assume e: "nxt (lists st) h = SecNode e"
    have "strcmp (sec_chars e) (my_secret (tasks st t)) (mem st) = None"
      by (subst strcmp.simps, cases "mem st (sec_chars e)") (simp_all add: m)
    then have "knows_secret h (nxt (lists st) h) (my_secret (tasks st t)) st = None"
      unfolding e by (subst knows_secret.simps) (simp add: h sec_entry_def)
    with eq show ?thesis by simp
  next
    assume e: "nxt (lists st) h = h" and k: "fst (kmalloc 40 (mem st)) \<noteq> 0" "snd (kmalloc 40 (mem st)) (my_secret (tasks st t)) = None"
    have "knows_secret h (nxt (lists st) h) (my_secret (tasks st t)) st = Some False"
      unfolding e by (subst knows_secret.simps) simp
    moreover have "strcpy d (my_secret (tasks st t)) (snd (kmalloc 40 (mem st))) = None" for d
      unfolding strcpy_def by (subst strcpy_loop.simps) (simp add: k(2))
    ultimately show ?thesis using eq k(1) by (cases "kmalloc 40 (mem st)") simp
  qed
qed

text \<open>
  C28. When the whole of \<open>do_exit\<close> has run for a process with a wand (given that releasing
  its resources and sending signals does not touch wands, secrets and process numbers), the process is a
  zombie that still counts as holding a wand, is still found by its number, and still points to its
  secret, which is freed. If the process that runs now has a wand and calls \<open>sys_magic_legilimens\<close> with
  that number, the call reads the freed memory and the model has no result: at once in the comparison
  with the first secret it has stolen before, or, if it has none, in the copy, unless the allocation fails or
  returns the freed memory.
\<close>
theorem zombie_dangling:
  assumes ex: "do_exit kfree release send_sig do_notify_parent kill_pg code st = Some st'" and kf: "kfree_ok kfree"
    and rel: "quiet_fun (cur st) (release (cur st))" "\<And>n t. quiet_fun (cur st) (send_sig n t)"
      "\<And>n t. quiet_fun (cur st) (do_notify_parent n t)" "\<And>g n. quiet_fun (cur st) (kill_pg g n)"
    and w: "holding_wand (tsk st) \<noteq> 0" "my_secret (tsk st) \<noteq> 0" and n: "find_task_by_pid n st = Some (Some (cur st))"
  shows "state (tasks st' (cur st)) = TASK_ZOMBIE \<and> holding_wand (tasks st' (cur st)) \<noteq> 0 \<and>
    my_secret (tasks st' (cur st)) = my_secret (tsk st) \<and> mem st' (my_secret (tsk st)) = None \<and>
    find_task_by_pid n st' = Some (Some (cur st)) \<and>
    (\<forall>h. cur st' \<noteq> cur st \<and> holding_wand (tsk st') \<noteq> 0 \<and> sec_head (cur st') st' = Some h \<and>
      ((\<exists>e. nxt (lists st') h = SecNode e) \<or>
       nxt (lists st') h = h \<and> fst (kmalloc 40 (mem st')) \<noteq> 0 \<and> snd (kmalloc 40 (mem st')) (my_secret (tsk st)) = None) \<longrightarrow>
      sys_magic_legilimens kmalloc kfree n st' = None)"
proof -
  let ?p = "cur st"
  obtain s1 where s1: "exit_secrets kfree st = Some s1" using ex by (auto simp: do_exit_def Let_def split: bind_splits)
  note e = exit_secrets_keeps [OF kf s1 w(2)]
  let ?s2 = "upd_task ?p (\<lambda>t. t\<lparr>flags := flags t OR PF_EXITING\<rparr>) s1"
  let ?s3 = "upd_task ?p (\<lambda>t. t\<lparr>exit_code := code\<rparr>) (release ?p ?s2)"
  obtain s4 where s4: "exit_notify send_sig do_notify_parent kill_pg ?s3 = Some s4" "schedule s4 = Some st'"
    using ex s1 by (auto simp: do_exit_def Let_def split: if_split_asm bind_splits)
  have c: "cur ?s3 = ?p" using e(2) rel(1) by (simp add: quiet_fun_def)
  note x = exit_notify_keeps [OF rel(2-4) s4(1) c]
  have "keeps ?p s1 ?s2" by (rule keeps_upd) (simp_all add: wizview_def)
  also have "keeps ?p ?s2 (release ?p ?s2)" by (rule quiet_keeps [OF rel(1)])
  also have "keeps ?p (release ?p ?s2) ?s3" by (rule keeps_upd) (simp_all add: wizview_def)
  also have "keeps ?p ?s3 s4" using x by simp
  also have k4: "keeps ?p s4 st'" by (rule schedule_keeps [OF s4(2)])
  finally have k: "keeps ?p s1 st'" .
  have v: "wizview (tasks st' t) = wizview (tasks st t)" for t using k e(4) by (simp add: keeps_def)
  have z: "state (tasks st' ?p) = TASK_ZOMBIE" using x k4 by (simp add: keeps_def)
  have f: "holding_wand (tasks st' ?p) = holding_wand (tsk st)" "my_secret (tasks st' ?p) = my_secret (tsk st)"
    "pid (tasks st' t) = pid (tasks st t)" "pidhash_next (tasks st' t) = pidhash_next (tasks st t)" for t
    using v [of ?p] v [of t] by (simp_all add: wizview_def)
  have none: "mem st' (my_secret (tsk st)) = None"
    using k e(3) by (auto simp: keeps_def map_le_def dom_def)
  have "pidhash st' = pidhash st" using keeps_trans [OF e(1) [of ?p] k] by (simp add: keeps_def)
  then have n': "find_task_by_pid n st' = Some (Some ?p)"
    using n find_chain_mono [of n _ st _ st'] f(3,4) by (simp add: find_task_by_pid_def)
  have "sys_magic_legilimens kmalloc kfree n st' = None"
    if q: "cur st' \<noteq> ?p" "holding_wand (tsk st') \<noteq> 0" "sec_head (cur st') st' = Some h" and
      l: "(\<exists>e. nxt (lists st') h = SecNode e) \<or>
       nxt (lists st') h = h \<and> fst (kmalloc 40 (mem st')) \<noteq> 0 \<and> snd (kmalloc 40 (mem st')) (my_secret (tsk st)) = None" for h
    using legilimens_reads [OF n' q(1,2) _ q(3), of kmalloc] f w none l by simp
  with z f w none n' show ?thesis by auto
qed

section \<open>A concrete exit\<close>

text \<open>The duel of \<open>Magic\<close> in which task 2 has stolen the secret of task 1, in the node at \<open>0x3000\<close>.\<close>

definition thief :: kst where
  "thief = duel\<lparr>mem := (mem duel)(0x3000 \<mapsto> 0, 0x3008 \<mapsto> 98, 0x3009 \<mapsto> 98, 0x300A \<mapsto> 0),
     lists := list_add_tail (SecNode 0x3000) (SecHead 0x5002) (lists duel)\<rparr>"

definition unmap :: kfree where
  "unmap a m = (if a = 0 then m else m(a := None))"

lemma unmap_ok: "kfree_ok unmap"
  by (auto simp: kfree_ok_def unmap_def map_le_def)

definition thieves :: "task \<Rightarrow> wizard" where
  "thieves = duellists(2 := (duellists 2)\<lparr>stolen := [[98, 98]]\<rparr>)"

lemma thief_rel: "magic_rel {1, 2, 3} ((\<lambda>_. [])(2 := [0x3000])) thief thieves"
  by (simp add: magic_rel_def wizard_ok_def thief_def duel_def thieves_def duellists_def boot_kst_def INIT_TASK_def dlist_def demo_mem_def
    list_add_tail_def list_add_raw_def)

lemma thief_cur: "cur thief = 1" "tasks thief = tasks duel" "my_secret (tsk thief) = 0x2000" "secrets_ptr (tsk thief) = 0x5001"
  by (simp_all add: thief_def duel_def INIT_TASK_def)

text \<open>Task 2 exits.\<close>
theorem exit_frees_witness:
  "\<exists>st'. exit_secrets unmap (thief\<lparr>cur := 2\<rparr>) = Some st' \<and>
    mem st' = unmap 0x5002 (unmap 0x3000 (unmap 0x1000 (mem thief))) \<and> dlist (lists st') (SecHead 0x5002) []"
proof -
  have "magic_rel {1, 2, 3} ((\<lambda>_. [])(2 := [0x3000])) (thief\<lparr>cur := 2\<rparr>) thieves"
    using thief_rel by (simp add: magic_rel_def wizard_ok_def)
  from exit_frees [OF this, of unmap] show ?thesis
    by (auto simp: thief_cur duel_def INIT_TASK_def)
qed

text \<open>Task 1 of the booted machine, with a wand, a secret and the number 5, exits; task 0 runs next.\<close>
definition dying :: kst where
  "dying = upd_task 1 (\<lambda>t. t\<lparr>holding_wand := 1, my_secret := 0x2000, secrets_ptr := 0x5001, pid := 5\<rparr>)
     (upd_task 0 (\<lambda>t. t\<lparr>need_resched := 0\<rparr>) (booted\<lparr>cur := 1, local_irq_count := 0, local_bh_count := 0, mem := [0x2000 \<mapsto> 0],
       pidhash := (\<lambda>_. None)(pid_hashfn 5 := Some 1),
       lists := INIT_LIST_HEAD (SecHead 0x5001) (INIT_LIST_HEAD (ThreadGroup 1) (lists booted))\<rparr>))"

abbreviation nothing :: "'a \<Rightarrow> 'b \<Rightarrow> kst \<Rightarrow> kst" where
  "nothing \<equiv> (\<lambda>_ _ s. s)"

lemma dying_inv: "rq_inv dying booted_queues"
  by (rule rq_inv_view [OF booted_facts(1)]) (auto simp: dying_def same_lists_def INIT_LIST_HEAD_def Let_def)

lemma booted_task:
  "flags (tasks booted t) = 0" "p_pptr (tasks booted t) = t" "p_cptr (tasks booted t) = None" "next_task (tasks booted t) = t"
  "exit_signal (tasks booted t) = 0" "parent_exec_id (tasks booted t) = 0" "self_exec_id (tasks booted t) = 0" "pidhash_next (tasks booted t) = None"
  by (subst booted_facts(9), simp add: boot_kst_def INIT_TASK_def)+

lemma dying_exits: "\<exists>st'. do_exit unmap (\<lambda>_ s. s) nothing nothing nothing 0 dying = Some st' \<and> cur st' = 0"
proof -
  let ?s1 = "dying\<lparr>mem := unmap 0x5001 (unmap 0x2000 (mem dying))\<rparr>"
  let ?s3 = "upd_task 1 (\<lambda>t. t\<lparr>exit_code := 0\<rparr>) (upd_task 1 (\<lambda>t. t\<lparr>flags := flags t OR PF_EXITING\<rparr>) ?s1)"
  let ?s4 = "upd_task 1 (\<lambda>t. t\<lparr>state := TASK_ZOMBIE\<rparr>) ?s3"
  have d: "cur dying = 1" "nxt (lists dying) (SecHead 0x5001) = SecHead 0x5001" "nxt (lists dying) (ThreadGroup 1) = ThreadGroup 1"
    "my_secret (tasks dying 1) = 0x2000" "secrets_ptr (tasks dying 1) = 0x5001" "pid (tasks dying 1) = 5"
    "local_irq_count dying = 0" "local_bh_count dying = 0" "next_task (tasks dying 0) = 0" "flags (tasks dying 1) = 0"
    "p_pptr (tasks dying 1) = 1" "p_cptr (tasks dying 1) = None" "exit_signal (tasks dying 1) = 0"
    "parent_exec_id (tasks dying 1) = 0" "self_exec_id (tasks dying 1) = 0"
    by (simp_all add: dying_def INIT_LIST_HEAD_def Let_def booted_task del: One_nat_def)
  have e: "exit_secrets unmap dying = Some ?s1" by (simp add: exit_secrets_def sec_head_def d Let_def del: One_nat_def)
  have t: "for_each_task 0 ?s3 = Some []" by (subst for_each_task.simps) (simp add: d del: One_nat_def)
  have "find_reaper 1 1 ?s3 = Some 1" by (subst find_reaper.simps) (simp add: next_thread_def d del: One_nat_def)
  with t have f: "forget_original_parent nothing 1 ?s3 = Some ?s3"
    by (simp add: forget_original_parent_def Let_def del: One_nat_def)
  have c: "exit_children nothing nothing ?s4 = Some ?s4" by (subst exit_children.simps) (simp add: d del: One_nat_def)
  have n: "exit_notify nothing nothing nothing ?s3 = Some ?s4"
    using f c by (simp add: exit_notify_def d Let_def del: One_nat_def)
  have x: "do_exit unmap (\<lambda>_ s. s) nothing nothing nothing 0 dying = schedule ?s4"
    using e n by (simp add: do_exit_def d Let_def del: One_nat_def)
  have i: "rq_inv ?s4 booted_queues"
    by (rule rq_inv_view [OF dying_inv]) (simp_all add: same_lists_def del: One_nat_def)
  have b: "active (rq ?s4) = 0" "rq_idle (rq ?s4) = 0" "expired (rq ?s4) = 1" "magicProcess ?s4 = None" "cur ?s4 = 1"
    "magic_time (tasks ?s4 1) = 0" "active_mm (tasks ?s4 1) \<noteq> None" "\<not> stays (tasks ?s4 1)" "need_resched (tasks ?s4 0) = 0"
    by (simp_all add: dying_def booted_facts(2-8) booted_sel stays_def del: One_nat_def)
  let ?Q = "left_queue ?s4 0 110 booted_queues"
  have l: "?Q = abs_enqueue 0 0 120 (\<lambda>_ _. [])"
    using b(5,8) by (auto simp: left_queue_def abs_dequeue_def abs_enqueue_def fun_eq_iff simp del: One_nat_def)
  have q: "1 \<in> set (booted_queues 0 110)" by (simp add: abs_enqueue_def)
  have "array_len ?Q 0 + array_len ?Q 1 < 2 ^ 32" unfolding l by (simp add: array_len_enqueue) (simp add: array_len_def)
  moreover have "abs_pick ?s4 ?Q = 0"
    unfolding l using best_eq [of 120 "abs_enqueue 0 0 120 (\<lambda>_ _. [])" 0] b(1-3) by (simp add: abs_pick_def abs_enqueue_def)
  ultimately obtain st' where st': "schedule_pass ?s4 = Some st'" "cur st' = 0" "need_resched (tasks st' 0) = 0"
    using schedule_pass_refines [OF i b(4), of 0 110] b q by (auto simp del: One_nat_def)
  have "schedule ?s4 = Some st'"
    unfolding schedule_def by (subst schedule_loop.simps) (simp add: st' d del: One_nat_def)
  with x st'(2) show ?thesis by simp
qed

theorem zombie_dangling_witness:
  "\<exists>st'. do_exit unmap (\<lambda>_ s. s) nothing nothing nothing 0 dying = Some st' \<and> cur st' = 0 \<and>
    state (tasks st' 1) = TASK_ZOMBIE \<and> holding_wand (tasks st' 1) \<noteq> 0 \<and> mem st' 0x2000 = None \<and> find_task_by_pid 5 st' = Some (Some 1)"
proof -
  obtain st' where st': "do_exit unmap (\<lambda>_ s. s) nothing nothing nothing 0 dying = Some st'" "cur st' = 0" using dying_exits by blast
  have q: "quiet_fun p (\<lambda>s. s)" for p by (simp add: quiet_fun_def)
  have d: "cur dying = 1" "holding_wand (tasks dying 1) \<noteq> 0" "my_secret (tasks dying 1) = 0x2000" "find_task_by_pid 5 dying = Some (Some 1)"
    by (simp_all add: dying_def find_task_by_pid_def find_task_chain.simps del: One_nat_def)
  from zombie_dangling [OF st'(1) unmap_ok q q q q, of 5] st' d show ?thesis by (auto simp del: One_nat_def)
qed

text \<open>Task 0 waits for its child, task 1, which is a zombie.\<close>
definition mourner :: kst where
  "mourner = upd_task 1 (\<lambda>t. t\<lparr>state := TASK_ZOMBIE, exit_signal := SIGCHLD\<rparr>) one_child"

lemma one_child_sel:
  "cur one_child = 0" "p_opptr (tasks one_child 1) = 0" "pgrp (tasks one_child t) = 0"
  unfolding one_child_def
  by (simp_all add: link_frame hash_pid_other SET_LINKS_other del: One_nat_def) (simp_all add: orphan_def boot_kst_def INIT_TASK_def)

theorem wait4_reaps_witness:
  "\<exists>st'. sys_wait4 (\<lambda>_ _ s. (0, s)) (\<lambda>_ _ s. s) 1 0 0 0 7 mourner = Some (Inr (1, st')) \<and> ptable st' [] (\<lambda>_. []) (\<lambda>_. []) \<and>
    find_task_by_pid 1 st' = Some None \<and> state (tasks st' 0) = TASK_RUNNING"
proof -
  have t: "ptable mourner [1] ((\<lambda>_. [])(0 := [1])) ((\<lambda>_. [])(pid_hashfn 1 := [1]))"
    using one_child_ptable by (subst ptable_cong [of _ one_child]) (simp_all add: mourner_def lview_def)
  have c: "cur mourner = 0" by (simp add: mourner_def one_child_sel)
  have "(\<lambda>_. [] :: task list)(a := []) = (\<lambda>_. [])" for a :: nat by (simp add: fun_eq_iff)
  then show ?thesis
    using wait4_reaps [OF t, of 0 "[]" 1 "[]" "pid_hashfn 1" 1 0 "mem mourner" "\<lambda>_ _ s. (0, s)" "\<lambda>_ _ s. s" 7]
    by (simp add: c mourner_def wait4_eligible_def one_child_pid one_child_sel del: One_nat_def) blast
qed

end
