(* ===== verification/Sigqueue.thy ===== *)
theory Sigqueue
  imports Bitmap Nlist
begin

text \<open>
  Signal sets and the queues of pending signals: \<open>include/asm-i386/signal.h\<close>, \<open>include/linux/signal.h\<close> and the
  queue operations of \<open>kernel/signal.c\<close>. A set of 64 signals is a word of 64 bits, the two words of the code with the
  first one low. A queue is a list of \<open>struct sigqueue\<close> objects that ends with \<open>NULL\<close>, with a pointer \<open>tail\<close> to the
  last pointer of it; such a pointer to a pointer is a \<open>sref\<close>. \<open>sigq\<close> relates a queue to the list of its objects.
\<close>

section \<open>Data\<close>

type_synonym sigset = "64 word"

datatype sref =
    SHead                    \<comment> \<open>\<open>&pending->head\<close>\<close>
  | SNext nat                \<comment> \<open>\<open>&q->next\<close>\<close>

record siginfo =
  si_signo :: int
  si_errno :: int
  si_code :: int
  si_pid :: int
  si_uid :: int
  si_status :: int
  si_utime :: u32
  si_stime :: u32

record sigpending =
  sp_head :: "nat option"
  sp_tail :: sref
  sp_signal :: sigset

text \<open>The \<open>struct sigqueue\<close> objects, those that are allocated, and the counters.\<close>
record sigheap =
  sq_next :: "nat \<Rightarrow> nat option"
  sq_info :: "nat \<Rightarrow> siginfo"
  sq_live :: "nat \<Rightarrow> bool"
  nr_queued_signals :: int
  max_queued_signals :: int

text \<open>The argument \<open>struct siginfo *info\<close>: 0, 1 or a pointer.\<close>
datatype infoarg = Info0 | Info1 | Info siginfo

definition SIGRTMIN :: int where "SIGRTMIN = 32"
definition SI_USER :: int where "SI_USER = 0"
definition SI_KERNEL :: int where "SI_KERNEL = 0x80"

section \<open>Sets\<close>

text \<open>The bit instructions take a bit string in memory; signals are numbered from 1.\<close>

definition sigaddset :: "int \<Rightarrow> sigset \<Rightarrow> sigset" where
  "sigaddset s w = w OR push_bit (nat (s - 1)) 1"

definition sigdelset :: "int \<Rightarrow> sigset \<Rightarrow> sigset" where
  "sigdelset s w = w AND NOT (push_bit (nat (s - 1)) 1)"

definition sigismember :: "sigset \<Rightarrow> int \<Rightarrow> bool" where
  "sigismember w s = bit w (nat (s - 1))"

definition sigmask :: "int \<Rightarrow> u32" where
  "sigmask s = push_bit (nat (s - 1)) 1"

definition sigdelsetmask :: "u32 \<Rightarrow> sigset \<Rightarrow> sigset" where
  "sigdelsetmask msk w = w AND NOT (ucast msk)"

text \<open>The words \<open>sig[0]\<close> and \<open>sig[1]\<close>.\<close>
definition sig_lo :: "sigset \<Rightarrow> u32" where "sig_lo w = ucast w"
definition sig_hi :: "sigset \<Rightarrow> u32" where "sig_hi w = ucast (drop_bit 32 w)"

definition next_signal :: "sigset \<Rightarrow> sigset \<Rightarrow> int" where
  "next_signal s m =
     (let x0 = sig_lo s AND NOT (sig_lo m); x1 = sig_hi s AND NOT (sig_hi m) in
      if x0 \<noteq> 0 then (case ffs x0 of Some i \<Rightarrow> 1 + int i | None \<Rightarrow> 1)
      else if x1 \<noteq> 0 then (case ffs x1 of Some i \<Rightarrow> 32 + 1 + int i | None \<Rightarrow> 33)
      else 0)"

definition has_pending_signals :: "sigset \<Rightarrow> sigset \<Rightarrow> bool" where
  "has_pending_signals s m = ((sig_hi s AND NOT (sig_hi m)) OR (sig_lo s AND NOT (sig_lo m)) \<noteq> 0)"

section \<open>Queues\<close>

definition sget :: "sref \<Rightarrow> sigpending \<Rightarrow> sigheap \<Rightarrow> nat option" where
  "sget r p h = (case r of SHead \<Rightarrow> sp_head p | SNext a \<Rightarrow> sq_next h a)"

definition sput :: "sref \<Rightarrow> nat option \<Rightarrow> sigpending \<times> sigheap \<Rightarrow> sigpending \<times> sigheap" where
  "sput r v s = (case s of (p, h) \<Rightarrow> case r of
     SHead \<Rightarrow> (p\<lparr>sp_head := v\<rparr>, h) | SNext a \<Rightarrow> (p, h\<lparr>sq_next := (sq_next h)(a := v)\<rparr>))"

definition init_sigpending :: "sigpending \<Rightarrow> sigpending" where
  "init_sigpending p = p\<lparr>sp_signal := 0, sp_head := None, sp_tail := SHead\<rparr>"

text \<open>\<open>kmem_cache_free\<close> and the decrement of the counter that goes with it.\<close>
definition free_sigqueue :: "nat \<Rightarrow> sigheap \<Rightarrow> sigheap" where
  "free_sigqueue q h = h\<lparr>sq_live := (sq_live h)(q := False), nr_queued_signals := nr_queued_signals h - 1\<rparr>"

partial_function (option) flush_loop :: "nat option \<Rightarrow> sigheap \<Rightarrow> sigheap option" where
  "flush_loop q h = (case q of None \<Rightarrow> Some h | Some a \<Rightarrow> flush_loop (sq_next h a) (free_sigqueue a h))"

definition flush_sigqueue :: "sigpending \<times> sigheap \<Rightarrow> (sigpending \<times> sigheap) option" where
  "flush_sigqueue s = (case s of (p, h) \<Rightarrow> do {
     let q = sp_head p;
     let p = p\<lparr>sp_signal := 0, sp_head := None, sp_tail := SHead\<rparr>;
     h \<leftarrow> flush_loop q h;
     Some (p, h) })"

text \<open>The pointer to the first object with the signal, and the object; or the end of the list.\<close>
partial_function (option) sq_find :: "sref \<Rightarrow> int \<Rightarrow> sigpending \<Rightarrow> sigheap \<Rightarrow> (sref \<times> nat option) option" where
  "sq_find pp sg p h = (case sget pp p h of
     None \<Rightarrow> Some (pp, None)
   | Some q \<Rightarrow> if si_signo (sq_info h q) = sg then Some (pp, Some q) else sq_find (SNext q) sg p h)"

text \<open>\<open>if ((*pp = q->next) == NULL) tail = pp\<close>, then the object is freed.\<close>
definition sq_unlink :: "sref \<Rightarrow> nat \<Rightarrow> sigpending \<times> sigheap \<Rightarrow> sigpending \<times> sigheap" where
  "sq_unlink pp q s =
     (let nxt = sq_next (snd s) q;
          (p, h) = sput pp nxt s;
          p = (if nxt = None then p\<lparr>sp_tail := pp\<rparr> else p)
      in (p, free_sigqueue q h))"

definition collect_signal :: "int \<Rightarrow> siginfo \<Rightarrow> sigpending \<times> sigheap \<Rightarrow> (int \<times> siginfo \<times> sigpending \<times> sigheap) option" where
  "collect_signal sg info s = (case s of (p, h) \<Rightarrow>
     if sigismember (sp_signal p) sg then do {
       (pp, q) \<leftarrow> sq_find SHead sg p h;
       (case q of
          None \<Rightarrow> Some (1, info\<lparr>si_signo := sg, si_errno := 0, si_code := 0, si_pid := 0, si_uid := 0\<rparr>,
            p\<lparr>sp_signal := sigdelset sg (sp_signal p)\<rparr>, h)
        | Some q \<Rightarrow> do {
            let info = sq_info h q;
            let (p, h) = sq_unlink pp q (p, h);
            (_, another) \<leftarrow> (if sg \<ge> SIGRTMIN then sq_find pp sg p h else Some (pp, None));
            Some (1, info, (if another = None then p\<lparr>sp_signal := sigdelset sg (sp_signal p)\<rparr> else p), h) }) }
     else Some (0, info, p, h))"

partial_function (option) rm_loop :: "sref \<Rightarrow> int \<Rightarrow> sigpending \<times> sigheap \<Rightarrow> (sigpending \<times> sigheap) option" where
  "rm_loop pp sg s = (case sget pp (fst s) (snd s) of
     None \<Rightarrow> Some s
   | Some q \<Rightarrow>
       if si_signo (sq_info (snd s) q) = sg then rm_loop pp sg (sq_unlink pp q s)
       else rm_loop (SNext q) sg s)"

definition rm_from_queue :: "int \<Rightarrow> sigpending \<times> sigheap \<Rightarrow> (int \<times> sigpending \<times> sigheap) option" where
  "rm_from_queue sg s = (case s of (p, h) \<Rightarrow>
     if \<not> sigismember (sp_signal p) sg then Some (0, p, h)
     else do {
       s \<leftarrow> rm_loop SHead sg (p\<lparr>sp_signal := sigdelset sg (sp_signal p)\<rparr>, h);
       Some (1, s) })"

text \<open>\<open>alloc\<close> stands for \<open>kmem_cache_alloc\<close>; \<open>cpid\<close> and \<open>cuid\<close> are those of the current process.\<close>
definition send_signal ::
  "(sigheap \<Rightarrow> nat option) \<Rightarrow> int \<Rightarrow> int \<Rightarrow> int \<Rightarrow> infoarg \<Rightarrow> sigpending \<times> sigheap \<Rightarrow> int \<times> sigpending \<times> sigheap" where
  "send_signal alloc cpid cuid sg info s = (case s of (p, h) \<Rightarrow>
     (case (if nr_queued_signals h < max_queued_signals h then alloc h else None) of
        Some q \<Rightarrow>
          (let h = h\<lparr>sq_live := (sq_live h)(q := True), nr_queued_signals := nr_queued_signals h + 1, sq_next := (sq_next h)(q := None)\<rparr>;
               (p, h) = sput (sp_tail p) (Some q) (p, h);
               p = p\<lparr>sp_tail := SNext q\<rparr>;
               old = sq_info h q;
               i = (case info of
                 Info0 \<Rightarrow> old\<lparr>si_signo := sg, si_errno := 0, si_code := SI_USER, si_pid := cpid, si_uid := cuid\<rparr>
               | Info1 \<Rightarrow> old\<lparr>si_signo := sg, si_errno := 0, si_code := SI_KERNEL, si_pid := 0, si_uid := 0\<rparr>
               | Info x \<Rightarrow> x);
               h = h\<lparr>sq_info := (sq_info h)(q := i)\<rparr>
           in (0, p\<lparr>sp_signal := sigaddset sg (sp_signal p)\<rparr>, h))
      | None \<Rightarrow>
          (if sg \<ge> SIGRTMIN \<and> (case info of Info x \<Rightarrow> si_code x \<noteq> SI_USER | _ \<Rightarrow> False) then (- EAGAIN, p, h)
           else (0, p\<lparr>sp_signal := sigaddset sg (sp_signal p)\<rparr>, h))))"

section \<open>Lemmas on sets\<close>

lemma bit_sig_lo: "bit (sig_lo w) i \<longleftrightarrow> i < 32 \<and> bit w i"
  by (simp add: sig_lo_def bit_simps)

lemma bit_sig_hi: "bit (sig_hi w) i \<longleftrightarrow> i < 32 \<and> bit w (32 + i)"
  by (simp add: sig_hi_def bit_simps)

lemma sigset_simps [simp]:
  "1 \<le> s \<Longrightarrow> s \<le> 64 \<Longrightarrow> 1 \<le> t \<Longrightarrow> sigismember (sigaddset s w) t \<longleftrightarrow> t = s \<or> sigismember w t"
  "1 \<le> s \<Longrightarrow> s \<le> 64 \<Longrightarrow> 1 \<le> t \<Longrightarrow> sigismember (sigdelset s w) t \<longleftrightarrow> t \<noteq> s \<and> sigismember w t"
  by (auto simp: sigismember_def sigaddset_def sigdelset_def bit_simps dest: bit_imp_le_length)

text \<open>The signals of a set.\<close>
definition signals :: "sigset \<Rightarrow> int set" where
  "signals w = {s. 1 \<le> s \<and> s \<le> 64 \<and> sigismember w s}"

lemma signals_simps [simp]:
  "1 \<le> s \<Longrightarrow> s \<le> 64 \<Longrightarrow> signals (sigaddset s w) = insert s (signals w)"
  "1 \<le> s \<Longrightarrow> s \<le> 64 \<Longrightarrow> signals (sigdelset s w) = signals w - {s}"
  "signals 0 = {}"
  by (auto simp: signals_def) (simp add: sigismember_def)

lemma mem_signals: "s \<in> signals w \<longleftrightarrow> 1 \<le> s \<and> s \<le> 64 \<and> bit w (nat (s - 1))"
  by (simp add: signals_def sigismember_def)

lemma next_signal_spec:
  "next_signal s m = (if signals s - signals m = {} then 0 else Min (signals s - signals m))"
proof -
  let ?x0 = "sig_lo s AND NOT (sig_lo m)" and ?x1 = "sig_hi s AND NOT (sig_hi m)"
  let ?S = "signals s - signals m"
  have fin: "finite ?S" by (rule finite_subset [of _ "{1..64}"]) (auto simp: signals_def)
  have lo: "bit ?x0 i \<longleftrightarrow> i < 32 \<and> 1 + int i \<in> ?S" for i by (auto simp: bit_simps bit_sig_lo mem_signals)
  have hi: "bit ?x1 i \<longleftrightarrow> i < 32 \<and> 33 + int i \<in> ?S" for i
    by (auto simp: bit_simps bit_sig_hi mem_signals nat_add_distrib add.commute)
  have S: "t = 1 + int (nat (t - 1)) \<and> nat (t - 1) < 64" if "t \<in> ?S" for t using that by (auto simp: mem_signals)
  show ?thesis
  proof (cases "?x0 = 0")
    case False
    then obtain i where i: "ffs ?x0 = Some i" using ffs_eq_None [of ?x0] by auto
    have b: "i < 32" "bit ?x0 i" "\<forall>j<i. \<not> bit ?x0 j" using ffs_SomeD [OF i] by auto
    have "Min ?S = 1 + int i"
    proof (rule Min_eqI [OF fin])
      show "1 + int i \<in> ?S" using b(2) lo by blast
      fix t assume t: "t \<in> ?S"
      show "1 + int i \<le> t"
      proof (rule ccontr)
        assume "\<not> 1 + int i \<le> t"
        then have "nat (t - 1) < i" using S [OF t] by linarith
        then show False using b(1,3) lo [of "nat (t - 1)"] t S [OF t] by auto
      qed
    qed
    moreover have "?S \<noteq> {}" using b(2) lo by blast
    ultimately show ?thesis using False i by (simp add: next_signal_def)
  next
    case z0: True
    have ge: "33 \<le> t" if "t \<in> ?S" for t
    proof (rule ccontr)
      assume "\<not> 33 \<le> t"
      then have "nat (t - 1) < 32" using that by (simp add: mem_signals)
      then show False using lo [of "nat (t - 1)"] S [OF that] that z0 by auto
    qed
    show ?thesis
    proof (cases "?x1 = 0")
      case False
      then obtain i where i: "ffs ?x1 = Some i" using ffs_eq_None [of ?x1] by auto
      have b: "i < 32" "bit ?x1 i" "\<forall>j<i. \<not> bit ?x1 j" using ffs_SomeD [OF i] by auto
      have "Min ?S = 33 + int i"
      proof (rule Min_eqI [OF fin])
        show "33 + int i \<in> ?S" using b(2) hi by blast
        fix t assume t: "t \<in> ?S"
        show "33 + int i \<le> t"
        proof (rule ccontr)
          assume "\<not> 33 + int i \<le> t"
          then have "nat (t - 33) < i" "t = 33 + int (nat (t - 33))" using ge [OF t] by linarith+
          then show False using b(1,3) hi [of "nat (t - 33)"] t by auto
        qed
      qed
      moreover have "?S \<noteq> {}" using b(2) hi by blast
      ultimately show ?thesis using z0 False i by (simp add: next_signal_def)
    next
      case True
      have "t \<notin> ?S" for t
      proof
        assume t: "t \<in> ?S"
        have "t \<le> 64" using t by (simp add: mem_signals)
        then have "nat (t - 33) < 32" "t = 33 + int (nat (t - 33))" using ge [OF t] by linarith+
        then show False using hi [of "nat (t - 33)"] t True by auto
      qed
      then show ?thesis using z0 True by (auto simp: next_signal_def)
    qed
  qed
qed

lemma word_or_zero: "(x :: u32) OR y = 0 \<longleftrightarrow> x = 0 \<and> y = 0"
  by (auto simp: bit_eq_iff bit_or_iff)

lemma has_pending_spec: "has_pending_signals s m \<longleftrightarrow> signals s - signals m \<noteq> {}"
proof -
  have "has_pending_signals s m \<longleftrightarrow> next_signal s m \<noteq> 0"
    by (auto simp: has_pending_signals_def next_signal_def word_or_zero Let_def split: option.splits if_splits)
  moreover have "Min (signals s - signals m) \<noteq> 0" if "signals s - signals m \<noteq> {}"
  proof -
    have "finite (signals s - signals m)" by (rule finite_subset [of _ "{1..64}"]) (auto simp: signals_def)
    then have "Min (signals s - signals m) \<in> signals s" using Min_in that by blast
    then show ?thesis by (auto simp: mem_signals)
  qed
  ultimately show ?thesis by (auto simp: next_signal_spec)
qed

lemma next_signal_in: "next_signal s m \<noteq> 0 \<Longrightarrow> next_signal s m \<in> signals s"
proof -
  assume "next_signal s m \<noteq> 0"
  moreover have "finite (signals s - signals m)" by (rule finite_subset [of _ "{1..64}"]) (auto simp: signals_def)
  ultimately have "next_signal s m \<in> signals s - signals m" using Min_in [of "signals s - signals m"]
    by (auto simp: next_signal_spec split: if_splits)
  then show ?thesis by blast
qed

section \<open>A queue and its objects\<close>

text \<open>The pointer that follows the objects \<open>qs\<close>.\<close>
definition ref_of :: "nat list \<Rightarrow> sref" where
  "ref_of qs = (if qs = [] then SHead else SNext (last qs))"

abbreviation slist :: "(nat \<Rightarrow> nat option) \<Rightarrow> nat option \<Rightarrow> nat list \<Rightarrow> bool" where
  "slist nx c qs \<equiv> nlist nx (\<lambda>_. ()) (\<lambda>_. ()) () c qs"

definition sigq :: "sigpending \<times> sigheap \<Rightarrow> nat list \<Rightarrow> bool" where
  "sigq s qs \<longleftrightarrow> slist (sq_next (snd s)) (sp_head (fst s)) qs \<and> sp_tail (fst s) = ref_of qs \<and> distinct qs \<and>
     (\<forall>q\<in>set qs. sq_live (snd s) q)"

text \<open>The counter is the number of allocated objects.\<close>
definition nr_ok :: "sigheap \<Rightarrow> bool" where
  "nr_ok h \<longleftrightarrow> finite {q. sq_live h q} \<and> nr_queued_signals h = int (card {q. sq_live h q})"

lemma nr_ok_free: "nr_ok h \<Longrightarrow> sq_live h q \<Longrightarrow> nr_ok (free_sigqueue q h)"
proof -
  assume n: "nr_ok h" and l: "sq_live h q"
  have e: "{x. ((sq_live h)(q := False)) x} = {x. sq_live h x} - {q}" by auto
  have "0 < card {x. sq_live h x}" using n l by (auto simp: nr_ok_def card_gt_0_iff)
  then have "int (card ({x. sq_live h x} - {q})) = int (card {x. sq_live h x}) - 1"
    using n l by (simp add: nr_ok_def card_Diff_singleton of_nat_diff)
  then show ?thesis using n unfolding nr_ok_def free_sigqueue_def by (simp add: e del: fun_upd_apply)
qed

text \<open>Only the objects in \<open>A\<close> differ.\<close>
definition same_out :: "nat set \<Rightarrow> sigheap \<Rightarrow> sigheap \<Rightarrow> bool" where
  "same_out A h h' \<longleftrightarrow> (\<forall>a. a \<notin> A \<longrightarrow> sq_next h' a = sq_next h a \<and> sq_info h' a = sq_info h a \<and> sq_live h' a = sq_live h a) \<and>
     max_queued_signals h' = max_queued_signals h"

lemma same_out_refl [simp]: "same_out A h h"
  by (simp add: same_out_def)

lemma same_out_trans: "same_out A h h' \<Longrightarrow> same_out B h' h'' \<Longrightarrow> same_out (A \<union> B) h h''"
  by (simp add: same_out_def)

lemma same_out_mono: "same_out A h h' \<Longrightarrow> A \<subseteq> B \<Longrightarrow> same_out B h h'"
  by (auto simp: same_out_def)

lemma sigq_frame: "sigq (p, h) qs \<Longrightarrow> same_out A h h' \<Longrightarrow> A \<inter> set qs = {} \<Longrightarrow> sigq (p, h') qs"
  using nlist_cong [of qs "sq_next h'" "sq_next h" "\<lambda>_. ()" "\<lambda>_. ()" "\<lambda>_. ()" "()" "sp_head p"]
  by (auto simp: sigq_def same_out_def disjoint_iff)

lemma slist_snoc:
  assumes "slist nx c qs" "\<And>x. x \<in> set qs \<Longrightarrow> nx' x = (if x = last qs then Some q else nx x)" "nx' q = None"
    "distinct qs"
  shows "slist nx' (if qs = [] then Some q else c) (qs @ [q])"
  using assms
proof (induction qs arbitrary: c)
  case (Cons x xs)
  have "slist nx' (if xs = [] then Some q else nx x) (xs @ [q])"
    using Cons.prems by (intro Cons.IH) (auto split: if_splits)
  then show ?case using Cons.prems by (auto split: if_splits)
qed simp

lemma sget_ref: "slist (sq_next h) (sp_head p) (ys @ zs) \<Longrightarrow> sget (ref_of ys) p h = (if zs = [] then None else Some (hd zs))"
proof -
  have "slist nx c (ys @ zs) \<Longrightarrow> (if ys = [] then c else nx (last ys)) = (if zs = [] then None else Some (hd zs))" for nx c
    by (induction ys arbitrary: c) (auto dest: nlist_head split: if_splits)
  then show "slist (sq_next h) (sp_head p) (ys @ zs) \<Longrightarrow> ?thesis"
    by (auto simp: sget_def ref_of_def)
qed

lemma ref_of_Nil: "ref_of [] = SHead"
  by (simp add: ref_of_def)

lemma ref_of_snoc [simp]: "ref_of (ys @ [q]) = SNext q"
  by (simp add: ref_of_def)

lemma sq_find_spec:
  "slist (sq_next h) (sp_head p) (ys @ zs) \<Longrightarrow>
     sq_find (ref_of ys) sg p h =
       (case dropWhile (\<lambda>q. si_signo (sq_info h q) \<noteq> sg) zs of
          [] \<Rightarrow> Some (ref_of (ys @ zs), None)
        | q # _ \<Rightarrow> Some (ref_of (ys @ takeWhile (\<lambda>q. si_signo (sq_info h q) \<noteq> sg) zs), Some q))"
proof (induction zs arbitrary: ys)
  case Nil
  then show ?case using sget_ref [of h p ys "[]"] by (simp add: sq_find.simps)
next
  case (Cons z zs)
  have g: "sget (ref_of ys) p h = Some z" using sget_ref [OF Cons.prems] by simp
  have "sq_find (SNext z) sg p h = sq_find (ref_of (ys @ [z])) sg p h" by simp
  then show ?case using Cons.IH [of "ys @ [z]"] Cons.prems g
    by (cases "dropWhile (\<lambda>q. si_signo (sq_info h q) \<noteq> sg) zs")
      (simp_all add: sq_find.simps [of "ref_of ys"] del: dropWhile_eq_Nil_conv)
qed

text \<open>Unlinking one object.\<close>

lemma sq_unlink_spec:
  assumes q: "sigq (p, h) (ys @ q # zs)" and n: "nr_ok h"
  obtains p' h' where "sq_unlink (ref_of ys) q (p, h) = (p', h')" "sigq (p', h') (ys @ zs)" "nr_ok h'"
    "same_out (set (ys @ [q])) h h'" "sq_info h' = sq_info h" "sp_signal p' = sp_signal p"
    "nr_queued_signals h' = nr_queued_signals h - 1" "sq_live h' = (sq_live h)(q := False)"
proof -
  have sl: "slist (sq_next h) (sp_head p) (ys @ q # zs)" and d: "distinct (ys @ q # zs)"
    and t: "sp_tail p = ref_of (ys @ q # zs)" and l: "\<forall>x\<in>set (ys @ q # zs). sq_live h x"
    using q by (auto simp: sigq_def)
  have nx: "sq_next h q = (if zs = [] then None else Some (hd zs))" using nlist_append [OF sl] by simp
  obtain p1 h1 where 1: "sput (ref_of ys) (sq_next h q) (p, h) = (p1, h1)" by fastforce
  have p1: "sp_head p1 = (if ys = [] then sq_next h q else sp_head p)" "sp_tail p1 = sp_tail p" "sp_signal p1 = sp_signal p"
    and h1: "sq_next h1 = (if ys = [] then sq_next h else (sq_next h)(last ys := sq_next h q))" "sq_info h1 = sq_info h"
      "sq_live h1 = sq_live h" "nr_queued_signals h1 = nr_queued_signals h" "max_queued_signals h1 = max_queued_signals h"
    using 1 by (auto simp: sput_def ref_of_def split: if_splits)
  let ?p = "if sq_next h q = None then p1\<lparr>sp_tail := ref_of ys\<rparr> else p1"
  have e: "sq_unlink (ref_of ys) q (p, h) = (?p, free_sigqueue q h1)" using 1 by (simp add: sq_unlink_def)
  have "slist (sq_next h1) (sp_head p1) (ys @ zs)"
    unfolding p1(1) by (rule nlist_remove [OF sl d]) (use h1 in auto)
  moreover have "sp_tail ?p = ref_of (ys @ zs)" using nx p1 t by (cases zs rule: rev_cases) (auto simp: ref_of_def)
  ultimately have "sigq (?p, free_sigqueue q h1) (ys @ zs)"
    using d l h1 by (auto simp: sigq_def free_sigqueue_def)
  moreover have "nr_ok (free_sigqueue q h1)"
    using n l h1 by (intro nr_ok_free) (simp_all add: nr_ok_def)
  moreover have "same_out (set (ys @ [q])) h (free_sigqueue q h1)"
    using h1 by (auto simp: same_out_def free_sigqueue_def)
  ultimately show thesis using that e p1 h1 by (simp add: free_sigqueue_def)
qed

text \<open>What each operation does to the queue \<open>qs\<close>, and to nothing else.\<close>

lemma rm_loop_spec:
  "sigq (p, h) (ys @ zs) \<Longrightarrow> nr_ok h \<Longrightarrow>
   \<exists>p' h'. rm_loop (ref_of ys) sg (p, h) = Some (p', h') \<and> sigq (p', h') (ys @ filter (\<lambda>q. si_signo (sq_info h q) \<noteq> sg) zs) \<and>
     nr_ok h' \<and> same_out (set (ys @ zs)) h h' \<and> sq_info h' = sq_info h \<and> sp_signal p' = sp_signal p"
proof (induction "length zs" arbitrary: ys zs p h)
  case 0
  then show ?case using sget_ref [of h p ys "[]"] by (simp add: rm_loop.simps sigq_def)
next
  case (Suc n)
  then obtain q us where zs: "zs = q # us" "n = length us" by (cases zs) auto
  have g: "sget (ref_of ys) p h = Some q" using sget_ref [of h p ys zs] Suc.prems zs by (simp add: sigq_def)
  show ?case
  proof (cases "si_signo (sq_info h q) = sg")
    case True
    have "sigq (p, h) (ys @ q # us)" using Suc.prems zs by simp
    from sq_unlink_spec [OF this Suc.prems(2)] obtain p1 h1 where
      u: "sq_unlink (ref_of ys) q (p, h) = (p1, h1)" "sigq (p1, h1) (ys @ us)" "nr_ok h1"
         "same_out (set (ys @ [q])) h h1" "sq_info h1 = sq_info h" "sp_signal p1 = sp_signal p" by metis
    from Suc.hyps(1) [OF zs(2) u(2,3)] obtain p2 h2 where
      r: "rm_loop (ref_of ys) sg (p1, h1) = Some (p2, h2)" "sigq (p2, h2) (ys @ filter (\<lambda>q. si_signo (sq_info h q) \<noteq> sg) us)"
         "nr_ok h2" "same_out (set (ys @ us)) h1 h2" "sq_info h2 = sq_info h" "sp_signal p2 = sp_signal p"
      using u(5,6) by auto
    have "same_out (set (ys @ zs)) h h2"
      by (rule same_out_mono [OF same_out_trans [OF u(4) r(4)]]) (auto simp: zs)
    then show ?thesis using r u(1) g True zs by (simp add: rm_loop.simps [of "ref_of ys"])
  next
    case False
    have "sigq (p, h) ((ys @ [q]) @ us)" using Suc.prems zs by simp
    from Suc.hyps(1) [OF zs(2) this Suc.prems(2)] show ?thesis
      using g False zs by (simp add: rm_loop.simps [of "ref_of ys"])
  qed
qed

lemma rm_from_queue_spec:
  assumes "sigq (p, h) qs" "nr_ok h"
  obtains p' h' where "rm_from_queue sg (p, h) = Some (if sigismember (sp_signal p) sg then 1 else 0, p', h')"
    "sigq (p', h') (if sigismember (sp_signal p) sg then filter (\<lambda>q. si_signo (sq_info h q) \<noteq> sg) qs else qs)"
    "nr_ok h'" "same_out (set qs) h h'" "sq_info h' = sq_info h"
    "sp_signal p' = (if sigismember (sp_signal p) sg then sigdelset sg (sp_signal p) else sp_signal p)"
proof (cases "sigismember (sp_signal p) sg")
  case True
  let ?p = "p\<lparr>sp_signal := sigdelset sg (sp_signal p)\<rparr>"
  have "sigq (?p, h) ([] @ qs)" using assms by (simp add: sigq_def)
  from rm_loop_spec [OF this assms(2), of sg] show thesis using True that by (auto simp: rm_from_queue_def ref_of_def)
next
  case False
  then show thesis using that [of p h] assms by (simp add: rm_from_queue_def)
qed

lemma flush_loop_spec:
  "slist (sq_next h) c qs \<Longrightarrow> nr_ok h \<Longrightarrow> distinct qs \<Longrightarrow> \<forall>q\<in>set qs. sq_live h q \<Longrightarrow>
     \<exists>h'. flush_loop c h = Some h' \<and> nr_ok h' \<and> same_out (set qs) h h' \<and> sq_info h' = sq_info h \<and> (\<forall>q\<in>set qs. \<not> sq_live h' q)"
proof (induction qs arbitrary: c h)
  case (Cons q qs)
  let ?h = "free_sigqueue q h"
  have "\<exists>h'. flush_loop (sq_next h q) ?h = Some h' \<and> nr_ok h' \<and> same_out (set qs) ?h h' \<and> sq_info h' = sq_info ?h \<and> (\<forall>q\<in>set qs. \<not> sq_live h' q)"
    using Cons.prems by (intro Cons.IH) (auto simp: free_sigqueue_def intro: nr_ok_free [unfolded free_sigqueue_def])
  then obtain h' where "flush_loop (sq_next h q) ?h = Some h'" "nr_ok h'" "same_out (set qs) ?h h'" "sq_info h' = sq_info ?h"
    "\<forall>q\<in>set qs. \<not> sq_live h' q" by blast
  then show ?case using Cons.prems by (auto simp: flush_loop.simps [of "Some q"] same_out_def free_sigqueue_def)
qed (simp add: flush_loop.simps)

lemma flush_sigqueue_spec:
  assumes "sigq (p, h) qs" "nr_ok h"
  obtains p' h' where "flush_sigqueue (p, h) = Some (p', h')" "sigq (p', h') []" "sp_signal p' = 0" "nr_ok h'"
    "same_out (set qs) h h'" "\<forall>q\<in>set qs. \<not> sq_live h' q"
  using flush_loop_spec [of h "sp_head p" qs] assms that
  by (fastforce simp: flush_sigqueue_def sigq_def ref_of_def)

section \<open>The abstract queue\<close>

text \<open>
  What is pending: the set of signals and the informations in the order of their arrival. Taking a signal takes the
  first information of it; the signal stays pending only if it is a real-time signal with another information.
\<close>
definition a_collect :: "int \<Rightarrow> int set \<times> siginfo list \<Rightarrow> siginfo option \<times> int set \<times> siginfo list" where
  "a_collect sg a = (case a of (S, xs) \<Rightarrow>
     case dropWhile (\<lambda>i. si_signo i \<noteq> sg) xs of
       [] \<Rightarrow> (None, S - {sg}, xs)
     | i # rest \<Rightarrow> (Some i, if sg \<ge> 32 \<and> (\<exists>j\<in>set rest. si_signo j = sg) then S else S - {sg},
         takeWhile (\<lambda>i. si_signo i \<noteq> sg) xs @ rest))"

definition a_rm :: "int \<Rightarrow> int set \<times> siginfo list \<Rightarrow> int set \<times> siginfo list" where
  "a_rm sg a = (case a of (S, xs) \<Rightarrow> if sg \<in> S then (S - {sg}, filter (\<lambda>i. si_signo i \<noteq> sg) xs) else (S, xs))"

definition abs_pending :: "sigpending \<times> sigheap \<Rightarrow> nat list \<Rightarrow> int set \<times> siginfo list" where
  "abs_pending s qs = (signals (sp_signal (fst s)), map (sq_info (snd s)) qs)"

text \<open>What a successful \<open>send_signal\<close> queues.\<close>
definition sent_info :: "int \<Rightarrow> int \<Rightarrow> int \<Rightarrow> infoarg \<Rightarrow> siginfo \<Rightarrow> siginfo" where
  "sent_info cpid cuid sg info old = (case info of
     Info0 \<Rightarrow> old\<lparr>si_signo := sg, si_errno := 0, si_code := SI_USER, si_pid := cpid, si_uid := cuid\<rparr>
   | Info1 \<Rightarrow> old\<lparr>si_signo := sg, si_errno := 0, si_code := SI_KERNEL, si_pid := 0, si_uid := 0\<rparr>
   | Info x \<Rightarrow> x)"

text \<open>The allocator gives objects that are not in use.\<close>
definition sq_alloc_ok :: "(sigheap \<Rightarrow> nat option) \<Rightarrow> bool" where
  "sq_alloc_ok alloc \<longleftrightarrow> (\<forall>h q. alloc h = Some q \<longrightarrow> \<not> sq_live h q)"

lemma split_first:
  obtains "dropWhile P xs = []" | us q vs where "xs = us @ q # vs" "dropWhile P xs = q # vs" "takeWhile P xs = us" "\<not> P q"
  using that takeWhile_dropWhile_id [of P xs] hd_dropWhile [of P xs]
  by (cases "dropWhile P xs") (metis list.sel(1) list.simps(3))+

lemma collect_signal_spec:
  assumes q: "sigq (p, h) qs" and n: "nr_ok h" and m: "sigismember (sp_signal p) sg" and r: "1 \<le> sg" "sg \<le> 64"
  obtains p' h' i qs' where "collect_signal sg info (p, h) = Some (1, i, p', h')" "sigq (p', h') qs'" "nr_ok h'"
    "set qs' \<subseteq> set qs" "same_out (set qs) h h'" "sq_info h' = sq_info h"
    "a_collect sg (abs_pending (p, h) qs) =
       (if \<exists>x\<in>set qs. si_signo (sq_info h x) = sg then Some i else None, abs_pending (p', h') qs')"
    "(\<exists>x\<in>set qs. si_signo (sq_info h x) = sg) \<or>
       i = info\<lparr>si_signo := sg, si_errno := 0, si_code := 0, si_pid := 0, si_uid := 0\<rparr>"
proof -
  let ?P = "\<lambda>q. si_signo (sq_info h q) \<noteq> sg"
  have sl: "slist (sq_next h) (sp_head p) ([] @ qs)" using q by (simp add: sigq_def)
  have f: "sq_find SHead sg p h = (case dropWhile ?P qs of [] \<Rightarrow> Some (ref_of qs, None)
      | q # _ \<Rightarrow> Some (ref_of (takeWhile ?P qs), Some q))"
    using sq_find_spec [OF sl, of sg] by (simp only: ref_of_Nil append_Nil)
  have dm: "dropWhile (\<lambda>i. si_signo i \<noteq> sg) (map (sq_info h) qs) = map (sq_info h) (dropWhile ?P qs)"
    "takeWhile (\<lambda>i. si_signo i \<noteq> sg) (map (sq_info h) qs) = map (sq_info h) (takeWhile ?P qs)"
    by (simp_all add: dropWhile_map takeWhile_map comp_def)
  show thesis
  proof (rule split_first [of ?P qs])
    assume e: "dropWhile ?P qs = []"
    then have ne: "\<not> (\<exists>x\<in>set qs. si_signo (sq_info h x) = sg)" by (simp add: dropWhile_eq_Nil_conv)
    show thesis
      by (rule that [of "info\<lparr>si_signo := sg, si_errno := 0, si_code := 0, si_pid := 0, si_uid := 0\<rparr>"
            "p\<lparr>sp_signal := sigdelset sg (sp_signal p)\<rparr>" h qs])
        (use f e m q n r ne dm in \<open>simp_all add: collect_signal_def sigq_def a_collect_def abs_pending_def del: dropWhile_eq_Nil_conv\<close>)
  next
    fix us x vs assume e: "qs = us @ x # vs" "dropWhile ?P qs = x # vs" "takeWhile ?P qs = us" "\<not> ?P x"
    obtain p1 h1 where u: "sq_unlink (ref_of us) x (p, h) = (p1, h1)" "sigq (p1, h1) (us @ vs)" "nr_ok h1"
      "same_out (set (us @ [x])) h h1" "sq_info h1 = sq_info h" "sp_signal p1 = sp_signal p"
      using sq_unlink_spec [OF q [unfolded e(1)] n] by metis
    have so: "same_out (set qs) h h1" by (rule same_out_mono [OF u(4)]) (auto simp: e(1))
    have sl1: "slist (sq_next h1) (sp_head p1) (us @ vs)" using u(2) by (simp add: sigq_def)
    have f1: "\<exists>pp a. sq_find (ref_of us) sg p1 h1 = Some (pp, a) \<and> (a = None \<longleftrightarrow> (\<forall>j\<in>set vs. si_signo (sq_info h j) \<noteq> sg))"
      unfolding sq_find_spec [OF sl1] u(5) using dropWhile_eq_Nil_conv [of ?P vs]
      by (cases "dropWhile ?P vs") (simp_all del: dropWhile_eq_Nil_conv)
    then obtain pp a where f2: "sq_find (ref_of us) sg p1 h1 = Some (pp, a)"
      "a = None \<longleftrightarrow> (\<forall>j\<in>set vs. si_signo (sq_info h j) \<noteq> sg)" by blast
    let ?another = "sg \<ge> 32 \<and> (\<exists>j\<in>set vs. si_signo (sq_info h j) = sg)"
    let ?p = "if ?another then p1 else p1\<lparr>sp_signal := sigdelset sg (sp_signal p1)\<rparr>"
    have "collect_signal sg info (p, h) = Some (1, sq_info h x, ?p, h1)"
      using f e m u(1) f2 by (auto simp: collect_signal_def SIGRTMIN_def)
    moreover have "sigq (?p, h1) (us @ vs)" using u(2) by (simp add: sigq_def)
    moreover have "a_collect sg (abs_pending (p, h) qs) = (Some (sq_info h x), abs_pending (?p, h1) (us @ vs))"
      using e dm r u(5,6) by (auto simp: a_collect_def abs_pending_def)
    ultimately show thesis using that [of "sq_info h x" ?p h1 "us @ vs"] so u(3,5) e(1,4) by auto
  qed
qed

lemma collect_signal_fewer:
  assumes "sigq (p, h) qs" "nr_ok h" "sigismember (sp_signal p) sg" "1 \<le> sg" "sg \<le> 64"
  obtains p' h' i qs' where "collect_signal sg info (p, h) = Some (1, i, p', h')" "sigq (p', h') qs'" "nr_ok h'"
    "set qs' \<subseteq> set qs" "same_out (set qs) h h'" "signals (sp_signal p') \<subseteq> signals (sp_signal p)"
proof -
  obtain p' h' i qs' where c: "collect_signal sg info (p, h) = Some (1, i, p', h')" "sigq (p', h') qs'" "nr_ok h'"
    "set qs' \<subseteq> set qs" "same_out (set qs) h h'" "a_collect sg (abs_pending (p, h) qs) =
       (if \<exists>x\<in>set qs. si_signo (sq_info h x) = sg then Some i else None, abs_pending (p', h') qs')"
    by (rule collect_signal_spec [OF assms, of info]) blast
  have "fst (snd (a_collect sg a)) \<subseteq> fst a" for a by (auto simp: a_collect_def split: prod.splits list.splits if_splits)
  from this [of "abs_pending (p, h) qs"] show thesis using that [OF c(1-5)] c(6) by (simp add: abs_pending_def)
qed

lemma send_signal_spec:
  assumes q: "sigq (p, h) qs" and n: "nr_ok h" and a: "sq_alloc_ok alloc" and r: "1 \<le> sg" "sg \<le> 64"
  shows "case (if nr_queued_signals h < max_queued_signals h then alloc h else None) of
      Some x \<Rightarrow> \<exists>p' h'. send_signal alloc cpid cuid sg info (p, h) = (0, p', h') \<and> sigq (p', h') (qs @ [x]) \<and> nr_ok h' \<and>
        \<not> sq_live h x \<and> same_out (set (qs @ [x])) h h' \<and> nr_queued_signals h' \<le> max_queued_signals h' \<and>
        (\<exists>old. abs_pending (p', h') (qs @ [x]) =
          (insert sg (signals (sp_signal p)), map (sq_info h) qs @ [sent_info cpid cuid sg info old]))
    | None \<Rightarrow>
        send_signal alloc cpid cuid sg info (p, h) =
          (if sg \<ge> 32 \<and> (\<exists>i. info = Info i \<and> si_code i \<noteq> SI_USER) then (- EAGAIN, p, h)
           else (0, p\<lparr>sp_signal := sigaddset sg (sp_signal p)\<rparr>, h))"
proof (cases "if nr_queued_signals h < max_queued_signals h then alloc h else None")
  case None
  then show ?thesis by (auto simp: send_signal_def SIGRTMIN_def split: infoarg.split)
next
  case (Some x)
  then have x: "\<not> sq_live h x" and room: "nr_queued_signals h < max_queued_signals h"
    using a by (auto simp: sq_alloc_ok_def split: if_splits)
  have sl: "slist (sq_next h) (sp_head p) qs" and d: "distinct qs" and t: "sp_tail p = ref_of qs"
    and l: "\<forall>y\<in>set qs. sq_live h y" using q by (auto simp: sigq_def)
  have nin: "x \<notin> set qs" using l x by blast
  then have lx: "qs = [] \<or> x \<noteq> last qs" using last_in_set by blast
  let ?nx = "if qs = [] then (sq_next h)(x := None) else (sq_next h)(x := None, last qs := Some x)"
  let ?i = "sent_info cpid cuid sg info (sq_info h x)"
  let ?p = "p\<lparr>sp_head := if qs = [] then Some x else sp_head p, sp_tail := SNext x, sp_signal := sigaddset sg (sp_signal p)\<rparr>"
  let ?h = "h\<lparr>sq_live := (sq_live h)(x := True), nr_queued_signals := nr_queued_signals h + 1, sq_next := ?nx, sq_info := (sq_info h)(x := ?i)\<rparr>"
  have e: "send_signal alloc cpid cuid sg info (p, h) = (0, ?p, ?h)"
    using Some t by (simp add: send_signal_def sput_def ref_of_def Let_def sent_info_def split: infoarg.split)
  have "slist ?nx (if qs = [] then Some x else sp_head p) (qs @ [x])"
    by (rule slist_snoc [OF sl]) (use d nin lx in \<open>auto split: if_splits\<close>)
  then have s: "sigq (?p, ?h) (qs @ [x])" using d nin l by (simp add: sigq_def)
  have live: "{y. ((sq_live h)(x := True)) y} = insert x {y. sq_live h y}" by auto
  have "nr_ok ?h" using n x unfolding nr_ok_def by (simp add: live del: fun_upd_apply)
  moreover have "same_out (set (qs @ [x])) h ?h" by (auto simp: same_out_def)
  moreover have "abs_pending (?p, ?h) (qs @ [x]) = (insert sg (signals (sp_signal p)), map (sq_info h) qs @ [?i])"
    using r nin by (simp add: abs_pending_def)
  ultimately show ?thesis unfolding Some option.case using e s x room by (intro exI [of _ ?p] exI [of _ ?h]) auto
qed

section \<open>First in, first out\<close>

text \<open>Putting a list of items one after the other, as long as none is refused; taking \<open>n\<close> items of one key.\<close>

primrec puts :: "('i \<Rightarrow> 's \<Rightarrow> int \<times> 's) \<Rightarrow> 'i list \<Rightarrow> 's \<Rightarrow> 's option" where
  "puts put1 [] s = Some s"
| "puts put1 (i # is) s = (case put1 i s of (r, s') \<Rightarrow> if r = 0 then puts put1 is s' else None)"

primrec takes :: "(int \<Rightarrow> 's \<Rightarrow> ('i \<times> 's) option) \<Rightarrow> nat \<Rightarrow> int \<Rightarrow> 's \<Rightarrow> ('i list \<times> 's) option" where
  "takes take1 0 k s = Some ([], s)"
| "takes take1 (Suc n) k s = do { (i, s) \<leftarrow> take1 k s; (is, s) \<leftarrow> takes take1 n k s; Some (i # is, s) }"

text \<open>
  The contract of a queue whose items have keys: an item is put at the end or refused without any effect, and taking
  a key takes the first item with it.
\<close>
locale keyed_queue =
  fixes rep :: "'s \<Rightarrow> 'i list \<Rightarrow> bool"
    and put1 :: "'i \<Rightarrow> 's \<Rightarrow> int \<times> 's"
    and take1 :: "int \<Rightarrow> 's \<Rightarrow> ('i \<times> 's) option"
    and key :: "'i \<Rightarrow> int"
    and good :: "'i \<Rightarrow> bool"
  assumes put_end: "rep s xs \<Longrightarrow> good i \<Longrightarrow> put1 i s = (r, s') \<Longrightarrow> (if r = 0 then rep s' (xs @ [i]) else s' = s)"
    and take_first: "rep s (us @ i # vs) \<Longrightarrow> good i \<Longrightarrow> \<forall>j\<in>set us. key j \<noteq> key i \<Longrightarrow>
      \<exists>s'. take1 (key i) s = Some (i, s') \<and> rep s' (us @ vs)"
begin

lemma puts_end: "rep s xs \<Longrightarrow> \<forall>i\<in>set is. good i \<Longrightarrow> puts put1 is s = Some s' \<Longrightarrow> rep s' (xs @ is)"
proof (induction "is" arbitrary: s xs)
  case (Cons i "is")
  obtain r t where t: "put1 i s = (r, t)" by fastforce
  with Cons.prems have "r = 0" "puts put1 is t = Some s'" by (auto split: if_splits)
  moreover have "rep t (xs @ [i])" using put_end [OF Cons.prems(1) _ t] Cons.prems(2) calculation(1) by simp
  ultimately show ?case using Cons.IH [of t "xs @ [i]"] Cons.prems(2) by simp
qed simp

lemma takes_fifo:
  "rep s (us @ xs) \<Longrightarrow> \<forall>i\<in>set xs. good i \<Longrightarrow> \<forall>j\<in>set us. key j \<noteq> k \<Longrightarrow>
     \<exists>s'. takes take1 (length (filter (\<lambda>i. key i = k) xs)) k s = Some (filter (\<lambda>i. key i = k) xs, s') \<and>
       rep s' (us @ filter (\<lambda>i. key i \<noteq> k) xs)"
proof (induction xs arbitrary: us s)
  case (Cons x xs)
  show ?case
  proof (cases "key x = k")
    case True
    from take_first [OF Cons.prems(1)] obtain t where t: "take1 k s = Some (x, t)" "rep t (us @ xs)"
      using Cons.prems(2,3) True by auto
    from Cons.IH [OF t(2)] obtain s' where
      "takes take1 (length (filter (\<lambda>i. key i = k) xs)) k t = Some (filter (\<lambda>i. key i = k) xs, s')"
      "rep s' (us @ filter (\<lambda>i. key i \<noteq> k) xs)" using Cons.prems(2,3) by auto
    then show ?thesis using t(1) True by simp
  next
    case False
    have "rep s ((us @ [x]) @ xs)" using Cons.prems(1) by simp
    from Cons.IH [OF this] show ?thesis using Cons.prems(2,3) False by simp
  qed
qed simp

lemma fifo:
  assumes "rep s []" "\<forall>i\<in>set is. good i" "puts put1 is s = Some s'"
  shows "\<exists>s''. takes take1 (length (filter (\<lambda>i. key i = k) is)) k s' = Some (filter (\<lambda>i. key i = k) is, s'') \<and>
    rep s'' (filter (\<lambda>i. key i \<noteq> k) is)"
  using takes_fifo [of s' "[]" "is" k] puts_end [OF assms] assms(2) by simp

end

text \<open>
  The pending queue keeps the contract for real-time signals that are not sent by \<open>kill\<close>. The state carries the
  allocator.
\<close>

type_synonym sigstate = "(sigheap \<Rightarrow> nat option) \<times> sigpending \<times> sigheap"

definition no_info :: siginfo where
  "no_info = \<lparr>si_signo = 0, si_errno = 0, si_code = 0, si_pid = 0, si_uid = 0, si_status = 0, si_utime = 0, si_stime = 0\<rparr>"

definition queue_info :: "siginfo \<Rightarrow> sigstate \<Rightarrow> int \<times> sigstate" where
  "queue_info i s = (case s of (alloc, s) \<Rightarrow>
     case send_signal alloc 0 0 (si_signo i) (Info i) s of (r, s) \<Rightarrow> (r, alloc, s))"

definition take_info :: "int \<Rightarrow> sigstate \<Rightarrow> (siginfo \<times> sigstate) option" where
  "take_info k s = (case s of (alloc, s) \<Rightarrow> do { (r, i, s) \<leftarrow> collect_signal k no_info s; if r = 0 then None else Some (i, alloc, s) })"

definition rt_info :: "siginfo \<Rightarrow> bool" where
  "rt_info i \<longleftrightarrow> SIGRTMIN \<le> si_signo i \<and> si_signo i \<le> 64 \<and> si_code i \<noteq> SI_USER"

definition sigrep :: "sigstate \<Rightarrow> siginfo list \<Rightarrow> bool" where
  "sigrep s xs = (case s of (alloc, p, h) \<Rightarrow>
     sq_alloc_ok alloc \<and> nr_ok h \<and> (\<exists>qs. sigq (p, h) qs \<and> map (sq_info h) qs = xs) \<and> si_signo ` set xs \<subseteq> signals (sp_signal p))"

lemma mem_signalsI: "s \<in> signals w \<Longrightarrow> 1 \<le> s \<and> s \<le> 64 \<and> sigismember w s"
  by (simp add: signals_def)

interpretation sigfifo: keyed_queue sigrep queue_info take_info si_signo rt_info
proof unfold_locales
  fix s xs i r s' assume a: "sigrep s xs" "rt_info i" "queue_info i s = (r, s')"
  obtain alloc p h where s: "s = (alloc, p, h)" by (cases s)
  obtain qs where q: "sigq (p, h) qs" "map (sq_info h) qs = xs" "nr_ok h" "sq_alloc_ok alloc" "si_signo ` set xs \<subseteq> signals (sp_signal p)"
    using a(1) by (auto simp: s sigrep_def)
  have rt: "1 \<le> si_signo i" "si_signo i \<le> 64" "32 \<le> si_signo i" "si_code i \<noteq> SI_USER" using a(2) by (auto simp: rt_info_def SIGRTMIN_def)
  note sp = send_signal_spec [OF q(1,3,4) rt(1,2), of 0 0 "Info i"]
  show "if r = 0 then sigrep s' (xs @ [i]) else s' = s"
  proof (cases "if nr_queued_signals h < max_queued_signals h then alloc h else None")
    case None
    then show ?thesis using sp a(3) rt by (auto simp: s queue_info_def errno_defs)
  next
    case (Some x)
    with sp obtain p' h' where "send_signal alloc 0 0 (si_signo i) (Info i) (p, h) = (0, p', h')" "sigq (p', h') (qs @ [x])" "nr_ok h'"
      "abs_pending (p', h') (qs @ [x]) = (insert (si_signo i) (signals (sp_signal p)), xs @ [i])"
      by (auto simp: sent_info_def q(2))
    then show ?thesis using a(3) q by (auto simp: s queue_info_def sigrep_def abs_pending_def)
  qed
next
  fix s us i vs assume a: "sigrep s (us @ i # vs)" "rt_info i" "\<forall>j\<in>set us. si_signo j \<noteq> si_signo i"
  obtain alloc p h where s: "s = (alloc, p, h)" by (cases s)
  obtain qs where q: "sigq (p, h) qs" "map (sq_info h) qs = us @ i # vs" "nr_ok h" "sq_alloc_ok alloc"
    "si_signo ` set (us @ i # vs) \<subseteq> signals (sp_signal p)"
    using a(1) by (auto simp: s sigrep_def)
  have rt: "1 \<le> si_signo i" "si_signo i \<le> 64" "32 \<le> si_signo i" using a(2) by (auto simp: rt_info_def SIGRTMIN_def)
  have m: "sigismember (sp_signal p) (si_signo i)" using q(5) by (auto dest: mem_signalsI)
  obtain p' h' x qs' where c: "collect_signal (si_signo i) no_info (p, h) = Some (1, x, p', h')" "sigq (p', h') qs'" "nr_ok h'"
      "sq_info h' = sq_info h" "a_collect (si_signo i) (abs_pending (p, h) qs) =
       (if \<exists>x\<in>set qs. si_signo (sq_info h x) = si_signo i then Some x else None, abs_pending (p', h') qs')"
    by (rule collect_signal_spec [OF q(1,3) m rt(1,2), of no_info]) blast
  have dw: "dropWhile (\<lambda>j. si_signo j \<noteq> si_signo i) (us @ i # vs) = i # vs" "takeWhile (\<lambda>j. si_signo j \<noteq> si_signo i) (us @ i # vs) = us"
    using a(3) by (auto simp: dropWhile_append2 takeWhile_append2)
  have "a_collect (si_signo i) (abs_pending (p, h) qs) =
      (Some i, if \<exists>j\<in>set vs. si_signo j = si_signo i then signals (sp_signal p) else signals (sp_signal p) - {si_signo i}, us @ vs)"
    using rt by (simp add: a_collect_def abs_pending_def q(2) dw)
  then have x: "x = i" "signals (sp_signal p') = (if \<exists>j\<in>set vs. si_signo j = si_signo i then signals (sp_signal p) else signals (sp_signal p) - {si_signo i})"
    "map (sq_info h') qs' = us @ vs" using c(5) by (auto simp: abs_pending_def split: if_splits)
  have "si_signo ` set (us @ vs) \<subseteq> signals (sp_signal p')" using q(5) a(3) x(2) by (auto split: if_splits)
  then have "sigrep (alloc, p', h') (us @ vs)" using c q(4) x(3) by (auto simp: sigrep_def)
  then show "\<exists>s'. take_info (si_signo i) s = Some (i, s') \<and> sigrep s' (us @ vs)"
    using c(1) x(1) by (simp add: s take_info_def)
qed

section \<open>Properties\<close>

text \<open>
  \<open>next_signal\<close>, which looks at the two words of the sets with bit instructions, gives the
  pending signal with the lowest number that is not blocked, and 0 exactly when every pending signal is blocked, which is
  when \<open>has_pending_signals\<close> says that there is none.
\<close>
theorem next_signal_lowest:
  "next_signal s m = (if has_pending_signals s m then Min (signals s - signals m) else 0)"
  by (simp add: next_signal_spec has_pending_spec)

text \<open>
  C33. Real-time signals that are queued with an information (\<open>si_code\<close> other than \<open>SI_USER\<close>) are taken in
  the order in which they were sent: after any sequence of such signals that \<open>send_signal\<close> accepted, taking one signal as often
  as it was sent gives its informations, all of them and in the order of their arrival, and leaves those of the other signals.
\<close>
theorem rt_signals_fifo:
  assumes "sq_alloc_ok alloc" "nr_ok h" "\<forall>i\<in>set is. rt_info i"
    and "puts queue_info is (alloc, init_sigpending p, h) = Some s"
  shows "\<exists>s'. takes take_info (length (filter (\<lambda>i. si_signo i = k) is)) k s = Some (filter (\<lambda>i. si_signo i = k) is, s') \<and>
    sigrep s' (filter (\<lambda>i. si_signo i \<noteq> k) is)"
proof -
  have "sigq (init_sigpending p, h) []" by (simp add: sigq_def init_sigpending_def ref_of_def)
  then have "sigrep (alloc, init_sigpending p, h) []" using assms(1,2) by (auto simp: sigrep_def)
  then show ?thesis using assms(3,4) by (rule sigfifo.fifo)
qed

text \<open>Three signals, two of them with the same number.\<close>
definition empty_heap :: sigheap where
  "empty_heap = \<lparr>sq_next = \<lambda>_. None, sq_info = \<lambda>_. no_info, sq_live = \<lambda>_. False, nr_queued_signals = 0, max_queued_signals = 1024\<rparr>"

definition first_free :: "sigheap \<Rightarrow> nat option" where
  "first_free h = find (\<lambda>q. \<not> sq_live h q) [0, 1, 2]"

definition three_infos :: "siginfo list" where
  "three_infos = [no_info\<lparr>si_signo := 40, si_code := - 1, si_pid := 7\<rparr>, no_info\<lparr>si_signo := 33, si_code := - 1, si_pid := 8\<rparr>,
     no_info\<lparr>si_signo := 40, si_code := - 1, si_pid := 9\<rparr>]"

theorem rt_signals_fifo_witness:
  "\<exists>s. puts queue_info three_infos (first_free, init_sigpending \<lparr>sp_head = None, sp_tail = SHead, sp_signal = 0\<rparr>, empty_heap) = Some s \<and>
    (\<exists>s'. takes take_info 2 40 s =
       Some ([no_info\<lparr>si_signo := 40, si_code := - 1, si_pid := 7\<rparr>, no_info\<lparr>si_signo := 40, si_code := - 1, si_pid := 9\<rparr>], s'))"
proof -
  let ?i = "(first_free, init_sigpending \<lparr>sp_head = None, sp_tail = SHead, sp_signal = 0\<rparr>, empty_heap)"
  have "\<exists>s. puts queue_info three_infos ?i = Some s"
    by (simp add: three_infos_def queue_info_def send_signal_def first_free_def empty_heap_def init_sigpending_def sput_def
        SI_USER_def no_info_def)
  then obtain s where s: "puts queue_info three_infos ?i = Some s" by blast
  have a: "sq_alloc_ok first_free" by (auto simp: sq_alloc_ok_def first_free_def find_Some_iff)
  have n: "nr_ok empty_heap" by (simp add: nr_ok_def empty_heap_def)
  have r: "\<forall>i\<in>set three_infos. rt_info i" by (simp add: three_infos_def rt_info_def SIGRTMIN_def SI_USER_def no_info_def)
  have e: "filter (\<lambda>i. si_signo i = 40) three_infos =
    [no_info\<lparr>si_signo := 40, si_code := - 1, si_pid := 7\<rparr>, no_info\<lparr>si_signo := 40, si_code := - 1, si_pid := 9\<rparr>]"
    by (simp add: three_infos_def)
  from rt_signals_fifo [OF a n r s, of 40] show ?thesis using s unfolding e by (auto simp: numeral_2_eq_2)
qed

end
