(* ===== verification/Signal.thy ===== *)
theory Signal
  imports Exit Sigqueue
begin

text \<open>
  Sending, blocking and taking signals: \<open>kernel/signal.c\<close>. The state adds to the machine what signals need: for each task its
  pending signals, its blocked signals, its saved user number and its notifier; the objects of the queues; and the
  \<open>struct signal_struct\<close> objects with an action for each signal. With one processor the locks are no operations.

  Parameters: \<open>alloc\<close> for \<open>kmem_cache_alloc\<close>; the notifier functions of drivers; the old contents of a structure on the stack,
  where the code does not initialise all of it.
\<close>

section \<open>Data\<close>

record k_sigaction =
  sa_handler :: u32
  sa_flags :: u32
  sa_restorer :: u32
  sa_mask :: sigset

record sigst =
  sg_k :: kst
  sg_pending :: "task \<Rightarrow> sigpending"
  sg_blocked :: "task \<Rightarrow> sigset"
  sg_suid :: "task \<Rightarrow> u32"
  sg_notifier :: "task \<Rightarrow> nat option"
  sg_notifier_data :: "task \<Rightarrow> nat option"
  sg_notifier_mask :: "task \<Rightarrow> sigset"
  sg_heap :: sigheap
  sg_action :: "nat \<Rightarrow> int \<Rightarrow> k_sigaction"
  sg_count :: "nat \<Rightarrow> int"
  sg_freed :: "nat \<Rightarrow> bool"

type_synonym sq_alloc = "sigheap \<Rightarrow> nat option"
type_synonym notify = "nat \<Rightarrow> nat option \<Rightarrow> sigst \<Rightarrow> int \<times> sigst"

abbreviation (input) SIGKILL :: int where "SIGKILL \<equiv> 9"
abbreviation (input) SIGTSTP :: int where "SIGTSTP \<equiv> 20"
abbreviation (input) SIGTTIN :: int where "SIGTTIN \<equiv> 21"
abbreviation (input) SIGTTOU :: int where "SIGTTOU \<equiv> 22"
abbreviation (input) SIGURG :: int where "SIGURG \<equiv> 23"
abbreviation (input) SIGWINCH :: int where "SIGWINCH \<equiv> 28"
abbreviation (input) SIG_DFL :: u32 where "SIG_DFL \<equiv> 0"
abbreviation (input) SIG_IGN :: u32 where "SIG_IGN \<equiv> 1"
abbreviation (input) SIG_BLOCK :: int where "SIG_BLOCK \<equiv> 0"
abbreviation (input) SIG_UNBLOCK :: int where "SIG_UNBLOCK \<equiv> 1"
abbreviation (input) SIG_SETMASK :: int where "SIG_SETMASK \<equiv> 2"
abbreviation (input) SA_ONESHOT :: u32 where "SA_ONESHOT \<equiv> 0x80000000"
abbreviation (input) SA_NOMASK :: u32 where "SA_NOMASK \<equiv> 0x40000000"

abbreviation task_of :: "sigst \<Rightarrow> task \<Rightarrow> task_struct" where "task_of s t \<equiv> tasks (sg_k s) t"

definition on_k :: "(kst \<Rightarrow> kst) \<Rightarrow> sigst \<Rightarrow> sigst" where
  "on_k f s = s\<lparr>sg_k := f (sg_k s)\<rparr>"

text \<open>The queue of a task, and putting it back.\<close>
definition queue_of :: "task \<Rightarrow> sigst \<Rightarrow> sigpending \<times> sigheap" where
  "queue_of t s = (sg_pending s t, sg_heap s)"

definition set_queue :: "task \<Rightarrow> sigpending \<times> sigheap \<Rightarrow> sigst \<Rightarrow> sigst" where
  "set_queue t q s = s\<lparr>sg_pending := (sg_pending s)(t := fst q), sg_heap := snd q\<rparr>"

definition set_blocked :: "task \<Rightarrow> sigset \<Rightarrow> sigst \<Rightarrow> sigst" where
  "set_blocked t b s = s\<lparr>sg_blocked := (sg_blocked s)(t := b)\<rparr>"

definition recalc_sigpending :: "task \<Rightarrow> sigst \<Rightarrow> sigst" where
  "recalc_sigpending t s =
     on_k (upd_task t (\<lambda>p. p\<lparr>sigpending := if has_pending_signals (sp_signal (sg_pending s t)) (sg_blocked s t) then 1 else 0\<rparr>)) s"

section \<open>Flushing\<close>

definition flush_signals :: "task \<Rightarrow> sigst \<Rightarrow> sigst option" where
  "flush_signals t s = do {
     let s = on_k (upd_task t (\<lambda>p. p\<lparr>sigpending := 0\<rparr>)) s;
     q \<leftarrow> flush_sigqueue (queue_of t s);
     Some (set_queue t q s) }"

definition exit_sighand :: "task \<Rightarrow> sigst \<Rightarrow> sigst option" where
  "exit_sighand t s = do {
     let s = (case sig (task_of s t) of
        None \<Rightarrow> s
      | Some a \<Rightarrow>
          (let s = on_k (upd_task t (\<lambda>p. p\<lparr>sig := None\<rparr>)) s;
               s = s\<lparr>sg_count := (sg_count s)(a := sg_count s a - 1)\<rparr>
           in if sg_count s a = 0 then s\<lparr>sg_freed := (sg_freed s)(a := True)\<rparr> else s));
     let s = on_k (upd_task t (\<lambda>p. p\<lparr>sigpending := 0\<rparr>)) s;
     q \<leftarrow> flush_sigqueue (queue_of t s);
     Some (set_queue t q s) }"

definition flush_signal_handlers :: "task \<Rightarrow> sigst \<Rightarrow> sigst option" where
  "flush_signal_handlers t s = do {
     a \<leftarrow> sig (task_of s t);
     Some (s\<lparr>sg_action := (sg_action s)(a := \<lambda>n. if 1 \<le> n \<and> n \<le> 64 then
       (let ka = sg_action s a n; ka = (if sa_handler ka \<noteq> SIG_IGN then ka\<lparr>sa_handler := SIG_DFL\<rparr> else ka)
        in ka\<lparr>sa_flags := 0, sa_mask := 0\<rparr>) else sg_action s a n)\<rparr>) }"

definition block_all_signals :: "nat option \<Rightarrow> nat option \<Rightarrow> sigset \<Rightarrow> sigst \<Rightarrow> sigst" where
  "block_all_signals f priv msk s = (let c = cur (sg_k s) in
     s\<lparr>sg_notifier_mask := (sg_notifier_mask s)(c := msk), sg_notifier_data := (sg_notifier_data s)(c := priv),
       sg_notifier := (sg_notifier s)(c := f)\<rparr>)"

definition unblock_all_signals :: "sigst \<Rightarrow> sigst" where
  "unblock_all_signals s = (let c = cur (sg_k s) in
     recalc_sigpending c (s\<lparr>sg_notifier := (sg_notifier s)(c := None), sg_notifier_data := (sg_notifier_data s)(c := None)\<rparr>))"

section \<open>Taking a signal\<close>

definition dequeue_signal :: "notify \<Rightarrow> sigset \<Rightarrow> siginfo \<Rightarrow> sigst \<Rightarrow> (int \<times> siginfo \<times> sigst) option" where
  "dequeue_signal notify msk info s = do {
     let c = cur (sg_k s);
     let sg = next_signal (sp_signal (sg_pending s c)) msk;
     if sg \<noteq> 0 then do {
       let (kept, s) = (case sg_notifier s c of
          Some f \<Rightarrow> if sigismember (sg_notifier_mask s c) sg then
             (case notify f (sg_notifier_data s c) s of (r, s) \<Rightarrow> (r = 0, s)) else (False, s)
        | None \<Rightarrow> (False, s));
       if kept then Some (0, info, on_k (upd_task c (\<lambda>p. p\<lparr>sigpending := 0\<rparr>)) s)
       else do {
         (r, info, q) \<leftarrow> collect_signal sg info (queue_of c s);
         Some (if r = 0 then 0 else sg, info, recalc_sigpending c (set_queue c q s)) } }
     else Some (0, info, recalc_sigpending c s) }"

definition rm_sig_from_queue :: "int \<Rightarrow> task \<Rightarrow> sigst \<Rightarrow> (int \<times> sigst) option" where
  "rm_sig_from_queue sg t s = do { (r, q) \<leftarrow> rm_from_queue sg (queue_of t s); Some (r, set_queue t q s) }"

section \<open>Who may send, and what is ignored\<close>

definition SI_FROMUSER :: "siginfo \<Rightarrow> bool" where
  "SI_FROMUSER i = (si_code i \<le> 0)"

text \<open>The operators stop at the first operand that decides; \<open>capable\<close> sets a flag of the process.\<close>
definition bad_signal :: "int \<Rightarrow> infoarg \<Rightarrow> task \<Rightarrow> sigst \<Rightarrow> bool \<times> sigst" where
  "bad_signal sg info t s =
     (let c = tsk (sg_k s); p = task_of s t in
      if (case info of Info0 \<Rightarrow> True | Info1 \<Rightarrow> False | Info i \<Rightarrow> SI_FROMUSER i) \<and> (sg \<noteq> SIGCONT \<or> session c \<noteq> session p) \<and>
         euid c XOR sg_suid s t \<noteq> 0 \<and> euid c XOR uid p \<noteq> 0 \<and> uid c XOR sg_suid s t \<noteq> 0 \<and> uid c XOR uid p \<noteq> 0
      then (case capable CAP_KILL (sg_k s) of (ok, k) \<Rightarrow> (\<not> ok, s\<lparr>sg_k := k\<rparr>))
      else (False, s))"

definition signal_type :: "int \<Rightarrow> nat option \<Rightarrow> sigst \<Rightarrow> int" where
  "signal_type sg sp s = (case sp of None \<Rightarrow> 0 | Some a \<Rightarrow>
     (let handler = sa_handler (sg_action s a sg) in
      if handler > 1 then 1
      else if handler = 1 then (if sg = SIGCHLD then 1 else 0)
      else if sg \<in> {SIGCONT, SIGWINCH, SIGCHLD, SIGURG} then 0
      else if sg \<in> {SIGTSTP, SIGTTIN, SIGTTOU} then 1
      else - 1))"

definition ignored_signal :: "int \<Rightarrow> task \<Rightarrow> sigst \<Rightarrow> bool" where
  "ignored_signal sg t s =
     (if ptrace (task_of s t) AND PT_PTRACED \<noteq> 0 \<or> sigismember (sg_blocked s t) sg then False
      else signal_type sg (sig (task_of s t)) s = 0)"

section \<open>Sending\<close>

definition wake_task :: "task \<Rightarrow> sigst \<Rightarrow> sigst option" where
  "wake_task t s = do { (_, k) \<leftarrow> wake_up_process t (sg_k s); Some (s\<lparr>sg_k := k\<rparr>) }"

definition handle_stop_signal :: "int \<Rightarrow> task \<Rightarrow> sigst \<Rightarrow> sigst option" where
  "handle_stop_signal sg t s =
     (if sg \<in> {SIGKILL, SIGCONT} then do {
        s \<leftarrow> (if state (task_of s t) = TASK_STOPPED then wake_task t s else Some s);
        let s = on_k (upd_task t (\<lambda>p. p\<lparr>exit_code := 0\<rparr>)) s;
        (_, s) \<leftarrow> rm_sig_from_queue SIGSTOP t s;
        (_, s) \<leftarrow> rm_sig_from_queue SIGTSTP t s;
        (_, s) \<leftarrow> rm_sig_from_queue SIGTTOU t s;
        (_, s) \<leftarrow> rm_sig_from_queue SIGTTIN t s;
        Some s }
      else if sg \<in> {SIGSTOP, SIGTSTP, SIGTTIN, SIGTTOU} then do {
        (_, s) \<leftarrow> rm_sig_from_queue SIGCONT t s;
        Some s }
      else Some s)"

definition signal_wake_up :: "task \<Rightarrow> sigst \<Rightarrow> sigst option" where
  "signal_wake_up t s = do {
     let s = on_k (upd_task t (\<lambda>p. p\<lparr>sigpending := 1\<rparr>)) s;
     if state (task_of s t) AND TASK_INTERRUPTIBLE \<noteq> 0 then wake_task t s else Some s }"

definition deliver_signal :: "sq_alloc \<Rightarrow> int \<Rightarrow> infoarg \<Rightarrow> task \<Rightarrow> sigst \<Rightarrow> (int \<times> sigst) option" where
  "deliver_signal alloc sg info t s = do {
     let (retval, q) = send_signal alloc (pid (tsk (sg_k s))) (uint (uid (tsk (sg_k s)))) sg info (queue_of t s);
     let s = set_queue t q s;
     s \<leftarrow> (if retval = 0 \<and> \<not> sigismember (sg_blocked s t) sg then signal_wake_up t s else Some s);
     Some (retval, s) }"

definition send_sig_info :: "sq_alloc \<Rightarrow> int \<Rightarrow> infoarg \<Rightarrow> task \<Rightarrow> sigst \<Rightarrow> (int \<times> sigst) option" where
  "send_sig_info alloc sg info t s =
     (if sg < 0 \<or> sg > 64 then Some (- EINVAL, s)
      else case bad_signal sg info t s of (bad, s) \<Rightarrow>
        if bad then Some (- EPERM, s)
        else if sg = 0 \<or> sig (task_of s t) = None then Some (0, s)
        else do {
          s \<leftarrow> handle_stop_signal sg t s;
          if ignored_signal sg t s then Some (0, s)
          else if sg < SIGRTMIN \<and> sigismember (sp_signal (sg_pending s t)) sg then Some (0, s)
          else deliver_signal alloc sg info t s })"

definition force_sig_info :: "sq_alloc \<Rightarrow> int \<Rightarrow> infoarg \<Rightarrow> task \<Rightarrow> sigst \<Rightarrow> (int \<times> sigst) option" where
  "force_sig_info alloc sg info t s = (case sig (task_of s t) of
     None \<Rightarrow> Some (- ESRCH, s)
   | Some a \<Rightarrow>
      (let s = (if sa_handler (sg_action s a sg) = SIG_IGN
                then s\<lparr>sg_action := (sg_action s)(a := (sg_action s a)(sg := (sg_action s a sg)\<lparr>sa_handler := SIG_DFL\<rparr>))\<rparr> else s);
           s = set_blocked t (sigdelset sg (sg_blocked s t)) s;
           s = recalc_sigpending t s
       in send_sig_info alloc sg info t s))"

section \<open>Sending to several\<close>

definition thread_group_leader :: "task_struct \<Rightarrow> bool" where
  "thread_group_leader p = (pid p = tgid p)"

text \<open>The body of the loops of \<open>kill_pg_info\<close> and \<open>kill_sl_info\<close>.\<close>
primrec kill_loop :: "sq_alloc \<Rightarrow> int \<Rightarrow> infoarg \<Rightarrow> (task_struct \<Rightarrow> bool) \<Rightarrow> task list \<Rightarrow> int \<Rightarrow> sigst \<Rightarrow> (int \<times> sigst) option" where
  "kill_loop alloc sg info chosen [] retval s = Some (retval, s)"
| "kill_loop alloc sg info chosen (p # ps) retval s =
     (if chosen (task_of s p) then do {
        (err, s) \<leftarrow> send_sig_info alloc sg info p s;
        kill_loop alloc sg info chosen ps (if retval \<noteq> 0 then err else retval) s }
      else kill_loop alloc sg info chosen ps retval s)"

definition kill_pg_info :: "sq_alloc \<Rightarrow> int \<Rightarrow> infoarg \<Rightarrow> int \<Rightarrow> sigst \<Rightarrow> (int \<times> sigst) option" where
  "kill_pg_info alloc sg info pg s =
     (if pg > 0 then do {
        ts \<leftarrow> for_each_task init_task (sg_k s);
        kill_loop alloc sg info (\<lambda>p. pgrp p = pg \<and> thread_group_leader p) ts (- ESRCH) s }
      else Some (- EINVAL, s))"

definition kill_sl_info :: "sq_alloc \<Rightarrow> int \<Rightarrow> infoarg \<Rightarrow> int \<Rightarrow> sigst \<Rightarrow> (int \<times> sigst) option" where
  "kill_sl_info alloc sg info sess s =
     (if sess > 0 then do {
        ts \<leftarrow> for_each_task init_task (sg_k s);
        kill_loop alloc sg info (\<lambda>p. leader p \<noteq> 0 \<and> session p = sess) ts (- ESRCH) s }
      else Some (- EINVAL, s))"

definition kill_proc_info :: "sq_alloc \<Rightarrow> int \<Rightarrow> infoarg \<Rightarrow> int \<Rightarrow> sigst \<Rightarrow> (int \<times> sigst) option" where
  "kill_proc_info alloc sg info n s = do {
     p \<leftarrow> find_task_by_pid n (sg_k s);
     (case p of
        None \<Rightarrow> Some (- ESRCH, s)
      | Some p \<Rightarrow> do {
          p \<leftarrow> (if \<not> thread_group_leader (task_of s p) then do {
                  tg \<leftarrow> find_task_by_pid (tgid (task_of s p)) (sg_k s);
                  Some (case tg of Some q \<Rightarrow> q | None \<Rightarrow> p) }
                else Some p);
          send_sig_info alloc sg info p s }) }"

text \<open>The loop for the process number \<open>-1\<close>: the number of tasks and the result.\<close>
primrec kill_all_loop :: "sq_alloc \<Rightarrow> int \<Rightarrow> infoarg \<Rightarrow> task list \<Rightarrow> int \<Rightarrow> int \<Rightarrow> sigst \<Rightarrow> (int \<times> int \<times> sigst) option" where
  "kill_all_loop alloc sg info [] count retval s = Some (count, retval, s)"
| "kill_all_loop alloc sg info (p # ps) count retval s =
     (if pid (task_of s p) > 1 \<and> p \<noteq> cur (sg_k s) \<and> thread_group_leader (task_of s p) then do {
        (err, s) \<leftarrow> send_sig_info alloc sg info p s;
        kill_all_loop alloc sg info ps (count + 1) (if err \<noteq> - EPERM then err else retval) s }
      else kill_all_loop alloc sg info ps count retval s)"

definition kill_something_info :: "sq_alloc \<Rightarrow> int \<Rightarrow> infoarg \<Rightarrow> int \<Rightarrow> sigst \<Rightarrow> (int \<times> sigst) option" where
  "kill_something_info alloc sg info n s =
     (if n = 0 then kill_pg_info alloc sg info (pgrp (tsk (sg_k s))) s
      else if n = - 1 then do {
        ts \<leftarrow> for_each_task init_task (sg_k s);
        (count, retval, s) \<leftarrow> kill_all_loop alloc sg info ts 0 0 s;
        Some (if count \<noteq> 0 then retval else - ESRCH, s) }
      else if n < 0 then kill_pg_info alloc sg info (- n) s
      else kill_proc_info alloc sg info n s)"

definition priv_info :: "int \<Rightarrow> infoarg" where
  "priv_info priv = (if priv \<noteq> 0 then Info1 else Info0)"

definition send_sig :: "sq_alloc \<Rightarrow> int \<Rightarrow> task \<Rightarrow> int \<Rightarrow> sigst \<Rightarrow> (int \<times> sigst) option" where
  "send_sig alloc sg p priv s = send_sig_info alloc sg (priv_info priv) p s"

definition force_sig :: "sq_alloc \<Rightarrow> int \<Rightarrow> task \<Rightarrow> sigst \<Rightarrow> sigst option" where
  "force_sig alloc sg p s = do { (_, s) \<leftarrow> force_sig_info alloc sg Info1 p s; Some s }"

definition kill_pg :: "sq_alloc \<Rightarrow> int \<Rightarrow> int \<Rightarrow> int \<Rightarrow> sigst \<Rightarrow> (int \<times> sigst) option" where
  "kill_pg alloc pg sg priv s = kill_pg_info alloc sg (priv_info priv) pg s"

definition kill_sl :: "sq_alloc \<Rightarrow> int \<Rightarrow> int \<Rightarrow> int \<Rightarrow> sigst \<Rightarrow> (int \<times> sigst) option" where
  "kill_sl alloc sess sg priv s = kill_sl_info alloc sg (priv_info priv) sess s"

definition kill_proc :: "sq_alloc \<Rightarrow> int \<Rightarrow> int \<Rightarrow> int \<Rightarrow> sigst \<Rightarrow> (int \<times> sigst) option" where
  "kill_proc alloc n sg priv s = kill_proc_info alloc sg (priv_info priv) n s"

section \<open>The parent\<close>

partial_function (option) wake_up_parent_loop :: "task \<Rightarrow> task \<Rightarrow> kst \<Rightarrow> kst option" where
  "wake_up_parent_loop parent p st = do {
     st \<leftarrow> wake_up (Some (WaitChldexit p)) TASK_INTERRUPTIBLE 1 st;
     p \<leftarrow> next_thread p st;
     if p \<noteq> parent then wake_up_parent_loop parent p st else Some st }"

definition wake_up_parent :: "task \<Rightarrow> kst \<Rightarrow> kst option" where
  "wake_up_parent parent st = wake_up_parent_loop parent parent st"

text \<open>\<open>HZ\<close> is 512.\<close>
definition hz_to_std :: "int \<Rightarrow> int" where
  "hz_to_std a = (a - (a + 2) div 4 + (a + 16) div 32) div 4"

definition child_info :: "task_struct \<Rightarrow> int \<Rightarrow> siginfo" where
  "child_info p sg =
     (let e = exit_code p;
          (why, status) =
            (if state p = TASK_STOPPED then
               (if ptrace p AND PT_PTRACED \<noteq> 0 then 4 else 5, uint (e AND 0x7f))
             else if e AND 0x80 \<noteq> 0 then (3, uint (e AND 0x7f))
             else if e AND 0x7f \<noteq> 0 then (2, uint (e AND 0x7f))
             else (1, sint e div 256))
      in \<lparr>si_signo = sg, si_errno = 0, si_code = 4 * 2 ^ 16 + why, si_pid = pid p, si_uid = uint (uid p), si_status = status,
          si_utime = word_of_int (hz_to_std (sint (tms_utime p))), si_stime = word_of_int (hz_to_std (sint (tms_stime p)))\<rparr>)"

definition do_notify_parent :: "sq_alloc \<Rightarrow> task \<Rightarrow> int \<Rightarrow> sigst \<Rightarrow> sigst option" where
  "do_notify_parent alloc t sg s = do {
     (_, s) \<leftarrow> send_sig_info alloc sg (Info (child_info (task_of s t) sg)) (p_pptr (task_of s t)) s;
     k \<leftarrow> wake_up_parent (p_pptr (task_of s t)) (sg_k s);
     Some (s\<lparr>sg_k := k\<rparr>) }"

definition notify_parent :: "sq_alloc \<Rightarrow> task \<Rightarrow> int \<Rightarrow> sigst \<Rightarrow> sigst option" where
  "notify_parent alloc t sg s = do_notify_parent alloc t sg s"

section \<open>System calls\<close>

text \<open>A set in user memory is two words, the first one low; a set that is copied out is written word by word, the rest of an odd
  size byte by byte.\<close>
definition copy_in_set :: "addr \<Rightarrow> addr \<Rightarrow> mem \<Rightarrow> sigset option" where
  "copy_in_set limit from m =
     (if access_ok limit from 8 then do {
        bs \<leftarrow> get m from 8;
        Some (ucast (of_le (take 4 bs)) OR push_bit 32 (ucast (of_le (drop 4 bs)))) }
      else None)"

fun copy_out8 :: "addr \<Rightarrow> byte list \<Rightarrow> mem \<Rightarrow> bool \<times> mem" where
  "copy_out8 to [] m = (True, m)"
| "copy_out8 to (b # bs) m = (case put m to [b] of None \<Rightarrow> (False, m) | Some m \<Rightarrow> copy_out8 (to + 1) bs m)"

definition copy_out_set :: "addr \<Rightarrow> addr \<Rightarrow> sigset \<Rightarrow> nat \<Rightarrow> mem \<Rightarrow> bool \<times> mem" where
  "copy_out_set limit to w n m =
     (if access_ok limit to (of_nat n) then
        (case copy_out32 to (take (n div 4) [sig_lo w, sig_hi w]) m of (ok, m) \<Rightarrow>
           if ok then copy_out8 (to + of_nat (n div 4 * 4)) (take (n mod 4) (drop (n div 4 * 4) (le32 (sig_lo w) @ le32 (sig_hi w)))) m
           else (False, m))
      else (False, m))"

definition give_set :: "addr \<Rightarrow> sigset \<Rightarrow> nat \<Rightarrow> sigst \<Rightarrow> int \<times> sigst" where
  "give_set to w n s = (let k = sg_k s in
     case copy_out_set (addr_limit (tsk k)) to w n (mem k) of (ok, m) \<Rightarrow>
       (if ok then 0 else - EFAULT, s\<lparr>sg_k := k\<lparr>mem := m\<rparr>\<rparr>))"

definition unblockable :: u32 where
  "unblockable = sigmask SIGKILL OR sigmask SIGSTOP"

definition sys_rt_sigprocmask :: "int \<Rightarrow> addr \<Rightarrow> addr \<Rightarrow> u32 \<Rightarrow> sigst \<Rightarrow> int \<times> sigst" where
  "sys_rt_sigprocmask how uset oset sigsetsize s =
     (let k = sg_k s; c = cur k in
      if sigsetsize \<noteq> 8 then (- EINVAL, s)
      else if uset \<noteq> 0 then
        (case copy_in_set (addr_limit (tsk k)) uset (mem k) of
           None \<Rightarrow> (- EFAULT, s)
         | Some new_set \<Rightarrow>
            (let new_set = sigdelsetmask unblockable new_set;
                 old_set = sg_blocked s c;
                 (err, new_set) =
                   (if how = SIG_BLOCK then (0, old_set OR new_set)
                    else if how = SIG_UNBLOCK then (0, old_set AND NOT new_set)
                    else if how = SIG_SETMASK then (0, new_set)
                    else (- EINVAL, new_set));
                 s = recalc_sigpending c (set_blocked c new_set s)
             in if err \<noteq> 0 then (err, s)
                else if oset \<noteq> 0 then give_set oset old_set 8 s
                else (0, s)))
      else if oset \<noteq> 0 then give_set oset (sg_blocked s c) 8 s
      else (0, s))"

definition do_sigpending :: "addr \<Rightarrow> u32 \<Rightarrow> sigst \<Rightarrow> int \<times> sigst" where
  "do_sigpending uset sigsetsize s =
     (let c = cur (sg_k s) in
      if sigsetsize > 8 then (- EINVAL, s)
      else give_set uset (sg_blocked s c AND sp_signal (sg_pending s c)) (unat sigsetsize) s)"

definition sys_rt_sigpending :: "addr \<Rightarrow> u32 \<Rightarrow> sigst \<Rightarrow> int \<times> sigst" where
  "sys_rt_sigpending uset sigsetsize s = do_sigpending uset sigsetsize s"

definition sys_sigpending :: "addr \<Rightarrow> sigst \<Rightarrow> int \<times> sigst" where
  "sys_sigpending uset s = do_sigpending uset 4 s"

definition kill_info :: "siginfo \<Rightarrow> int \<Rightarrow> int \<Rightarrow> kst \<Rightarrow> siginfo" where
  "kill_info stk sg code k =
     stk\<lparr>si_signo := sg, si_errno := 0, si_code := code, si_pid := pid (tsk k), si_uid := uint (uid (tsk k))\<rparr>"

definition sys_kill :: "sq_alloc \<Rightarrow> siginfo \<Rightarrow> int \<Rightarrow> int \<Rightarrow> sigst \<Rightarrow> (int \<times> sigst) option" where
  "sys_kill alloc stk n sg s = kill_something_info alloc sg (Info (kill_info stk sg SI_USER (sg_k s))) n s"

definition sys_tkill :: "sq_alloc \<Rightarrow> siginfo \<Rightarrow> int \<Rightarrow> int \<Rightarrow> sigst \<Rightarrow> (int \<times> sigst) option" where
  "sys_tkill alloc stk n sg s =
     (if n \<le> 0 then Some (- EINVAL, s)
      else do {
        p \<leftarrow> find_task_by_pid n (sg_k s);
        (case p of None \<Rightarrow> Some (- ESRCH, s)
         | Some p \<Rightarrow> send_sig_info alloc sg (Info (kill_info stk sg (- 6) (sg_k s))) p s) })"

text \<open>\<open>act\<close> is the new action or \<open>NULL\<close>; the result carries the old action, which is \<open>*oact\<close>.\<close>
definition do_sigaction :: "int \<Rightarrow> k_sigaction option \<Rightarrow> sigst \<Rightarrow> (int \<times> k_sigaction option \<times> sigst) option" where
  "do_sigaction sg act s =
     (if sg < 1 \<or> sg > 64 \<or> (act \<noteq> None \<and> (sg = SIGKILL \<or> sg = SIGSTOP)) then Some (- EINVAL, None, s)
      else do {
        let c = cur (sg_k s);
        a \<leftarrow> sig (task_of s c);
        let oact = sg_action s a sg;
        (case act of
           None \<Rightarrow> Some (0, Some oact, s)
         | Some k \<Rightarrow> do {
             let k = k\<lparr>sa_mask := sigdelsetmask unblockable (sa_mask k)\<rparr>;
             let s = s\<lparr>sg_action := (sg_action s)(a := (sg_action s a)(sg := k))\<rparr>;
             if sa_handler k = SIG_IGN \<or> (sa_handler k = SIG_DFL \<and> sg \<in> {SIGCONT, SIGCHLD, SIGURG, SIGWINCH}) then do {
               (r, s) \<leftarrow> rm_sig_from_queue sg c s;
               Some (0, Some oact, if r \<noteq> 0 then recalc_sigpending c s else s) }
             else Some (0, Some oact, s) }) })"

text \<open>\<open>stk\<close> is what the structure \<open>new_sa\<close> holds before its two assignments.\<close>
definition sys_signal :: "k_sigaction \<Rightarrow> int \<Rightarrow> u32 \<Rightarrow> sigst \<Rightarrow> (u32 \<times> sigst) option" where
  "sys_signal stk sg handler s = do {
     (ret, oact, s) \<leftarrow> do_sigaction sg (Some (stk\<lparr>sa_handler := handler, sa_flags := SA_ONESHOT OR SA_NOMASK\<rparr>)) s;
     Some (case oact of Some o1 \<Rightarrow> if ret \<noteq> 0 then word_of_int ret else sa_handler o1 | None \<Rightarrow> word_of_int ret, s) }"

definition sigaddsetmask :: "u32 \<Rightarrow> sigset \<Rightarrow> sigset" where
  "sigaddsetmask msk w = w OR ucast msk"

definition set_word0 :: "u32 \<Rightarrow> sigset \<Rightarrow> sigset" where
  "set_word0 v w = push_bit 32 (ucast (sig_hi w)) OR ucast v"

definition sys_sigprocmask :: "int \<Rightarrow> addr \<Rightarrow> addr \<Rightarrow> sigst \<Rightarrow> int \<times> sigst" where
  "sys_sigprocmask how uset oset s =
     (let k = sg_k s; c = cur k in
      if uset \<noteq> 0 then
        (case copy_in32 (addr_limit (tsk k)) uset (mem k) of
           None \<Rightarrow> (- EFAULT, s)
         | Some new_set \<Rightarrow>
            (let new_set = new_set AND NOT unblockable;
                 b = sg_blocked s c; old_set = sig_lo b;
                 (err, b) =
                   (if how = SIG_BLOCK then (0, sigaddsetmask new_set b)
                    else if how = SIG_UNBLOCK then (0, sigdelsetmask new_set b)
                    else if how = SIG_SETMASK then (0, set_word0 new_set b)
                    else (- EINVAL, b));
                 s = recalc_sigpending c (set_blocked c b s)
             in if err \<noteq> 0 then (err, s)
                else if oset \<noteq> 0 then give_set oset (ucast old_set) 4 s
                else (0, s)))
      else if oset \<noteq> 0 then give_set oset (ucast (sig_lo (sg_blocked s c))) 4 s
      else (0, s))"

definition sys_sgetmask :: "sigst \<Rightarrow> u32" where
  "sys_sgetmask s = sig_lo (sg_blocked s (cur (sg_k s)))"

definition siginitset :: "u32 \<Rightarrow> sigset" where
  "siginitset msk = ucast msk"

definition sys_ssetmask :: "u32 \<Rightarrow> sigst \<Rightarrow> u32 \<times> sigst" where
  "sys_ssetmask newmask s =
     (let c = cur (sg_k s); old = sig_lo (sg_blocked s c)
      in (old, recalc_sigpending c (set_blocked c (siginitset (newmask AND NOT unblockable)) s)))"

section \<open>The invariant\<close>

definition stop_signals :: "int set" where
  "stop_signals = {SIGSTOP, SIGTSTP, SIGTTIN, SIGTTOU}"

text \<open>
  Of one task: \<open>SIGKILL\<close> and \<open>SIGSTOP\<close> are not blocked; if a pending signal is not blocked, the flag \<open>sigpending\<close>
  says so; \<open>SIGCONT\<close> is not pending together with a signal that stops.
\<close>
definition task_sig_ok :: "sigset \<Rightarrow> int set \<Rightarrow> int \<Rightarrow> bool" where
  "task_sig_ok b S f \<longleftrightarrow> SIGKILL \<notin> signals b \<and> SIGSTOP \<notin> signals b \<and> (S - signals b \<noteq> {} \<longrightarrow> f \<noteq> 0) \<and>
     (SIGCONT \<notin> S \<or> S \<inter> stop_signals = {})"

definition queues_ok :: "sigst \<Rightarrow> (task \<Rightarrow> nat list) \<Rightarrow> bool" where
  "queues_ok s Q \<longleftrightarrow> (\<forall>t. sigq (queue_of t s) (Q t)) \<and> (\<forall>t u. t \<noteq> u \<longrightarrow> set (Q t) \<inter> set (Q u) = {}) \<and> nr_ok (sg_heap s)"

abbreviation pending_of :: "sigst \<Rightarrow> task \<Rightarrow> int set" where
  "pending_of s t \<equiv> signals (sp_signal (sg_pending s t))"

text \<open>
  The invariant: the queues are in order, and every task is. Of the tasks in \<open>G\<close> nothing is said about the flag: the notifier of a
  driver makes \<open>dequeue_signal\<close> clear it while the signal stays pending.
\<close>
definition seen :: "task set \<Rightarrow> sigst \<Rightarrow> task \<Rightarrow> int" where
  "seen G s t = (if t \<in> G then 1 else sigpending (task_of s t))"

definition sig_invg :: "task set \<Rightarrow> sigst \<Rightarrow> bool" where
  "sig_invg G s \<longleftrightarrow> (\<exists>Q. queues_ok s Q) \<and>
     (\<forall>t. task_sig_ok (sg_blocked s t) (pending_of s t) (seen G s t))"

lemmas sig_invg_defs = sig_invg_def seen_def

abbreviation sig_inv :: "sigst \<Rightarrow> bool" where
  "sig_inv \<equiv> sig_invg {}"

text \<open>A state that differs only in what the invariant does not look at.\<close>
definition same_sig :: "sigst \<Rightarrow> sigst \<Rightarrow> bool" where
  "same_sig s s' \<longleftrightarrow> sg_pending s' = sg_pending s \<and> sg_blocked s' = sg_blocked s \<and> sg_heap s' = sg_heap s \<and>
     (\<forall>t. sigpending (task_of s' t) = sigpending (task_of s t))"

lemma same_sig_inv: "same_sig s s' \<Longrightarrow> sig_invg G s' = sig_invg G s"
  by (simp add: same_sig_def sig_invg_defs queues_ok_def queue_of_def)

lemma on_k_sel [simp]:
  "sg_k (on_k f s) = f (sg_k s)" "sg_pending (on_k f s) = sg_pending s" "sg_blocked (on_k f s) = sg_blocked s"
  "sg_heap (on_k f s) = sg_heap s" "sg_action (on_k f s) = sg_action s" "queue_of t (on_k f s) = queue_of t s"
  "sg_notifier (on_k f s) = sg_notifier s"
  by (simp_all add: on_k_def queue_of_def)

lemma set_queue_sel [simp]:
  "sg_k (set_queue t q s) = sg_k s" "sg_blocked (set_queue t q s) = sg_blocked s" "sg_action (set_queue t q s) = sg_action s"
  "sg_pending (set_queue t q s) = (sg_pending s)(t := fst q)" "sg_heap (set_queue t q s) = snd q"
  by (simp_all add: set_queue_def)

lemma recalc_sel [simp]:
  "sg_pending (recalc_sigpending t s) = sg_pending s" "sg_blocked (recalc_sigpending t s) = sg_blocked s"
  "sg_heap (recalc_sigpending t s) = sg_heap s" "cur (sg_k (recalc_sigpending t s)) = cur (sg_k s)"
  by (simp_all add: recalc_sigpending_def)

lemma recalc_task [simp]:
  "task_of (recalc_sigpending t s) u =
     (if u = t then (task_of s t)\<lparr>sigpending := if has_pending_signals (sp_signal (sg_pending s t)) (sg_blocked s t) then 1 else 0\<rparr>
      else task_of s u)"
  by (simp add: recalc_sigpending_def)

text \<open>Recomputing the flag establishes what the invariant says about it.\<close>

lemma sig_inv_blocked:
  assumes "sig_invg G s" "SIGKILL \<notin> signals b" "SIGSTOP \<notin> signals b"
  shows "sig_invg G (recalc_sigpending t (set_blocked t b s))"
  using assms by (auto simp: sig_invg_defs task_sig_ok_def queues_ok_def queue_of_def set_blocked_def has_pending_spec)

lemma sig_inv_recalc: "sig_invg G s \<Longrightarrow> sig_invg G (recalc_sigpending t s)"
  by (auto simp: sig_invg_defs task_sig_ok_def queues_ok_def queue_of_def has_pending_spec)

text \<open>A change of one queue. The objects in \<open>A\<close> are those of the queue and new ones.\<close>

lemma queues_ok_set:
  assumes q: "queues_ok s Q" and n: "sigq (p', h') qs'" "nr_ok h'" "same_out A (sg_heap s) h'"
    and A: "set qs' \<subseteq> A" "\<And>x. x \<in> A \<Longrightarrow> x \<in> set (Q t) \<or> \<not> sq_live (sg_heap s) x"
  shows "queues_ok (set_queue t (p', h') s) (Q(t := qs'))"
proof -
  have live: "sq_live (sg_heap s) x" if "x \<in> set (Q u)" for x u using q that by (auto simp: queues_ok_def sigq_def queue_of_def)
  have dis: "A \<inter> set (Q u) = {}" if "u \<noteq> t" for u
    using A(2) live q that by (auto simp: queues_ok_def disjoint_iff) metis
  have "sigq (sg_pending s u, h') (Q u)" if "u \<noteq> t" for u
    by (rule sigq_frame [OF _ n(3) dis [OF that]]) (use q in \<open>simp add: queues_ok_def queue_of_def\<close>)
  moreover have "set (Q u) \<inter> set qs' = {}" "set qs' \<inter> set (Q u) = {}" if "u \<noteq> t" for u
    using dis [OF that] A(1) by auto
  ultimately show ?thesis using q n(1,2) by (auto simp: queues_ok_def queue_of_def)
qed

text \<open>Removing a signal.\<close>

lemma rm_sig_spec:
  assumes "queues_ok s Q" "1 \<le> sg" "sg \<le> 64"
  obtains r q Q' where "rm_sig_from_queue sg t s = Some (r, set_queue t q s)" "queues_ok (set_queue t q s) Q'"
    "signals (sp_signal (fst q)) = pending_of s t - {sg}" "r = (if sg \<in> pending_of s t then 1 else 0)"
proof -
  have q: "sigq (sg_pending s t, sg_heap s) (Q t)" "nr_ok (sg_heap s)" using assms(1) by (auto simp: queues_ok_def queue_of_def)
  obtain p' h' where r: "rm_from_queue sg (sg_pending s t, sg_heap s) = Some (if sigismember (sp_signal (sg_pending s t)) sg then 1 else 0, p', h')"
    "sigq (p', h') (if sigismember (sp_signal (sg_pending s t)) sg then filter (\<lambda>q. si_signo (sq_info (sg_heap s) q) \<noteq> sg) (Q t) else Q t)"
    "nr_ok h'" "same_out (set (Q t)) (sg_heap s) h'"
    "sp_signal p' = (if sigismember (sp_signal (sg_pending s t)) sg then sigdelset sg (sp_signal (sg_pending s t)) else sp_signal (sg_pending s t))"
    by (rule rm_from_queue_spec [OF q]) blast
  have "queues_ok (set_queue t (p', h') s) (Q(t := if sigismember (sp_signal (sg_pending s t)) sg
      then filter (\<lambda>q. si_signo (sq_info (sg_heap s) q) \<noteq> sg) (Q t) else Q t))"
    by (rule queues_ok_set [OF assms(1) r(2,3,4)]) auto
  moreover have "signals (sp_signal p') = pending_of s t - {sg}" using r(5) assms(2,3) by (auto simp: signals_def)
  moreover have "sigismember (sp_signal (sg_pending s t)) sg \<longleftrightarrow> sg \<in> pending_of s t" using assms(2,3) by (simp add: signals_def)
  ultimately show thesis using that [of _ "(p', h')"] r(1) by (simp add: rm_sig_from_queue_def queue_of_def)
qed

text \<open>The invariant, with the pending signals of one task made fewer.\<close>

lemma sig_inv_fewer:
  assumes "sig_invg G s" "queues_ok (set_queue t q s) Q'" "signals (sp_signal (fst q)) \<subseteq> pending_of s t"
  shows "sig_invg G (set_queue t q s)"
proof -
  have "task_sig_ok (sg_blocked s t) (signals (sp_signal (fst q))) (seen G s t)"
    using assms(1,3) unfolding sig_invg_def task_sig_ok_def by blast
  moreover have "seen G (set_queue t q s) = seen G s" by (simp add: seen_def fun_eq_iff)
  ultimately show ?thesis using assms(1,2) by (auto simp: sig_invg_def)
qed

lemma rm_sig_inv:
  assumes i: "sig_invg G s" and sg: "1 \<le> sg" "sg \<le> 64"
  obtains r s' where "rm_sig_from_queue sg t s = Some (r, s')" "sig_invg G s'" "sg_k s' = sg_k s" "sg_blocked s' = sg_blocked s"
    "sg_action s' = sg_action s" "pending_of s' = (pending_of s)(t := pending_of s t - {sg})" "r = (if sg \<in> pending_of s t then 1 else 0)"
proof -
  obtain Q where Q: "queues_ok s Q" using i by (auto simp: sig_invg_defs)
  obtain r q Q' where r: "rm_sig_from_queue sg t s = Some (r, set_queue t q s)" "queues_ok (set_queue t q s) Q'"
    "signals (sp_signal (fst q)) = pending_of s t - {sg}" "r = (if sg \<in> pending_of s t then 1 else 0)"
    by (rule rm_sig_spec [OF Q sg])
  have "sig_invg G (set_queue t q s)" by (rule sig_inv_fewer [OF i r(2)]) (use r(3) in auto)
  then show thesis using that r by (simp add: fun_eq_iff)
qed

section \<open>Sending returns and keeps the invariant\<close>

text \<open>What sending a signal never changes.\<close>
definition ident :: "task_struct \<Rightarrow> _" where
  "ident p = (sig p, ptrace p, pid p, tgid p, pgrp p, session p, leader p, uid p, euid p, next_task p, p_pptr p)"

definition sframe :: "sigst \<Rightarrow> sigst \<Rightarrow> bool" where
  "sframe s s' \<longleftrightarrow> sg_blocked s' = sg_blocked s \<and> sg_action s' = sg_action s \<and> cur (sg_k s') = cur (sg_k s) \<and>
     (\<forall>u. ident (task_of s' u) = ident (task_of s u))"

lemma sframe_refl [simp]: "sframe s s"
  by (simp add: sframe_def)

lemma sframe_trans [trans]: "sframe s s' \<Longrightarrow> sframe s' s'' \<Longrightarrow> sframe s s''"
  by (simp add: sframe_def)

lemma ident_sel: "ident p' = ident p \<Longrightarrow> sig p' = sig p \<and> ptrace p' = ptrace p \<and> pid p' = pid p \<and> tgid p' = tgid p \<and> pgrp p' = pgrp p \<and>
    session p' = session p \<and> leader p' = leader p \<and> uid p' = uid p \<and> euid p' = euid p \<and> next_task p' = next_task p \<and> p_pptr p' = p_pptr p"
  by (simp add: ident_def)

text \<open>The scheduler can wake the task up: the runqueue is in order, and a task that is not in it has a priority.\<close>
definition wakeable :: "kst \<Rightarrow> bool" where
  "wakeable st \<longleftrightarrow> (\<exists>RQ. rq_inv st RQ) \<and> (\<forall>t. array (tasks st t) = None \<longrightarrow> 0 \<le> prio (tasks st t) \<and> prio (tasks st t) < 140)"

lemma wakeable_upd:
  assumes "wakeable st" "\<And>p. array (f p) = array p" "\<And>p. prio (f p) = prio p"
  shows "wakeable (upd_task t f st)"
proof -
  obtain RQ where "rq_inv st RQ" using assms(1) by (auto simp: wakeable_def)
  from rq_inv_upd_same [OF this assms(2,3)] show ?thesis using assms by (auto simp: wakeable_def)
qed

lemma wake_bonus_sig: "sigpending (wake_bonus n p) = sigpending p" "ident (wake_bonus n p) = ident p"
  by (simp_all add: wake_bonus_def ident_def Let_def)

lemma resched_view: "p' = q\<lparr>need_resched := n\<rparr> \<Longrightarrow>
    sigpending p' = sigpending q \<and> ident p' = ident q \<and> array p' = array q \<and> prio p' = prio q"
  by (simp add: ident_def)

lemma queued_view: "p' = q\<lparr>array := a, state := st, need_resched := n\<rparr> \<Longrightarrow>
    sigpending p' = sigpending q \<and> ident p' = ident q \<and> array p' = a \<and> state p' = st"
  by (simp add: ident_def)

lemma wake_task_spec:
  assumes w: "wakeable (sg_k s)"
  obtains s' where "wake_task t s = Some s'" "wakeable (sg_k s')" "same_sig s s'" "sframe s s'"
    "state (task_of s' t) = TASK_RUNNING" "array (task_of s' t) \<noteq> None"
proof -
  obtain RQ where R: "rq_inv (sg_k s) RQ" and pr: "\<And>u. array (task_of s u) = None \<Longrightarrow> 0 \<le> prio (task_of s u) \<and> prio (task_of s u) < 140"
    using w by (auto simp: wakeable_def)
  show thesis
  proof (cases "array (task_of s t)")
    case (Some a)
    let ?k = "upd_task t (\<lambda>p. p\<lparr>state := TASK_RUNNING\<rparr>) (sg_k s)"
    have e: "wake_task t s = Some (s\<lparr>sg_k := ?k\<rparr>)" using Some by (simp add: wake_task_def wake_up_process_def try_to_wake_up_def)
    show thesis by (rule that [OF e]) (use w Some in \<open>auto simp: same_sig_def sframe_def ident_def intro: wakeable_upd\<close>)
  next
    case None
    from try_to_wake_up_refines [OF R None] pr [OF None] obtain k j where
      k: "try_to_wake_up t (sg_k s) = Some (True, k)" "rq_inv k (abs_enqueue t (active (rq (sg_k s))) j RQ)" "cur k = cur (sg_k s)"
        "\<And>q. q \<noteq> t \<Longrightarrow> tasks k q = (task_of s q)\<lparr>need_resched := need_resched (tasks k q)\<rparr>"
        "tasks k t = (wake_bonus (jiffies (sg_k s)) (task_of s t))\<lparr>array := Some (active (rq (sg_k s))), state := TASK_RUNNING,
           need_resched := need_resched (tasks k t)\<rparr>" by blast
    have t: "sigpending (tasks k t) = sigpending (task_of s t)" "ident (tasks k t) = ident (task_of s t)"
      "array (tasks k t) \<noteq> None" "state (tasks k t) = TASK_RUNNING"
      using queued_view [OF k(5)] wake_bonus_sig by simp_all
    have f: "sigpending (tasks k u) = sigpending (task_of s u) \<and> ident (tasks k u) = ident (task_of s u) \<and>
        (u \<noteq> t \<longrightarrow> array (tasks k u) = array (task_of s u) \<and> prio (tasks k u) = prio (task_of s u))" for u
      using t(1,2) resched_view [OF k(4)] by (cases "u = t") simp_all
    have "wakeable k" unfolding wakeable_def using k(2) f pr t by metis
    moreover have "wake_task t s = Some (s\<lparr>sg_k := k\<rparr>)" using k(1) by (simp add: wake_task_def wake_up_process_def)
    ultimately show thesis using that f t k(3) by (auto simp: same_sig_def sframe_def)
  qed
qed

text \<open>The stages of \<open>send_sig_info\<close>. The first one may remove signals of the task.\<close>

definition fewer :: "task set \<Rightarrow> task \<Rightarrow> sigst \<Rightarrow> sigst \<Rightarrow> bool" where
  "fewer G t s s' \<longleftrightarrow> sig_invg G s' \<and> wakeable (sg_k s') \<and> sframe s s' \<and> pending_of s' t \<subseteq> pending_of s t \<and>
     (\<forall>u. u \<noteq> t \<longrightarrow> sg_pending s' u = sg_pending s u) \<and> sigpending (task_of s' t) = sigpending (task_of s t)"

lemma fewer_refl: "sig_invg G s \<Longrightarrow> wakeable (sg_k s) \<Longrightarrow> fewer G t s s"
  by (simp add: fewer_def)

lemma fewer_trans: "fewer G t s s' \<Longrightarrow> fewer G t s' s'' \<Longrightarrow> fewer G t s s''"
  by (auto simp: fewer_def intro: sframe_trans)

lemma fewer_inv: "fewer G t s s' \<Longrightarrow> sig_invg G s' \<and> wakeable (sg_k s')"
  by (simp add: fewer_def)

lemma rm_sig_fewer:
  assumes i: "sig_invg G s" "wakeable (sg_k s)" and sg: "1 \<le> sg" "sg \<le> 64"
  obtains r s' where "rm_sig_from_queue sg t s = Some (r, s')" "fewer G t s s'" "pending_of s' t = pending_of s t - {sg}" "sg_k s' = sg_k s"
proof -
  obtain Q where Q: "queues_ok s Q" using i(1) by (auto simp: sig_invg_defs)
  obtain r q Q' where r: "rm_sig_from_queue sg t s = Some (r, set_queue t q s)" "queues_ok (set_queue t q s) Q'"
    "signals (sp_signal (fst q)) = pending_of s t - {sg}"
    by (rule rm_sig_spec [OF Q sg])
  have "sig_invg G (set_queue t q s)" by (rule sig_inv_fewer [OF i(1) r(2)]) (use r(3) in auto)
  then show thesis using that [OF r(1)] r(3) i(2) by (auto simp: fewer_def sframe_def)
qed

lemma stop_waking_fewer:
  assumes i: "sig_invg G s" "wakeable (sg_k s)"
  obtains s' where "(if state (task_of s t) = TASK_STOPPED then wake_task t s else Some s) = Some s'" "fewer G t s s'"
    "sg_pending s' = sg_pending s" "state (task_of s' t) \<noteq> TASK_STOPPED"
proof (cases "state (task_of s t) = TASK_STOPPED")
  case True
  obtain s' where w: "wake_task t s = Some s'" "wakeable (sg_k s')" "same_sig s s'" "sframe s s'" "state (task_of s' t) = TASK_RUNNING"
    by (rule wake_task_spec [OF i(2)])
  have "sig_invg G s'" using same_sig_inv [OF w(3)] i(1) by simp
  then show thesis using that [of s'] True w by (simp add: fewer_def same_sig_def)
next
  case False
  then show thesis using that [of s] fewer_refl [OF i] by simp
qed

lemma handle_stop_spec:
  assumes i: "sig_invg G s" "wakeable (sg_k s)"
  obtains s' where "handle_stop_signal sg t s = Some s'" "fewer G t s s'"
    "sg \<in> {SIGKILL, SIGCONT} \<Longrightarrow> pending_of s' t \<inter> stop_signals = {}" "sg \<in> stop_signals \<Longrightarrow> SIGCONT \<notin> pending_of s' t"
    "sg \<in> {SIGKILL, SIGCONT} \<Longrightarrow> state (task_of s' t) \<noteq> TASK_STOPPED" "sg \<notin> {SIGKILL, SIGCONT} \<union> stop_signals \<Longrightarrow> s' = s"
proof -
  consider "sg \<in> {SIGKILL, SIGCONT}" | "sg \<in> stop_signals" | "sg \<notin> {SIGKILL, SIGCONT} \<union> stop_signals" by blast
  then show thesis
  proof cases
    case 1
    obtain s0 where s0: "(if state (task_of s t) = TASK_STOPPED then wake_task t s else Some s) = Some s0" "fewer G t s s0"
      "sg_pending s0 = sg_pending s" "state (task_of s0 t) \<noteq> TASK_STOPPED" by (rule stop_waking_fewer [OF i])
    let ?s1 = "on_k (upd_task t (\<lambda>p. p\<lparr>exit_code := 0\<rparr>)) s0"
    have "same_sig s0 ?s1" by (simp add: same_sig_def)
    then have f1: "fewer G t s0 ?s1" using fewer_inv [OF s0(2)] same_sig_inv [of s0 ?s1]
      by (simp add: fewer_def sframe_def ident_def wakeable_upd)
    obtain r2 s2 where s2: "rm_sig_from_queue SIGSTOP t ?s1 = Some (r2, s2)" "fewer G t ?s1 s2" "pending_of s2 t = pending_of ?s1 t - {SIGSTOP}" "sg_k s2 = sg_k ?s1"
      by (rule rm_sig_fewer [of G ?s1 SIGSTOP t]) (use fewer_inv [OF f1] in auto)
    obtain r3 s3 where s3: "rm_sig_from_queue SIGTSTP t s2 = Some (r3, s3)" "fewer G t s2 s3" "pending_of s3 t = pending_of s2 t - {SIGTSTP}" "sg_k s3 = sg_k s2"
      by (rule rm_sig_fewer [of G s2 SIGTSTP t]) (use fewer_inv [OF s2(2)] in auto)
    obtain r4 s4 where s4: "rm_sig_from_queue SIGTTOU t s3 = Some (r4, s4)" "fewer G t s3 s4" "pending_of s4 t = pending_of s3 t - {SIGTTOU}" "sg_k s4 = sg_k s3"
      by (rule rm_sig_fewer [of G s3 SIGTTOU t]) (use fewer_inv [OF s3(2)] in auto)
    obtain r5 s5 where s5: "rm_sig_from_queue SIGTTIN t s4 = Some (r5, s5)" "fewer G t s4 s5" "pending_of s5 t = pending_of s4 t - {SIGTTIN}" "sg_k s5 = sg_k s4"
      by (rule rm_sig_fewer [of G s4 SIGTTIN t]) (use fewer_inv [OF s4(2)] in auto)
    have "fewer G t s s5" using fewer_trans [OF fewer_trans [OF fewer_trans [OF fewer_trans [OF fewer_trans [OF s0(2) f1] s2(2)] s3(2)] s4(2)] s5(2)] .
    moreover have "handle_stop_signal sg t s = Some s5"
      using 1 s0(1) s2(1) s3(1) s4(1) s5(1) by (simp add: handle_stop_signal_def)
    moreover have "pending_of s5 t \<inter> stop_signals = {}"
      unfolding s5(3) s4(3) s3(3) s2(3) by (auto simp: stop_signals_def)
    moreover have "state (task_of s5 t) \<noteq> TASK_STOPPED" using s0(4) by (simp add: s5(4) s4(4) s3(4) s2(4))
    moreover have "sg \<notin> stop_signals" using 1 by (auto simp: stop_signals_def)
    ultimately show thesis by (intro that [of s5]) (use 1 in simp_all)
  next
    case 2
    obtain r s' where s': "rm_sig_from_queue SIGCONT t s = Some (r, s')" "fewer G t s s'" "pending_of s' t = pending_of s t - {SIGCONT}"
      by (rule rm_sig_fewer [OF i, of SIGCONT t]) auto
    have n: "sg \<noteq> SIGKILL" "sg \<noteq> SIGCONT" using 2 by (auto simp: stop_signals_def)
    then have e: "handle_stop_signal sg t s = Some s'" using 2 s'(1) by (simp add: handle_stop_signal_def stop_signals_def)
    show thesis by (rule that [OF e s'(2)]) (use 2 n s'(3) in simp_all)
  next
    case 3
    then have e: "handle_stop_signal sg t s = Some s" by (simp add: handle_stop_signal_def stop_signals_def)
    show thesis by (rule that [OF e fewer_refl [OF i]]) (use 3 in simp_all)
  qed
qed

text \<open>An information that is not from \<open>kill\<close>; only such a real-time signal may be refused.\<close>
definition queued_info :: "infoarg \<Rightarrow> bool" where
  "queued_info info \<longleftrightarrow> (\<exists>i. info = Info i \<and> si_code i \<noteq> SI_USER)"

lemma send_queue_spec:
  assumes Q: "queues_ok s Q" and a: "sq_alloc_ok alloc" and sg: "1 \<le> sg" "sg \<le> 64"
  obtains r p' h' Q' where "send_signal alloc cp cu sg info (queue_of t s) = (r, p', h')" "queues_ok (set_queue t (p', h') s) Q'"
    "(r = 0 \<and> signals (sp_signal p') = insert sg (pending_of s t)) \<or> (r = - EAGAIN \<and> 32 \<le> sg \<and> queued_info info \<and> p' = sg_pending s t \<and> h' = sg_heap s)"
proof -
  let ?p = "sg_pending s t" and ?h = "sg_heap s"
  have q: "sigq (?p, ?h) (Q t)" "nr_ok ?h" using Q by (auto simp: queues_ok_def queue_of_def)
  note sp = send_signal_spec [OF q a sg, of cp cu info]
  show thesis
  proof (cases "if nr_queued_signals ?h < max_queued_signals ?h then alloc ?h else None")
    case (Some x)
    with sp obtain p' h' old where s1: "send_signal alloc cp cu sg info (?p, ?h) = (0, p', h')" "sigq (p', h') (Q t @ [x])" "nr_ok h'"
      "same_out (set (Q t @ [x])) ?h h'" "\<not> sq_live ?h x"
      "abs_pending (p', h') (Q t @ [x]) = (insert sg (pending_of s t), map (sq_info ?h) (Q t) @ [sent_info cp cu sg info old])" by auto
    have "queues_ok (set_queue t (p', h') s) (Q(t := Q t @ [x]))"
      by (rule queues_ok_set [OF Q s1(2,3,4)]) (use s1(5) in auto)
    then show thesis using that s1(1,6) by (auto simp: queue_of_def abs_pending_def)
  next
    case None
    let ?p' = "?p\<lparr>sp_signal := sigaddset sg (sp_signal ?p)\<rparr>"
    have q': "sigq (?p', ?h) (Q t)" using q(1) by (simp add: sigq_def)
    have same: "queues_ok (set_queue t (?p, ?h) s) (Q(t := Q t))" "queues_ok (set_queue t (?p', ?h) s) (Q(t := Q t))"
      by (rule queues_ok_set [OF Q q(1,2), of "set (Q t)"]; simp) (rule queues_ok_set [OF Q q' q(2), of "set (Q t)"]; simp)
    have "send_signal alloc cp cu sg info (?p, ?h) =
        (if sg \<ge> 32 \<and> (\<exists>i. info = Info i \<and> si_code i \<noteq> SI_USER) then (- EAGAIN, ?p, ?h) else (0, ?p', ?h))"
      using sp None by simp
    then show thesis using that [OF _ same(1)] that [OF _ same(2)] sg by (auto simp: queue_of_def queued_info_def split: if_splits)
  qed
qed

lemma signal_wake_up_spec:
  assumes w: "wakeable (sg_k s)"
  obtains s' where "signal_wake_up t s = Some s'" "wakeable (sg_k s')" "sframe s s'" "sg_pending s' = sg_pending s" "sg_heap s' = sg_heap s"
    "sigpending (task_of s' t) = 1" "state (task_of s' t) AND TASK_INTERRUPTIBLE = 0"
    "\<And>u. u \<noteq> t \<Longrightarrow> sigpending (task_of s' u) = sigpending (task_of s u)"
proof -
  let ?s = "on_k (upd_task t (\<lambda>p. p\<lparr>sigpending := 1\<rparr>)) s"
  have w1: "wakeable (sg_k ?s)" using w by (simp add: wakeable_upd)
  have f1: "sframe s ?s" by (simp add: sframe_def ident_def)
  show thesis
  proof (cases "state (task_of s t) AND TASK_INTERRUPTIBLE = 0")
    case True
    then show thesis by (intro that [of ?s]) (use w1 f1 in \<open>simp_all add: signal_wake_up_def\<close>)
  next
    case False
    obtain s' where s': "wake_task t ?s = Some s'" "wakeable (sg_k s')" "same_sig ?s s'" "sframe ?s s'" "state (task_of s' t) = TASK_RUNNING"
      by (rule wake_task_spec [OF w1])
    show thesis by (rule that [of s'])
      (use False s' sframe_trans [OF f1 s'(4)] in \<open>simp_all add: signal_wake_up_def same_sig_def\<close>)
  qed
qed

text \<open>What delivering a signal does.\<close>
definition delivered :: "int \<Rightarrow> task \<Rightarrow> sigst \<Rightarrow> sigst \<Rightarrow> bool" where
  "delivered sg t s s' \<longleftrightarrow> pending_of s' t = insert sg (pending_of s t) \<and>
     (sg \<notin> signals (sg_blocked s t) \<longrightarrow> sigpending (task_of s' t) = 1 \<and> state (task_of s' t) AND TASK_INTERRUPTIBLE = 0)"

lemma deliver_spec:
  assumes i: "sig_invg G s" "wakeable (sg_k s)" "sq_alloc_ok alloc" and sg: "1 \<le> sg" "sg \<le> 64"
    and job: "sg = SIGCONT \<Longrightarrow> pending_of s t \<inter> stop_signals = {}" "sg \<in> stop_signals \<Longrightarrow> SIGCONT \<notin> pending_of s t"
  obtains r s' where "deliver_signal alloc sg info t s = Some (r, s')" "sig_invg G s'" "wakeable (sg_k s')" "sframe s s'"
    "\<And>u. u \<noteq> t \<Longrightarrow> sg_pending s' u = sg_pending s u" "(r = 0 \<and> delivered sg t s s') \<or> (r = - EAGAIN \<and> 32 \<le> sg \<and> queued_info info \<and> s' = s)"
proof -
  obtain Q where Q: "queues_ok s Q" using i(1) by (auto simp: sig_invg_defs)
  let ?c = "tsk (sg_k s)"
  obtain r p' h' Q' where q: "send_signal alloc (pid ?c) (uint (uid ?c)) sg info (queue_of t s) = (r, p', h')"
    "queues_ok (set_queue t (p', h') s) Q'"
    "(r = 0 \<and> signals (sp_signal p') = insert sg (pending_of s t)) \<or> (r = - EAGAIN \<and> 32 \<le> sg \<and> queued_info info \<and> p' = sg_pending s t \<and> h' = sg_heap s)"
    by (rule send_queue_spec [OF Q i(3) sg])
  let ?s = "set_queue t (p', h') s"
  have mem: "sigismember (sg_blocked s t) sg \<longleftrightarrow> sg \<in> signals (sg_blocked s t)" using sg by (simp add: signals_def)
  from q(3) show thesis
  proof
    assume e: "r = - EAGAIN \<and> 32 \<le> sg \<and> queued_info info \<and> p' = sg_pending s t \<and> h' = sg_heap s"
    then have "?s = s" by (simp add: set_queue_def)
    then have "deliver_signal alloc sg info t s = Some (- EAGAIN, s)" using q(1) e by (simp add: deliver_signal_def errno_defs)
    then show thesis by (rule that) (use i e in auto)
  next
    assume z: "r = 0 \<and> signals (sp_signal p') = insert sg (pending_of s t)"
    have j: "SIGCONT \<notin> insert sg (pending_of s t) \<or> insert sg (pending_of s t) \<inter> stop_signals = {}"
      using job i(1) by (auto simp: sig_invg_defs task_sig_ok_def stop_signals_def)
    show thesis
    proof (cases "sg \<in> signals (sg_blocked s t)")
      case True
      have "sig_invg G ?s" using i(1) q(2) z j True by (auto simp: sig_invg_defs task_sig_ok_def)
      moreover have "deliver_signal alloc sg info t s = Some (0, ?s)" using q(1) z True mem by (simp add: deliver_signal_def)
      ultimately show thesis by (intro that [of 0 ?s]) (use i(2) z True in \<open>auto simp: sframe_def delivered_def\<close>)
    next
      case False
      obtain s' where s': "signal_wake_up t ?s = Some s'" "wakeable (sg_k s')" "sframe ?s s'" "sg_pending s' = sg_pending ?s" "sg_heap s' = sg_heap ?s"
        "sigpending (task_of s' t) = 1" "state (task_of s' t) AND TASK_INTERRUPTIBLE = 0"
        "\<And>u. u \<noteq> t \<Longrightarrow> sigpending (task_of s' u) = sigpending (task_of ?s u)"
        by (rule signal_wake_up_spec [of ?s t]) (use i(2) in simp_all)
      have b: "sg_blocked s' = sg_blocked s" using s'(3) by (simp add: sframe_def)
      have "queues_ok s' Q'" using q(2) s'(4,5) by (simp add: queues_ok_def queue_of_def)
      moreover have "task_sig_ok (sg_blocked s' u) (pending_of s' u) (seen G s' u)" for u
      proof (cases "u = t")
        case True
        then show ?thesis using i(1) z j s'(4,6) by (auto simp: sig_invg_defs task_sig_ok_def b)
      next
        case False
        then have "seen G s' u = seen G s u" using s'(8) by (simp add: seen_def)
        with False show ?thesis using i(1) s'(4) by (simp add: sig_invg_def b)
      qed
      ultimately have "sig_invg G s'" by (auto simp: sig_invg_def)
      moreover have "deliver_signal alloc sg info t s = Some (0, s')" using q(1) z False mem s'(1) by (simp add: deliver_signal_def)
      ultimately show thesis by (intro that [of 0 s']) (use s' z in \<open>auto simp: sframe_def delivered_def\<close>)
    qed
  qed
qed

text \<open>The whole function: it returns, it keeps the invariant and it delivers the signal unless it is ignored.\<close>

lemma bad_signal_frame:
  assumes "bad_signal sg info t s = (b, s')"
  shows "same_sig s s'" "sframe s s'" "wakeable (sg_k s) \<Longrightarrow> wakeable (sg_k s')" "\<And>u. state (task_of s' u) = state (task_of s u)"
    "\<And>u. sg_pending s' u = sg_pending s u"
proof -
  obtain ok k where k: "capable CAP_KILL (sg_k s) = (ok, k)" by fastforce
  then have *: "k = sg_k s \<or> k = upd_task (cur (sg_k s)) (\<lambda>t. t\<lparr>flags := flags t OR PF_SUPERPRIV\<rparr>) (sg_k s)"
    by (auto simp: capable_def split: if_splits)
  have s': "s' = s \<or> s' = s\<lparr>sg_k := k\<rparr>" using assms k by (auto simp: bad_signal_def Let_def split: if_splits)
  then show "same_sig s s'" "sframe s s'" "\<And>u. state (task_of s' u) = state (task_of s u)" "\<And>u. sg_pending s' u = sg_pending s u"
    using * by (auto simp: same_sig_def sframe_def ident_def)
  show "wakeable (sg_k s')" if "wakeable (sg_k s)" using * s' that by (auto simp: wakeable_upd)
qed

lemma ignored_frame:
  "sframe s s' \<Longrightarrow> ignored_signal sg t s' = ignored_signal sg t s"
proof -
  assume f: "sframe s s'"
  have "sig (task_of s' t) = sig (task_of s t) \<and> ptrace (task_of s' t) = ptrace (task_of s t)"
    using f ident_sel [of "task_of s' t" "task_of s t"] by (simp add: sframe_def)
  moreover have a: "sg_action s' = sg_action s" using f by (simp add: sframe_def)
  have "signal_type sg v s' = signal_type sg v s" for v unfolding signal_type_def a by (rule refl)
  ultimately show ?thesis using f by (simp add: ignored_signal_def sframe_def)
qed

lemma send_sig_info_spec:
  assumes i: "sig_invg G s" "wakeable (sg_k s)" "sq_alloc_ok alloc"
  obtains r s' where "send_sig_info alloc sg info t s = Some (r, s')" "sig_invg G s'" "wakeable (sg_k s')" "sframe s s'"
    "\<And>u. u \<noteq> t \<Longrightarrow> sg_pending s' u = sg_pending s u" "r \<in> {0, - EINVAL, - EPERM, - EAGAIN}"
    "r = 0 \<Longrightarrow> 1 \<le> sg \<Longrightarrow> sig (task_of s t) \<noteq> None \<Longrightarrow> \<not> ignored_signal sg t s \<Longrightarrow> sg \<in> pending_of s' t"
    "r = - EAGAIN \<Longrightarrow> SIGRTMIN \<le> sg \<and> queued_info info" "r = - EPERM \<Longrightarrow> info \<noteq> Info1" "r = - EINVAL \<Longrightarrow> sg < 0 \<or> 64 < sg"
    "r = 0 \<Longrightarrow> 1 \<le> sg \<Longrightarrow> sig (task_of s t) \<noteq> None \<Longrightarrow> \<not> ignored_signal sg t s \<Longrightarrow> sg \<notin> signals (sg_blocked s t) \<Longrightarrow>
       SIGRTMIN \<le> sg \<or> sg \<notin> pending_of s t \<Longrightarrow> state (task_of s' t) AND TASK_INTERRUPTIBLE = 0"
    "r = 0 \<Longrightarrow> sg \<in> {SIGKILL, SIGCONT} \<Longrightarrow> sig (task_of s t) \<noteq> None \<Longrightarrow> pending_of s' t \<inter> stop_signals = {}"
proof (cases "sg < 0 \<or> sg > 64")
  case True
  then have "send_sig_info alloc sg info t s = Some (- EINVAL, s)" by (simp add: send_sig_info_def)
  then show thesis by (rule that) (use i True in \<open>auto simp: errno_defs\<close>)
next
  case r: False
  obtain b s0 where b: "bad_signal sg info t s = (b, s0)" by fastforce
  note f0 = bad_signal_frame [OF b]
  have i0: "sig_invg G s0" "wakeable (sg_k s0)" using same_sig_inv [OF f0(1)] f0(3) i by auto
  have b1: "info \<noteq> Info1" if b using b that by (auto simp: bad_signal_def)
  have sg0: "sig (task_of s0 t) = sig (task_of s t)" using f0(2) ident_sel [of "task_of s0 t" "task_of s t"] by (simp add: sframe_def)
  show thesis
  proof (cases "b \<or> sg = 0 \<or> sig (task_of s t) = None")
    case True
    then have e: "send_sig_info alloc sg info t s = Some (if b then - EPERM else 0, s0)"
      using r b sg0 by (auto simp: send_sig_info_def)
    show thesis by (rule that [OF e]) (use i0 f0 b1 True in \<open>auto simp: errno_defs split: if_splits\<close>)
  next
    case ok: False
    have sg1: "1 \<le> sg" "sg \<le> 64" using r ok by auto
    obtain s1 where s1: "handle_stop_signal sg t s0 = Some s1" "fewer G t s0 s1"
      "sg \<in> {SIGKILL, SIGCONT} \<Longrightarrow> pending_of s1 t \<inter> stop_signals = {}" "sg \<in> stop_signals \<Longrightarrow> SIGCONT \<notin> pending_of s1 t"
      by (rule handle_stop_spec [OF i0, of sg t]) blast
    have fr: "sframe s s1" using f0(2) s1(2) sframe_trans by (auto simp: fewer_def)
    have i1: "sig_invg G s1" "wakeable (sg_k s1)" "\<And>u. u \<noteq> t \<Longrightarrow> sg_pending s1 u = sg_pending s u"
      using s1(2) f0(5) by (auto simp: fewer_def)
    have p1: "pending_of s1 t \<subseteq> pending_of s t" "sg_blocked s1 = sg_blocked s" using s1(2) f0(5) fr by (auto simp: fewer_def sframe_def)
    have ss: "send_sig_info alloc sg info t s =
        (if ignored_signal sg t s then Some (0, s1)
         else if sg < SIGRTMIN \<and> sigismember (sp_signal (sg_pending s1 t)) sg then Some (0, s1)
         else deliver_signal alloc sg info t s1)"
      using r b ok sg0 s1(1) ignored_frame [OF fr] by (auto simp: send_sig_info_def)
    show thesis
    proof (cases "ignored_signal sg t s \<or> (sg < SIGRTMIN \<and> sigismember (sp_signal (sg_pending s1 t)) sg)")
      case True
      then have e: "send_sig_info alloc sg info t s = Some (0, s1)" using ss by auto
      show thesis by (rule that [OF e i1(1,2) fr i1(3)]) (use True sg1 s1(3) p1 in \<open>auto simp: signals_def errno_defs SIGRTMIN_def\<close>)
    next
      case False
      obtain r s' where s': "deliver_signal alloc sg info t s1 = Some (r, s')" "sig_invg G s'" "wakeable (sg_k s')" "sframe s1 s'"
        "\<And>u. u \<noteq> t \<Longrightarrow> sg_pending s' u = sg_pending s1 u" "(r = 0 \<and> delivered sg t s1 s') \<or> (r = - EAGAIN \<and> 32 \<le> sg \<and> queued_info info \<and> s' = s1)"
        by (rule deliver_spec [OF i1(1,2) i(3) sg1, of t info]) (use s1(3,4) in auto)
      have e: "send_sig_info alloc sg info t s = Some (r, s')" using ss False s'(1) by auto
      have st: "sg \<notin> stop_signals" if "sg \<in> {SIGKILL, SIGCONT}" using that by (auto simp: stop_signals_def)
      show thesis
        by (rule that [OF e s'(2,3) sframe_trans [OF fr s'(4)]])
          (use s'(5,6) i1(3) s1(3) st p1(2) in \<open>auto simp: delivered_def errno_defs SIGRTMIN_def\<close>)
    qed
  qed
qed

section \<open>The other operations keep the invariant\<close>

lemma signals_bitwise [simp]:
  "signals (v OR w) = signals v \<union> signals w" "signals (v AND NOT w) = signals v - signals w"
  by (auto simp: mem_signals bit_simps)

lemma unblockable_signals:
  "SIGKILL \<notin> signals (sigdelsetmask unblockable w)" "SIGSTOP \<notin> signals (sigdelsetmask unblockable w)"
  "SIGKILL \<notin> signals (ucast (v AND NOT unblockable))" "SIGSTOP \<notin> signals (ucast (v AND NOT unblockable))"
  by (simp_all add: mem_signals sigdelsetmask_def unblockable_def sigmask_def bit_simps)

lemma sigdelsetmask_signals: "signals (sigdelsetmask m w) \<subseteq> signals w"
  by (auto simp: sigdelsetmask_def)

lemma set_word0_signals:
  "n \<le> 32 \<Longrightarrow> n \<in> signals (set_word0 v w) \<longleftrightarrow> n \<in> signals (ucast v)"
  by (auto simp: mem_signals set_word0_def bit_simps)

lemma blocked_ok: "sig_invg G s \<Longrightarrow> SIGKILL \<notin> signals (sg_blocked s t) \<and> SIGSTOP \<notin> signals (sg_blocked s t)"
  by (simp add: sig_invg_defs task_sig_ok_def)

lemma give_set_same: "give_set to w n s = (r, s') \<Longrightarrow> same_sig s s' \<and> sframe s s'"
  by (auto simp: give_set_def Let_def same_sig_def sframe_def split: prod.splits)

lemma sigprocmask_inv:
  assumes "sig_invg G s" "sys_rt_sigprocmask how uset oset n s = (r, s')"
  shows "sig_invg G s'"
proof -
  have g: "sig_invg G u' = sig_invg G u" if "give_set to w n u = (e, u')" for u u' to w n e
    using same_sig_inv give_set_same [OF that] by blast
  have b: "sig_invg G (recalc_sigpending t (set_blocked t (sigdelsetmask unblockable w) s))"
    "sig_invg G (recalc_sigpending t (set_blocked t (sg_blocked s t OR sigdelsetmask unblockable w) s))"
    "sig_invg G (recalc_sigpending t (set_blocked t (sg_blocked s t AND NOT (sigdelsetmask unblockable w)) s))" for t w
    using blocked_ok [OF assms(1)] unblockable_signals by (auto intro!: sig_inv_blocked assms(1))
  show ?thesis using assms g b
    by (auto simp: sys_rt_sigprocmask_def Let_def split: if_splits option.splits)
qed

lemma old_sigprocmask_inv:
  assumes "sig_invg G s" "sys_sigprocmask how uset oset s = (r, s')"
  shows "sig_invg G s'"
proof -
  have g: "sig_invg G u' = sig_invg G u" if "give_set to w n u = (e, u')" for u u' to w n e
    using same_sig_inv give_set_same [OF that] by blast
  have b: "sig_invg G (recalc_sigpending t (set_blocked t (sg_blocked s t) s))"
    "sig_invg G (recalc_sigpending t (set_blocked t (sigaddsetmask (v AND NOT unblockable) (sg_blocked s t)) s))"
    "sig_invg G (recalc_sigpending t (set_blocked t (sigdelsetmask (v AND NOT unblockable) (sg_blocked s t)) s))"
    "sig_invg G (recalc_sigpending t (set_blocked t (set_word0 (v AND NOT unblockable) (sg_blocked s t)) s))" for t v
    using blocked_ok [OF assms(1), of t] unblockable_signals sigdelsetmask_signals [of "v AND NOT unblockable" "sg_blocked s t"]
    by (auto intro!: sig_inv_blocked assms(1) simp: sigaddsetmask_def set_word0_signals)
  show ?thesis using assms g b
    by (auto simp: sys_sigprocmask_def Let_def split: if_splits option.splits)
qed

lemma ssetmask_inv: "sig_invg G s \<Longrightarrow> sys_ssetmask m s = (r, s') \<Longrightarrow> sig_invg G s'"
  using unblockable_signals by (auto simp: sys_ssetmask_def siginitset_def Let_def intro!: sig_inv_blocked)

lemma force_sig_spec:
  assumes i: "sig_invg G s" "wakeable (sg_k s)" "sq_alloc_ok alloc" and sg: "1 \<le> sg" "sg \<le> 64"
  obtains r s' where "force_sig_info alloc sg info t s = Some (r, s')" "sig_invg G s'" "wakeable (sg_k s')"
proof (cases "sig (task_of s t)")
  case None
  then show thesis using that i by (simp add: force_sig_info_def)
next
  case (Some a)
  let ?s0 = "if sa_handler (sg_action s a sg) = SIG_IGN
    then s\<lparr>sg_action := (sg_action s)(a := (sg_action s a)(sg := (sg_action s a sg)\<lparr>sa_handler := SIG_DFL\<rparr>))\<rparr> else s"
  let ?s1 = "recalc_sigpending t (set_blocked t (sigdelset sg (sg_blocked ?s0 t)) ?s0)"
  have i0: "sig_invg G ?s0" "wakeable (sg_k ?s0)" using same_sig_inv [of s ?s0] i by (simp_all add: same_sig_def)
  have b: "SIGKILL \<notin> signals (sigdelset sg (sg_blocked ?s0 t))" "SIGSTOP \<notin> signals (sigdelset sg (sg_blocked ?s0 t))"
    using blocked_ok [OF i0(1), of t] signals_simps(2) [OF sg] by simp_all
  have i1: "sig_invg G ?s1" by (rule sig_inv_blocked [OF i0(1) b])
  have w1: "wakeable (sg_k ?s1)" using i0(2) by (simp add: recalc_sigpending_def set_blocked_def wakeable_upd)
  have "force_sig_info alloc sg info t s = send_sig_info alloc sg info t ?s1"
    using Some by (simp add: force_sig_info_def Let_def)
  then show thesis using that send_sig_info_spec [OF i1 w1 i(3), of sg info t] by metis
qed

lemma sigaction_inv:
  assumes i: "sig_invg G s" and a: "do_sigaction sg act s = Some (r, oact, s')"
  shows "sig_invg G s'"
proof (cases "s' = s")
  case False
  let ?c = "cur (sg_k s)"
  from False a obtain k0 v where k: "act = Some k0" "sig (tsk (sg_k s)) = Some v" "1 \<le> sg" "sg \<le> 64" "sg \<noteq> SIGKILL" "sg \<noteq> SIGSTOP"
    by (cases act; cases "sig (tsk (sg_k s))") (auto simp: do_sigaction_def Let_def split: if_splits)
  let ?k = "k0\<lparr>sa_mask := sigdelsetmask unblockable (sa_mask k0)\<rparr>"
  let ?s = "s\<lparr>sg_action := (sg_action s)(v := (sg_action s v)(sg := ?k))\<rparr>"
  have is': "sig_invg G ?s" using same_sig_inv [of s ?s] i by (simp add: same_sig_def)
  obtain n u where u: "rm_sig_from_queue sg ?c ?s = Some (n, u)" "sig_invg G u" by (rule rm_sig_inv [OF is' k(3,4)])
  have "s' = ?s \<or> s' = u \<or> s' = recalc_sigpending ?c u"
    using a k u(1) by (auto simp: do_sigaction_def Let_def simp del: fun_upd_apply split: if_splits)
  then show ?thesis using is' u(2) sig_inv_recalc by auto
qed (use i in simp)

text \<open>Taking a signal out of the queue of a task and recomputing its flag.\<close>

lemma collect_inv:
  assumes i: "sig_invg G s" and m: "sg \<in> pending_of s t"
  obtains i' q where "collect_signal sg info (queue_of t s) = Some (1, i', q)" "sig_invg G (recalc_sigpending t (set_queue t q s))"
proof -
  let ?p = "sg_pending s t"
  obtain Q where Q: "queues_ok s Q" using i by (auto simp: sig_invg_defs)
  then have q: "sigq (?p, sg_heap s) (Q t)" "nr_ok (sg_heap s)" by (auto simp: queues_ok_def queue_of_def)
  have mem: "sigismember (sp_signal ?p) sg" "1 \<le> sg" "sg \<le> 64" using m by (auto simp: signals_def)
  obtain p' h' i' qs' where c: "collect_signal sg info (?p, sg_heap s) = Some (1, i', p', h')" "sigq (p', h') qs'" "nr_ok h'"
    "set qs' \<subseteq> set (Q t)" "same_out (set (Q t)) (sg_heap s) h'" "signals (sp_signal p') \<subseteq> pending_of s t"
    using collect_signal_fewer [OF q mem] by metis
  have "queues_ok (set_queue t (p', h') s) (Q(t := qs'))" by (rule queues_ok_set [OF Q c(2,3,5,4)]) auto
  then have "sig_invg G (set_queue t (p', h') s)" by (rule sig_inv_fewer [OF i]) (use c(6) in simp)
  then show thesis using that [of i' "(p', h')"] c(1) sig_inv_recalc by (simp add: queue_of_def)
qed

text \<open>
  A notifier is a function of a driver: it does not touch the signals, the notifiers or which task runs, and leaves the
  runqueue in order.
\<close>
definition notify_ok :: "notify \<Rightarrow> bool" where
  "notify_ok notify \<longleftrightarrow> (\<forall>f d s. let s' = snd (notify f d s) in same_sig s s' \<and> sg_notifier s' = sg_notifier s \<and>
     cur (sg_k s') = cur (sg_k s) \<and> (wakeable (sg_k s) \<longrightarrow> wakeable (sg_k s')))"

lemma sig_invg_clear:
  assumes "sig_invg G s" "t \<in> G"
  shows "sig_invg G (on_k (upd_task t (\<lambda>p. p\<lparr>sigpending := 0\<rparr>)) s)"
proof -
  have "seen G (on_k (upd_task t (\<lambda>p. p\<lparr>sigpending := 0\<rparr>)) s) = seen G s" using assms(2) by (auto simp: seen_def)
  then show ?thesis using assms(1) by (simp add: sig_invg_def queues_ok_def)
qed

lemma dequeue_inv:
  assumes i: "sig_invg G s" "wakeable (sg_k s)" and ok: "notify_ok notify"
    and G: "sg_notifier s (cur (sg_k s)) \<noteq> None \<Longrightarrow> cur (sg_k s) \<in> G"
  obtains r info' s' where "dequeue_signal notify msk info s = Some (r, info', s')" "sig_invg G s'" "wakeable (sg_k s')"
    "sg_notifier s' = sg_notifier s"
proof -
  let ?c = "cur (sg_k s)"
  let ?sg = "next_signal (sp_signal (sg_pending s ?c)) msk"
  define called where "called = (case sg_notifier s ?c of
      Some f \<Rightarrow> if sigismember (sg_notifier_mask s ?c) ?sg then
         (case notify f (sg_notifier_data s ?c) s of (r, s) \<Rightarrow> (r = 0, s)) else (False, s)
    | None \<Rightarrow> (False, s))"
  obtain kept s1 where k: "called = (kept, s1)" by fastforce
  have same: "same_sig s s1" "sg_notifier s1 = sg_notifier s" "cur (sg_k s1) = ?c" "wakeable (sg_k s1)" "kept \<Longrightarrow> ?c \<in> G"
    using k ok [unfolded notify_ok_def Let_def, rule_format, of s] i(2) G
    by (auto simp: called_def same_sig_def split: option.splits if_splits prod.splits) (metis snd_conv)+
  have i1: "sig_invg G s1" using same_sig_inv [OF same(1)] i(1) by simp
  show thesis
  proof (cases "?sg = 0")
    case True
    then show thesis using that [of 0 info "recalc_sigpending ?c s"] sig_inv_recalc [OF i(1)] i(2)
      by (simp add: dequeue_signal_def wakeable_upd recalc_sigpending_def)
  next
    case sg: False
    show thesis
    proof (cases kept)
      case True
      let ?s = "on_k (upd_task ?c (\<lambda>p. p\<lparr>sigpending := 0\<rparr>)) s1"
      have "dequeue_signal notify msk info s = Some (0, info, ?s)"
        using sg k True by (simp add: dequeue_signal_def called_def Let_def)
      then show thesis using that sig_invg_clear [OF i1 same(5)] True same(2,4) by (simp add: wakeable_upd)
    next
      case False
      have m: "?sg \<in> pending_of s1 ?c" using next_signal_in sg same(1) by (auto simp: same_sig_def)
      obtain i' q where c: "collect_signal ?sg info (queue_of ?c s1) = Some (1, i', q)"
        "sig_invg G (recalc_sigpending ?c (set_queue ?c q s1))" by (rule collect_inv [OF i1 m])
      let ?s = "recalc_sigpending ?c (set_queue ?c q s1)"
      have "dequeue_signal notify msk info s = Some (?sg, i', ?s)"
        using sg k False c(1) by (simp add: dequeue_signal_def called_def Let_def)
      then show thesis using that c(2) same(2,4) by (simp add: wakeable_upd recalc_sigpending_def set_queue_def)
    qed
  qed
qed

lemma flush_inv:
  assumes i: "sig_invg G s"
  obtains s' where "flush_signals t s = Some s'" "sig_invg G s'" "pending_of s' t = {}"
proof -
  obtain Q where Q: "queues_ok s Q" using i by (auto simp: sig_invg_defs)
  then have q: "sigq (sg_pending s t, sg_heap s) (Q t)" "nr_ok (sg_heap s)" by (auto simp: queues_ok_def queue_of_def)
  obtain p' h' where f: "flush_sigqueue (sg_pending s t, sg_heap s) = Some (p', h')" "sigq (p', h') []" "sp_signal p' = 0" "nr_ok h'"
    "same_out (set (Q t)) (sg_heap s) h'" by (rule flush_sigqueue_spec [OF q])
  let ?s = "on_k (upd_task t (\<lambda>p. p\<lparr>sigpending := 0\<rparr>)) s"
  have "queues_ok ?s Q" using Q by (simp add: queues_ok_def)
  from queues_ok_set [OF this, of p' h' "[]" "set (Q t)" t] f
  have qs: "queues_ok (set_queue t (p', h') ?s) (Q(t := []))" by simp
  moreover have "task_sig_ok (sg_blocked s u) (pending_of (set_queue t (p', h') ?s) u) (seen G ?s u)" for u
  proof (cases "u = t")
    case True
    then show ?thesis using i f(3) by (auto simp: sig_invg_def task_sig_ok_def)
  next
    case False
    then have "seen G ?s u = seen G s u" by (simp add: seen_def)
    with False show ?thesis using i by (simp add: sig_invg_def)
  qed
  moreover have "seen G (set_queue t (p', h') ?s) = seen G ?s" by (simp add: seen_def fun_eq_iff)
  ultimately have "sig_invg G (set_queue t (p', h') ?s)" by (auto simp: sig_invg_def)
  moreover have "flush_signals t s = Some (set_queue t (p', h') ?s)" using f(1) by (simp add: flush_signals_def queue_of_def)
  ultimately show thesis using that f(3) by simp
qed

section \<open>Runs\<close>

text \<open>The invariant together with what the scheduler needs.\<close>
definition sinvg :: "task set \<Rightarrow> sigst \<Rightarrow> bool" where
  "sinvg G s \<longleftrightarrow> sig_invg G s \<and> wakeable (sg_k s)"

abbreviation sinv :: "sigst \<Rightarrow> bool" where
  "sinv \<equiv> sinvg {}"

lemma wakeable_recalc: "wakeable (sg_k s) \<Longrightarrow> wakeable (sg_k (recalc_sigpending t s))"
  by (simp add: recalc_sigpending_def wakeable_upd)

lemma wakeable_mem: "wakeable (k\<lparr>mem := m\<rparr>) = wakeable k"
  by (simp add: wakeable_def)

lemma give_set_wakeable: "give_set to w n s = (r, s') \<Longrightarrow> wakeable (sg_k s') = wakeable (sg_k s)"
  by (auto simp: give_set_def Let_def wakeable_mem split: prod.splits)

lemma set_blocked_k [simp]: "sg_k (set_blocked t b s) = sg_k s"
  by (simp add: set_blocked_def)

lemmas mask_defs = sys_rt_sigprocmask_def sys_sigprocmask_def sys_ssetmask_def Let_def

lemma mask_calls_sinv:
  "sinvg G s \<Longrightarrow> sys_rt_sigprocmask how uset oset n s = (r, s') \<Longrightarrow> sinvg G s'"
  "sinvg G s \<Longrightarrow> sys_sigprocmask how uset oset s = (r, s') \<Longrightarrow> sinvg G s'"
  "sinvg G s \<Longrightarrow> sys_ssetmask m s = (v, s') \<Longrightarrow> sinvg G s'"
proof -
  have w: "wakeable (sg_k (recalc_sigpending t (set_blocked t b s)))" if "wakeable (sg_k s)" for t b
    using that by (simp add: wakeable_recalc)
  show "sinvg G s \<Longrightarrow> sys_rt_sigprocmask how uset oset n s = (r, s') \<Longrightarrow> sinvg G s'"
    using w sigprocmask_inv [of G s how uset oset n r s'] give_set_wakeable
    by (auto simp: sinvg_def mask_defs split: if_splits option.splits)
  show "sinvg G s \<Longrightarrow> sys_sigprocmask how uset oset s = (r, s') \<Longrightarrow> sinvg G s'"
    using w old_sigprocmask_inv [of G s how uset oset r s'] give_set_wakeable
    by (auto simp: sinvg_def mask_defs split: if_splits option.splits)
  show "sinvg G s \<Longrightarrow> sys_ssetmask m s = (v, s') \<Longrightarrow> sinvg G s'"
    using w ssetmask_inv [of G s m v s'] by (auto simp: sinvg_def mask_defs)
qed

lemma rm_sig_k: "rm_sig_from_queue sg t s = Some (r, s') \<Longrightarrow> sg_k s' = sg_k s"
  by (auto simp: rm_sig_from_queue_def)

lemma sigaction_sinv: "sinvg G s \<Longrightarrow> do_sigaction sg act s = Some (r, oact, s') \<Longrightarrow> sinvg G s'"
proof -
  assume s: "sinvg G s" and a: "do_sigaction sg act s = Some (r, oact, s')"
  have "sg_k s' = sg_k s \<or> (\<exists>u. sg_k u = sg_k s \<and> s' = recalc_sigpending (cur (sg_k s)) u)"
    using a by (cases act; cases "sig (tsk (sg_k s))")
      (auto simp: do_sigaction_def Let_def dest!: rm_sig_k simp del: fun_upd_apply split: if_splits)
  then have "wakeable (sg_k s')" using s wakeable_recalc by (auto simp: sinvg_def)
  then show "sinvg G s'" using s sigaction_inv [OF _ a] by (simp add: sinvg_def)
qed

lemma dequeue_sinv:
  assumes "sinvg G s" "notify_ok notify" "sg_notifier s (cur (sg_k s)) \<noteq> None \<Longrightarrow> cur (sg_k s) \<in> G"
    "dequeue_signal notify msk info s = Some (r, i, s')"
  shows "sinvg G s'" "sg_notifier s' = sg_notifier s"
proof -
  have i: "sig_invg G s" "wakeable (sg_k s)" using assms(1) by (auto simp: sinvg_def)
  show "sinvg G s'" "sg_notifier s' = sg_notifier s"
    using dequeue_inv [OF i assms(2,3), of msk info] assms(4) by (auto simp: sinvg_def)
qed

lemma flush_sinv: "sinvg G s \<Longrightarrow> flush_signals t s = Some s' \<Longrightarrow> sinvg G s'"
proof -
  assume s: "sinvg G s" and f: "flush_signals t s = Some s'"
  have "sig_invg G s'" using flush_inv [of G s t] s f by (auto simp: sinvg_def)
  moreover have "sg_k s' = upd_task t (\<lambda>p. p\<lparr>sigpending := 0\<rparr>) (sg_k s)" using f by (auto simp: flush_signals_def)
  ultimately show "sinvg G s'" using s by (simp add: sinvg_def wakeable_upd)
qed

text \<open>A process that exits gives up its handlers and then flushes its signals.\<close>

lemma exit_sighand_sinv: "sinvg G s \<Longrightarrow> exit_sighand t s = Some s' \<Longrightarrow> sinvg G s'"
proof -
  assume s: "sinvg G s" and e: "exit_sighand t s = Some s'"
  obtain u where u: "same_sig s u" "wakeable (sg_k u)" "flush_signals t u = Some s'"
  proof (cases "sig (task_of s t)")
    case None
    then show thesis using that [of s] s e by (simp add: exit_sighand_def flush_signals_def same_sig_def sinvg_def)
  next
    case (Some a)
    let ?u = "on_k (upd_task t (\<lambda>p. p\<lparr>sig := None\<rparr>)) s"
    let ?v = "?u\<lparr>sg_count := (sg_count ?u)(a := sg_count ?u a - 1)\<rparr>"
    let ?w = "if sg_count ?v a = 0 then ?v\<lparr>sg_freed := (sg_freed ?v)(a := True)\<rparr> else ?v"
    have "flush_signals t ?w = Some s'" using e Some by (simp add: exit_sighand_def flush_signals_def Let_def)
    moreover have "same_sig s ?w" by (simp add: same_sig_def)
    moreover have "wakeable (sg_k ?w)" using s by (simp add: sinvg_def wakeable_upd)
    ultimately show thesis using that by blast
  qed
  then show "sinvg G s'" using s same_sig_inv [OF u(1)] flush_sinv [of G u t s'] by (simp add: sinvg_def)
qed

text \<open>Sending to one task, and to several.\<close>

lemma send_sinv:
  assumes "sinvg G s" "sq_alloc_ok alloc" "send_sig_info alloc sg info t s = Some (r, s')"
  shows "sinvg G s'"
proof -
  have i: "sig_invg G s" "wakeable (sg_k s)" using assms(1) by (auto simp: sinvg_def)
  obtain r1 s1 where "send_sig_info alloc sg info t s = Some (r1, s1)" "sig_invg G s1" "wakeable (sg_k s1)"
    by (rule send_sig_info_spec [OF i assms(2), of sg info t])
  then show ?thesis using assms(3) by (simp add: sinvg_def)
qed

lemma force_sinv:
  assumes "sinvg G s" "sq_alloc_ok alloc" "1 \<le> sg" "sg \<le> 64" "force_sig_info alloc sg info t s = Some (r, s')"
  shows "sinvg G s'"
proof -
  have i: "sig_invg G s" "wakeable (sg_k s)" using assms(1) by (auto simp: sinvg_def)
  obtain r1 s1 where "force_sig_info alloc sg info t s = Some (r1, s1)" "sig_invg G s1" "wakeable (sg_k s1)"
    by (rule force_sig_spec [OF i assms(2-4), of info t])
  then show ?thesis using assms(5) by (simp add: sinvg_def)
qed

lemma kill_loop_sinv:
  "sinvg G s \<Longrightarrow> sq_alloc_ok alloc \<Longrightarrow> kill_loop alloc sg info chosen ps e s = Some (r, s') \<Longrightarrow> sinvg G s'"
  by (induction ps arbitrary: e s) (auto split: if_splits dest: send_sinv)

lemma kill_all_loop_sinv:
  "sinvg G s \<Longrightarrow> sq_alloc_ok alloc \<Longrightarrow> kill_all_loop alloc sg info ps n e s = Some (c, r, s') \<Longrightarrow> sinvg G s'"
  by (induction ps arbitrary: n e s) (auto split: if_splits dest: send_sinv)

lemma sys_kill_sinv:
  "sinvg G s \<Longrightarrow> sq_alloc_ok alloc \<Longrightarrow> sys_kill alloc stk n sg s = Some (r, s') \<Longrightarrow> sinvg G s'"
  by (auto simp: sys_kill_def kill_something_info_def kill_pg_info_def kill_proc_info_def split: if_splits option.splits
      dest: kill_loop_sinv kill_all_loop_sinv send_sinv)

lemma sys_tkill_sinv:
  "sinvg G s \<Longrightarrow> sq_alloc_ok alloc \<Longrightarrow> sys_tkill alloc stk n sg s = Some (r, s') \<Longrightarrow> sinvg G s'"
  by (auto simp: sys_tkill_def split: if_splits option.splits dest: send_sinv)

text \<open>Only \<open>block_all_signals\<close> and \<open>unblock_all_signals\<close> change the notifiers.\<close>

lemma on_k_notifier [simp]:
  "sg_notifier (set_queue t q s) = sg_notifier s" "sg_notifier (set_blocked t b s) = sg_notifier s"
  "sg_notifier (recalc_sigpending t s) = sg_notifier s"
  by (simp_all add: set_queue_def set_blocked_def recalc_sigpending_def)

lemma wake_notifier: "wake_task t s = Some s' \<Longrightarrow> sg_notifier s' = sg_notifier s"
  by (auto simp: wake_task_def)

lemma rm_notifier: "rm_sig_from_queue sg t s = Some (r, s') \<Longrightarrow> sg_notifier s' = sg_notifier s"
  by (auto simp: rm_sig_from_queue_def)

lemma give_notifier: "give_set to w n s = (r, s') \<Longrightarrow> sg_notifier s' = sg_notifier s"
  by (auto simp: give_set_def Let_def split: prod.splits)

lemma send_notifier: "send_sig_info alloc sg info t s = Some (r, s') \<Longrightarrow> sg_notifier s' = sg_notifier s"
proof -
  have b: "sg_notifier u' = sg_notifier u" if "bad_signal sg info t u = (x, u')" for x u u'
    using that by (auto simp: bad_signal_def Let_def split: if_splits prod.splits)
  have h: "sg_notifier u' = sg_notifier u" if "handle_stop_signal sg t u = Some u'" for u u'
    using that by (auto simp: handle_stop_signal_def dest!: wake_notifier rm_notifier split: if_splits)
  have d: "sg_notifier u' = sg_notifier u" if "deliver_signal alloc sg info t u = Some (x, u')" for x u u'
    using that by (auto simp: deliver_signal_def signal_wake_up_def Let_def dest!: wake_notifier split: if_splits prod.splits)
  assume "send_sig_info alloc sg info t s = Some (r, s')"
  then show ?thesis by (auto simp: send_sig_info_def split: if_splits prod.splits dest!: b h d)
qed

lemma force_notifier: "force_sig_info alloc sg info t s = Some (r, s') \<Longrightarrow> sg_notifier s' = sg_notifier s"
  by (auto simp: force_sig_info_def Let_def split: option.splits if_splits dest!: send_notifier)

lemma loop_notifier:
  "kill_loop alloc sg info chosen ps e s = Some (r, s') \<Longrightarrow> sg_notifier s' = sg_notifier s"
  "kill_all_loop alloc sg info ps n e s = Some (c, r, s') \<Longrightarrow> sg_notifier s' = sg_notifier s"
proof -
  show "kill_loop alloc sg info chosen ps e s = Some (r, s') \<Longrightarrow> sg_notifier s' = sg_notifier s"
    by (induction ps arbitrary: e s) (auto split: if_splits dest: send_notifier)
  show "kill_all_loop alloc sg info ps n e s = Some (c, r, s') \<Longrightarrow> sg_notifier s' = sg_notifier s"
    by (induction ps arbitrary: n e s) (auto split: if_splits dest: send_notifier)
qed

lemma kill_notifier:
  "sys_kill alloc stk n sg s = Some (r, s') \<Longrightarrow> sg_notifier s' = sg_notifier s"
  "sys_tkill alloc stk n sg s = Some (r, s') \<Longrightarrow> sg_notifier s' = sg_notifier s"
proof -
  show "sys_kill alloc stk n sg s = Some (r, s') \<Longrightarrow> sg_notifier s' = sg_notifier s"
    by (auto simp: sys_kill_def kill_something_info_def kill_pg_info_def kill_proc_info_def split: if_splits option.splits
      dest!: loop_notifier send_notifier)
  show "sys_tkill alloc stk n sg s = Some (r, s') \<Longrightarrow> sg_notifier s' = sg_notifier s"
    by (auto simp: sys_tkill_def split: if_splits option.splits dest: send_notifier)
qed

lemma mask_notifier:
  "sys_rt_sigprocmask how uset oset n s = (r, s') \<Longrightarrow> sg_notifier s' = sg_notifier s"
  "sys_sigprocmask how uset oset s = (r, s') \<Longrightarrow> sg_notifier s' = sg_notifier s"
  "sys_ssetmask m s = (v, s') \<Longrightarrow> sg_notifier s' = sg_notifier s"
  by (auto simp: mask_defs dest!: give_notifier split: if_splits option.splits)

lemma action_notifier:
  assumes "do_sigaction sg act s = Some (r, oact, s')"
  shows "sg_notifier s' = sg_notifier s"
  using assms by (cases act; cases "sig (tsk (sg_k s))")
    (auto simp: do_sigaction_def Let_def dest!: rm_notifier simp del: fun_upd_apply split: if_splits)

lemma flush_notifier:
  "flush_signals t s = Some s' \<Longrightarrow> sg_notifier s' = sg_notifier s"
  "exit_sighand t s = Some s' \<Longrightarrow> sg_notifier s' = sg_notifier s"
  by (auto simp: flush_signals_def exit_sighand_def Let_def split: option.splits)

text \<open>The tasks with a notifier, and the invariant of the runs.\<close>

definition notified :: "sigst \<Rightarrow> task set" where
  "notified s = {t. sg_notifier s t \<noteq> None}"

definition ninv :: "sigst \<Rightarrow> bool" where
  "ninv s \<longleftrightarrow> sinvg (notified s) s"

lemma sig_invg_mono:
  assumes "sig_invg G s" "G \<subseteq> G'" shows "sig_invg G' s"
proof -
  have "seen G' s t \<noteq> 0" if "seen G s t \<noteq> 0" for t using that assms(2) by (auto simp: seen_def split: if_splits)
  then show ?thesis using assms(1) unfolding sig_invg_def task_sig_ok_def by blast
qed

lemma ninv_keep: "ninv s \<Longrightarrow> (\<And>G. sinvg G s \<Longrightarrow> sinvg G s') \<Longrightarrow> sg_notifier s' = sg_notifier s \<Longrightarrow> ninv s'"
  by (simp add: ninv_def notified_def)

lemma block_ninv: "ninv s \<Longrightarrow> ninv (block_all_signals (Some f) priv msk s)"
proof -
  let ?s = "block_all_signals (Some f) priv msk s"
  assume n: "ninv s"
  have "same_sig s ?s" "sg_k ?s = sg_k s" by (simp_all add: block_all_signals_def same_sig_def Let_def)
  moreover have "notified s \<subseteq> notified ?s" by (auto simp: notified_def block_all_signals_def Let_def)
  ultimately show ?thesis using n sig_invg_mono same_sig_inv by (auto simp: ninv_def sinvg_def)
qed

lemma unblock_ninv: "ninv s \<Longrightarrow> ninv (unblock_all_signals s)"
proof -
  let ?c = "cur (sg_k s)"
  let ?u = "s\<lparr>sg_notifier := (sg_notifier s)(?c := None), sg_notifier_data := (sg_notifier_data s)(?c := None)\<rparr>"
  assume n: "ninv s"
  have i: "sig_invg (notified s) s" "wakeable (sg_k s)" using n by (auto simp: ninv_def sinvg_def)
  have e: "unblock_all_signals s = recalc_sigpending ?c ?u" by (simp add: unblock_all_signals_def Let_def)
  have g: "notified (unblock_all_signals s) = notified s - {?c}" by (auto simp: e notified_def)
  have "sig_invg (notified s) ?u" using same_sig_inv [of s ?u] i(1) by (simp add: same_sig_def)
  then have "sig_invg (notified s - {?c}) (recalc_sigpending ?c ?u)"
    by (auto simp: sig_invg_def task_sig_ok_def seen_def queues_ok_def queue_of_def has_pending_spec)
  moreover have "wakeable (sg_k (recalc_sigpending ?c ?u))" by (rule wakeable_recalc) (use i(2) in simp)
  ultimately show ?thesis using g e by (simp add: ninv_def sinvg_def)
qed

text \<open>One operation of a process or of the kernel; \<open>other\<close> is code that does not touch the signals.\<close>

inductive sigstep :: "sq_alloc \<Rightarrow> notify \<Rightarrow> sigst \<Rightarrow> sigst \<Rightarrow> bool" for alloc :: sq_alloc and notify :: notify where
  send: "send_sig_info alloc sg info t s = Some (r, s') \<Longrightarrow> sigstep alloc notify s s'"
| force: "1 \<le> sg \<Longrightarrow> sg \<le> 64 \<Longrightarrow> force_sig_info alloc sg info t s = Some (r, s') \<Longrightarrow> sigstep alloc notify s s'"
| kill: "sys_kill alloc stk n sg s = Some (r, s') \<Longrightarrow> sigstep alloc notify s s'"
| tkill: "sys_tkill alloc stk n sg s = Some (r, s') \<Longrightarrow> sigstep alloc notify s s'"
| rt_sigprocmask: "sys_rt_sigprocmask how uset oset n s = (r, s') \<Longrightarrow> sigstep alloc notify s s'"
| sigprocmask: "sys_sigprocmask how uset oset s = (r, s') \<Longrightarrow> sigstep alloc notify s s'"
| ssetmask: "sys_ssetmask m s = (v, s') \<Longrightarrow> sigstep alloc notify s s'"
| sigaction: "do_sigaction sg act s = Some (r, oact, s') \<Longrightarrow> sigstep alloc notify s s'"
| dequeue: "dequeue_signal notify msk info s = Some (r, i, s') \<Longrightarrow> sigstep alloc notify s s'"
| block_all: "sigstep alloc notify s (block_all_signals (Some f) priv msk s)"
| unblock_all: "sigstep alloc notify s (unblock_all_signals s)"
| flush: "flush_signals t s = Some s' \<Longrightarrow> sigstep alloc notify s s'"
| exit: "exit_sighand t s = Some s' \<Longrightarrow> sigstep alloc notify s s'"
| other: "same_sig s s' \<Longrightarrow> sg_notifier s' = sg_notifier s \<Longrightarrow> wakeable (sg_k s') \<Longrightarrow> sigstep alloc notify s s'"

lemmas sinv_intros = send_sinv force_sinv sys_kill_sinv sys_tkill_sinv mask_calls_sinv sigaction_sinv flush_sinv
  exit_sighand_sinv

lemmas notifier_intros = send_notifier force_notifier kill_notifier mask_notifier action_notifier flush_notifier

lemma sigstep_ninv: "sigstep alloc notify s s' \<Longrightarrow> sq_alloc_ok alloc \<Longrightarrow> notify_ok notify \<Longrightarrow> ninv s \<Longrightarrow> ninv s'"
proof (induction rule: sigstep.induct)
  case (dequeue msk info s r i s')
  have G: "cur (sg_k s) \<in> notified s" if "sg_notifier s (cur (sg_k s)) \<noteq> None" using that by (simp add: notified_def)
  show ?case using dequeue_sinv [of "notified s", OF _ dequeue.prems(2) G dequeue.hyps] dequeue.prems(3)
    by (simp add: ninv_def notified_def)
next
  case (other s s')
  then show ?case using same_sig_inv [of s s'] by (simp add: ninv_def sinvg_def notified_def)
qed (blast intro: block_ninv unblock_ninv ninv_keep sinv_intros notifier_intros)+

section \<open>Properties\<close>

text \<open>
  C31. However a run interleaves sending, blocking, taking and flushing signals, installing and removing
  notifiers, changes of actions, exits and code that leaves signals alone: \<open>SIGKILL\<close> and \<open>SIGSTOP\<close> are never blocked; a task
  without a notifier that has a pending signal which is not blocked always has its flag \<open>sigpending\<close> set, so no signal is lost
  (with a notifier it may be clear: when the notifier returns 0, \<open>dequeue_signal\<close> clears it and leaves the signal pending);
  \<open>SIGCONT\<close> and a signal that stops are never pending together; and the queues stay in order, disjoint and counted. The
  notifiers are assumed to leave signals and notifiers alone.
\<close>
theorem signals_invariant:
  assumes "(sigstep alloc notify)\<^sup>*\<^sup>* s s'" "sq_alloc_ok alloc" "notify_ok notify" "ninv s"
  shows "ninv s' \<and> (\<exists>Q. queues_ok s' Q) \<and>
    SIGKILL \<notin> signals (sg_blocked s' t) \<and> SIGSTOP \<notin> signals (sg_blocked s' t) \<and>
    (sg_notifier s' t = None \<and> has_pending_signals (sp_signal (sg_pending s' t)) (sg_blocked s' t) \<longrightarrow> sigpending (task_of s' t) \<noteq> 0) \<and>
    \<not> (SIGCONT \<in> pending_of s' t \<and> pending_of s' t \<inter> stop_signals \<noteq> {})"
proof -
  have s': "ninv s'" using assms by (induction rule: rtranclp_induct) (auto intro: sigstep_ninv)
  then have i: "(\<exists>Q. queues_ok s' Q)" "task_sig_ok (sg_blocked s' t) (pending_of s' t) (seen (notified s') s' t)"
    by (auto simp: ninv_def sinvg_def sig_invg_def)
  show ?thesis using s' i by (auto simp: task_sig_ok_def has_pending_spec seen_def notified_def)
qed

text \<open>
  C32. A signal that the kernel sends to a process that does not ignore it is never lost: the call
  returns 0, even when no queue object can be had, and the signal is pending. If it is not blocked the flag
  \<open>sigpending\<close> is set, and a signal that was not pending before wakes the task up from an interruptible sleep. No other
  task gets a signal.
\<close>
theorem send_sig_delivers:
  assumes "sinv s" "sq_alloc_ok alloc" "1 \<le> sg" "sg \<le> 64" "sig (task_of s t) \<noteq> None" "\<not> ignored_signal sg t s"
  shows "\<exists>s'. send_sig alloc sg t 1 s = Some (0, s') \<and> sinv s' \<and> sg \<in> pending_of s' t \<and>
    (\<forall>u. u \<noteq> t \<longrightarrow> sg_pending s' u = sg_pending s u) \<and>
    (\<not> sigismember (sg_blocked s t) sg \<longrightarrow> sigpending (task_of s' t) \<noteq> 0 \<and>
       (sg \<notin> pending_of s t \<longrightarrow> state (task_of s' t) AND TASK_INTERRUPTIBLE = 0))"
proof -
  have i: "sig_inv s" "wakeable (sg_k s)" using assms(1) by (auto simp: sinvg_def)
  obtain r s' where r: "send_sig_info alloc sg Info1 t s = Some (r, s')" "sig_inv s'" "wakeable (sg_k s')" "sframe s s'"
    "\<And>u. u \<noteq> t \<Longrightarrow> sg_pending s' u = sg_pending s u" "r \<in> {0, - EINVAL, - EPERM, - EAGAIN}"
    "r = 0 \<Longrightarrow> 1 \<le> sg \<Longrightarrow> sig (task_of s t) \<noteq> None \<Longrightarrow> \<not> ignored_signal sg t s \<Longrightarrow> sg \<in> pending_of s' t"
    "r = - EAGAIN \<Longrightarrow> SIGRTMIN \<le> sg \<and> queued_info Info1" "r = - EPERM \<Longrightarrow> Info1 \<noteq> Info1" "r = - EINVAL \<Longrightarrow> sg < 0 \<or> 64 < sg"
    "r = 0 \<Longrightarrow> 1 \<le> sg \<Longrightarrow> sig (task_of s t) \<noteq> None \<Longrightarrow> \<not> ignored_signal sg t s \<Longrightarrow> sg \<notin> signals (sg_blocked s t) \<Longrightarrow>
       SIGRTMIN \<le> sg \<or> sg \<notin> pending_of s t \<Longrightarrow> state (task_of s' t) AND TASK_INTERRUPTIBLE = 0"
    by (rule send_sig_info_spec [OF i assms(2), of sg Info1 t]) blast
  have z: "r = 0" using r(6,8,9,10) assms(3,4) by (auto simp: queued_info_def)
  have p: "sg \<in> pending_of s' t" using r(7) z assms by blast
  have b: "sg \<notin> signals (sg_blocked s t)" if "\<not> sigismember (sg_blocked s t) sg" using that by (simp add: signals_def)
  have f: "sigpending (task_of s' t) \<noteq> 0" if "\<not> sigismember (sg_blocked s t) sg"
    using r(2,4) p b [OF that] by (auto simp: sig_invg_defs task_sig_ok_def sframe_def)
  have w: "state (task_of s' t) AND TASK_INTERRUPTIBLE = 0" if "\<not> sigismember (sg_blocked s t) sg" "sg \<notin> pending_of s t"
    using r(11) [OF z assms(3,5,6) b [OF that(1)]] that(2) by blast
  show ?thesis using r(1,2,3,5) z p f w by (auto simp: send_sig_def priv_info_def sinvg_def)
qed

text \<open>
  C40. A call of \<open>rt_sigprocmask\<close> with a \<open>how\<close> that is not one of the three known ones returns \<open>-EINVAL\<close>,
  but not without effect: it has replaced the blocked signals by the given set, as \<open>SIG_SETMASK\<close> does.
\<close>
theorem sigprocmask_bad_how:
  assumes "how \<notin> {SIG_BLOCK, SIG_UNBLOCK, SIG_SETMASK}" "uset \<noteq> 0" "copy_in_set (addr_limit (tsk (sg_k s))) uset (mem (sg_k s)) = Some w"
  shows "sys_rt_sigprocmask how uset oset 8 s = (- EINVAL, snd (sys_rt_sigprocmask SIG_SETMASK uset 0 8 s)) \<and>
    sg_blocked (snd (sys_rt_sigprocmask how uset oset 8 s)) (cur (sg_k s)) = sigdelsetmask unblockable w"
  using assms by (simp add: sys_rt_sigprocmask_def errno_defs set_blocked_def Let_def)

text \<open>
  \<open>sys_signal\<close> sets the handler and the flags of the new action and nothing else: the signals that the
  handler will block are whatever the kernel stack held, so any set of signals but \<open>SIGKILL\<close> and \<open>SIGSTOP\<close> can come out.
\<close>
theorem signal_mask_garbage:
  assumes "1 \<le> sg" "sg \<le> 64" "sg \<noteq> SIGKILL" "sg \<noteq> SIGSTOP" "sig (tsk (sg_k s)) = Some a" "sig_inv s"
  shows "\<exists>s'. sys_signal stk sg handler s = Some (sa_handler (sg_action s a sg), s') \<and>
    sa_handler (sg_action s' a sg) = handler \<and> sa_mask (sg_action s' a sg) = sigdelsetmask unblockable (sa_mask stk)"
proof -
  let ?k = "stk\<lparr>sa_handler := handler, sa_flags := SA_ONESHOT OR SA_NOMASK, sa_mask := sigdelsetmask unblockable (sa_mask stk)\<rparr>"
  let ?s = "s\<lparr>sg_action := (sg_action s)(a := (sg_action s a)(sg := ?k))\<rparr>"
  have "sig_inv ?s" using same_sig_inv [of s ?s] assms(6) by (simp add: same_sig_def)
  then obtain r u where u: "rm_sig_from_queue sg (cur (sg_k s)) ?s = Some (r, u)" "sg_action u = sg_action ?s"
    using rm_sig_inv [of "{}" ?s sg "cur (sg_k s)"] assms(1,2) by metis
  show ?thesis using assms u by (auto simp: sys_signal_def do_sigaction_def Let_def recalc_sigpending_def)
qed

section \<open>Witnesses\<close>

text \<open>The booted machine: task 2 sleeps, no signal is pending or blocked; the bytes at \<open>0x1000\<close> are the set of \<open>SIGHUP\<close>.\<close>
definition quiet_k :: kst where
  "quiet_k = (upd_task 2 (\<lambda>t. t\<lparr>state := TASK_INTERRUPTIBLE\<rparr>) booted)
     \<lparr>mem := (\<lambda>a. if 0x1000 \<le> a \<and> a < 0x1008 then Some (if a = 0x1000 then 1 else 0) else None)\<rparr>"

definition quiet :: sigst where
  "quiet = \<lparr>sg_k = quiet_k, sg_pending = \<lambda>_. \<lparr>sp_head = None, sp_tail = SHead, sp_signal = 0\<rparr>, sg_blocked = \<lambda>_. 0, sg_suid = \<lambda>_. 0,
     sg_notifier = \<lambda>_. None, sg_notifier_data = \<lambda>_. None, sg_notifier_mask = \<lambda>_. 0, sg_heap = empty_heap,
     sg_action = \<lambda>_ _. \<lparr>sa_handler = 0, sa_flags = 0, sa_restorer = 0, sa_mask = 0\<rparr>, sg_count = \<lambda>_. 1, sg_freed = \<lambda>_. False\<rparr>"

lemma quiet_sinv: "sinv quiet"
proof -
  have "rq_inv quiet_k booted_queues" using booted_facts(1) by (simp add: quiet_k_def rq_inv_upd_same)
  then have "wakeable quiet_k" using booted_sel(4) by (auto simp: wakeable_def quiet_k_def)
  moreover have "queues_ok quiet (\<lambda>_. [])"
    by (simp add: queues_ok_def queue_of_def quiet_def sigq_def ref_of_def nr_ok_def empty_heap_def)
  ultimately show ?thesis by (auto simp: sinvg_def sig_invg_defs quiet_def task_sig_ok_def)
qed

lemma quiet_task:
  "sig (task_of quiet t) = Some 0" "ptrace (task_of quiet t) = 0" "addr_limit (task_of quiet t) = 0xFFFFFFFF" "cur (sg_k quiet) = 0"
  "state (task_of quiet 2) = TASK_INTERRUPTIBLE"
  by (simp_all add: quiet_def quiet_k_def booted_facts(2)) (subst booted_facts(9), simp add: boot_kst_def INIT_TASK_def)+

lemma first_free_ok: "sq_alloc_ok first_free"
  by (auto simp: sq_alloc_ok_def first_free_def find_Some_iff)

theorem send_sig_delivers_witness:
  "\<exists>s'. send_sig first_free 1 2 1 quiet = Some (0, s') \<and> 1 \<in> pending_of s' 2 \<and> sigpending (task_of s' 2) \<noteq> 0 \<and>
     state (task_of s' 2) AND TASK_INTERRUPTIBLE = 0"
proof -
  have "\<not> ignored_signal 1 2 quiet"
    by (simp add: ignored_signal_def quiet_task signal_type_def) (simp add: quiet_def sigismember_def)
  then show ?thesis using send_sig_delivers [OF quiet_sinv first_free_ok, of 1 2] quiet_task(1)
    by (auto simp: quiet_def sigismember_def)
qed

theorem signals_invariant_witness:
  "\<exists>s'. (sigstep first_free (\<lambda>_ _ s. (0, s)))\<^sup>*\<^sup>* quiet s' \<and> ninv s' \<and> sg_blocked s' 0 = 1 \<and> sg_notifier s' 0 = Some 7"
proof -
  let ?n = "\<lambda>_ _ s. (0, s)" and ?b = "block_all_signals (Some 7) None 0xFF quiet"
  let ?m = "sys_ssetmask 0x101 ?b"
  have ok: "notify_ok ?n" by (simp add: notify_ok_def same_sig_def)
  have q: "ninv quiet" using quiet_sinv by (simp add: ninv_def notified_def quiet_def)
  have "sigstep first_free ?n quiet ?b" by (rule sigstep.block_all)
  moreover have "sigstep first_free ?n ?b (snd ?m)" by (rule sigstep.ssetmask [of "0x101"]) (simp add: prod_eq_iff)
  ultimately have r: "(sigstep first_free ?n)\<^sup>*\<^sup>* quiet (snd ?m)" by (meson converse_rtranclp_into_rtranclp r_into_rtranclp)
  have "0x101 AND NOT unblockable = 1" by (simp add: unblockable_def sigmask_def)
  then have "sg_blocked (snd ?m) 0 = 1" "sg_notifier (snd ?m) 0 = Some 7"
    by (simp_all add: sys_ssetmask_def Let_def set_blocked_def siginitset_def block_all_signals_def recalc_sigpending_def on_k_def quiet_task)
  then show ?thesis using r signals_invariant [OF r first_free_ok ok q] by blast
qed

theorem sigprocmask_bad_how_witness:
  "fst (sys_rt_sigprocmask 7 0x1000 0 8 quiet) = - EINVAL \<and> sg_blocked (snd (sys_rt_sigprocmask 7 0x1000 0 8 quiet)) 0 = 1"
proof -
  have m: "mem (sg_k quiet) = (\<lambda>a. if 0x1000 \<le> a \<and> a < 0x1008 then Some (if a = 0x1000 then 1 else 0) else None)"
    by (simp add: quiet_def quiet_k_def)
  have c: "copy_in_set (addr_limit (tsk (sg_k quiet))) 0x1000 (mem (sg_k quiet)) = Some 1"
    unfolding m quiet_task by code_simp
  have d: "sigdelsetmask unblockable 1 = 1" by code_simp
  have h: "(7 :: int) \<notin> {SIG_BLOCK, SIG_UNBLOCK, SIG_SETMASK}" "(0x1000 :: addr) \<noteq> 0" by simp_all
  note bh = sigprocmask_bad_how [OF h c, of 0]
  have "fst (sys_rt_sigprocmask 7 0x1000 0 8 quiet) = - EINVAL" by (subst conjunct1 [OF bh]) simp
  then show ?thesis using conjunct2 [OF bh] unfolding quiet_task(4) d by blast
qed

theorem signal_mask_garbage_witness:
  "\<exists>s'. sys_signal \<lparr>sa_handler = 0, sa_flags = 0, sa_restorer = 0, sa_mask = 0xFF\<rparr> 1 0x8048000 quiet = Some (0, s') \<and>
     sa_mask (sg_action s' 0 1) = 0xFF"
proof -
  have "sigdelsetmask unblockable 0xFF = 0xFF" by code_simp
  moreover have "sig_inv quiet" using quiet_sinv by (simp add: sinvg_def)
  ultimately show ?thesis
    using signal_mask_garbage [of 1 quiet 0 "\<lparr>sa_handler = 0, sa_flags = 0, sa_restorer = 0, sa_mask = 0xFF\<rparr>" "0x8048000"] quiet_task(1)
    by (auto simp: quiet_def)
qed

end
