(* ===== verification/Timer.thy ===== *)
theory Timer
  imports Klist
begin

text \<open>
  The kernel timers, \<open>kernel/timer.c\<close>: the timer wheel of five vectors of lists, adding, changing and
  deleting a timer, and \<open>run_timer_list\<close>, which the timer interrupt's bottom half calls. A timer is a
  number; its list node is \<open>Tm t\<close>, the heads of the vectors are \<open>Vec n i\<close> (\<open>tvn.vec + i\<close>), \<open>NullT\<close> is
  the \<open>NULL\<close> that marks a timer as not pending, and \<open>QueuedT\<close> is the local list \<open>queued\<close>.

  The functions a timer calls are a parameter; a run gives the timers in the order of these calls. The
  invariant \<open>wheel\<close> says in which slot a timer waits; \<open>Timer_Run\<close> derives from it that a timer is run in the
  iteration for its time, neither before nor later, and that the run ends.
\<close>

section \<open>The wheel\<close>

datatype tnode = NullT | Vec nat nat | Tm nat | QueuedT

record timers =
  tlists :: "tnode lheap"
  expires :: "nat \<Rightarrow> u32"
  tv_index :: "nat \<Rightarrow> nat"
  timer_jiffies :: u32
  run_timer_list_running :: "tnode option"
  now :: u32

abbreviation (input) TVN_SIZE :: nat where "TVN_SIZE \<equiv> 64"
abbreviation (input) TVR_SIZE :: nat where "TVR_SIZE \<equiv> 256"
abbreviation (input) TVN_MASK :: u32 where "TVN_MASK \<equiv> 63"
abbreviation (input) TVR_MASK :: u32 where "TVR_MASK \<equiv> 255"

definition upd_tl :: "(tnode lheap \<Rightarrow> tnode lheap) \<Rightarrow> timers \<Rightarrow> timers" where
  "upd_tl f w = w\<lparr>tlists := f (tlists w)\<rparr>"

definition vec_size :: "nat \<Rightarrow> nat" where
  "vec_size n = (if n = 1 then TVR_SIZE else TVN_SIZE)"

text \<open>\<open>INIT_LIST_HEAD\<close> of the first \<open>k\<close> heads of a vector.\<close>
primrec init_vec :: "nat \<Rightarrow> nat \<Rightarrow> timers \<Rightarrow> timers" where
  "init_vec n 0 w = w"
| "init_vec n (Suc k) w = upd_tl (INIT_LIST_HEAD (Vec n k)) (init_vec n k w)"

definition init_timervecs :: "timers \<Rightarrow> timers" where
  "init_timervecs w =
     init_vec 1 TVR_SIZE (init_vec 2 TVN_SIZE (init_vec 3 TVN_SIZE (init_vec 4 TVN_SIZE (init_vec 5 TVN_SIZE w))))"

definition clear_links :: "nat \<Rightarrow> timers \<Rightarrow> timers" where
  "clear_links t = upd_tl (\<lambda>h. h\<lparr>nxt := (nxt h)(Tm t := NullT), prv := (prv h)(Tm t := NullT)\<rparr>)"

definition init_timer :: "nat \<Rightarrow> timers \<Rightarrow> timers" where
  "init_timer t w = clear_links t w"

definition timer_pending :: "nat \<Rightarrow> timers \<Rightarrow> bool" where
  "timer_pending t w = (nxt (tlists w) (Tm t) \<noteq> NullT)"

text \<open>The list a timer goes to; none beyond 32 bits, which does not occur on this machine.\<close>
definition timer_vec :: "nat \<Rightarrow> timers \<Rightarrow> tnode option" where
  "timer_vec t w =
     (let e = expires w t; idx = e - timer_jiffies w in
      if run_timer_list_running w \<noteq> None then run_timer_list_running w
      else if idx < 256 then Some (Vec 1 (unat (e AND TVR_MASK)))
      else if idx < push_bit 14 1 then Some (Vec 2 (unat (drop_bit 8 e AND TVN_MASK)))
      else if idx < push_bit 20 1 then Some (Vec 3 (unat (drop_bit 14 e AND TVN_MASK)))
      else if idx < push_bit 26 1 then Some (Vec 4 (unat (drop_bit 20 e AND TVN_MASK)))
      else if sint idx < 0 then Some (Vec 1 (tv_index w 1))
      else if idx \<le> 0xffffffff then Some (Vec 5 (unat (drop_bit 26 e AND TVN_MASK)))
      else None)"

definition internal_add_timer :: "nat \<Rightarrow> timers \<Rightarrow> timers" where
  "internal_add_timer t w =
     (case timer_vec t w of
        None \<Rightarrow> upd_tl (INIT_LIST_HEAD (Tm t)) w
      | Some v \<Rightarrow> upd_tl (\<lambda>h. list_add (Tm t) (prv h v) h) w)"

definition add_timer :: "nat \<Rightarrow> timers \<Rightarrow> timers" where
  "add_timer t w = (if timer_pending t w then w else internal_add_timer t w)"

definition detach_timer :: "nat \<Rightarrow> timers \<Rightarrow> bool \<times> timers" where
  "detach_timer t w = (if \<not> timer_pending t w then (False, w) else (True, upd_tl (list_del (Tm t)) w))"

definition mod_timer :: "nat \<Rightarrow> u32 \<Rightarrow> timers \<Rightarrow> bool \<times> timers" where
  "mod_timer t e w =
     (let w = w\<lparr>expires := (expires w)(t := e)\<rparr>;
          (ret, w) = detach_timer t w
      in (ret, internal_add_timer t w))"

definition del_timer :: "nat \<Rightarrow> timers \<Rightarrow> bool \<times> timers" where
  "del_timer t w = (let (ret, w) = detach_timer t w in (ret, clear_links t w))"

section \<open>Running timers\<close>

partial_function (option) cascade_loop :: "tnode \<Rightarrow> tnode \<Rightarrow> timers \<Rightarrow> timers option" where
  "cascade_loop head pos w =
     (if pos = head then Some w
      else case pos of
        Tm t \<Rightarrow> cascade_loop head (nxt (tlists w) pos) (internal_add_timer t (upd_tl (list_del pos) w))
      | _ \<Rightarrow> None)"

definition cascade_timers :: "nat \<Rightarrow> timers \<Rightarrow> timers option" where
  "cascade_timers n w = do {
     let head = Vec n (tv_index w n);
     w \<leftarrow> cascade_loop head (nxt (tlists w) head) w;
     let w = upd_tl (INIT_LIST_HEAD head) w;
     Some (w\<lparr>tv_index := (tv_index w)(n := (tv_index w n + 1) AND 63)\<rparr>) }"

text \<open>The loop over the vectors; \<open>tvecs[k - 1]\<close> is the vector \<open>k\<close>, and there are five.\<close>
partial_function (option) cascade_vecs :: "nat \<Rightarrow> timers \<Rightarrow> timers option" where
  "cascade_vecs n w = do {
     w \<leftarrow> cascade_timers n w;
     if tv_index w n = 1 \<and> n + 1 \<le> 5 then cascade_vecs (n + 1) w else Some w }"

text \<open>From the label \<open>repeat\<close> on: the timers of the current slot are detached and called one by one.\<close>
partial_function (option) run_slot :: "(nat \<Rightarrow> timers \<Rightarrow> timers) \<Rightarrow> timers \<Rightarrow> (nat list \<times> timers) option" where
  "run_slot fn w =
     (let head = Vec 1 (tv_index w 1); pos = nxt (tlists w) head in
      if pos = head then Some ([], w)
      else case pos of
        Tm t \<Rightarrow> do {
          (ts, w) \<leftarrow> run_slot fn (fn t (clear_links t (snd (detach_timer t w))));
          Some (t # ts, w) }
      | _ \<Rightarrow> None)"

partial_function (option) requeue :: "tnode \<Rightarrow> timers \<Rightarrow> timers option" where
  "requeue pos w =
     (if pos = QueuedT then Some w
      else case pos of
        Tm t \<Rightarrow> requeue (nxt (tlists w) pos) (internal_add_timer t w)
      | _ \<Rightarrow> None)"

text \<open>When the first vector has made a turn the others are cascaded.\<close>
definition cascade_phase :: "timers \<Rightarrow> timers option" where
  "cascade_phase w = (if tv_index w 1 = 0 then cascade_vecs 2 w else Some w)"

text \<open>One iteration of the outer loop.\<close>
definition run_timer_step :: "(nat \<Rightarrow> timers \<Rightarrow> timers) \<Rightarrow> timers \<Rightarrow> (nat list \<times> timers) option" where
  "run_timer_step fn w = do {
     let w = upd_tl (INIT_LIST_HEAD QueuedT) w;
     w \<leftarrow> cascade_phase w;
     let w = w\<lparr>run_timer_list_running := Some QueuedT\<rparr>;
     (ts, w) \<leftarrow> run_slot fn w;
     let w = w\<lparr>run_timer_list_running := None, timer_jiffies := timer_jiffies w + 1\<rparr>;
     let w = w\<lparr>tv_index := (tv_index w)(1 := (tv_index w 1 + 1) AND 255)\<rparr>;
     w \<leftarrow> requeue (nxt (tlists w) QueuedT) w;
     Some (ts, w) }"

partial_function (option) run_timer_list :: "(nat \<Rightarrow> timers \<Rightarrow> timers) \<Rightarrow> timers \<Rightarrow> (nat list list \<times> timers) option" where
  "run_timer_list fn w =
     (if sint (now w - timer_jiffies w) \<ge> 0
      then do {
        (ts, w) \<leftarrow> run_timer_step fn w;
        (tss, w) \<leftarrow> run_timer_list fn w;
        Some (ts # tss, w) }
      else Some ([], w))"

section \<open>The invariant\<close>

definition lev_shift :: "nat \<Rightarrow> nat" where
  "lev_shift n = (if n = 1 then 0 else 8 + 6 * (n - 2))"

text \<open>Ticks until a timer is due; more than \<open>2\<^sup>3\<^sup>1\<close> for a time in the past.\<close>
definition delta :: "timers \<Rightarrow> nat \<Rightarrow> nat" where
  "delta w t = unat (expires w t - timer_jiffies w)"

text \<open>A timer is due when its time is the time of the wheel or before it.\<close>
definition due :: "timers \<Rightarrow> nat \<Rightarrow> bool" where
  "due w t = (delta w t = 0 \<or> 2 ^ 31 \<le> delta w t)"

definition slot :: "nat \<Rightarrow> nat \<Rightarrow> bool" where
  "slot n i = (1 \<le> n \<and> n \<le> 5 \<and> i < vec_size n)"

text \<open>
  Where a timer waits. In the first vector it is less than a turn away, or late and in the current slot. In
  the others it has not passed the point where its slot is cascaded; \<open>c n\<close> is 1 when the
  vector \<open>n\<close> has been cascaded for the current time.
\<close>
definition slot_ok :: "(nat \<Rightarrow> nat) \<Rightarrow> timers \<Rightarrow> nat \<Rightarrow> nat \<Rightarrow> nat \<Rightarrow> bool" where
  "slot_ok c w n i t =
     (let e = unat (expires w t); d = delta w t in
      if n = 1 then d < 256 \<and> i = e mod 256 \<or> 2 ^ 31 \<le> d \<and> i = tv_index w 1
      else i = e div 2 ^ lev_shift n mod 64 \<and> e mod 2 ^ lev_shift n + c n \<le> d \<and> d < 2 ^ (lev_shift n + 6) \<and> d < 2 ^ 31)"

definition index_ok :: "(nat \<Rightarrow> nat) \<Rightarrow> timers \<Rightarrow> bool" where
  "index_ok c w = (tv_index w 1 = unat (timer_jiffies w) mod 256 \<and>
     (\<forall>n\<in>{2..5}. c n \<le> 1 \<and>
        tv_index w n = (unat (timer_jiffies w) + c n + 2 ^ lev_shift n - 1) div 2 ^ lev_shift n mod 64))"

type_synonym slots = "nat \<Rightarrow> nat \<Rightarrow> nat list"

definition in_slots :: "slots \<Rightarrow> nat set" where
  "in_slots L = (\<Union>n. \<Union>i. set (L n i))"

text \<open>The wheel holds \<open>L n i\<close> in each slot, and the timers \<open>P\<close> are pending elsewhere.\<close>
definition wheel :: "(nat \<Rightarrow> nat) \<Rightarrow> timers \<Rightarrow> slots \<Rightarrow> nat set \<Rightarrow> bool" where
  "wheel c w L P =
     ((\<forall>n i. slot n i \<longrightarrow> dlist (tlists w) (Vec n i) (map Tm (L n i)) \<and> (\<forall>t\<in>set (L n i). slot_ok c w n i t)) \<and>
      (\<forall>n i. \<not> slot n i \<longrightarrow> L n i = []) \<and>
      (\<forall>n i m j. (n, i) \<noteq> (m, j) \<longrightarrow> set (L n i) \<inter> set (L m j) = {}) \<and>
      in_slots L \<inter> P = {} \<and> (\<forall>t. timer_pending t w \<longleftrightarrow> t \<in> P \<or> t \<in> in_slots L) \<and> index_ok c w)"

text \<open>The local list of the timers added during a run.\<close>
definition queue :: "timers \<Rightarrow> nat list \<Rightarrow> bool" where
  "queue w Q = (run_timer_list_running w = Some QueuedT \<and> dlist (tlists w) QueuedT (map Tm Q))"

definition put_slot :: "nat \<Rightarrow> nat \<Rightarrow> nat list \<Rightarrow> slots \<Rightarrow> slots" where
  "put_slot n i ts L = L(n := (L n)(i := ts))"

section \<open>Arithmetic of the wheel\<close>

lemma unat_low: "unat ((e :: u32) AND 255) = unat e mod 256"
proof -
  have "(255 :: u32) = mask 8" by (simp add: mask_eq_exp_minus_1)
  then have "e AND 255 = take_bit 8 e" by (simp only: take_bit_eq_mask)
  then have "unat (e AND 255) = take_bit 8 (unat e)" by (simp only: unsigned_take_bit_eq)
  then show ?thesis by (simp add: take_bit_eq_mod)
qed

lemma unat_mid: "k < 32 \<Longrightarrow> unat (drop_bit k (e :: u32) AND 63) = unat e div 2 ^ k mod 64"
proof -
  assume k: "k < 32"
  have "(63 :: u32) = mask 6" by (simp add: mask_eq_exp_minus_1)
  then have "drop_bit k e AND 63 = take_bit 6 (drop_bit k e)" by (simp only: take_bit_eq_mask)
  then have "unat (drop_bit k e AND 63) = take_bit 6 (unat (drop_bit k e))" by (simp only: unsigned_take_bit_eq)
  moreover have "unat (drop_bit k e) = unat e div 2 ^ k" unfolding unat_drop_bit_eq by (rule drop_bit_eq_div)
  ultimately show ?thesis by (simp add: take_bit_eq_mod)
qed

lemma sint_neg_iff: "sint (x :: u32) < 0 \<longleftrightarrow> 2 ^ 31 \<le> unat x"
proof -
  have "sint x < 0 \<longleftrightarrow> bit x 31" using bit_last_iff [of x] by simp
  also have "\<dots> \<longleftrightarrow> odd (unat x div 2 ^ 31)" 
    using bit_unsigned_iff [where 'a = nat, of x 31] by (simp only: bit_iff_odd possible_bit_nat simp_thms)
  also have "\<dots> \<longleftrightarrow> 2 ^ 31 \<le> unat x"
  proof -
    have "unat x < 2 ^ 32" using unsigned_less [of x] by simp
    then have "unat x div 2 ^ 31 < 2" by (simp add: div_less_iff_less_mult)
    then have "odd (unat x div 2 ^ 31) \<longleftrightarrow> unat x div 2 ^ 31 \<noteq> 0" using less_2_cases by fastforce
    then show ?thesis by (simp add: div_eq_0_iff not_less)
  qed
  finally show ?thesis .
qed

lemma expires_delta: "unat (expires w t) = (unat (timer_jiffies w) + delta w t) mod 2 ^ 32" "delta w t < 2 ^ 32"
proof -
  have "unat (expires w t) = unat (timer_jiffies w + (expires w t - timer_jiffies w))" by simp
  also have "\<dots> = (unat (timer_jiffies w) + delta w t) mod 2 ^ 32" unfolding delta_def unat_word_ariths(1) by simp
  finally show "unat (expires w t) = (unat (timer_jiffies w) + delta w t) mod 2 ^ 32" .
  show "delta w t < 2 ^ 32" unfolding delta_def using unsigned_less [of "expires w t - timer_jiffies w"] by simp
qed

lemma mod_div: "(x mod (M * N)) div M = x div M mod N" "(x mod (M * N)) mod M = x mod (M :: nat)" if "0 < M"
  using that by (simp_all add: mod_mult2_eq)

lemma wheel_pow: assumes "s \<le> 26" shows "(2 :: nat) ^ 32 = 2 ^ s * (64 * 2 ^ (26 - s))"
proof -
  have "(2 :: nat) ^ s * (64 * 2 ^ (26 - s)) = 64 * (2 ^ s * 2 ^ (26 - s))" by simp
  also have "\<dots> = 64 * 2 ^ 26" using assms by (simp only: le_add_diff_inverse flip: power_add)
  finally show ?thesis by simp
qed

lemma wheel_mod: "s \<le> 26 \<Longrightarrow> x mod 2 ^ 32 mod 2 ^ s = x mod (2 :: nat) ^ s" "s \<le> 26 \<Longrightarrow> x mod 2 ^ 32 div 2 ^ s mod 64 = x div (2 :: nat) ^ s mod 64"
proof -
  assume "s \<le> 26"
  note p = wheel_pow [OF this]
  show "x mod 2 ^ 32 mod 2 ^ s = x mod (2 :: nat) ^ s" unfolding p by (simp add: mod_div)
  show "x mod 2 ^ 32 div 2 ^ s mod 64 = x div (2 :: nat) ^ s mod 64" unfolding p by (simp add: mod_div mod_mod_cancel)
qed

text \<open>A timer in the slot that is cascaded is less than one slot away.\<close>
lemma cascade_near:
  assumes s: "s \<le> 26" and J: "J mod 2 ^ s = 0" and E: "E = (J + d) mod 2 ^ 32" and i: "E div 2 ^ s mod 64 = J div 2 ^ s mod 64"
    and d: "d < 2 ^ (s + 6)"
  shows "d < (2 :: nat) ^ s"
proof -
  have "(J + d) div 2 ^ s = J div 2 ^ s + d div 2 ^ s" using J by (metis div_plus_div_distrib_dvd_left mod_0_imp_dvd)
  then have "(J div 2 ^ s + d div 2 ^ s) mod 64 = J div 2 ^ s mod 64" using i wheel_mod(2) [OF s, of "J + d"] unfolding E by argo
  moreover have "(a + b) mod 64 = a mod 64 \<Longrightarrow> b mod 64 = 0" for a b :: nat using mod_eq_dvd_iff_nat [of a "a + b" 64] by auto
  ultimately have "d div 2 ^ s mod 64 = 0" by blast
  moreover have "d div 2 ^ s < 64" using d by (simp add: div_less_iff_less_mult power_add mult.commute)
  ultimately have "d div 2 ^ s = 0" by simp
  then show ?thesis by (simp add: div_eq_0_iff)
qed

text \<open>Between two points where a vector is cascaded nothing has to be.\<close>
lemma unaligned:
  assumes s: "s \<le> 26" and J: "J mod 2 ^ s \<noteq> 0" and E: "E = (J + d) mod 2 ^ 32"
  shows "E mod 2 ^ s \<le> d \<Longrightarrow> E mod 2 ^ s + 1 \<le> (d :: nat)" "(J + 0 + 2 ^ s - 1) div 2 ^ s = (J + 1 + 2 ^ s - 1) div 2 ^ s"
proof -
  have e: "E mod 2 ^ s = (J + d) mod 2 ^ s" using wheel_mod(1) [OF s] E by simp
  assume le: "E mod 2 ^ s \<le> d"
  have "E mod 2 ^ s \<noteq> d"
  proof
    assume "E mod 2 ^ s = d"
    then have "(J + d) mod 2 ^ s = d mod 2 ^ s" using e by (metis mod_mod_trivial)
    then show False using J by (metis add_diff_cancel_right' dvd_imp_mod_0 le_add2 mod_eq_dvd_iff_nat)
  qed
  then show "E mod 2 ^ s + 1 \<le> d" using le by simp
next
  have "J = 2 ^ s * (J div 2 ^ s) + J mod 2 ^ s" by simp
  moreover have "J mod 2 ^ s < 2 ^ s" "0 < J mod 2 ^ s" using J by simp_all
  ultimately obtain q r where qr: "J = 2 ^ s * q + r" "r < 2 ^ s" "0 < r" by blast
  have "(2 ^ s * q + r + 2 ^ s - 1) div 2 ^ s = q + 1"
  proof -
    have "2 ^ s * q + r + 2 ^ s - 1 = (r - 1) + 2 ^ s * (q + 1)" using qr by (simp add: algebra_simps)
    moreover have "((r - 1) + 2 ^ s * (q + 1)) div 2 ^ s = q + 1 + (r - 1) div 2 ^ s" by (rule div_mult_self2) simp
    moreover have "(r - 1) div 2 ^ s = 0" using qr by simp
    ultimately show ?thesis by (simp only: add_0_right)
  qed
  moreover have "(2 ^ s * q + r + 2 ^ s) div 2 ^ s = q + 1"
  proof -
    have "2 ^ s * q + r + 2 ^ s = r + 2 ^ s * (q + 1)" by (simp add: algebra_simps)
    moreover have "(r + 2 ^ s * (q + 1)) div 2 ^ s = q + 1 + r div 2 ^ s" by (rule div_mult_self2) simp
    moreover have "r div 2 ^ s = 0" using qr by simp
    ultimately show ?thesis by (simp only: add_0_right)
  qed
  ultimately show "(J + 0 + 2 ^ s - 1) div 2 ^ s = (J + 1 + 2 ^ s - 1) div 2 ^ s" using qr(1) by simp
qed

lemma upd_tl_sel [simp]:
  "tlists (upd_tl f w) = f (tlists w)" "expires (upd_tl f w) = expires w" "tv_index (upd_tl f w) = tv_index w"
  "timer_jiffies (upd_tl f w) = timer_jiffies w" "run_timer_list_running (upd_tl f w) = run_timer_list_running w" "now (upd_tl f w) = now w"
  by (simp_all add: upd_tl_def)

text \<open>Where \<open>internal_add_timer\<close> puts a timer.\<close>
lemma timer_vec_slot:
  assumes "run_timer_list_running w = None" "index_ok c w"
  shows "\<exists>n i. timer_vec t w = Some (Vec n i) \<and> slot n i \<and> slot_ok c w n i t \<and> (n = 1 \<or> 2 ^ lev_shift n \<le> delta w t)"
proof -
  let ?d = "delta w t" and ?e = "unat (expires w t)" and ?x = "expires w t - timer_jiffies w"
  have d: "unat ?x = ?d" "?d < 2 ^ 32" using expires_delta by (simp_all add: delta_def)
  have c: "c n \<le> 1" if "n \<in> {2..5}" for n using assms(2) that by (simp add: index_ok_def)
  have lt: "?x < 256 \<longleftrightarrow> ?d < 256" "?x < push_bit 14 1 \<longleftrightarrow> ?d < 2 ^ 14" "?x < push_bit 20 1 \<longleftrightarrow> ?d < 2 ^ 20" "?x < push_bit 26 1 \<longleftrightarrow> ?d < 2 ^ 26"
    "sint ?x < 0 \<longleftrightarrow> 2 ^ 31 \<le> ?d" "?x \<le> 0xffffffff"
    using d sint_neg_iff [of ?x] by (simp_all add: word_less_nat_alt word_le_nat_alt delta_def push_bit_eq_mult)
  have up: "slot_ok c w n (?e div 2 ^ lev_shift n mod 64) t" if "2 ^ lev_shift n \<le> ?d" "?d < 2 ^ (lev_shift n + 6)" "?d < 2 ^ 31" "n \<in> {2..5}" for n
  proof -
    have "?e mod 2 ^ lev_shift n < 2 ^ lev_shift n" by simp
    then have "?e mod 2 ^ lev_shift n + c n \<le> ?d" using that(1) c [OF that(4)] by linarith
    then show ?thesis using that by (auto simp: slot_ok_def Let_def)
  qed
  have m: "unat (drop_bit 8 (expires w t) AND 63) = ?e div 2 ^ 8 mod 64" "unat (drop_bit 14 (expires w t) AND 63) = ?e div 2 ^ 14 mod 64"
    "unat (drop_bit 20 (expires w t) AND 63) = ?e div 2 ^ 20 mod 64" "unat (drop_bit 26 (expires w t) AND 63) = ?e div 2 ^ 26 mod 64"
    by (rule unat_mid; simp)+
  have sh: "lev_shift 2 = 8" "lev_shift 3 = 14" "lev_shift 4 = 20" "lev_shift 5 = 26" by (simp_all add: lev_shift_def)
  consider "?d < 256" | "256 \<le> ?d" "?d < 2 ^ 14" | "2 ^ 14 \<le> ?d" "?d < 2 ^ 20" | "2 ^ 20 \<le> ?d" "?d < 2 ^ 26" | "2 ^ 31 \<le> ?d" | "2 ^ 26 \<le> ?d" "?d < 2 ^ 31"
    by linarith
  then show ?thesis
  proof cases
    case 1
    then have "timer_vec t w = Some (Vec 1 (?e mod 256))" using assms(1) unfolding timer_vec_def Let_def lt unat_low by simp
    moreover have "slot 1 (?e mod 256)" "slot_ok c w 1 (?e mod 256) t" using 1 by (simp_all add: slot_def vec_size_def slot_ok_def)
    ultimately show ?thesis by blast
  next
    case 2
    then have "timer_vec t w = Some (Vec 2 (?e div 2 ^ 8 mod 64))" using assms(1) unfolding timer_vec_def Let_def lt m by simp
    moreover have "slot 2 (?e div 2 ^ 8 mod 64)" "slot_ok c w 2 (?e div 2 ^ 8 mod 64) t" "2 ^ lev_shift 2 \<le> ?d"
      using 2 up [of 2] by (simp_all add: slot_def vec_size_def sh)
    ultimately show ?thesis by blast
  next
    case 3
    then have "timer_vec t w = Some (Vec 3 (?e div 2 ^ 14 mod 64))" using assms(1) unfolding timer_vec_def Let_def lt m by simp
    moreover have "slot 3 (?e div 2 ^ 14 mod 64)" "slot_ok c w 3 (?e div 2 ^ 14 mod 64) t" "2 ^ lev_shift 3 \<le> ?d"
      using 3 up [of 3] by (simp_all add: slot_def vec_size_def sh)
    ultimately show ?thesis by blast
  next
    case 4
    then have "timer_vec t w = Some (Vec 4 (?e div 2 ^ 20 mod 64))" using assms(1) unfolding timer_vec_def Let_def lt m by simp
    moreover have "slot 4 (?e div 2 ^ 20 mod 64)" "slot_ok c w 4 (?e div 2 ^ 20 mod 64) t" "2 ^ lev_shift 4 \<le> ?d"
      using 4 up [of 4] by (simp_all add: slot_def vec_size_def sh)
    ultimately show ?thesis by blast
  next
    case 5
    then have "timer_vec t w = Some (Vec 1 (tv_index w 1))" using assms(1) unfolding timer_vec_def Let_def lt by simp
    moreover have "slot 1 (tv_index w 1)" "slot_ok c w 1 (tv_index w 1) t"
      using 5 assms(2) by (simp_all add: slot_def vec_size_def slot_ok_def index_ok_def)
    ultimately show ?thesis by blast
  next
    case 6
    then have "timer_vec t w = Some (Vec 5 (?e div 2 ^ 26 mod 64))" using assms(1) lt(6) unfolding timer_vec_def Let_def lt(1-5) m by simp
    moreover have "slot 5 (?e div 2 ^ 26 mod 64)" "slot_ok c w 5 (?e div 2 ^ 26 mod 64) t" "2 ^ lev_shift 5 \<le> ?d"
      using 6 up [of 5] by (simp_all add: slot_def vec_size_def sh)
    ultimately show ?thesis by blast
  qed
qed

section \<open>The wheel and its lists\<close>

lemma wheelD:
  assumes "wheel c w L P"
  shows "slot n i \<Longrightarrow> dlist (tlists w) (Vec n i) (map Tm (L n i))" "t \<in> set (L n i) \<Longrightarrow> slot n i" "t \<in> set (L n i) \<Longrightarrow> slot_ok c w n i t"
    "t \<in> set (L n i) \<Longrightarrow> t \<in> set (L m j) \<Longrightarrow> n = m \<and> i = j" "t \<in> set (L n i) \<Longrightarrow> t \<notin> P"
    "timer_pending t w \<longleftrightarrow> t \<in> P \<or> t \<in> in_slots L" "index_ok c w"
proof -
  show "slot n i \<Longrightarrow> dlist (tlists w) (Vec n i) (map Tm (L n i))" using assms by (simp add: wheel_def)
  show sl: "slot n i" if "t \<in> set (L n i)" for n i using assms that unfolding wheel_def by (metis empty_iff empty_set)
  show "t \<in> set (L n i) \<Longrightarrow> slot_ok c w n i t" using assms sl by (simp add: wheel_def)
  show "n = m \<and> i = j" if "t \<in> set (L n i)" "t \<in> set (L m j)"
  proof (rule ccontr)
    assume "\<not> (n = m \<and> i = j)"
    then have "set (L n i) \<inter> set (L m j) = {}" using assms by (simp add: wheel_def)
    then show False using that by blast
  qed
  have "in_slots L \<inter> P = {}" using assms by (simp add: wheel_def)
  then show "t \<in> set (L n i) \<Longrightarrow> t \<notin> P" by (auto simp: in_slots_def)
  show "timer_pending t w \<longleftrightarrow> t \<in> P \<or> t \<in> in_slots L" "index_ok c w" using assms by (simp_all add: wheel_def)
qed

lemma wheelI:
  assumes "\<And>n i. slot n i \<Longrightarrow> dlist (tlists w) (Vec n i) (map Tm (L n i))" "\<And>n i t. t \<in> set (L n i) \<Longrightarrow> slot n i \<and> slot_ok c w n i t"
    "\<And>n i m j t. t \<in> set (L n i) \<Longrightarrow> t \<in> set (L m j) \<Longrightarrow> n = m \<and> i = j" "\<And>n i t. t \<in> set (L n i) \<Longrightarrow> t \<notin> P"
    "\<And>t. timer_pending t w \<longleftrightarrow> t \<in> P \<or> t \<in> in_slots L" "index_ok c w"
  shows "wheel c w L P"
proof -
  have "L n i = []" if "\<not> slot n i" for n i using assms(2) that by (metis list.set_intros(1) neq_Nil_conv)
  moreover have "set (L n i) \<inter> set (L m j) = {}" if "(n, i) \<noteq> (m, j)" for n i m j using assms(3) that by blast
  moreover have "in_slots L \<inter> P = {}" using assms(4) by (auto simp: in_slots_def)
  ultimately show ?thesis using assms(1,2,5,6) unfolding wheel_def by blast
qed

lemma ok_cong:
  assumes "timer_jiffies w' = timer_jiffies w" "tv_index w' = tv_index w"
  shows "expires w' t = expires w t \<Longrightarrow> slot_ok c w' n i t = slot_ok c w n i t" "index_ok c w' = index_ok c w"
    "expires w' t = expires w t \<Longrightarrow> delta w' t = delta w t" "expires w' t = expires w t \<Longrightarrow> due w' t = due w t"
  using assms by (simp_all add: slot_ok_def index_ok_def delta_def due_def)

lemma put_slot_sel: "put_slot n i ts L m j = (if m = n \<and> j = i then ts else L m j)"
  by (simp add: put_slot_def)

lemma in_put_slot: "t \<in> in_slots (put_slot n i ts L) \<longleftrightarrow> t \<in> set ts \<or> (\<exists>m j. \<not> (m = n \<and> j = i) \<and> t \<in> set (L m j))"
proof
  assume "t \<in> in_slots (put_slot n i ts L)"
  then show "t \<in> set ts \<or> (\<exists>m j. \<not> (m = n \<and> j = i) \<and> t \<in> set (L m j))" by (auto simp: in_slots_def put_slot_sel split: if_splits)
next
  assume "t \<in> set ts \<or> (\<exists>m j. \<not> (m = n \<and> j = i) \<and> t \<in> set (L m j))"
  then obtain m j where "t \<in> set (put_slot n i ts L m j)" by (metis put_slot_sel)
  then show "t \<in> in_slots (put_slot n i ts L)" by (auto simp: in_slots_def)
qed

lemma in_slots_iff: "t \<in> in_slots L \<longleftrightarrow> t \<in> set (L n i) \<or> (\<exists>m j. \<not> (m = n \<and> j = i) \<and> t \<in> set (L m j))"
  by (auto simp: in_slots_def)

lemma dlist_nxt_prv_head: "dlist h q xs \<Longrightarrow> nxt h (prv h q) = q"
proof -
  assume d: "dlist h q xs"
  show ?thesis
  proof (cases xs rule: rev_cases)
    case Nil
    then show ?thesis using dlist_nxt_prv [OF d] by simp
  next
    case (snoc ys y)
    then show ?thesis using dlist_nxt_prv(2) [OF d] dlist_neighbours(2) [of h q ys y "[]"] d by simp
  qed
qed

lemma list_add_last: "dlist h q xs \<Longrightarrow> list_add n (prv h q) h = list_add_tail n q h"
  using dlist_nxt_prv_head by (metis list_add_def list_add_tail_def)

text \<open>A timer that is in no slot can be put into the one it belongs to.\<close>
lemma wheel_put:
  assumes wh: "wheel c w L P" and t: "t \<notin> in_slots L" and s: "slot n i" "slot_ok c w n i t"
  shows "wheel c (upd_tl (list_add_tail (Tm t) (Vec n i)) w) (put_slot n i (L n i @ [t]) L) (P - {t})"
proof -
  let ?h = "tlists w" and ?w = "upd_tl (list_add_tail (Tm t) (Vec n i)) w" and ?L = "put_slot n i (L n i @ [t]) L"
  note D = wheelD [OF wh]
  have tn: "t \<notin> set (L m j)" for m j using t by (auto simp: in_slots_def)
  have d: "dlist ?h (Vec n i) (map Tm (L n i))" by (rule D(1) [OF s(1)])
  have ok: "slot_ok c ?w m j u = slot_ok c w m j u" for m j u by (rule ok_cong) simp_all
  show ?thesis
  proof (rule wheelI)
    fix m j assume mj: "slot m j"
    show "dlist (tlists ?w) (Vec m j) (map Tm (?L m j))"
    proof (cases "m = n \<and> j = i")
      case True
      then show ?thesis using kl.lst_add_tail [OF d, of "Tm t"] tn by (auto simp: put_slot_sel)
    next
      case False
      have "dlist (list_add_tail (Tm t) (Vec n i) ?h) (Vec m j) (map Tm (L m j))"
        by (rule kl.frame_add_tail [OF d D(1) [OF mj]]) (use False tn D(4) in auto)
      then show ?thesis using False by (auto simp: put_slot_sel)
    qed
  next
    fix m j u assume "u \<in> set (?L m j)"
    then show "slot m j \<and> slot_ok c ?w m j u" using s D(2,3) unfolding ok by (auto simp: put_slot_sel split: if_splits)
  next
    fix m j k l u assume "u \<in> set (?L m j)" "u \<in> set (?L k l)"
    then show "m = k \<and> j = l" using tn D(4) by (auto simp: put_slot_sel split: if_splits)
  next
    fix m j u assume "u \<in> set (?L m j)"
    then show "u \<notin> P - {t}" using D(5) by (auto simp: put_slot_sel split: if_splits)
  next
    fix u
    have "prv ?h (Vec n i) = last (Vec n i # map Tm (L n i))" using dlist_nxt_prv(2) [OF d] .
    then have lst: "prv ?h (Vec n i) = Tm u \<Longrightarrow> u \<in> set (L n i)" by (cases "L n i" rule: rev_cases) auto
    have "timer_pending u ?w \<longleftrightarrow> u = t \<or> timer_pending u w \<or> prv ?h (Vec n i) = Tm u"
      by (auto simp: timer_pending_def list_add_tail_def list_add_raw_sel)
    then show "timer_pending u ?w \<longleftrightarrow> u \<in> P - {t} \<or> u \<in> in_slots ?L"
      using lst D(6) [of u] unfolding in_put_slot in_slots_iff [of u L n i] by auto
  next
    show "index_ok c ?w" using D(7) ok_cong(2) [of ?w w c] by simp
  qed
qed

text \<open>A timer taken out of its slot: its links still point into the list until they are cleared.\<close>
lemma wheel_take:
  assumes wh: "wheel c w L P" and t: "t \<in> set (L n i)"
  shows "wheel c (upd_tl (list_del (Tm t)) w) (put_slot n i (removeAll t (L n i)) L) (insert t P)"
proof -
  let ?h = "tlists w" and ?w = "upd_tl (list_del (Tm t)) w" and ?L = "put_slot n i (removeAll t (L n i)) L"
  note D = wheelD [OF wh]
  have d: "dlist ?h (Vec n i) (map Tm (L n i))" by (rule D(1) [OF D(2) [OF t]])
  have m: "Tm t \<in> set (map Tm (L n i))" "removeAll (Tm t) (map Tm (L n i)) = map Tm (removeAll t (L n i))"
    using t by (auto simp: removeAll_filter_not_eq filter_map comp_def)
  have ok: "slot_ok c ?w m j u = slot_ok c w m j u" for m j u by (rule ok_cong) simp_all
  show ?thesis
  proof (rule wheelI)
    fix m j assume mj: "slot m j"
    show "dlist (tlists ?w) (Vec m j) (map Tm (?L m j))"
    proof (cases "m = n \<and> j = i")
      case True
      then show ?thesis using kl.lst_del [OF d m(1)] m(2) by (auto simp: put_slot_sel)
    next
      case False
      have "dlist (list_del (Tm t) ?h) (Vec m j) (map Tm (L m j))"
        by (rule kl.frame_del [OF d m(1) D(1) [OF mj]]) (use False D(4) in auto)
      then show ?thesis using False by (auto simp: put_slot_sel)
    qed
  next
    fix m j u assume "u \<in> set (?L m j)"
    then show "slot m j \<and> slot_ok c ?w m j u" using D(2,3) unfolding ok by (auto simp: put_slot_sel split: if_splits)
  next
    fix m j k l u assume "u \<in> set (?L m j)" "u \<in> set (?L k l)"
    then show "m = k \<and> j = l" using D(4) by (auto simp: put_slot_sel split: if_splits)
  next
    fix m j u assume u: "u \<in> set (?L m j)"
    then have "u \<noteq> t" using D(4) [OF t, of m j] by (auto simp: put_slot_sel split: if_splits)
    then show "u \<notin> insert t P" using D(5) u by (auto simp: put_slot_sel split: if_splits)
  next
    fix u
    obtain ys zs where yz: "map Tm (L n i) = ys @ Tm t # zs" using m(1) by (meson split_list)
    have "dlist ?h (Vec n i) (ys @ Tm t # zs)" using d unfolding yz .
    note nb = dlist_neighbours [OF this]
    have z: "nxt ?h (Tm t) \<noteq> NullT"
    proof (cases zs)
      case (Cons z zs')
      then have "z \<in> set (map Tm (L n i))" using yz by simp
      then show ?thesis using nb(2) Cons by auto
    qed (simp add: nb(2))
    have pr: "u \<in> set (L n i)" if "prv ?h (Tm t) = Tm u"
    proof (cases ys rule: rev_cases)
      case (snoc ys' y)
      then have "Tm u \<in> set (map Tm (L n i))" using yz nb(1) that by simp
      then show ?thesis by auto
    qed (use nb(1) that in simp)
    have "timer_pending u ?w \<longleftrightarrow> timer_pending u w \<or> prv ?h (Tm t) = Tm u"
      using z by (auto simp: timer_pending_def list_del_def list_del_raw_sel)
    moreover have "u \<in> set (L m j) \<Longrightarrow> u = t \<Longrightarrow> m = n \<and> j = i" for m j using D(4) [OF t] by blast
    ultimately show "timer_pending u ?w \<longleftrightarrow> u \<in> insert t P \<or> u \<in> in_slots ?L"
      using pr D(6) [of u] t unfolding in_put_slot in_slots_iff [of u L n i] by auto
  next
    show "index_ok c ?w" using D(7) ok_cong(2) [of ?w w c] by simp
  qed
qed

lemma clear_links_sel [simp]:
  "expires (clear_links t w) = expires w" "tv_index (clear_links t w) = tv_index w" "timer_jiffies (clear_links t w) = timer_jiffies w"
  "run_timer_list_running (clear_links t w) = run_timer_list_running w" "now (clear_links t w) = now w"
  by (simp_all add: clear_links_def)

lemma dlist_clear: "Tm t \<notin> set (q # xs) \<Longrightarrow> dlist (tlists (clear_links t w)) q xs = dlist (tlists w) q xs"
  by (rule dlist_cong) (auto simp: clear_links_def)

lemma wheel_clear:
  assumes wh: "wheel c w L P" and t: "t \<notin> in_slots L"
  shows "wheel c (clear_links t w) L (P - {t})"
proof -
  note D = wheelD [OF wh]
  have tn: "t \<notin> set (L m j)" for m j using t by (auto simp: in_slots_def)
  have ok: "slot_ok c (clear_links t w) m j u = slot_ok c w m j u" for m j u by (rule ok_cong) simp_all
  have "timer_pending u (clear_links t w) \<longleftrightarrow> u \<noteq> t \<and> timer_pending u w" for u by (simp add: timer_pending_def clear_links_def)
  moreover have "dlist (tlists (clear_links t w)) (Vec n i) (map Tm (L n i))" if "slot n i" for n i
    using D(1) [OF that] dlist_clear [of t "Vec n i" "map Tm (L n i)" w] tn by auto
  ultimately show ?thesis using D(6) D(7) t ok_cong(2) [of "clear_links t w" w c]
    by (intro wheelI) (auto simp: D(2) D(3) D(5) ok dest: D(4))
qed

section \<open>Adding and detaching\<close>

text \<open>What an operation on the lists leaves alone.\<close>
definition lists_only :: "timers \<Rightarrow> timers \<Rightarrow> bool" where
  "lists_only w w' = (expires w' = expires w \<and> tv_index w' = tv_index w \<and> timer_jiffies w' = timer_jiffies w \<and>
     run_timer_list_running w' = run_timer_list_running w \<and> now w' = now w)"

lemma lists_only_upd [simp]: "lists_only w (upd_tl f w)" "lists_only w (clear_links t w)" "lists_only w w"
  by (simp_all add: lists_only_def)

lemma lists_only_trans: "lists_only w w' \<Longrightarrow> lists_only w' w'' \<Longrightarrow> lists_only w w''"
  by (simp add: lists_only_def)

lemma internal_add_idle:
  assumes wh: "wheel c w L P" and r: "run_timer_list_running w = None" and t: "t \<notin> in_slots L"
  shows "\<exists>n i. internal_add_timer t w = upd_tl (list_add_tail (Tm t) (Vec n i)) w \<and> slot n i \<and>
    wheel c (internal_add_timer t w) (put_slot n i (L n i @ [t]) L) (P - {t}) \<and> (n = 1 \<or> 2 ^ lev_shift n \<le> delta w t)"
proof -
  obtain n i where v: "timer_vec t w = Some (Vec n i)" "slot n i" "slot_ok c w n i t" "n = 1 \<or> 2 ^ lev_shift n \<le> delta w t"
    using timer_vec_slot [OF r wheelD(7) [OF wh]] by blast
  have "internal_add_timer t w = upd_tl (list_add_tail (Tm t) (Vec n i)) w"
    using list_add_last [OF wheelD(1) [OF wh v(2)]] v(1) by (simp add: internal_add_timer_def upd_tl_def)
  then show ?thesis using wheel_put [OF wh t v(2,3)] v by auto
qed

lemma queue_sets: "dlist h QueuedT (map Tm Q) \<Longrightarrow> distinct Q"
  by (simp add: dlist_def distinct_map)

text \<open>During a run a timer goes to the end of the local list instead.\<close>
lemma internal_add_running:
  assumes wh: "wheel c w L (set Q)" and q: "queue w Q" and t: "t \<notin> in_slots L" "t \<notin> set Q"
  shows "wheel c (internal_add_timer t w) L (set (Q @ [t]))" "queue (internal_add_timer t w) (Q @ [t])"
    "lists_only w (internal_add_timer t w)"
proof -
  note D = wheelD [OF wh]
  let ?w = "upd_tl (list_add_tail (Tm t) QueuedT) w"
  have d: "dlist (tlists w) QueuedT (map Tm Q)" "run_timer_list_running w = Some QueuedT" using q by (simp_all add: queue_def)
  have eq: "internal_add_timer t w = ?w"
    using list_add_last [OF d(1)] d(2) by (simp add: internal_add_timer_def timer_vec_def Let_def upd_tl_def)
  show "lists_only w (internal_add_timer t w)" by (simp add: eq)
  have "dlist (tlists ?w) QueuedT (map Tm Q @ [Tm t])" using kl.lst_add_tail [OF d(1), of "Tm t"] t(2) by auto
  then show "queue (internal_add_timer t w) (Q @ [t])" using d(2) by (simp add: queue_def eq)
  have tn: "t \<notin> set (L m j)" for m j using t by (auto simp: in_slots_def)
  have ok: "slot_ok c ?w m j u = slot_ok c w m j u" for m j u by (rule ok_cong) simp_all
  have dl: "dlist (tlists ?w) (Vec n i) (map Tm (L n i))" if "slot n i" for n i
  proof -
    have "dlist (list_add_tail (Tm t) QueuedT (tlists w)) (Vec n i) (map Tm (L n i))"
      by (rule kl.frame_add_tail [OF d(1) D(1) [OF that]]) (use tn D(5) in auto)
    then show ?thesis by simp
  qed
  have "prv (tlists w) QueuedT = last (QueuedT # map Tm Q)" using dlist_nxt_prv(2) [OF d(1)] .
  then have lst: "prv (tlists w) QueuedT = Tm u \<Longrightarrow> u \<in> set Q" for u by (cases Q rule: rev_cases) auto
  have pd: "timer_pending u ?w \<longleftrightarrow> u = t \<or> timer_pending u w" for u
    using lst [of u] D(6) [of u] by (auto simp: timer_pending_def list_add_tail_def list_add_raw_sel)
  show "wheel c (internal_add_timer t w) L (set (Q @ [t]))" unfolding eq
    using D(6) D(7) t(1) ok_cong(2) [of ?w w c] tn dl pd
    by (intro wheelI) (auto simp: D(2) D(3) D(5) ok dest: D(4))
qed

lemma detach_pending:
  assumes "wheel c w L P" "t \<in> set (L n i)"
  shows "detach_timer t w = (True, upd_tl (list_del (Tm t)) w)"
  using wheelD(6) [OF assms(1), of t] assms(2) by (auto simp: detach_timer_def in_slots_def)

end
