(* ===== verification/Timer_Run.thy ===== *)
theory Timer_Run
  imports Timer
begin

text \<open>
  The correctness of the timer wheel of \<open>Timer\<close>: cascading a vector, running the timers of a slot, one
  iteration and the whole of \<open>run_timer_list\<close>, and the operations on timers. The wheel behaves like a set of
  timers with their expiry times.
\<close>

section \<open>Cascading\<close>

lemma map_Tm_hd: "L n i = t # ts \<Longrightarrow> slot n i \<Longrightarrow> wheel c w L P \<Longrightarrow> nxt (tlists w) (Tm t) = hd (map Tm ts @ [Vec n i])"
  using dlist_neighbours(2) [of "tlists w" "Vec n i" "[]" "Tm t" "map Tm ts"] wheelD(1) [of c w L P n i] by simp

text \<open>The local list stays as it is while other lists change.\<close>
definition queue_links :: "timers \<Rightarrow> timers \<Rightarrow> bool" where
  "queue_links w w' = (dlist (tlists w) QueuedT [] \<longrightarrow> dlist (tlists w') QueuedT [])"

lemma lev_shift_mono: "1 \<le> n \<Longrightarrow> n \<le> m \<Longrightarrow> lev_shift n \<le> lev_shift m"
  by (auto simp: lev_shift_def)

lemma in_slots_snoc: "in_slots (put_slot m j (K m j @ [t]) K) = insert t (in_slots K)"
  by (rule set_eqI, unfold insert_iff in_put_slot in_slots_iff [of _ K m j] set_append Un_iff list.set empty_iff, blast)

lemma in_slots_cons: "L n i = t # ts \<Longrightarrow> insert t (in_slots (put_slot n i ts L)) = in_slots L"
  by (rule set_eqI, unfold insert_iff in_put_slot in_slots_iff [of _ L n i], simp only: list.set insert_iff, blast)

lemma cascade_loop_ok:
  assumes "wheel c w L P" "run_timer_list_running w = None" "slot n i" "2 \<le> n" "L n i = ts" "\<forall>t\<in>set ts. delta w t < 2 ^ lev_shift n"
  shows "\<exists>w' L'. cascade_loop (Vec n i) (hd (map Tm ts @ [Vec n i])) w = Some w' \<and> wheel c w' L' P \<and> L' n i = [] \<and>
    in_slots L' = in_slots L \<and> lists_only w w' \<and> queue_links w w'"
  using assms
proof (induction ts arbitrary: w L)
  case Nil
  then show ?case by (subst cascade_loop.simps) (auto simp: queue_links_def)
next
  case (Cons t ts)
  note wh = Cons.prems(1)
  let ?w1 = "upd_tl (list_del (Tm t)) w" and ?L1 = "put_slot n i ts L"
  have tL: "t \<in> set (L n i)" using Cons.prems(5) by simp
  have dl: "dlist (tlists w) (Vec n i) (map Tm (t # ts))" using wheelD(1) [OF wh Cons.prems(3)] Cons.prems(5) by simp
  then have "t \<notin> set ts" by (auto simp: dlist_def)
  then have rm: "removeAll t (L n i) = ts" using Cons.prems(5) by simp
  have w1: "wheel c ?w1 ?L1 (insert t P)" using wheel_take [OF wh tL] unfolding rm .
  have t1: "t \<notin> in_slots ?L1" using w1 by (auto simp: wheel_def)
  obtain m j where a: "internal_add_timer t ?w1 = upd_tl (list_add_tail (Tm t) (Vec m j)) ?w1" "slot m j"
    "wheel c (internal_add_timer t ?w1) (put_slot m j (?L1 m j @ [t]) ?L1) (insert t P - {t})" "m = 1 \<or> 2 ^ lev_shift m \<le> delta ?w1 t"
    using internal_add_idle [OF w1 _ t1] Cons.prems(2) by auto
  let ?w2 = "internal_add_timer t ?w1" and ?L2 = "put_slot m j (?L1 m j @ [t]) ?L1"
  have lo: "lists_only w ?w2" unfolding a(1) by (simp add: lists_only_def)
  have dt: "delta ?w1 t < 2 ^ lev_shift n" "delta ?w2 u = delta w u" for u
    using Cons.prems(6) lo by (simp_all add: delta_def lists_only_def)
  have mn: "m < n"
  proof (rule ccontr)
    assume "\<not> m < n"
    then have "(2 :: nat) ^ lev_shift n \<le> 2 ^ lev_shift m" using lev_shift_mono [of n m] Cons.prems(4) by simp
    moreover have "m \<noteq> 1" using \<open>\<not> m < n\<close> Cons.prems(4) by simp
    ultimately show False using a(4) dt(1) by linarith
  qed
  have "t \<notin> P" using wheelD(5) [OF wh tL] .
  then have w2: "wheel c ?w2 ?L2 P" using a(3) by simp
  have L2: "?L2 n i = ts" using mn by (simp add: put_slot_sel)
  have ins: "in_slots ?L2 = in_slots L" unfolding in_slots_snoc by (rule in_slots_cons [where n = n and i = i]) (rule Cons.prems(5))
  obtain w' L' where ih: "cascade_loop (Vec n i) (hd (map Tm ts @ [Vec n i])) ?w2 = Some w'" "wheel c w' L' P" "L' n i = []"
    "in_slots L' = in_slots ?L2" "lists_only ?w2 w'" "queue_links ?w2 w'"
    using Cons.IH [OF w2 _ Cons.prems(3,4) L2] Cons.prems(2,6) lo dt(2) by (auto simp: lists_only_def)
  have "queue_links w ?w2"
  proof (unfold queue_links_def, rule impI)
    assume q: "dlist (tlists w) QueuedT []"
    have "dlist (list_del (Tm t) (tlists w)) QueuedT []" by (rule kl.frame_del [OF dl _ q]) auto
    then have "dlist (tlists ?w1) QueuedT []" by simp
    from kl.frame_add_tail [OF wheelD(1) [OF w1 a(2)] this, of "Tm t"] show "dlist (tlists ?w2) QueuedT []" unfolding a(1) by auto
  qed
  then have ql: "queue_links w w'" using ih(6) by (simp add: queue_links_def)
  have "cascade_loop (Vec n i) (hd (map Tm (t # ts) @ [Vec n i])) w = Some w'"
    using map_Tm_hd [OF Cons.prems(5,3) wh] ih(1) by (subst cascade_loop.simps) simp
  then show ?case using ih(2,3,4,5) ins ql lists_only_trans [OF lo] by blast
qed

lemma nat_mask: "(x :: nat) AND 63 = x mod 64" "x AND 255 = x mod 256"
proof -
  have "(63 :: nat) = mask 6" "(255 :: nat) = mask 8" by (simp_all add: mask_eq_exp_minus_1)
  then have "x AND 63 = take_bit 6 x" "x AND 255 = take_bit 8 x" by (simp_all only: take_bit_eq_mask)
  then show "x AND 63 = x mod 64" "x AND 255 = x mod 256" by (simp_all add: take_bit_eq_mod)
qed

lemma lev_shift_bound: "n \<in> {2..5} \<Longrightarrow> lev_shift n \<le> 26" "n \<in> {2..5} \<Longrightarrow> n + 1 \<le> 5 \<Longrightarrow> lev_shift (n + 1) = lev_shift n + 6"
  by (auto simp: lev_shift_def)

lemma aligned_index:
  assumes "J mod 2 ^ s = 0"
  shows "(J + 0 + 2 ^ s - 1) div 2 ^ s = J div (2 :: nat) ^ s" "(J + 1 + 2 ^ s - 1) div 2 ^ s = J div 2 ^ s + 1"
proof -
  obtain q where q: "J = 2 ^ s * q" using assms by (auto elim: dvdE)
  have "(2 ^ s - 1 + 2 ^ s * q) div 2 ^ s = q + (2 ^ s - 1) div (2 :: nat) ^ s" by (rule div_mult_self2) simp
  moreover have "J + 0 + 2 ^ s - 1 = 2 ^ s - 1 + 2 ^ s * q" using q by simp
  ultimately show "(J + 0 + 2 ^ s - 1) div 2 ^ s = J div 2 ^ s" using q by simp
  have "(J + 2 ^ s * 1) div 2 ^ s = 1 + J div 2 ^ s" by (rule div_mult_self2) simp
  then show "(J + 1 + 2 ^ s - 1) div 2 ^ s = J div 2 ^ s + 1" by simp
qed

text \<open>Cascading a vector at the time it is aligned to.\<close>
lemma cascade_timers_ok:
  assumes wh: "wheel c w L P" and r: "run_timer_list_running w = None" and n: "n \<in> {2..5}" "c n = 0"
    and J: "unat (timer_jiffies w) mod 2 ^ lev_shift n = 0"
  shows "\<exists>w' L'. cascade_timers n w = Some w' \<and> wheel (c(n := 1)) w' L' P \<and> in_slots L' = in_slots L \<and>
    expires w' = expires w \<and> timer_jiffies w' = timer_jiffies w \<and> run_timer_list_running w' = None \<and> now w' = now w \<and> queue_links w w' \<and>
    tv_index w' 1 = tv_index w 1 \<and> (tv_index w' n = 1 \<longleftrightarrow> unat (timer_jiffies w) mod 2 ^ (lev_shift n + 6) = 0)"
proof -
  let ?J = "unat (timer_jiffies w)" and ?s = "lev_shift n" and ?i = "tv_index w n"
  have s: "?s \<le> 26" using lev_shift_bound(1) n(1) .
  have i: "?i = ?J div 2 ^ ?s mod 64"
    using wheelD(7) [OF wh] n aligned_index(1) [OF J] unfolding index_ok_def by metis
  have sl: "slot n ?i" using n(1) i by (simp add: slot_def vec_size_def)
  have n2: "2 \<le> n" "n \<noteq> 1" using n(1) by auto
  have near: "\<forall>t\<in>set (L n ?i). delta w t < 2 ^ ?s"
  proof
    fix t assume t: "t \<in> set (L n ?i)"
    have "?i = unat (expires w t) div 2 ^ ?s mod 64" "delta w t < 2 ^ (?s + 6)"
      using wheelD(3) [OF wh t] n2 by (simp_all add: slot_ok_def Let_def)
    then show "delta w t < 2 ^ ?s" using cascade_near [OF s J expires_delta(1)] i by simp
  qed
  obtain w1 L' where w1: "cascade_loop (Vec n ?i) (hd (map Tm (L n ?i) @ [Vec n ?i])) w = Some w1" "wheel c w1 L' P" "L' n ?i = []"
    "in_slots L' = in_slots L" "lists_only w w1" "queue_links w w1"
    using cascade_loop_ok [OF wh r sl n2(1) refl near] by blast
  let ?w2 = "upd_tl (INIT_LIST_HEAD (Vec n ?i)) w1"
  let ?w' = "?w2\<lparr>tv_index := (tv_index w)(n := (?i + 1) AND 63)\<rparr>"
  have f: "expires w1 = expires w" "tv_index w1 = tv_index w" "timer_jiffies w1 = timer_jiffies w" "run_timer_list_running w1 = None" "now w1 = now w"
    using w1(5) r by (simp_all add: lists_only_def)
  have eq: "cascade_timers n w = Some ?w'"
    using w1(1) dlist_nxt_prv(1) [OF wheelD(1) [OF wh sl]] f by (simp add: cascade_timers_def Let_def)
  note D = wheelD [OF w1(2)]
  have new: "slot_ok (c(n := 1)) ?w' m j t" if t: "t \<in> set (L' m j)" for m j t
  proof (cases "m = n")
    case True
    have o: "j = unat (expires w t) div 2 ^ ?s mod 64" "unat (expires w t) mod 2 ^ ?s \<le> delta w t" "delta w t < 2 ^ (?s + 6)" "delta w t < 2 ^ 31"
      using D(3) [OF t] True n2 n(2) f by (simp_all add: slot_ok_def Let_def delta_def)
    have "unat (expires w t) mod 2 ^ ?s \<noteq> delta w t"
    proof
      assume e: "unat (expires w t) mod 2 ^ ?s = delta w t"
      then have "delta w t div 2 ^ ?s = 0" by (metis div_eq_0_iff mod_less_divisor zero_less_numeral zero_less_power)
      then have "(?J + delta w t) div 2 ^ ?s = ?J div 2 ^ ?s" using J by (metis add.right_neutral div_plus_div_distrib_dvd_left mod_0_imp_dvd)
      then have "j = ?i" using o(1) i wheel_mod(2) [OF s, of "?J + delta w t"] expires_delta(1) [of w t] by simp
      then show False using t True w1(3) by simp
    qed
    then show ?thesis using o True n2 f by (simp add: slot_ok_def Let_def delta_def)
  next
    case False
    then show ?thesis using D(3) [OF t] n2 f by (auto simp: slot_ok_def Let_def delta_def)
  qed
  have ix: "index_ok (c(n := 1)) ?w'"
  proof -
    have "(?i + 1) AND 63 = (?J + 1 + 2 ^ ?s - 1) div 2 ^ ?s mod 64"
      unfolding nat_mask aligned_index(2) [OF J] i by (simp add: mod_Suc_eq)
    then show ?thesis using D(7) n2 f by (auto simp: index_ok_def)
  qed
  have dl: "dlist (tlists ?w') (Vec m j) (map Tm (L' m j))" if "slot m j" for m j
    using D(1) [OF that] kl.frame_init [of "tlists w1" "Vec m j" "map Tm (L' m j)" "Vec n ?i"] kl.lst_init [of "Vec n ?i" "tlists w1"] w1(3)
    by (cases "m = n \<and> j = ?i") auto
  have "timer_pending t ?w' = timer_pending t w1" for t by (simp add: timer_pending_def INIT_LIST_HEAD_def Let_def)
  then have "wheel (c(n := 1)) ?w' L' P" using D(6) ix dl new by (intro wheelI) (auto simp: D(2) D(5) dest: D(4))
  moreover have "queue_links w ?w'"
    using w1(6) kl.frame_init [of "tlists w1" QueuedT "[]" "Vec n ?i"] by (auto simp: queue_links_def)
  moreover have "tv_index ?w' n = 1 \<longleftrightarrow> ?J mod 2 ^ (?s + 6) = 0"
  proof -
    have "tv_index ?w' n = (?J div 2 ^ ?s mod 64 + 1) mod 64" unfolding i by (simp add: nat_mask)
    moreover have "(x + 1) mod 64 = 1 \<longleftrightarrow> x = 0" if "x < 64" for x :: nat using that by (auto simp: mod_Suc)
    moreover have "?J mod 2 ^ (?s + 6) = 2 ^ ?s * (?J div 2 ^ ?s mod 64)" using J by (simp add: power_add mod_mult2_eq)
    ultimately show ?thesis by simp
  qed
  ultimately show ?thesis using eq w1(4) f n2 by (intro exI [of _ ?w'] exI [of _ L']) simp
qed

text \<open>A vector that need not be cascaded now counts as cascaded.\<close>
lemma wheel_raise:
  assumes wh: "wheel c w L P" and c: "\<forall>m\<in>{2..5}. c m = 1 \<or> unat (timer_jiffies w) mod 2 ^ lev_shift m \<noteq> 0"
  shows "wheel (\<lambda>_. 1) w L P"
proof -
  note D = wheelD [OF wh]
  let ?J = "unat (timer_jiffies w)"
  have "slot_ok (\<lambda>_. 1) w n i t" if t: "t \<in> set (L n i)" for n i t
  proof (cases "n = 1")
    case False
    have n: "n \<in> {2..5}" using D(2) [OF t] False by (simp add: slot_def)
    have o: "slot_ok c w n i t" by (rule D(3) [OF t])
    have c1: "c n \<le> 1" using D(7) n by (simp add: index_ok_def)
    show ?thesis
    proof (cases "c n = 1")
      case True
      then show ?thesis using o False by (simp add: slot_ok_def Let_def)
    next
      case f: False
      then have "?J mod 2 ^ lev_shift n \<noteq> 0" using c n by blast
      from unaligned(1) [OF lev_shift_bound(1) [OF n] this expires_delta(1)] show ?thesis
        using o False f c1 by (simp add: slot_ok_def Let_def)
    qed
  qed (use D(3) [OF t] in \<open>simp add: slot_ok_def\<close>)
  moreover have "index_ok (\<lambda>_. 1) w"
  proof -
    have "tv_index w n = (?J + 1 + 2 ^ lev_shift n - 1) div 2 ^ lev_shift n mod 64" if n: "n \<in> {2..5}" for n
    proof (cases "c n = 1")
      case True
      then show ?thesis using D(7) n unfolding index_ok_def by metis
    next
      case f: False
      then have "?J mod 2 ^ lev_shift n \<noteq> 0" "c n = 0" using c n D(7) by (auto simp: index_ok_def le_Suc_eq)
      from unaligned(2) [OF lev_shift_bound(1) [OF n] this(1) refl] this(2) show ?thesis
        using D(7) n unfolding index_ok_def by metis
    qed
    then show ?thesis using D(7) by (simp add: index_ok_def)
  qed
  ultimately show ?thesis using wh unfolding wheel_def by blast
qed

lemma mod_pow_0: "(J :: nat) mod 2 ^ b = 0 \<Longrightarrow> a \<le> b \<Longrightarrow> J mod 2 ^ a = 0"
  by (meson dvd_eq_mod_eq_0 dvd_trans le_imp_power_dvd)

lemma cascade_vecs_ok:
  assumes "wheel c w L P" "run_timer_list_running w = None" "n \<in> {2..5}" "\<forall>m\<in>{2..5}. c m = (if m < n then 1 else 0)"
    "unat (timer_jiffies w) mod 2 ^ lev_shift n = 0"
  shows "\<exists>w' L'. cascade_vecs n w = Some w' \<and> wheel (\<lambda>_. 1) w' L' P \<and> in_slots L' = in_slots L \<and>
    expires w' = expires w \<and> timer_jiffies w' = timer_jiffies w \<and> run_timer_list_running w' = None \<and> now w' = now w \<and> queue_links w w' \<and>
    tv_index w' 1 = tv_index w 1"
  using assms
proof (induction "5 - n" arbitrary: n c w L)
  case (0 n c w L)
  then have n: "n = 5" by simp
  obtain w1 L1 where w1: "cascade_timers n w = Some w1" "wheel (c(n := 1)) w1 L1 P" "in_slots L1 = in_slots L" "expires w1 = expires w"
    "timer_jiffies w1 = timer_jiffies w" "run_timer_list_running w1 = None" "now w1 = now w" "queue_links w w1" "tv_index w1 1 = tv_index w 1"
    using cascade_timers_ok [OF 0(2,3,4) _ 0(6)] 0(4,5) by auto
  have "wheel (\<lambda>_. 1) w1 L1 P" using wheel_raise [OF w1(2)] 0(5) n by auto
  moreover have "cascade_vecs n w = Some w1" using w1(1) n by (subst cascade_vecs.simps) simp
  ultimately show ?case using w1 by blast
next
  case (Suc k n c w L)
  have n: "n \<in> {2..5}" "n + 1 \<le> 5" "n + 1 \<in> {2..5}" using Suc(2,5) by auto
  obtain w1 L1 where w1: "cascade_timers n w = Some w1" "wheel (c(n := 1)) w1 L1 P" "in_slots L1 = in_slots L" "expires w1 = expires w"
    "timer_jiffies w1 = timer_jiffies w" "run_timer_list_running w1 = None" "now w1 = now w" "queue_links w w1" "tv_index w1 1 = tv_index w 1"
    and one: "tv_index w1 n = 1 \<longleftrightarrow> unat (timer_jiffies w) mod 2 ^ lev_shift (n + 1) = 0"
    using cascade_timers_ok [OF Suc(3,4,5) _ Suc(7)] Suc(5,6) lev_shift_bound(2) [OF n(1,2)] by auto
  show ?case
  proof (cases "tv_index w1 n = 1")
    case True
    have k: "k = 5 - (n + 1)" using Suc(2) by simp
    have c: "\<forall>m\<in>{2..5}. (c(n := 1)) m = (if m < n + 1 then 1 else 0)" using Suc(6) by auto
    have "unat (timer_jiffies w1) mod 2 ^ lev_shift (n + 1) = 0" using True one w1(5) by simp
    from Suc(1) [OF k w1(2,6) n(3) c this] obtain w2 L2 where w2: "cascade_vecs (n + 1) w1 = Some w2" "wheel (\<lambda>_. 1) w2 L2 P" "in_slots L2 = in_slots L1" "expires w2 = expires w1"
      "timer_jiffies w2 = timer_jiffies w1" "run_timer_list_running w2 = None" "now w2 = now w1" "queue_links w1 w2" "tv_index w2 1 = tv_index w1 1"
      by blast
    have "cascade_vecs n w = Some w2" using w1(1) w2(1) True n(2) by (subst cascade_vecs.simps) simp
    then show ?thesis using w1 w2 by (auto simp: queue_links_def)
  next
    case False
    have "unat (timer_jiffies w1) mod 2 ^ lev_shift m \<noteq> 0" if "m \<in> {2..5}" "n < m" for m
      using mod_pow_0 [of "unat (timer_jiffies w1)" "lev_shift m" "lev_shift (n + 1)"] lev_shift_mono [of "n + 1" m] that one False w1(5) by auto
    then have "wheel (\<lambda>_. 1) w1 L1 P" using Suc(6) by (intro wheel_raise [OF w1(2)]) auto
    moreover have "cascade_vecs n w = Some w1" using w1(1) False by (subst cascade_vecs.simps) simp
    ultimately show ?thesis using w1 by blast
  qed
qed

section \<open>Running the timers of a slot\<close>

text \<open>
  A handler that may start timers that are not pending but neither changes nor deletes one that waits in the
  wheel. During a run the timers it starts go to the local list.
\<close>
definition arming :: "(nat \<Rightarrow> timers \<Rightarrow> timers) \<Rightarrow> bool" where
  "arming fn = (\<forall>t c w L Q. wheel c w L (set Q) \<longrightarrow> queue w Q \<longrightarrow> t \<notin> in_slots L \<longrightarrow>
     (\<exists>Q'. wheel c (fn t w) L (set Q') \<and> queue (fn t w) Q' \<and> (\<forall>u\<in>in_slots L. expires (fn t w) u = expires w u) \<and>
       tv_index (fn t w) = tv_index w \<and> timer_jiffies (fn t w) = timer_jiffies w \<and> now (fn t w) = now w))"

lemma run_slot_ok:
  assumes "arming fn" "wheel c w L (set Q)" "queue w Q" "slot 1 (tv_index w 1)" "L 1 (tv_index w 1) = ts"
  shows "\<exists>w' Q'. run_slot fn w = Some (ts, w') \<and> wheel c w' (put_slot 1 (tv_index w 1) [] L) (set Q') \<and> queue w' Q' \<and>
    (\<forall>u\<in>in_slots (put_slot 1 (tv_index w 1) [] L). expires w' u = expires w u) \<and>
    tv_index w' = tv_index w \<and> timer_jiffies w' = timer_jiffies w \<and> now w' = now w"
  using assms(2-)
proof (induction ts arbitrary: w L Q)
  case Nil
  have "put_slot 1 (tv_index w 1) [] L = L" using Nil.prems(4) by (intro ext) (simp add: put_slot_sel)
  moreover have "nxt (tlists w) (Vec 1 (tv_index w 1)) = Vec 1 (tv_index w 1)"
    using dlist_nxt_prv(1) [OF wheelD(1) [OF Nil.prems(1,3)]] Nil.prems(4) by simp
  ultimately show ?case using Nil.prems(1,2) by (subst run_slot.simps) auto
next
  case (Cons t ts)
  note wh = Cons.prems(1)
  let ?i = "tv_index w 1" and ?w1 = "upd_tl (list_del (Tm t)) w" and ?L1 = "put_slot 1 (tv_index w 1) ts L"
  have tL: "t \<in> set (L 1 ?i)" using Cons.prems(4) by simp
  have dl: "dlist (tlists w) (Vec 1 ?i) (map Tm (t # ts))" using wheelD(1) [OF wh Cons.prems(3)] Cons.prems(4) by simp
  then have "t \<notin> set ts" by (auto simp: dlist_def)
  then have "removeAll t (L 1 ?i) = ts" using Cons.prems(4) by simp
  then have w1: "wheel c ?w1 ?L1 (insert t (set Q))" using wheel_take [OF wh tL] by simp
  have t1: "t \<notin> in_slots ?L1" "t \<notin> set Q" using w1 wheelD(5) [OF wh tL] by (auto simp: wheel_def)
  let ?w2 = "clear_links t ?w1"
  have w2: "wheel c ?w2 ?L1 (set Q)" using wheel_clear [OF w1 t1(1)] t1(2) by simp
  have q0: "dlist (tlists w) QueuedT (map Tm Q)" "run_timer_list_running w = Some QueuedT" using Cons.prems(2) by (simp_all add: queue_def)
  have qd: "Tm x \<notin> set (map Tm Q)" if "x \<in> set (L 1 ?i)" for x using wheelD(5) [OF wh that] by auto
  have "dlist (list_del (Tm t) (tlists w)) QueuedT (map Tm Q)"
    by (rule kl.frame_del [OF dl _ q0(1)]) (use qd Cons.prems(4) in auto)
  then have q2: "queue ?w2 Q" using q0(2) t1(2) dlist_clear [of t QueuedT "map Tm Q" ?w1] by (auto simp: queue_def)
  from assms(1) [unfolded arming_def, rule_format, OF w2 q2 t1(1)] obtain Q3 where w3: "wheel c (fn t ?w2) ?L1 (set Q3)" "queue (fn t ?w2) Q3"
    "\<forall>u\<in>in_slots ?L1. expires (fn t ?w2) u = expires w u" "tv_index (fn t ?w2) = tv_index w" "timer_jiffies (fn t ?w2) = timer_jiffies w"
    "now (fn t ?w2) = now w"
    by auto
  let ?w3 = "fn t ?w2"
  have i3: "tv_index ?w3 1 = ?i" using w3(4) by simp
  have L1: "?L1 1 ?i = ts" "put_slot 1 ?i [] ?L1 = put_slot 1 ?i [] L" by (auto simp: put_slot_sel put_slot_def)
  from Cons.IH [OF w3(1,2), unfolded i3, OF Cons.prems(3) L1(1), unfolded L1(2)] obtain w' Q' where
    ih: "run_slot fn ?w3 = Some (ts, w')" "wheel c w' (put_slot 1 ?i [] L) (set Q')" "queue w' Q'"
      "\<forall>u\<in>in_slots (put_slot 1 ?i [] L). expires w' u = expires ?w3 u" "tv_index w' = tv_index ?w3" "timer_jiffies w' = timer_jiffies ?w3"
      "now w' = now ?w3" by blast
  have hd: "nxt (tlists w) (Vec 1 ?i) = Tm t" using dlist_nxt_prv(1) [OF dl] by simp
  have "run_slot fn w = Some (t # ts, w')"
    using hd ih(1) detach_pending [OF wh tL] by (subst run_slot.simps) simp
  moreover have "in_slots (put_slot 1 ?i [] L) \<subseteq> in_slots ?L1" by (auto simp: in_put_slot)
  ultimately show ?case using ih w3 by (intro exI [of _ w'] exI [of _ Q']) auto
qed

section \<open>The timers added during a run\<close>

primrec queue_path :: "tnode lheap \<Rightarrow> nat list \<Rightarrow> bool" where
  "queue_path h [] = True"
| "queue_path h (t # ts) = (nxt h (Tm t) = hd (map Tm ts @ [QueuedT]) \<and> queue_path h ts)"

lemma queue_path_chain: "chain h a (map Tm ts) QueuedT \<Longrightarrow> queue_path h ts"
proof (induction ts arbitrary: a)
  case (Cons t ts)
  then have "chain h (Tm t) (map Tm ts) QueuedT" by simp
  with Cons chain_ends(1) [OF this] show ?case by simp
qed simp

lemma queue_path_cong: "(\<And>t. t \<in> set ts \<Longrightarrow> nxt h' (Tm t) = nxt h (Tm t)) \<Longrightarrow> queue_path h ts \<Longrightarrow> queue_path h' ts"
  by (induction ts) auto

lemma requeue_ok:
  assumes "wheel c w L (set ts)" "run_timer_list_running w = None" "queue_path (tlists w) ts" "distinct ts"
  shows "\<exists>w' L'. requeue (hd (map Tm ts @ [QueuedT])) w = Some w' \<and> wheel c w' L' {} \<and> in_slots L' = in_slots L \<union> set ts \<and> lists_only w w'"
  using assms
proof (induction ts arbitrary: w L)
  case Nil
  then show ?case by (subst requeue.simps) auto
next
  case (Cons t ts)
  note wh = Cons.prems(1)
  have t: "t \<notin> in_slots L" using wh by (auto simp: wheel_def)
  obtain n i where a: "internal_add_timer t w = upd_tl (list_add_tail (Tm t) (Vec n i)) w" "slot n i"
    "wheel c (internal_add_timer t w) (put_slot n i (L n i @ [t]) L) (set (t # ts) - {t})"
    using internal_add_idle [OF wh Cons.prems(2) t] by blast
  let ?w = "internal_add_timer t w" and ?L = "put_slot n i (L n i @ [t]) L"
  have "set (t # ts) - {t} = set ts" using Cons.prems(4) by auto
  then have w1: "wheel c ?w ?L (set ts)" using a(3) by simp
  have lst: "prv (tlists w) (Vec n i) = last (Vec n i # map Tm (L n i))" using dlist_nxt_prv(2) [OF wheelD(1) [OF wh a(2)]] .
  have "Tm u \<noteq> prv (tlists w) (Vec n i)" if u: "u \<in> set ts" for u
  proof
    assume "Tm u = prv (tlists w) (Vec n i)"
    then have "u \<in> set (L n i)" using lst by (cases "L n i" rule: rev_cases) auto
    then show False using wheelD(5) [OF wh] u by auto
  qed
  then have "nxt (tlists ?w) (Tm u) = nxt (tlists w) (Tm u)" if "u \<in> set ts" for u
    using that Cons.prems(4) unfolding a(1) by (auto simp: list_add_tail_def list_add_raw_sel)
  then have q: "queue_path (tlists ?w) ts" using queue_path_cong [of ts "tlists ?w" "tlists w"] Cons.prems(3) by simp
  have lo: "lists_only w ?w" unfolding a(1) by simp
  have r: "run_timer_list_running ?w = None" and ds: "distinct ts" using lo Cons.prems(2,4) by (simp_all add: lists_only_def)
  obtain w' L' where ih: "requeue (hd (map Tm ts @ [QueuedT])) ?w = Some w'" "wheel c w' L' {}" "in_slots L' = in_slots ?L \<union> set ts" "lists_only ?w w'"
    using Cons.IH [OF w1 r q ds] by blast
  have "requeue (hd (map Tm (t # ts) @ [QueuedT])) w = Some w'"
    using ih(1) Cons.prems(3) by (subst requeue.simps) simp
  then show ?case using ih lists_only_trans [OF lo] by (auto simp: in_slots_snoc)
qed

section \<open>One tick of the wheel\<close>

text \<open>The state between two runs.\<close>
definition wheel_ok :: "timers \<Rightarrow> bool" where
  "wheel_ok w = (run_timer_list_running w = None \<and> (\<exists>L. wheel (\<lambda>_. 0) w L {}))"

text \<open>The current slot holds exactly the timers that are due.\<close>
lemma slot_due:
  assumes wh: "wheel (\<lambda>_. 1) w L P" and t: "t \<in> in_slots L"
  shows "due w t \<longleftrightarrow> t \<in> set (L 1 (tv_index w 1))"
proof -
  obtain n i where ni: "t \<in> set (L n i)" using t by (auto simp: in_slots_def)
  have o: "slot_ok (\<lambda>_. 1) w n i t" by (rule wheelD(3) [OF wh ni])
  have ix: "tv_index w 1 = unat (timer_jiffies w) mod 256" using wheelD(7) [OF wh] by (simp add: index_ok_def)
  have same: "t \<in> set (L 1 (tv_index w 1)) \<longleftrightarrow> n = 1 \<and> i = tv_index w 1" using wheelD(4) [OF wh ni, of 1 "tv_index w 1"] ni by blast
  show ?thesis
  proof (cases "n = 1")
    case True
    have e: "unat (expires w t) mod 256 = (unat (timer_jiffies w) + delta w t) mod 256"
      using wheel_mod(1) [of 8 "unat (timer_jiffies w) + delta w t"] expires_delta(1) [of w t] by simp
    have "delta w t = 0" if "delta w t < 256" "unat (expires w t) mod 256 = unat (timer_jiffies w) mod 256"
    proof -
      have "(a + b) mod 256 = a mod 256 \<Longrightarrow> b mod 256 = 0" for a b :: nat using mod_eq_dvd_iff_nat [of a "a + b" 256] by auto
      moreover have "(unat (timer_jiffies w) + delta w t) mod 256 = unat (timer_jiffies w) mod 256" using that(2) e by argo
      ultimately have "delta w t mod 256 = 0" by blast
      then show ?thesis using that(1) by simp
    qed
    then show ?thesis using o True e ix unfolding same by (auto simp: slot_ok_def Let_def due_def)
  next
    case False
    then show ?thesis using o unfolding same by (auto simp: slot_ok_def Let_def due_def)
  qed
qed

text \<open>When the current slot is empty the time of the wheel can go on.\<close>
lemma wheel_tick:
  assumes wh: "wheel (\<lambda>_. 1) w L P" and e: "L 1 (tv_index w 1) = []"
    and w': "timer_jiffies w' = timer_jiffies w + 1" "tv_index w' = (tv_index w)(1 := (tv_index w 1 + 1) AND 255)" "tlists w' = tlists w" "expires w' = expires w"
  shows "wheel (\<lambda>_. 0) w' L P"
proof -
  note D = wheelD [OF wh]
  let ?J = "unat (timer_jiffies w)"
  have J': "unat (timer_jiffies w') = (?J + 1) mod 2 ^ 32" using w'(1) by (simp add: unat_word_ariths)
  have dl: "delta w' t = delta w t - 1" if "delta w t \<noteq> 0" for t
  proof -
    have "expires w' t - timer_jiffies w' = (expires w t - timer_jiffies w) - 1" using w' by simp
    moreover have "expires w t - timer_jiffies w \<noteq> 0" using that by (auto simp: delta_def)
    ultimately show ?thesis unfolding delta_def by (simp add: unat_minus_one)
  qed
  have "slot_ok (\<lambda>_. 0) w' n i t" if t: "t \<in> set (L n i)" for n i t
  proof -
    have "\<not> due w t" using slot_due [OF wh, of t] t e by (auto simp: in_slots_def)
    then have d: "delta w t \<noteq> 0" "delta w t < 2 ^ 31" by (auto simp: due_def)
    show ?thesis using D(3) [OF t] dl [OF d(1)] d w' by (auto simp: slot_ok_def Let_def)
  qed
  moreover have "index_ok (\<lambda>_. 0) w'"
  proof -
    have "tv_index w' n = (unat (timer_jiffies w') + 0 + 2 ^ lev_shift n - 1) div 2 ^ lev_shift n mod 64" if n: "n \<in> {2..5}" for n
    proof -
      let ?s = "lev_shift n"
      have s: "?s \<le> 26" by (rule lev_shift_bound(1) [OF n])
      have i: "tv_index w' n = (?J + 1 + 2 ^ ?s - 1) div 2 ^ ?s mod 64" using D(7) n w'(2) unfolding index_ok_def by auto
      show ?thesis
      proof (cases "?J + 1 < 2 ^ 32")
        case True
        then show ?thesis using i J' by simp
      next
        case False
        moreover have "?J < 2 ^ 32" using unsigned_less [of "timer_jiffies w"] by simp
        ultimately have J: "?J + 1 = 2 ^ 32" by linarith
        have z: "(2 ^ 32 + 0 + 2 ^ ?s - 1) div 2 ^ ?s mod 64 = (0 :: nat)"
          using aligned_index(1) [of "2 ^ 32" ?s] wheel_mod [OF s, of "2 ^ 32"] by simp
        have "?J + 1 + 2 ^ ?s - 1 = 2 ^ 32 + 0 + 2 ^ ?s - 1" using J by simp
        then have "tv_index w' n = 0" using i z by simp
        then show ?thesis using J' J by simp
      qed
    qed
    moreover have "tv_index w' 1 = unat (timer_jiffies w') mod 256"
      using D(7) w'(2) J' by (simp add: index_ok_def nat_mask mod_Suc_eq mod_mod_cancel)
    ultimately show ?thesis by (simp add: index_ok_def)
  qed
  moreover have "timer_pending t w' = timer_pending t w" for t using w'(3) by (simp add: timer_pending_def)
  ultimately show ?thesis using wh w'(3) unfolding wheel_def by simp
qed

lemma cascade_phase_ok:
  assumes wh: "wheel (\<lambda>_. 0) w L {}" and r: "run_timer_list_running w = None" and q: "dlist (tlists w) QueuedT []"
  shows "\<exists>w' L'. cascade_phase w = Some w' \<and> wheel (\<lambda>_. 1) w' L' {} \<and> in_slots L' = in_slots L \<and> expires w' = expires w \<and>
    timer_jiffies w' = timer_jiffies w \<and> now w' = now w \<and> tv_index w' 1 = tv_index w 1 \<and> dlist (tlists w') QueuedT []"
proof -
  have ix: "tv_index w 1 = unat (timer_jiffies w) mod 256" using wheelD(7) [OF wh] by (simp add: index_ok_def)
  have sh: "lev_shift 2 = 8" by (simp add: lev_shift_def)
  show ?thesis
  proof (cases "tv_index w 1 = 0")
    case True
    then have J: "unat (timer_jiffies w) mod 2 ^ lev_shift 2 = 0" using ix sh by simp
    from cascade_vecs_ok [OF wh r _ _ J] obtain w' L' where "cascade_vecs 2 w = Some w'" "wheel (\<lambda>_. 1) w' L' {}" "in_slots L' = in_slots L"
      "expires w' = expires w" "timer_jiffies w' = timer_jiffies w" "now w' = now w" "queue_links w w'" "tv_index w' 1 = tv_index w 1"
      by auto
    then show ?thesis using True q by (auto simp: cascade_phase_def queue_links_def)
  next
    case False
    have "unat (timer_jiffies w) mod 2 ^ lev_shift m \<noteq> 0" if "m \<in> {2..5}" for m
      using mod_pow_0 [of "unat (timer_jiffies w)" "lev_shift m" 8] lev_shift_mono [of 2 m] that sh False ix by auto
    then have "wheel (\<lambda>_. 1) w L {}" by (intro wheel_raise [OF wh]) blast
    then show ?thesis using False q by (auto simp: cascade_phase_def)
  qed
qed

lemma run_timer_step_ok:
  assumes ok: "wheel_ok w" and fn: "arming fn"
  shows "\<exists>ts w'. run_timer_step fn w = Some (ts, w') \<and> wheel_ok w' \<and> timer_jiffies w' = timer_jiffies w + 1 \<and> now w' = now w \<and>
    distinct ts \<and> set ts = {t. timer_pending t w \<and> due w t} \<and>
    (\<forall>t. timer_pending t w \<and> \<not> due w t \<longrightarrow> timer_pending t w' \<and> expires w' t = expires w t)"
proof -
  obtain L where wh: "wheel (\<lambda>_. 0) w L {}" and r: "run_timer_list_running w = None" using ok by (auto simp: wheel_ok_def)
  let ?w0 = "upd_tl (INIT_LIST_HEAD QueuedT) w"
  have w0: "wheel (\<lambda>_. 0) ?w0 L {}"
  proof -
    have "dlist (tlists ?w0) (Vec n i) (map Tm (L n i)) = dlist (tlists w) (Vec n i) (map Tm (L n i))" for n i
      using dlist_frame_init [of QueuedT "Vec n i" "map Tm (L n i)" "tlists w"] by auto
    moreover have "slot_ok c ?w0 n i t = slot_ok c w n i t" "index_ok c ?w0 = index_ok c w" for c n i t using ok_cong [of ?w0 w] by simp_all
    moreover have "timer_pending t ?w0 = timer_pending t w" for t by (simp add: timer_pending_def INIT_LIST_HEAD_def Let_def)
    ultimately show ?thesis using wh unfolding wheel_def by simp
  qed
  have "dlist (tlists ?w0) QueuedT []" using kl.lst_init by simp
  from cascade_phase_ok [OF w0 _ this] r obtain w1 L1 where w1: "cascade_phase ?w0 = Some w1" "wheel (\<lambda>_. 1) w1 L1 {}" "in_slots L1 = in_slots L"
    "expires w1 = expires w" "timer_jiffies w1 = timer_jiffies w" "now w1 = now w" "tv_index w1 1 = tv_index w 1" "dlist (tlists w1) QueuedT []" by auto
  let ?w2 = "w1\<lparr>run_timer_list_running := Some QueuedT\<rparr>" and ?i = "tv_index w1 1"
  have w2: "wheel (\<lambda>_. 1) ?w2 L1 (set [])" "queue ?w2 []"
  proof -
    have "slot_ok c ?w2 n i t = slot_ok c w1 n i t" "index_ok c ?w2 = index_ok c w1" for c n i t using ok_cong [of ?w2 w1] by simp_all
    then show "wheel (\<lambda>_. 1) ?w2 L1 (set [])" using w1(2) unfolding wheel_def by (simp add: timer_pending_def)
  qed (use w1(8) in \<open>simp add: queue_def\<close>)
  have sl: "slot 1 ?i" using wheelD(7) [OF w1(2)] by (simp add: index_ok_def slot_def vec_size_def)
  let ?ts = "L1 1 ?i" and ?L3 = "put_slot 1 ?i [] L1"
  from run_slot_ok [OF fn w2, of ?ts] sl obtain w3 Q where w3: "run_slot fn ?w2 = Some (?ts, w3)" "wheel (\<lambda>_. 1) w3 ?L3 (set Q)" "queue w3 Q"
    "\<forall>u\<in>in_slots ?L3. expires w3 u = expires w1 u" "tv_index w3 = tv_index w1" "timer_jiffies w3 = timer_jiffies w1" "now w3 = now w1" by auto
  let ?w4 = "w3\<lparr>run_timer_list_running := None, timer_jiffies := timer_jiffies w3 + 1, tv_index := (tv_index w3)(1 := (tv_index w3 1 + 1) AND 255)\<rparr>"
  have w4: "wheel (\<lambda>_. 0) ?w4 ?L3 (set Q)" by (rule wheel_tick [OF w3(2)]) (use w3(5) in \<open>simp_all add: put_slot_sel\<close>)
  have dq: "dlist (tlists w3) QueuedT (map Tm Q)" using w3(3) by (simp add: queue_def)
  then have "queue_path (tlists ?w4) Q" "distinct Q" by (auto simp: dlist_def distinct_map intro: queue_path_chain)
  from requeue_ok [OF w4 _ this] obtain w' L' where w': "requeue (hd (map Tm Q @ [QueuedT])) ?w4 = Some w'" "wheel (\<lambda>_. 0) w' L' {}"
    "in_slots L' = in_slots ?L3 \<union> set Q" "lists_only ?w4 w'" by auto
  have "nxt (tlists w3) QueuedT = hd (map Tm Q @ [QueuedT])" using dlist_nxt_prv(1) [OF dq] .
  then have run: "run_timer_step fn w = Some (?ts, w')"
    using w1(1) w3(1) w'(1) unfolding run_timer_step_def by simp
  have pend: "timer_pending t w \<longleftrightarrow> t \<in> in_slots L1" for t using wheelD(6) [OF wh, of t] w1(3) by simp
  have du: "due w1 t = due w t" for t using w1(4,5) by (simp add: due_def delta_def)
  have ts: "set ?ts = {t. timer_pending t w \<and> due w t}"
    using slot_due [OF w1(2)] pend du by (auto simp: in_slots_def)
  have keep: "timer_pending t w' \<and> expires w' t = expires w t" if "timer_pending t w \<and> \<not> due w t" for t
  proof -
    have "t \<in> in_slots ?L3" using that pend [of t] slot_due [OF w1(2), of t] du [of t] unfolding in_put_slot in_slots_iff [of t L1 1 ?i] by blast
    then show ?thesis using w3(4) w'(3,4) w1(4) wheelD(6) [OF w'(2), of t] by (simp add: lists_only_def)
  qed
  have "distinct ?ts" using wheelD(1) [OF w1(2) sl] by (auto simp: dlist_def distinct_map)
  moreover have "wheel_ok w'" "timer_jiffies w' = timer_jiffies w + 1" "now w' = now w"
    using w'(2,4) w3(6,7) w1(5,6) by (auto simp: wheel_ok_def lists_only_def)
  ultimately show ?thesis using run ts keep by blast
qed

section \<open>Starting, changing and deleting timers\<close>

lemma wheel_expires:
  assumes "wheel c w L P" "t \<notin> in_slots L"
  shows "wheel c (w\<lparr>expires := (expires w)(t := e)\<rparr>) L P"
proof -
  let ?w = "w\<lparr>expires := (expires w)(t := e)\<rparr>"
  have "slot_ok c ?w n i u = slot_ok c w n i u" if "u \<in> set (L n i)" for n i u
    by (rule ok_cong(1)) (use assms(2) that in \<open>auto simp: in_slots_def\<close>)
  moreover have "index_ok c ?w = index_ok c w" by (rule ok_cong(2)) simp_all
  ultimately show ?thesis using assms(1) unfolding wheel_def by (simp add: timer_pending_def)
qed

lemma wheel_ok_now: "wheel_ok (w\<lparr>now := x\<rparr>) = wheel_ok w"
proof -
  have "slot_ok c (w\<lparr>now := x\<rparr>) n i t = slot_ok c w n i t" "index_ok c (w\<lparr>now := x\<rparr>) = index_ok c w" for c n i t
    using ok_cong [of "w\<lparr>now := x\<rparr>" w] by simp_all
  then show ?thesis by (simp add: wheel_ok_def wheel_def timer_pending_def)
qed

lemma internal_add_ok:
  assumes wh: "wheel (\<lambda>_. 0) w L P" and r: "run_timer_list_running w = None" and t: "t \<notin> in_slots L" and P: "P \<subseteq> {t}"
  shows "wheel_ok (internal_add_timer t w)" "timer_pending u (internal_add_timer t w) \<longleftrightarrow> u = t \<or> timer_pending u w"
    "lists_only w (internal_add_timer t w)"
proof -
  obtain n i where a: "internal_add_timer t w = upd_tl (list_add_tail (Tm t) (Vec n i)) w"
    "wheel (\<lambda>_. 0) (internal_add_timer t w) (put_slot n i (L n i @ [t]) L) (P - {t})"
    using internal_add_idle [OF wh r t] by blast
  have "P - {t} = {}" using P by auto
  then have w': "wheel (\<lambda>_. 0) (internal_add_timer t w) (put_slot n i (L n i @ [t]) L) {}" using a(2) by metis
  show lo: "lists_only w (internal_add_timer t w)" unfolding a(1) by simp
  show "wheel_ok (internal_add_timer t w)" using w' lo r by (auto simp: wheel_ok_def lists_only_def)
  show "timer_pending u (internal_add_timer t w) \<longleftrightarrow> u = t \<or> timer_pending u w"
    using wheelD(6) [OF w', of u] wheelD(6) [OF wh, of u] P by (auto simp: in_slots_snoc)
qed

lemma add_timer_ok:
  assumes "wheel_ok w"
  shows "wheel_ok (add_timer t w)" "timer_pending u (add_timer t w) \<longleftrightarrow> u = t \<or> timer_pending u w"
proof -
  obtain L where wh: "wheel (\<lambda>_. 0) w L {}" and r: "run_timer_list_running w = None" using assms by (auto simp: wheel_ok_def)
  note I = internal_add_ok [OF wh r, of t]
  show "wheel_ok (add_timer t w)" using assms I(1) wheelD(6) [OF wh, of t] by (simp add: add_timer_def)
  show "timer_pending u (add_timer t w) \<longleftrightarrow> u = t \<or> timer_pending u w"
    using I(2) [of u] wheelD(6) [OF wh, of t] by (auto simp: add_timer_def)
qed

text \<open>A detached timer is in no slot; only its links may still be set.\<close>
lemma detach_timer_ok:
  assumes wh: "wheel c w L {}"
  shows "\<exists>L' P. wheel c (snd (detach_timer t w)) L' P \<and> P \<subseteq> {t} \<and> t \<notin> in_slots L' \<and>
    (\<forall>u. u \<noteq> t \<longrightarrow> (u \<in> in_slots L' \<longleftrightarrow> timer_pending u w)) \<and> lists_only w (snd (detach_timer t w)) \<and> fst (detach_timer t w) = timer_pending t w"
proof (cases "timer_pending t w")
  case True
  then obtain n i where t: "t \<in> set (L n i)" using wheelD(6) [OF wh, of t] by (auto simp: in_slots_def)
  let ?L = "put_slot n i (removeAll t (L n i)) L"
  have w': "wheel c (upd_tl (list_del (Tm t)) w) ?L {t}" using wheel_take [OF wh t] by simp
  then have "t \<notin> in_slots ?L" by (auto simp: wheel_def)
  moreover have "u \<in> in_slots ?L \<longleftrightarrow> timer_pending u w" if "u \<noteq> t" for u
    using that wheelD(6) [OF wh, of u] unfolding in_put_slot in_slots_iff [of u L n i] by simp
  moreover have "detach_timer t w = (True, upd_tl (list_del (Tm t)) w)" by (rule detach_pending [OF wh t])
  ultimately show ?thesis using w' True by (intro exI [of _ ?L] exI [of _ "{t}"]) auto
next
  case False
  then show ?thesis using wh wheelD(6) [OF wh] by (intro exI [of _ L] exI [of _ "{}"]) (auto simp: detach_timer_def)
qed

lemma mod_timer_ok:
  assumes "wheel_ok w"
  shows "fst (mod_timer t e w) = timer_pending t w" "wheel_ok (snd (mod_timer t e w))"
    "timer_pending u (snd (mod_timer t e w)) \<longleftrightarrow> u = t \<or> timer_pending u w" "expires (snd (mod_timer t e w)) = (expires w)(t := e)"
    "timer_jiffies (snd (mod_timer t e w)) = timer_jiffies w"
proof -
  obtain L where wh: "wheel (\<lambda>_. 0) w L {}" and r: "run_timer_list_running w = None" using assms by (auto simp: wheel_ok_def)
  let ?e = "\<lambda>w. w\<lparr>expires := (expires w)(t := e)\<rparr>"
  obtain L' P where d: "wheel (\<lambda>_. 0) (snd (detach_timer t w)) L' P" "P \<subseteq> {t}" "t \<notin> in_slots L'" "\<forall>u. u \<noteq> t \<longrightarrow> (u \<in> in_slots L' \<longleftrightarrow> timer_pending u w)"
    "lists_only w (snd (detach_timer t w))" "fst (detach_timer t w) = timer_pending t w"
    using detach_timer_ok [OF wh] by blast
  have c: "detach_timer t (?e w) = (fst (detach_timer t w), ?e (snd (detach_timer t w)))"
    by (simp add: detach_timer_def timer_pending_def upd_tl_def)
  let ?w = "?e (snd (detach_timer t w))"
  have m: "mod_timer t e w = (timer_pending t w, internal_add_timer t ?w)" by (simp add: mod_timer_def c d(6))
  have r': "run_timer_list_running ?w = None" using d(5) r by (simp add: lists_only_def)
  note I = internal_add_ok [OF wheel_expires [OF d(1,3)] r' d(3,2)]
  show "fst (mod_timer t e w) = timer_pending t w" "wheel_ok (snd (mod_timer t e w))" using I(1) by (simp_all add: m)
  show "timer_pending u (snd (mod_timer t e w)) \<longleftrightarrow> u = t \<or> timer_pending u w"
    using I(2) [of u] d(2,4) wheelD(6) [OF wheel_expires [OF d(1,3)], of u] by (auto simp: m)
  show "expires (snd (mod_timer t e w)) = (expires w)(t := e)" "timer_jiffies (snd (mod_timer t e w)) = timer_jiffies w"
    using I(3) d(5) by (simp_all add: m lists_only_def)
qed

lemma del_timer_ok:
  assumes "wheel_ok w"
  shows "fst (del_timer t w) = timer_pending t w" "wheel_ok (snd (del_timer t w))"
    "timer_pending u (snd (del_timer t w)) \<longleftrightarrow> u \<noteq> t \<and> timer_pending u w"
proof -
  obtain L where wh: "wheel (\<lambda>_. 0) w L {}" and r: "run_timer_list_running w = None" using assms by (auto simp: wheel_ok_def)
  obtain L' P where d: "wheel (\<lambda>_. 0) (snd (detach_timer t w)) L' P" "P \<subseteq> {t}" "t \<notin> in_slots L'" "\<forall>u. u \<noteq> t \<longrightarrow> (u \<in> in_slots L' \<longleftrightarrow> timer_pending u w)"
    "lists_only w (snd (detach_timer t w))" "fst (detach_timer t w) = timer_pending t w"
    using detach_timer_ok [OF wh] by blast
  have e: "del_timer t w = (timer_pending t w, clear_links t (snd (detach_timer t w)))" using d(6) by (simp add: del_timer_def case_prod_beta)
  have "P - {t} = {}" using d(2) by auto
  then have w': "wheel (\<lambda>_. 0) (snd (del_timer t w)) L' {}" using wheel_clear [OF d(1,3)] unfolding e snd_conv by metis
  show "fst (del_timer t w) = timer_pending t w" by (simp add: e)
  show "wheel_ok (snd (del_timer t w))" using w' d(5) r by (auto simp: wheel_ok_def e lists_only_def)
  show "timer_pending u (snd (del_timer t w)) \<longleftrightarrow> u \<noteq> t \<and> timer_pending u w"
    using wheelD(6) [OF w', of u] d(3,4) by auto
qed

section \<open>A whole run\<close>

lemma delta_step:
  assumes "expires w' t = expires w t" "timer_jiffies w' = timer_jiffies w + 1" "delta w t \<noteq> 0"
  shows "delta w' t = delta w t - 1"
proof -
  have "expires w' t - timer_jiffies w' = (expires w t - timer_jiffies w) - 1" using assms by simp
  moreover have "expires w t - timer_jiffies w \<noteq> 0" using assms(3) by (auto simp: delta_def)
  ultimately show ?thesis unfolding delta_def by (simp add: unat_minus_one)
qed

text \<open>The first \<open>n\<close> rounds of a service, and what they do to the timers that were pending at the beginning.\<close>
primrec rounds :: "('s \<Rightarrow> (nat list \<times> 's) option) \<Rightarrow> nat \<Rightarrow> 's \<Rightarrow> (nat list list \<times> 's) option" where
  "rounds step 0 s = Some ([], s)"
| "rounds step (Suc n) s = do { (ts, s) \<leftarrow> step s; (tss, s) \<leftarrow> rounds step n s; Some (ts # tss, s) }"

definition served :: "(nat \<Rightarrow> 's \<Rightarrow> bool) \<Rightarrow> ('s \<Rightarrow> nat \<Rightarrow> nat) \<Rightarrow> ('s \<Rightarrow> nat \<Rightarrow> u32) \<Rightarrow> 's \<Rightarrow> nat list list \<Rightarrow> 's \<Rightarrow> bool" where
  "served pend left ex s tss s' = (\<forall>t. pend t s \<longrightarrow>
     (left s t < length tss \<longrightarrow> t \<in> set (tss ! left s t)) \<and>
     (2 ^ 31 \<le> left s t \<and> tss \<noteq> [] \<longrightarrow> t \<in> set (tss ! 0)) \<and>
     (length tss \<le> left s t \<and> left s t < 2 ^ 31 \<longrightarrow> pend t s' \<and> ex s' t = ex s t \<and> t \<notin> set (concat tss)))"

text \<open>
  The contract of a timer service: a round calls the timers with no time left and the late ones, and the others
  have one tick less. What a number of rounds does is proved from it once.
\<close>

locale timer_service =
  fixes ok :: "'s \<Rightarrow> bool"
    and pend :: "nat \<Rightarrow> 's \<Rightarrow> bool"
    and left :: "'s \<Rightarrow> nat \<Rightarrow> nat"
    and ex :: "'s \<Rightarrow> nat \<Rightarrow> u32"
    and step :: "'s \<Rightarrow> (nat list \<times> 's) option"
  assumes step: "ok s \<Longrightarrow> \<exists>ts s'. step s = Some (ts, s') \<and> ok s' \<and> set ts = {t. pend t s \<and> (left s t = 0 \<or> 2 ^ 31 \<le> left s t)} \<and>
      (\<forall>t. pend t s \<and> left s t \<noteq> 0 \<and> left s t < 2 ^ 31 \<longrightarrow> pend t s' \<and> ex s' t = ex s t \<and> left s' t = left s t - 1)"
begin

lemma rounds_serve:
  assumes "ok s" "n \<le> 2 ^ 31"
  shows "\<exists>tss s'. rounds step n s = Some (tss, s') \<and> ok s' \<and> length tss = n \<and> served pend left ex s tss s'"
  using assms
proof (induction n arbitrary: s)
  case (Suc n)
  obtain ts s1 where s: "step s = Some (ts, s1)" "ok s1" "set ts = {t. pend t s \<and> (left s t = 0 \<or> 2 ^ 31 \<le> left s t)}"
    "\<And>t. pend t s \<Longrightarrow> left s t \<noteq> 0 \<Longrightarrow> left s t < 2 ^ 31 \<Longrightarrow> pend t s1 \<and> ex s1 t = ex s t \<and> left s1 t = left s t - 1"
    using step [OF Suc.prems(1)] by blast
  obtain tss s' where ih: "rounds step n s1 = Some (tss, s')" "ok s'" "length tss = n" "served pend left ex s1 tss s'"
    using Suc.IH [OF s(2)] Suc.prems(2) by auto
  have "served pend left ex s (ts # tss) s'"
    unfolding served_def
  proof (intro allI impI)
    fix t assume t: "pend t s"
    show "(left s t < length (ts # tss) \<longrightarrow> t \<in> set ((ts # tss) ! left s t)) \<and> (2 ^ 31 \<le> left s t \<and> ts # tss \<noteq> [] \<longrightarrow> t \<in> set ((ts # tss) ! 0)) \<and>
      (length (ts # tss) \<le> left s t \<and> left s t < 2 ^ 31 \<longrightarrow> pend t s' \<and> ex s' t = ex s t \<and> t \<notin> set (concat (ts # tss)))"
    proof (cases "left s t = 0 \<or> 2 ^ 31 \<le> left s t")
      case True
      then show ?thesis using s(3) t ih(3) Suc.prems(2) by auto
    next
      case False
      then have k: "left s t = Suc (left s1 t)" "pend t s1" "ex s1 t = ex s t" "left s1 t < 2 ^ 31" "t \<notin> set ts" using s(3) s(4) [OF t] by auto
      then show ?thesis using ih(4) False unfolding served_def by auto
    qed
  qed
  then show ?case using s(1) ih by auto
qed (simp add: served_def)

end

interpretation ts: timer_service "\<lambda>w. arming fn \<and> wheel_ok w" timer_pending delta expires "run_timer_step fn" for fn
proof unfold_locales
  fix w assume "arming fn \<and> wheel_ok w"
  then obtain ts w' where s: "run_timer_step fn w = Some (ts, w')" "wheel_ok w'" "timer_jiffies w' = timer_jiffies w + 1" "set ts = {t. timer_pending t w \<and> due w t}"
    "\<forall>t. timer_pending t w \<and> \<not> due w t \<longrightarrow> timer_pending t w' \<and> expires w' t = expires w t"
    using run_timer_step_ok by blast
  then have "timer_pending t w' \<and> expires w' t = expires w t \<and> delta w' t = delta w t - 1"
    if "timer_pending t w" "delta w t \<noteq> 0" "delta w t < 2 ^ 31" for t
    using that delta_step [of w' t w] by (auto simp: due_def)
  then show "\<exists>ts w'. run_timer_step fn w = Some (ts, w') \<and> (arming fn \<and> wheel_ok w') \<and>
    set ts = {t. timer_pending t w \<and> (delta w t = 0 \<or> 2 ^ 31 \<le> delta w t)} \<and>
    (\<forall>t. timer_pending t w \<and> delta w t \<noteq> 0 \<and> delta w t < 2 ^ 31 \<longrightarrow> timer_pending t w' \<and> expires w' t = expires w t \<and> delta w' t = delta w t - 1)"
    using s \<open>arming fn \<and> wheel_ok w\<close> by (auto simp: due_def)
qed

text \<open>\<open>run_timer_list\<close> is one round for each tick the wheel is behind.\<close>
lemma run_timer_list_rounds:
  assumes "wheel_ok w" "arming fn" "unat (now w - timer_jiffies w) = n" "n < 2 ^ 31"
  shows "run_timer_list fn w = rounds (run_timer_step fn) (Suc n) w \<and> (\<forall>tss w'. run_timer_list fn w = Some (tss, w') \<longrightarrow> timer_jiffies w' = now w + 1)"
  using assms(1,3,4)
proof (induction n arbitrary: w)
  case (0 w)
  obtain ts w1 where s: "run_timer_step fn w = Some (ts, w1)" "timer_jiffies w1 = timer_jiffies w + 1" "now w1 = now w"
    using run_timer_step_ok [OF 0(1) assms(2)] by blast
  have nw: "now w = timer_jiffies w" using 0(2) by (simp add: unat_eq_0)
  have "now w1 - timer_jiffies w1 = - 1" using s nw by simp
  then have "run_timer_list fn w1 = Some ([], w1)" by (subst run_timer_list.simps) simp
  then have "run_timer_list fn w = Some ([ts], w1)" using s(1) nw by (subst run_timer_list.simps) simp
  then show ?case using s nw by simp
next
  case (Suc n w)
  obtain ts w1 where s: "run_timer_step fn w = Some (ts, w1)" "wheel_ok w1" "timer_jiffies w1 = timer_jiffies w + 1" "now w1 = now w"
    using run_timer_step_ok [OF Suc(2) assms(2)] by blast
  have "now w - timer_jiffies w \<noteq> 0" using Suc(3) by auto
  then have "unat (now w1 - timer_jiffies w1) = n" using s(3,4) Suc(3) by (simp add: unat_minus_one flip: diff_diff_eq)
  from Suc(1) [OF s(2) this] Suc(4) have ih: "run_timer_list fn w1 = rounds (run_timer_step fn) (Suc n) w1"
    "\<forall>tss w'. run_timer_list fn w1 = Some (tss, w') \<longrightarrow> timer_jiffies w' = now w1 + 1" by auto
  have "0 \<le> sint (now w - timer_jiffies w)" using sint_neg_iff [of "now w - timer_jiffies w"] Suc(3,4) by linarith
  then have "run_timer_list fn w = do { (tss, w') \<leftarrow> run_timer_list fn w1; Some (ts # tss, w') }" using s(1) by (subst run_timer_list.simps) simp
  moreover have "rounds (run_timer_step fn) (Suc (Suc n)) w = do { (tss, w') \<leftarrow> run_timer_list fn w1; Some (ts # tss, w') }"
    using s(1) by (simp add: ih(1) del: rounds.simps(2)) (simp add: ih(1))
  ultimately show ?case using ih(2) s(4) by auto
qed

section \<open>Properties\<close>

text \<open>
  Starting, changing and deleting a timer keep the wheel well formed whatever the expiry: the
  timer is pending afterwards (or not, when deleted), every other timer is as it was, and
  \<open>mod_timer\<close> and \<open>del_timer\<close> return whether it was pending before.
\<close>
theorem timer_ops:
  assumes "wheel_ok w"
  shows "wheel_ok (add_timer t w) \<and> wheel_ok (snd (mod_timer t e w)) \<and> wheel_ok (snd (del_timer t w)) \<and>
    fst (mod_timer t e w) = timer_pending t w \<and> fst (del_timer t w) = timer_pending t w \<and>
    (timer_pending u (add_timer t w) \<longleftrightarrow> u = t \<or> timer_pending u w) \<and>
    (timer_pending u (snd (mod_timer t e w)) \<longleftrightarrow> u = t \<or> timer_pending u w) \<and> expires (snd (mod_timer t e w)) = (expires w)(t := e) \<and>
    (timer_pending u (snd (del_timer t w)) \<longleftrightarrow> u \<noteq> t \<and> timer_pending u w)"
  using add_timer_ok(1) [OF assms, of t] add_timer_ok(2) [OF assms, of u t] mod_timer_ok(1,2,4) [OF assms, of t e] mod_timer_ok(3) [OF assms, of u t e]
    del_timer_ok(1,2) [OF assms, of t] del_timer_ok(3) [OF assms, of u t] by simp

text \<open>
  C29. One iteration of \<open>run_timer_list\<close> calls exactly the pending timers whose time is the time of
  the wheel or in the past, each once; every other timer stays pending with its expiry. The five
  vectors, the cascading and the slots are not visible: the wheel behaves like a set of timers. It holds for
  handlers that start timers, themselves included.
\<close>
theorem timer_step:
  assumes "wheel_ok w" "arming fn"
  shows "\<exists>ts w'. run_timer_step fn w = Some (ts, w') \<and> wheel_ok w' \<and> timer_jiffies w' = timer_jiffies w + 1 \<and>
    distinct ts \<and> set ts = {t. timer_pending t w \<and> due w t} \<and>
    (\<forall>t. timer_pending t w \<and> \<not> due w t \<longrightarrow> timer_pending t w' \<and> expires w' t = expires w t)"
  using run_timer_step_ok [OF assms] by blast

text \<open>
  C30. \<open>run_timer_list\<close> ends and catches up with the clock: there is one round for each tick that the
  wheel was behind, a timer that was pending is called in the round of its expiry (in the first if it was
  late), and a timer whose time has not come is not called and stays pending. All times are modulo
  \<open>2\<^sup>3\<^sup>2\<close>, so this holds across the overflow of the tick counter.
\<close>
theorem timers_run:
  assumes "wheel_ok w" "arming fn" "0 \<le> sint (now w - timer_jiffies w)"
  shows "\<exists>tss w'. run_timer_list fn w = Some (tss, w') \<and> wheel_ok w' \<and> timer_jiffies w' = now w + 1 \<and>
    length tss = Suc (unat (now w - timer_jiffies w)) \<and> served timer_pending delta expires w tss w'"
proof -
  have n: "unat (now w - timer_jiffies w) < 2 ^ 31" using assms(3) sint_neg_iff [of "now w - timer_jiffies w"] by linarith
  let ?n = "Suc (unat (now w - timer_jiffies w))"
  note r = run_timer_list_rounds [OF assms(1,2) refl n]
  have "arming fn \<and> wheel_ok w" "?n \<le> 2 ^ 31" using assms(1,2) n by simp_all
  from ts.rounds_serve [OF this] obtain tss w' where "rounds (run_timer_step fn) ?n w = Some (tss, w')" "wheel_ok w'" "length tss = ?n"
    "served timer_pending delta expires w tss w'" by blast
  then show ?thesis using r by metis
qed

section \<open>A concrete wheel\<close>

definition boot_timers :: timers where
  "boot_timers = init_timervecs \<lparr>tlists = \<lparr>nxt = \<lambda>_. NullT, prv = \<lambda>_. NullT\<rparr>, expires = \<lambda>_. 0, tv_index = \<lambda>_. 0, timer_jiffies = 0,
     run_timer_list_running = None, now = 0\<rparr>"

lemma init_vec_sel:
  "i < k \<Longrightarrow> dlist (tlists (init_vec n k w)) (Vec n i) []" "m \<noteq> n \<Longrightarrow> dlist (tlists w) (Vec m j) [] \<Longrightarrow> dlist (tlists (init_vec n k w)) (Vec m j) []"
  "nxt (tlists (init_vec n k w)) (Tm t) = nxt (tlists w) (Tm t)" "timer_jiffies (init_vec n k w) = timer_jiffies w"
  "tv_index (init_vec n k w) = tv_index w" "run_timer_list_running (init_vec n k w) = run_timer_list_running w"
  "expires (init_vec n k w) = expires w"
  by (induction k) (auto simp: less_Suc_eq kl.lst_init kl.frame_init INIT_LIST_HEAD_def Let_def dlist_def)

lemma boot_wheel: "wheel_ok boot_timers" "timer_pending t boot_timers = False" "timer_jiffies boot_timers = 0"
proof -
  have "dlist (tlists boot_timers) (Vec n i) []" if "slot n i" for n i
  proof -
    have "n = 1 \<or> n = 2 \<or> n = 3 \<or> n = 4 \<or> n = 5" using that by (auto simp: slot_def)
    then show ?thesis using that unfolding boot_timers_def init_timervecs_def by (elim disjE) (auto simp: slot_def vec_size_def init_vec_sel)
  qed
  moreover have p: "timer_pending t boot_timers = False" "timer_jiffies boot_timers = 0" for t
    by (simp_all add: boot_timers_def init_timervecs_def timer_pending_def init_vec_sel)
  moreover have "index_ok (\<lambda>_. 0) boot_timers"
    by (simp add: index_ok_def boot_timers_def init_timervecs_def init_vec_sel)
  ultimately have "wheel (\<lambda>_. 0) boot_timers (\<lambda>_ _. []) {}" by (simp add: wheel_def in_slots_def)
  then show "wheel_ok boot_timers" by (auto simp: wheel_ok_def boot_timers_def init_timervecs_def init_vec_sel)
  show "timer_pending t boot_timers = False" "timer_jiffies boot_timers = 0" using p by simp_all
qed

text \<open>A periodic timer: its handler starts it again for \<open>k\<close> ticks later.\<close>
definition rearm :: "u32 \<Rightarrow> nat \<Rightarrow> timers \<Rightarrow> timers" where
  "rearm k t w = (if timer_pending t w then w else add_timer t (w\<lparr>expires := (expires w)(t := expires w t + k)\<rparr>))"

lemma rearm_arming: "arming (rearm k)"
  unfolding arming_def
proof (intro allI impI)
  fix t c w L Q assume wh: "wheel c w L (set Q)" and q: "queue w Q" and t: "t \<notin> in_slots L"
  let ?w = "w\<lparr>expires := (expires w)(t := expires w t + k)\<rparr>"
  show "\<exists>Q'. wheel c (rearm k t w) L (set Q') \<and> queue (rearm k t w) Q' \<and> (\<forall>u\<in>in_slots L. expires (rearm k t w) u = expires w u) \<and>
    tv_index (rearm k t w) = tv_index w \<and> timer_jiffies (rearm k t w) = timer_jiffies w \<and> now (rearm k t w) = now w"
  proof (cases "timer_pending t w")
    case True
    then show ?thesis using wh q by (auto simp: rearm_def)
  next
    case False
    then have tq: "t \<notin> set Q" using wheelD(6) [OF wh, of t] by simp
    have q': "queue ?w Q" using q by (simp add: queue_def)
    note I = internal_add_running [OF wheel_expires [OF wh t] q' t tq]
    have "rearm k t w = internal_add_timer t ?w" using False by (simp add: rearm_def add_timer_def timer_pending_def)
    then show ?thesis using I t by (intro exI [of _ "Q @ [t]"]) (auto simp: lists_only_def)
  qed
qed

definition one_timer :: timers where
  "one_timer = (snd (mod_timer 7 1000 boot_timers))\<lparr>now := 2000\<rparr>"

lemma one_timer_facts: "wheel_ok one_timer" "timer_pending 7 one_timer" "expires one_timer 7 = 1000" "timer_jiffies one_timer = 0" "now one_timer = 2000"
  using mod_timer_ok(2,4,5) [OF boot_wheel(1), of 7 1000] mod_timer_ok(3) [OF boot_wheel(1), of 7 7 1000] boot_wheel(3)
  by (simp_all add: one_timer_def wheel_ok_now timer_pending_def)

theorem timer_ops_witness:
  "wheel_ok (snd (del_timer 7 one_timer)) \<and> \<not> timer_pending 7 (snd (del_timer 7 one_timer)) \<and> fst (del_timer 7 one_timer)"
  using timer_ops [OF one_timer_facts(1), of 7 0 7] one_timer_facts(2) by blast

theorem timer_step_witness:
  "\<exists>w'. run_timer_step (rearm 300) one_timer = Some ([], w') \<and> wheel_ok w' \<and> timer_pending 7 w'"
proof -
  have d: "timer_pending t one_timer \<Longrightarrow> t = 7" for t
    using mod_timer_ok(3) [OF boot_wheel(1), of t 7 1000] boot_wheel(2) by (simp add: one_timer_def timer_pending_def)
  have n: "\<not> due one_timer 7" by (simp add: due_def delta_def one_timer_facts)
  obtain ts w' where "run_timer_step (rearm 300) one_timer = Some (ts, w')" "wheel_ok w'" "set ts = {t. timer_pending t one_timer \<and> due one_timer t}"
    "\<forall>t. timer_pending t one_timer \<and> \<not> due one_timer t \<longrightarrow> timer_pending t w' \<and> expires w' t = expires one_timer t"
    using timer_step [OF one_timer_facts(1) rearm_arming, of 300] by blast
  moreover have "{t. timer_pending t one_timer \<and> due one_timer t} = {}" using d n by blast
  ultimately show ?thesis using one_timer_facts(2) n by (metis set_empty)
qed

theorem timers_run_witness:
  "\<exists>tss w'. run_timer_list (rearm 300) one_timer = Some (tss, w') \<and> timer_jiffies w' = 2001 \<and> 7 \<in> set (tss ! 1000)"
proof -
  have "delta one_timer 7 = 1000" by (simp add: delta_def one_timer_facts)
  then have d: "delta one_timer 7 = 1000" "timer_pending 7 one_timer" using one_timer_facts(2) by simp_all
  obtain tss w' where r: "run_timer_list (rearm 300) one_timer = Some (tss, w')" "timer_jiffies w' = 2001" "length tss = 2001" "served timer_pending delta expires one_timer tss w'"
    using timers_run [OF one_timer_facts(1) rearm_arming, of 300] by (auto simp: one_timer_facts)
  have "delta one_timer 7 < length tss \<longrightarrow> 7 \<in> set (tss ! delta one_timer 7)" using r(4) d(2) unfolding served_def by blast
  then have "7 \<in> set (tss ! 1000)" using r(3) by (simp add: d(1))
  then show ?thesis using r by blast
qed

end
