(* ===== verification/Timekeeping.thy ===== *)
theory Timekeeping
  imports Sched_Calls Vsprintf
begin

text \<open>
  The clock of \<open>kernel/timer.c\<close>: the time of day, its slewing by \<open>adjtime\<close> and by the phase-lock loop, leap
  seconds, the load averages and the accounting of ticks to processes, and \<open>do_adjtimex\<close> of \<open>kernel/time.c\<close>.
  \<open>HZ\<close> is 512. The variables of type \<open>long\<close> are integers; that they stay in the range of 32 bits is
  part of the invariant \<open>clock_ok\<close>. A shift by a variable takes its count modulo 32, as the instruction does.
\<close>

section \<open>Data\<close>

datatype tstate = TIME_OK | TIME_INS | TIME_DEL | TIME_OOP | TIME_WAIT | TIME_ERROR

record clock =
  tv_sec :: int
  tv_usec :: int
  tick :: int
  time_state :: tstate
  time_status :: u32
  time_offset :: int
  time_constant :: int
  time_tolerance :: int
  time_maxerror :: int
  time_esterror :: int
  time_freq :: int
  time_adj :: int
  time_phase :: int
  time_reftime :: int
  time_adjust :: int
  time_adjust_step :: int
  pps_offset :: int
  pps_freq :: int
  pps_jitter :: int
  pps_stabil :: int
  pps_valid :: int

text \<open>\<open>500/HZ ? : 1\<close>.\<close>
definition tickadj :: int where "tickadj = 1"

definition FINEUSEC :: int where "FINEUSEC = 2 ^ 22"
definition MAXPHASE :: int where "MAXPHASE = 512000"
definition MAXFREQ :: int where "MAXFREQ = 512 * 2 ^ 16"
definition NTP_PHASE_LIMIT :: int where "NTP_PHASE_LIMIT = MAXPHASE * 2 ^ 5"

definition STA_PLL :: u32 where "STA_PLL = 0x0001"
definition STA_PPSFREQ :: u32 where "STA_PPSFREQ = 0x0002"
definition STA_PPSTIME :: u32 where "STA_PPSTIME = 0x0004"
definition STA_FLL :: u32 where "STA_FLL = 0x0008"
definition STA_INS :: u32 where "STA_INS = 0x0010"
definition STA_DEL :: u32 where "STA_DEL = 0x0020"
definition STA_UNSYNC :: u32 where "STA_UNSYNC = 0x0040"
definition STA_FREQHOLD :: u32 where "STA_FREQHOLD = 0x0080"
definition STA_PPSSIGNAL :: u32 where "STA_PPSSIGNAL = 0x0100"
definition STA_PPSJITTER :: u32 where "STA_PPSJITTER = 0x0200"
definition STA_PPSWANDER :: u32 where "STA_PPSWANDER = 0x0400"
definition STA_PPSERROR :: u32 where "STA_PPSERROR = 0x0800"
definition STA_CLOCKERR :: u32 where "STA_CLOCKERR = 0x1000"
definition STA_RONLY :: u32 where
  "STA_RONLY = STA_PPSSIGNAL OR STA_PPSJITTER OR STA_PPSWANDER OR STA_PPSERROR OR STA_CLOCKERR"

text \<open>\<open>>>\<close> of a value that is not negative by a variable.\<close>
definition shr :: "int \<Rightarrow> int \<Rightarrow> int" where
  "shr x n = x div 2 ^ nat (n mod 32)"

section \<open>The second\<close>

definition bump_maxerror :: "clock \<Rightarrow> clock" where
  "bump_maxerror k =
     (let e = time_maxerror k + time_tolerance k div 2 ^ 16 in
      if e > NTP_PHASE_LIMIT then k\<lparr>time_maxerror := NTP_PHASE_LIMIT, time_status := time_status k OR STA_UNSYNC\<rparr>
      else k\<lparr>time_maxerror := e\<rparr>)"

definition leap_second :: "clock \<Rightarrow> clock" where
  "leap_second k = (case time_state k of
     TIME_OK \<Rightarrow> if time_status k AND STA_INS \<noteq> 0 then k\<lparr>time_state := TIME_INS\<rparr>
       else if time_status k AND STA_DEL \<noteq> 0 then k\<lparr>time_state := TIME_DEL\<rparr> else k
   | TIME_INS \<Rightarrow> if tv_sec k mod 86400 = 0 then k\<lparr>tv_sec := s32 (tv_sec k - 1), time_state := TIME_OOP\<rparr> else k
   | TIME_DEL \<Rightarrow> if s32 (tv_sec k + 1) mod 86400 = 0 then k\<lparr>tv_sec := s32 (tv_sec k + 1), time_state := TIME_WAIT\<rparr> else k
   | TIME_OOP \<Rightarrow> k\<lparr>time_state := TIME_WAIT\<rparr>
   | TIME_WAIT \<Rightarrow> if time_status k AND (STA_INS OR STA_DEL) = 0 then k\<lparr>time_state := TIME_OK\<rparr> else k
   | TIME_ERROR \<Rightarrow> k)"

text \<open>The part of the offset that is used up in the next second; \<open>x\<close> is its absolute value.\<close>
definition phase_part :: "clock \<Rightarrow> int \<Rightarrow> int" where
  "phase_part k x =
     (let x = (if time_status k AND STA_FLL = 0 then shr x (6 + time_constant k) else x)
      in if x > (MAXPHASE div 16) * 2 ^ 12 then (MAXPHASE div 16) * 2 ^ 12 else x)"

definition phase_adjust :: "clock \<Rightarrow> clock" where
  "phase_adjust k =
     (if time_offset k < 0 then
        (let l = phase_part k (- time_offset k) in k\<lparr>time_offset := time_offset k + l, time_adj := - l * 2 ^ (22 - 9 - 12)\<rparr>)
      else
        (let l = phase_part k (time_offset k) in k\<lparr>time_offset := time_offset k - l, time_adj := l * 2 ^ (22 - 9 - 12)\<rparr>))"

definition freq_adjust :: "clock \<Rightarrow> clock" where
  "freq_adjust k =
     (let k = k\<lparr>pps_valid := s32 (pps_valid k + 1)\<rparr>;
          k = (if pps_valid k = 120
            then k\<lparr>pps_jitter := 200 * 2 ^ 2, pps_stabil := MAXFREQ,
              time_status := time_status k AND NOT (STA_PPSSIGNAL OR STA_PPSJITTER OR STA_PPSWANDER OR STA_PPSERROR)\<rparr>
            else k);
          l = time_freq k + pps_freq k
      in if l < 0 then k\<lparr>time_adj := time_adj k - (- l) div 2 ^ (16 + 9 - 22)\<rparr>
         else k\<lparr>time_adj := time_adj k + l div 2 ^ (16 + 9 - 22)\<rparr>)"

definition second_overflow :: "clock \<Rightarrow> clock" where
  "second_overflow k = freq_adjust (phase_adjust (leap_second (bump_maxerror k)))"

section \<open>The tick\<close>

definition adjtime_step :: "clock \<Rightarrow> clock" where
  "adjtime_step k =
     (let k = k\<lparr>time_adjust_step := time_adjust k\<rparr> in
      if time_adjust_step k \<noteq> 0 then
        (let k = (if time_adjust k > tickadj then k\<lparr>time_adjust_step := tickadj\<rparr>
           else if time_adjust k < - tickadj then k\<lparr>time_adjust_step := - tickadj\<rparr> else k)
         in k\<lparr>time_adjust := time_adjust k - time_adjust_step k\<rparr>)
      else k)"

definition advance_phase :: "clock \<Rightarrow> clock" where
  "advance_phase k =
     (let k = k\<lparr>time_phase := time_phase k + time_adj k\<rparr> in
      if time_phase k \<le> - FINEUSEC then
        (let l = (- time_phase k) div 2 ^ 22 in k\<lparr>time_phase := time_phase k + l * 2 ^ 22, tv_usec := tv_usec k - l\<rparr>)
      else if time_phase k \<ge> FINEUSEC then
        (let l = time_phase k div 2 ^ 22 in k\<lparr>time_phase := time_phase k - l * 2 ^ 22, tv_usec := tv_usec k + l\<rparr>)
      else k)"

definition update_wall_time_one_tick :: "clock \<Rightarrow> clock" where
  "update_wall_time_one_tick k =
     (let k = adjtime_step k;
          k = k\<lparr>tv_usec := tv_usec k + (tick k + time_adjust_step k)\<rparr>
      in advance_phase k)"

text \<open>The loop for a positive number of ticks.\<close>
fun wall_ticks :: "nat \<Rightarrow> clock \<Rightarrow> clock" where
  "wall_ticks 0 k = k"
| "wall_ticks (Suc n) k = wall_ticks n (update_wall_time_one_tick k)"

definition next_second :: "clock \<Rightarrow> clock" where
  "next_second k = second_overflow (k\<lparr>tv_usec := tv_usec k - 1000000, tv_sec := s32 (tv_sec k + 1)\<rparr>)"

definition update_wall_time :: "u32 \<Rightarrow> clock \<Rightarrow> clock" where
  "update_wall_time ticks k =
     (let k = wall_ticks (if ticks = 0 then 2 ^ 32 else unat ticks) k in
      if tv_usec k \<ge> 1000000 then next_second k else k)"

section \<open>Load averages\<close>

text \<open>\<open>CALC_LOAD\<close>, with \<open>FIXED_1\<close> = 2048.\<close>
definition CALC_LOAD :: "u32 \<Rightarrow> u32 \<Rightarrow> u32 \<Rightarrow> u32" where
  "CALC_LOAD load e n = drop_bit 11 (load * e + n * (2048 - e))"

record loadavg =
  avenrun :: "u32 \<times> u32 \<times> u32"
  load_count :: int

definition count_active_tasks :: "runqueue \<Rightarrow> u32" where
  "count_active_tasks q = (nr_running q + nr_uninterruptible q) * 2048"

text \<open>\<open>LOAD_FREQ\<close> is \<open>5 * HZ\<close>.\<close>
definition calc_load :: "u32 \<Rightarrow> u32 \<Rightarrow> loadavg \<Rightarrow> loadavg" where
  "calc_load act ticks a =
     (let a = a\<lparr>load_count := s32 (load_count a - uint ticks)\<rparr> in
      if load_count a < 0 then
        (case avenrun a of (x, y, z) \<Rightarrow>
          a\<lparr>load_count := s32 (load_count a + 5 * 512),
            avenrun := (CALC_LOAD x 1884 act, CALC_LOAD y 2014 act, CALC_LOAD z 2037 act)\<rparr>)
      else a)"

definition update_times :: "u32 \<Rightarrow> u32 \<Rightarrow> u32 \<times> clock \<times> loadavg \<Rightarrow> u32 \<times> clock \<times> loadavg" where
  "update_times act jf s = (case s of (wall_jiffies, k, a) \<Rightarrow>
     (let ticks = jf - wall_jiffies;
          (wall_jiffies, k) = (if ticks \<noteq> 0 then (wall_jiffies + ticks, update_wall_time ticks k) else (wall_jiffies, k))
      in (wall_jiffies, k, calc_load act ticks a)))"

section \<open>Accounting\<close>

text \<open>The fields of a task the accounting uses; the signals sent are given in a list.\<close>
record ptimes =
  tms_utime :: u32
  tms_stime :: u32
  per_cpu_utime :: u32
  per_cpu_stime :: u32
  rlim_cpu_cur :: u32
  rlim_cpu_max :: u32
  it_virt_value :: u32
  it_virt_incr :: u32
  it_prof_value :: u32
  it_prof_incr :: u32

definition SIGKILL :: int where "SIGKILL = 9"
definition SIGXCPU :: int where "SIGXCPU = 24"
definition SIGVTALRM :: int where "SIGVTALRM = 26"
definition SIGPROF :: int where "SIGPROF = 27"

definition do_process_times :: "u32 \<Rightarrow> u32 \<Rightarrow> ptimes \<Rightarrow> ptimes \<times> int list" where
  "do_process_times usr syst p =
     (let p = p\<lparr>tms_utime := tms_utime p + usr, tms_stime := tms_stime p + syst\<rparr>;
          psecs = tms_utime p + tms_stime p in
      if psecs div 512 > rlim_cpu_cur p
      then (p, (if psecs mod 512 = 0 then [SIGXCPU] else []) @ (if psecs div 512 > rlim_cpu_max p then [SIGKILL] else []))
      else (p, []))"

definition do_it_virt :: "u32 \<Rightarrow> ptimes \<Rightarrow> ptimes \<times> int list" where
  "do_it_virt ticks p =
     (let it_virt = it_virt_value p in
      if it_virt \<noteq> 0 then
        (let it_virt = it_virt - ticks in
         if it_virt = 0 then (p\<lparr>it_virt_value := it_virt_incr p\<rparr>, [SIGVTALRM]) else (p\<lparr>it_virt_value := it_virt\<rparr>, []))
      else (p, []))"

definition do_it_prof :: "ptimes \<Rightarrow> ptimes \<times> int list" where
  "do_it_prof p =
     (let it_prof = it_prof_value p in
      if it_prof \<noteq> 0 then
        (let it_prof = it_prof - 1 in
         if it_prof = 0 then (p\<lparr>it_prof_value := it_prof_incr p\<rparr>, [SIGPROF]) else (p\<lparr>it_prof_value := it_prof\<rparr>, []))
      else (p, []))"

definition update_one_process :: "u32 \<Rightarrow> u32 \<Rightarrow> ptimes \<Rightarrow> ptimes \<times> int list" where
  "update_one_process usr syst p =
     (let p = p\<lparr>per_cpu_utime := per_cpu_utime p + usr, per_cpu_stime := per_cpu_stime p + syst\<rparr>;
          (p, s1) = do_process_times usr syst p;
          (p, s2) = do_it_virt usr p;
          (p, s3) = do_it_prof p
      in (p, s1 @ s2 @ s3))"

section \<open>adjtimex\<close>

record timex =
  tx_modes :: u32
  tx_offset :: int
  tx_freq :: int
  tx_maxerror :: int
  tx_esterror :: int
  tx_status :: u32
  tx_constant :: int
  tx_tick :: int

definition ADJ_OFFSET :: u32 where "ADJ_OFFSET = 0x0001"
definition ADJ_FREQUENCY :: u32 where "ADJ_FREQUENCY = 0x0002"
definition ADJ_MAXERROR :: u32 where "ADJ_MAXERROR = 0x0004"
definition ADJ_ESTERROR :: u32 where "ADJ_ESTERROR = 0x0008"
definition ADJ_STATUS :: u32 where "ADJ_STATUS = 0x0010"
definition ADJ_TIMECONST :: u32 where "ADJ_TIMECONST = 0x0020"
definition ADJ_TICK :: u32 where "ADJ_TICK = 0x4000"
definition ADJ_OFFSET_SINGLESHOT :: u32 where "ADJ_OFFSET_SINGLESHOT = 0x8001"

text \<open>The number of a state, as \<open>adjtimex\<close> returns it.\<close>
fun tstate_num :: "tstate \<Rightarrow> int" where
  "tstate_num TIME_OK = 0"
| "tstate_num TIME_INS = 1"
| "tstate_num TIME_DEL = 2"
| "tstate_num TIME_OOP = 3"
| "tstate_num TIME_WAIT = 4"
| "tstate_num TIME_ERROR = 5"

text \<open>The result so far and the clock; \<open>Inl\<close> when the code has gone to the label \<open>leave\<close>.\<close>
type_synonym adj = "(int \<times> clock) + (int \<times> clock)"

definition adj_status :: "timex \<Rightarrow> int \<times> clock \<Rightarrow> adj" where
  "adj_status t s = (case s of (r, k) \<Rightarrow>
     if tx_modes t AND ADJ_STATUS \<noteq> 0
     then Inr (r, k\<lparr>time_status := (tx_status t AND NOT STA_RONLY) OR (time_status k AND STA_RONLY)\<rparr>) else Inr (r, k))"

definition adj_frequency :: "timex \<Rightarrow> int \<times> clock \<Rightarrow> adj" where
  "adj_frequency t s = (case s of (r, k) \<Rightarrow>
     if tx_modes t AND ADJ_FREQUENCY \<noteq> 0 then
       (if tx_freq t > MAXFREQ \<or> tx_freq t < - MAXFREQ then Inl (- EINVAL, k)
        else Inr (r, k\<lparr>time_freq := tx_freq t - pps_freq k\<rparr>))
     else Inr (r, k))"

definition adj_maxerror :: "timex \<Rightarrow> int \<times> clock \<Rightarrow> adj" where
  "adj_maxerror t s = (case s of (r, k) \<Rightarrow>
     if tx_modes t AND ADJ_MAXERROR \<noteq> 0 then
       (if tx_maxerror t < 0 \<or> tx_maxerror t \<ge> NTP_PHASE_LIMIT then Inl (- EINVAL, k)
        else Inr (r, k\<lparr>time_maxerror := tx_maxerror t\<rparr>))
     else Inr (r, k))"

definition adj_esterror :: "timex \<Rightarrow> int \<times> clock \<Rightarrow> adj" where
  "adj_esterror t s = (case s of (r, k) \<Rightarrow>
     if tx_modes t AND ADJ_ESTERROR \<noteq> 0 then
       (if tx_esterror t < 0 \<or> tx_esterror t \<ge> NTP_PHASE_LIMIT then Inl (- EINVAL, k)
        else Inr (r, k\<lparr>time_esterror := tx_esterror t\<rparr>))
     else Inr (r, k))"

definition adj_timeconst :: "timex \<Rightarrow> int \<times> clock \<Rightarrow> adj" where
  "adj_timeconst t s = (case s of (r, k) \<Rightarrow>
     if tx_modes t AND ADJ_TIMECONST \<noteq> 0 then
       (if tx_constant t < 0 then Inl (- EINVAL, k) else Inr (r, k\<lparr>time_constant := tx_constant t\<rparr>))
     else Inr (r, k))"

text \<open>The new frequency of the phase-lock or the frequency-lock loop, \<open>mtemp\<close> seconds after the last adjustment.\<close>
definition adj_loop :: "int \<Rightarrow> int \<Rightarrow> int \<times> clock \<Rightarrow> int \<times> clock" where
  "adj_loop ltemp mtemp s = (case s of (r, k) \<Rightarrow>
     let (r, freq) =
       (if time_status k AND STA_FLL \<noteq> 0 then
          (if mtemp \<ge> 16 then
             (let l = cdiv (time_offset k) mtemp * 2 ^ 4 in
              (r, if l < 0 then time_freq k - (- l) div 2 ^ 2 else time_freq k + l div 2 ^ 2))
           else (tstate_num TIME_ERROR, time_freq k))
        else
          (if mtemp < 1200 then
             (let l = s32 (ltemp * mtemp); c = time_constant k + time_constant k + 16 - 16 in
              (r, if l < 0 then s32 (time_freq k - shr (s32 (- l)) c) else s32 (time_freq k + shr l c)))
           else (tstate_num TIME_ERROR, time_freq k)))
     in (r, k\<lparr>time_freq := (if freq > time_tolerance k then time_tolerance k
          else if freq < - time_tolerance k then - time_tolerance k else freq)\<rparr>))"

definition adj_offset :: "timex \<Rightarrow> int \<times> clock \<Rightarrow> adj" where
  "adj_offset t s = (case s of (r, k) \<Rightarrow>
     if tx_modes t AND ADJ_OFFSET \<noteq> 0 then
       (if tx_modes t = ADJ_OFFSET_SINGLESHOT then Inr (r, k\<lparr>time_adjust := tx_offset t\<rparr>)
        else if time_status k AND (STA_PLL OR STA_PPSTIME) \<noteq> 0 then
          (let ltemp = (if time_status k AND (STA_PPSTIME OR STA_PPSSIGNAL) = STA_PPSTIME OR STA_PPSSIGNAL
                 then pps_offset k else tx_offset t);
               k = k\<lparr>time_offset := (if ltemp > MAXPHASE then MAXPHASE * 2 ^ 12
                 else if ltemp < - MAXPHASE then - (MAXPHASE * 2 ^ 12) else ltemp * 2 ^ 12)\<rparr>;
               k = (if time_status k AND STA_FREQHOLD \<noteq> 0 \<or> time_reftime k = 0 then k\<lparr>time_reftime := tv_sec k\<rparr> else k);
               mtemp = s32 (tv_sec k - time_reftime k);
               k = k\<lparr>time_reftime := tv_sec k\<rparr>
           in Inr (adj_loop ltemp mtemp (r, k)))
        else Inr (r, k))
     else Inr (r, k))"

definition adj_tick :: "timex \<Rightarrow> int \<times> clock \<Rightarrow> adj" where
  "adj_tick t s = (case s of (r, k) \<Rightarrow>
     if tx_modes t AND ADJ_TICK \<noteq> 0 then
       (if tx_tick t < 900000 div 512 \<or> tx_tick t > 1100000 div 512 then Inl (- EINVAL, k)
        else Inr (r, k\<lparr>tick := tx_tick t\<rparr>))
     else Inr (r, k))"

fun adj_seq :: "(int \<times> clock \<Rightarrow> adj) list \<Rightarrow> int \<times> clock \<Rightarrow> int \<times> clock" where
  "adj_seq [] s = s"
| "adj_seq (g # gs) s = (case g s of Inl s \<Rightarrow> s | Inr s \<Rightarrow> adj_seq gs s)"

text \<open>The conditions behind the label \<open>leave\<close> under which the result is \<open>TIME_ERROR\<close>.\<close>
definition clock_error :: "u32 \<Rightarrow> bool" where
  "clock_error st = (st AND (STA_UNSYNC OR STA_CLOCKERR) \<noteq> 0 \<or>
     (st AND (STA_PPSFREQ OR STA_PPSTIME) \<noteq> 0 \<and> st AND STA_PPSSIGNAL = 0) \<or>
     (st AND (STA_PPSTIME OR STA_PPSJITTER) = STA_PPSTIME OR STA_PPSJITTER) \<or>
     (st AND STA_PPSFREQ \<noteq> 0 \<and> st AND (STA_PPSWANDER OR STA_PPSERROR) \<noteq> 0))"

text \<open>The values \<open>adjtimex\<close> gives back in its argument.\<close>
definition timex_out :: "int \<Rightarrow> timex \<Rightarrow> clock \<Rightarrow> timex" where
  "timex_out save_adjust t k =
     t\<lparr>tx_offset := (if tx_modes t AND ADJ_OFFSET_SINGLESHOT = ADJ_OFFSET_SINGLESHOT then save_adjust
         else if time_offset k < 0 then - ((- time_offset k) div 2 ^ 12) else time_offset k div 2 ^ 12),
       tx_freq := time_freq k + pps_freq k, tx_maxerror := time_maxerror k, tx_esterror := time_esterror k,
       tx_status := time_status k, tx_constant := time_constant k, tx_tick := tick k\<rparr>"

definition do_adjtimex :: "bool \<Rightarrow> timex \<Rightarrow> clock \<Rightarrow> int \<times> timex \<times> clock" where
  "do_adjtimex cap_sys_time t k =
     (if tx_modes t \<noteq> 0 \<and> \<not> cap_sys_time then (- EPERM, t, k)
      else if tx_modes t AND ADJ_OFFSET_SINGLESHOT = ADJ_OFFSET_SINGLESHOT \<and> tx_modes t \<noteq> ADJ_OFFSET_SINGLESHOT then (- EINVAL, t, k)
      else if tx_modes t \<noteq> ADJ_OFFSET_SINGLESHOT \<and> tx_modes t AND ADJ_OFFSET \<noteq> 0 \<and>
        (tx_offset t \<le> - MAXPHASE \<or> tx_offset t \<ge> MAXPHASE) then (- EINVAL, t, k)
      else if tx_modes t AND ADJ_TICK \<noteq> 0 \<and> (tx_tick t < 900000 div 512 \<or> tx_tick t > 1100000 div 512) then (- EINVAL, t, k)
      else
        (let save_adjust = time_adjust k;
             (r, k) = (if tx_modes t \<noteq> 0
               then adj_seq [adj_status t, adj_frequency t, adj_maxerror t, adj_esterror t, adj_timeconst t, adj_offset t, adj_tick t]
                 (tstate_num (time_state k), k)
               else (tstate_num (time_state k), k));
             r = (if clock_error (time_status k) then tstate_num TIME_ERROR else r)
         in (r, timex_out save_adjust t k, k)))"

section \<open>The invariant\<close>

text \<open>
  The phase is less than a microsecond, and the other variables are in the ranges the constants of \<open>timex.h\<close> give
  them; with these no operation on them leaves 32 bits. In \<open>clock_ok\<close> the microseconds are normalised, too.
\<close>
definition rates_ok :: "clock \<Rightarrow> bool" where
  "rates_ok k = (1757 \<le> tick k \<and> tick k \<le> 2148 \<and>
     \<bar>time_phase k\<bar> < FINEUSEC \<and> \<bar>time_offset k\<bar> \<le> MAXPHASE * 2 ^ 12 \<and> \<bar>time_adj k\<bar> \<le> 274726912 \<and>
     0 \<le> time_maxerror k \<and> time_maxerror k \<le> NTP_PHASE_LIMIT \<and> time_tolerance k = MAXFREQ \<and>
     \<bar>time_freq k\<bar> \<le> 2 * MAXFREQ \<and> \<bar>pps_freq k\<bar> \<le> MAXFREQ \<and> 0 \<le> time_constant k \<and>
     - (2 ^ 31) \<le> time_adjust k \<and> time_adjust k < 2 ^ 31)"

definition clock_ok :: "clock \<Rightarrow> bool" where
  "clock_ok k = (rates_ok k \<and> 0 \<le> tv_usec k \<and> tv_usec k < 1000000)"

lemmas clock_consts = FINEUSEC_def MAXPHASE_def MAXFREQ_def NTP_PHASE_LIMIT_def tickadj_def

lemma shr_bounds: "0 \<le> x \<Longrightarrow> 0 \<le> shr x n \<and> shr x n \<le> x"
proof -
  assume "0 \<le> x"
  moreover have "x div 2 ^ nat (n mod 32) \<le> x div 1" by (rule zdiv_mono2) (use \<open>0 \<le> x\<close> in simp_all)
  ultimately show ?thesis by (simp add: shr_def pos_imp_zdiv_nonneg_iff)
qed

lemma phase_part_bounds: "0 \<le> x \<Longrightarrow> 0 \<le> phase_part k x \<and> phase_part k x \<le> x \<and> phase_part k x \<le> 131072000"
  using shr_bounds [of x "6 + time_constant k"] by (auto simp: phase_part_def Let_def clock_consts)

lemma rates_ok_frame [simp]:
  "rates_ok (k\<lparr>tv_sec := x\<rparr>) = rates_ok k" "rates_ok (k\<lparr>tv_usec := x\<rparr>) = rates_ok k"
  "rates_ok (k\<lparr>time_state := s\<rparr>) = rates_ok k" "rates_ok (k\<lparr>time_status := w\<rparr>) = rates_ok k"
  "rates_ok (k\<lparr>pps_valid := x\<rparr>) = rates_ok k" "rates_ok (k\<lparr>pps_jitter := x\<rparr>) = rates_ok k"
  "rates_ok (k\<lparr>pps_stabil := x\<rparr>) = rates_ok k" "rates_ok (k\<lparr>time_adjust_step := x\<rparr>) = rates_ok k"
  "rates_ok (k\<lparr>time_esterror := x\<rparr>) = rates_ok k" "rates_ok (k\<lparr>time_reftime := x\<rparr>) = rates_ok k"
  by (simp_all add: rates_ok_def)

lemma rates_ok_intros:
  "rates_ok k \<Longrightarrow> \<bar>x\<bar> \<le> 274726912 \<Longrightarrow> rates_ok (k\<lparr>time_adj := x\<rparr>)"
  "rates_ok k \<Longrightarrow> \<bar>x\<bar> < FINEUSEC \<Longrightarrow> rates_ok (k\<lparr>time_phase := x\<rparr>)"
  "rates_ok k \<Longrightarrow> \<bar>x\<bar> \<le> MAXPHASE * 2 ^ 12 \<Longrightarrow> rates_ok (k\<lparr>time_offset := x\<rparr>)"
  "rates_ok k \<Longrightarrow> 0 \<le> x \<Longrightarrow> x \<le> NTP_PHASE_LIMIT \<Longrightarrow> rates_ok (k\<lparr>time_maxerror := x\<rparr>)"
  "rates_ok k \<Longrightarrow> \<bar>x\<bar> \<le> 2 * MAXFREQ \<Longrightarrow> rates_ok (k\<lparr>time_freq := x\<rparr>)"
  "rates_ok k \<Longrightarrow> 0 \<le> x \<Longrightarrow> rates_ok (k\<lparr>time_constant := x\<rparr>)"
  "rates_ok k \<Longrightarrow> - (2 ^ 31) \<le> x \<Longrightarrow> x < 2 ^ 31 \<Longrightarrow> rates_ok (k\<lparr>time_adjust := x\<rparr>)"
  "rates_ok k \<Longrightarrow> 1757 \<le> x \<Longrightarrow> x \<le> 2148 \<Longrightarrow> rates_ok (k\<lparr>tick := x\<rparr>)"
  by (simp_all add: rates_ok_def)

lemma rates_okD:
  assumes "rates_ok k"
  shows "1757 \<le> tick k" "tick k \<le> 2148" "\<bar>time_phase k\<bar> < 2 ^ 22" "\<bar>time_offset k\<bar> \<le> MAXPHASE * 2 ^ 12"
    "\<bar>time_adj k\<bar> \<le> 274726912" "0 \<le> time_maxerror k" "time_maxerror k \<le> NTP_PHASE_LIMIT" "time_tolerance k = MAXFREQ"
    "\<bar>time_freq k\<bar> \<le> 2 * MAXFREQ" "\<bar>pps_freq k\<bar> \<le> MAXFREQ" "- (2 ^ 31) \<le> time_adjust k" "time_adjust k < 2 ^ 31"
  using assms by (simp_all add: rates_ok_def FINEUSEC_def)

lemma bump_maxerror_ok: "rates_ok k \<Longrightarrow> rates_ok (bump_maxerror k) \<and> tv_usec (bump_maxerror k) = tv_usec k"
  using rates_okD(6-8) [of k] by (auto simp: bump_maxerror_def Let_def clock_consts intro!: rates_ok_intros)

lemma leap_second_ok: "rates_ok k \<Longrightarrow> rates_ok (leap_second k) \<and> tv_usec (leap_second k) = tv_usec k"
  by (simp add: leap_second_def split: tstate.split)

lemma phase_adjust_ok:
  assumes "rates_ok k"
  shows "rates_ok (phase_adjust k) \<and> \<bar>time_adj (phase_adjust k)\<bar> \<le> 262144000 \<and> tv_usec (phase_adjust k) = tv_usec k"
proof (cases "time_offset k < 0")
  case True
  with assms show ?thesis
    using phase_part_bounds [of "- time_offset k" k] rates_okD(4) [OF assms]
    by (auto simp: phase_adjust_def Let_def intro!: rates_ok_intros)
next
  case False
  with assms show ?thesis
    using phase_part_bounds [of "time_offset k" k] rates_okD(4) [OF assms]
    by (auto simp: phase_adjust_def Let_def intro!: rates_ok_intros)
qed

lemma freq_adjust_ok:
  assumes "rates_ok k" "\<bar>time_adj k\<bar> \<le> 262144000"
  shows "rates_ok (freq_adjust k) \<and> tv_usec (freq_adjust k) = tv_usec k"
proof -
  let ?l = "time_freq k + pps_freq k"
  have "\<bar>?l\<bar> \<le> 3 * MAXFREQ" using rates_okD(9,10) [OF assms(1)] by linarith
  then have "\<bar>?l\<bar> div 8 \<le> 12582912" by (simp add: clock_consts)
  then have "?l < 0 \<Longrightarrow> \<bar>time_adj k - (- ?l) div 8\<bar> \<le> 274726912" "\<not> ?l < 0 \<Longrightarrow> \<bar>time_adj k + ?l div 8\<bar> \<le> 274726912"
    using assms(2) by (auto simp: abs_if split: if_splits)
  then show ?thesis using assms(1) by (auto simp: freq_adjust_def Let_def intro!: rates_ok_intros(1))
qed

lemma second_overflow_ok: "rates_ok k \<Longrightarrow> rates_ok (second_overflow k) \<and> tv_usec (second_overflow k) = tv_usec k"
  unfolding second_overflow_def using bump_maxerror_ok leap_second_ok phase_adjust_ok freq_adjust_ok by metis

lemma adjtime_step_simps:
  "time_adjust (adjtime_step k) = (if time_adjust k > 1 then time_adjust k - 1 else if time_adjust k < - 1 then time_adjust k + 1 else 0)"
  "time_adjust_step (adjtime_step k) = time_adjust k - time_adjust (adjtime_step k)"
  "tick (adjtime_step k) = tick k" "tv_usec (adjtime_step k) = tv_usec k" "tv_sec (adjtime_step k) = tv_sec k"
  "time_phase (adjtime_step k) = time_phase k" "time_adj (adjtime_step k) = time_adj k"
  by (simp_all add: adjtime_step_def Let_def tickadj_def)

lemma adjtime_step_ok: "rates_ok k \<Longrightarrow> rates_ok (adjtime_step k)"
  using rates_okD(11,12) [of k] by (simp add: adjtime_step_def Let_def tickadj_def rates_ok_intros(7))

text \<open>The phase moves whole microseconds to the clock.\<close>
lemma advance_phase_ok:
  assumes "rates_ok k"
  shows "rates_ok (advance_phase k)" "\<bar>tv_usec (advance_phase k) - tv_usec k\<bar> \<le> 66"
proof -
  define p where "p = time_phase k + time_adj k"
  have p: "\<bar>p\<bar> < 67 * 2 ^ 22" using rates_okD(3,5) [OF assms] by (simp add: p_def)
  have m: "0 \<le> x mod 4194304" "x mod 4194304 < 4194304" "x = 4194304 * (x div 4194304) + x mod 4194304" for x :: int by simp_all
  consider "p \<le> - FINEUSEC" | "\<not> p \<le> - FINEUSEC" "p \<ge> FINEUSEC" | "\<not> p \<le> - FINEUSEC" "\<not> p \<ge> FINEUSEC" by blast
  then show "rates_ok (advance_phase k)" "\<bar>tv_usec (advance_phase k) - tv_usec k\<bar> \<le> 66"
  proof (atomize (full), cases)
    case 1
    have "\<bar>p + (- p) div 4194304 * 4194304\<bar> < FINEUSEC" "\<bar>(- p) div 4194304\<bar> \<le> 66"
      using m [of "- p"] p 1 by (simp_all add: FINEUSEC_def)
    then show "rates_ok (advance_phase k) \<and> \<bar>tv_usec (advance_phase k) - tv_usec k\<bar> \<le> 66"
      using 1 assms by (simp add: advance_phase_def Let_def p_def rates_ok_intros(2))
  next
    case 2
    have "\<bar>p - p div 4194304 * 4194304\<bar> < FINEUSEC" "\<bar>p div 4194304\<bar> \<le> 66"
      using m [of p] p 2 by (simp_all add: FINEUSEC_def)
    then show "rates_ok (advance_phase k) \<and> \<bar>tv_usec (advance_phase k) - tv_usec k\<bar> \<le> 66"
      using 2 assms by (simp add: advance_phase_def Let_def p_def rates_ok_intros(2))
  next
    case 3
    then show "rates_ok (advance_phase k) \<and> \<bar>tv_usec (advance_phase k) - tv_usec k\<bar> \<le> 66"
      using assms by (simp add: advance_phase_def Let_def p_def rates_ok_intros(2) abs_if)
  qed
qed

lemma one_tick_ok:
  assumes "rates_ok k"
  shows "rates_ok (update_wall_time_one_tick k)" "tv_usec k + 1690 \<le> tv_usec (update_wall_time_one_tick k)"
    "tv_usec (update_wall_time_one_tick k) \<le> tv_usec k + 2215"
proof -
  let ?k = "(adjtime_step k)\<lparr>tv_usec := tv_usec (adjtime_step k) + (tick (adjtime_step k) + time_adjust_step (adjtime_step k))\<rparr>"
  have k: "rates_ok ?k" using adjtime_step_ok [OF assms] by simp
  have u: "update_wall_time_one_tick k = advance_phase ?k" by (simp add: update_wall_time_one_tick_def Let_def)
  have "\<bar>tv_usec ?k - tv_usec k - tick k\<bar> \<le> 1" by (auto simp: adjtime_step_simps)
  then show "rates_ok (update_wall_time_one_tick k)" "tv_usec k + 1690 \<le> tv_usec (update_wall_time_one_tick k)"
    "tv_usec (update_wall_time_one_tick k) \<le> tv_usec k + 2215"
    using advance_phase_ok [OF k] rates_okD(1,2) [OF assms] unfolding u by linarith+
qed

lemma wall_ticks_ok:
  "rates_ok k \<Longrightarrow> rates_ok (wall_ticks n k) \<and> tv_usec k + 1690 * int n \<le> tv_usec (wall_ticks n k) \<and>
    tv_usec (wall_ticks n k) \<le> tv_usec k + 2215 * int n"
proof (induction n arbitrary: k)
  case (Suc n)
  then show ?case using Suc.IH [OF one_tick_ok(1) [OF Suc.prems]] one_tick_ok(2,3) [OF Suc.prems] by simp
qed simp

lemma update_wall_time_rates:
  assumes "rates_ok k" "ticks \<noteq> 0"
  shows "rates_ok (update_wall_time ticks k)"
    "tv_usec (update_wall_time ticks k) = (let u = tv_usec (wall_ticks (unat ticks) k) in if u \<ge> 1000000 then u - 1000000 else u)"
  using wall_ticks_ok [OF assms(1), of "unat ticks"] assms(2) second_overflow_ok
  by (simp_all add: update_wall_time_def next_second_def Let_def)

text \<open>What \<open>adjtimex\<close> may be given: an offset of 32 bits.\<close>
definition timex_ok :: "timex \<Rightarrow> bool" where
  "timex_ok t = (- (2 ^ 31) \<le> tx_offset t \<and> tx_offset t < 2 ^ 31)"

definition adj_keeps :: "(int \<times> clock \<Rightarrow> adj) \<Rightarrow> bool" where
  "adj_keeps g = (\<forall>r k. rates_ok k \<longrightarrow> (case g (r, k) of Inl (_, k') \<Rightarrow> rates_ok k' \<and> tv_usec k' = tv_usec k \<and> tv_sec k' = tv_sec k
     | Inr (_, k') \<Rightarrow> rates_ok k' \<and> tv_usec k' = tv_usec k \<and> tv_sec k' = tv_sec k))"

lemma adj_seq_keeps:
  "\<forall>g\<in>set gs. adj_keeps g \<Longrightarrow> rates_ok k \<Longrightarrow>
    rates_ok (snd (adj_seq gs (r, k))) \<and> tv_usec (snd (adj_seq gs (r, k))) = tv_usec k \<and> tv_sec (snd (adj_seq gs (r, k))) = tv_sec k"
proof (induction gs arbitrary: r k)
  case (Cons g gs)
  have g: "adj_keeps g" "\<forall>g\<in>set gs. adj_keeps g" using Cons.prems(1) by simp_all
  note gk = g(1) [unfolded adj_keeps_def, rule_format, OF Cons.prems(2), of r]
  show ?case
  proof (cases "g (r, k)")
    case (Inl s)
    then show ?thesis using gk by (cases s) simp
  next
    case (Inr s)
    obtain r' k' where s: "s = (r', k')" by fastforce
    have "rates_ok k' \<and> tv_usec k' = tv_usec k \<and> tv_sec k' = tv_sec k"
      using gk Inr s by simp
    then show ?thesis using Cons.IH [OF g(2), of k' r'] Inr s by simp
  qed
qed simp

lemma adj_loop_ok:
  assumes "rates_ok k"
  shows "rates_ok (snd (adj_loop l m (r, k))) \<and> tv_usec (snd (adj_loop l m (r, k))) = tv_usec k \<and> tv_sec (snd (adj_loop l m (r, k))) = tv_sec k"
proof -
  have "rates_ok (k\<lparr>time_freq := if x > time_tolerance k then time_tolerance k else if x < - time_tolerance k then - time_tolerance k else x\<rparr>)" for x
    by (rule rates_ok_intros(5) [OF assms]) (use rates_okD(8) [OF assms] in \<open>auto simp: MAXFREQ_def\<close>)
  then show ?thesis unfolding adj_loop_def Let_def prod.case by (simp only: case_prod_beta snd_conv) simp
qed

lemma adj_offset_keeps: "timex_ok t \<Longrightarrow> adj_keeps (adj_offset t)"
  unfolding adj_keeps_def
proof (intro allI impI)
  fix r k assume t: "timex_ok t" and k: "rates_ok k"
  define P where "P k' \<longleftrightarrow> rates_ok k' \<and> tv_usec k' = tv_usec k \<and> tv_sec k' = tv_sec k" for k'
  have off: "rates_ok (k\<lparr>time_offset := (if l > MAXPHASE then MAXPHASE * 2 ^ 12 else if l < - MAXPHASE then - (MAXPHASE * 2 ^ 12) else l * 2 ^ 12)\<rparr>)" for l
    by (rule rates_ok_intros(3) [OF k]) (auto simp: MAXPHASE_def)
  have loop: "P (snd (adj_loop l m (r, k')))" if "rates_ok k'" "tv_usec k' = tv_usec k" "tv_sec k' = tv_sec k" for l m k'
    using adj_loop_ok [OF that(1), of l m r] that by (simp add: P_def)
  have "\<exists>s. adj_offset t (r, k) = Inr s \<and> P (snd s)"
  proof (cases "tx_modes t AND ADJ_OFFSET = 0 \<or> tx_modes t = ADJ_OFFSET_SINGLESHOT \<or> time_status k AND (STA_PLL OR STA_PPSTIME) = 0")
    case True
    then show ?thesis using k t rates_ok_intros(7) [OF k, of "tx_offset t"] by (auto simp: adj_offset_def P_def timex_ok_def)
  next
    case False
    then have f: "tx_modes t AND ADJ_OFFSET \<noteq> 0" "tx_modes t \<noteq> ADJ_OFFSET_SINGLESHOT" "time_status k AND (STA_PLL OR STA_PPSTIME) \<noteq> 0"
      by blast+
    define l where "l = (if time_status k AND (STA_PPSTIME OR STA_PPSSIGNAL) = STA_PPSTIME OR STA_PPSSIGNAL then pps_offset k else tx_offset t)"
    define k1 where "k1 = k\<lparr>time_offset := (if l > MAXPHASE then MAXPHASE * 2 ^ 12 else if l < - MAXPHASE then - (MAXPHASE * 2 ^ 12) else l * 2 ^ 12)\<rparr>"
    define k2 where "k2 = (if time_status k1 AND STA_FREQHOLD \<noteq> 0 \<or> time_reftime k1 = 0 then k1\<lparr>time_reftime := tv_sec k1\<rparr> else k1)"
    have "rates_ok k1" using off unfolding k1_def .
    then have "rates_ok (k2\<lparr>time_reftime := tv_sec k2\<rparr>)" by (simp add: k2_def)
    moreover have "tv_usec k2 = tv_usec k" "tv_sec k2 = tv_sec k" by (simp_all add: k2_def k1_def)
    ultimately have "P (snd (adj_loop l (s32 (tv_sec k2 - time_reftime k2)) (r, k2\<lparr>time_reftime := tv_sec k2\<rparr>)))"
      by (intro loop) simp_all
    moreover have "adj_offset t (r, k) = Inr (adj_loop l (s32 (tv_sec k2 - time_reftime k2)) (r, k2\<lparr>time_reftime := tv_sec k2\<rparr>))"
      unfolding adj_offset_def prod.case Let_def if_P [OF f(1)] if_not_P [OF f(2)] if_P [OF f(3)] l_def k1_def k2_def by (rule refl)
    ultimately show ?thesis by blast
  qed
  then show "case adj_offset t (r, k) of
      Inl (_, k') \<Rightarrow> rates_ok k' \<and> tv_usec k' = tv_usec k \<and> tv_sec k' = tv_sec k
    | Inr (_, k') \<Rightarrow> rates_ok k' \<and> tv_usec k' = tv_usec k \<and> tv_sec k' = tv_sec k"
    by (auto simp: P_def split: prod.splits)
qed

lemma adj_others_keep: "adj_keeps (adj_status t)" "adj_keeps (adj_frequency t)" "adj_keeps (adj_maxerror t)" "adj_keeps (adj_esterror t)"
  "adj_keeps (adj_timeconst t)" "adj_keeps (adj_tick t)"
proof -
  have fr: "\<bar>f - g\<bar> \<le> 2 * MAXFREQ" if "\<not> (f > MAXFREQ \<or> f < - MAXFREQ)" "\<bar>g\<bar> \<le> MAXFREQ" for f g :: int using that by linarith
  show "adj_keeps (adj_status t)" "adj_keeps (adj_esterror t)"
    by (simp_all add: adj_keeps_def adj_status_def adj_esterror_def)
  show "adj_keeps (adj_frequency t)"
    unfolding adj_keeps_def adj_frequency_def using fr rates_okD(10) by (simp add: rates_ok_intros(5))
  show "adj_keeps (adj_maxerror t)" "adj_keeps (adj_timeconst t)" "adj_keeps (adj_tick t)"
    by (auto simp: adj_keeps_def adj_maxerror_def adj_timeconst_def adj_tick_def intro!: rates_ok_intros)
qed

lemma do_adjtimex_keeps:
  assumes "rates_ok k" "timex_ok t" "do_adjtimex c t k = (r, t', k')"
  shows "rates_ok k' \<and> tv_usec k' = tv_usec k \<and> tv_sec k' = tv_sec k"
proof -
  let ?gs = "[adj_status t, adj_frequency t, adj_maxerror t, adj_esterror t, adj_timeconst t, adj_offset t, adj_tick t]"
  have "\<forall>g\<in>set ?gs. adj_keeps g" using adj_offset_keeps [OF assms(2)] adj_others_keep by simp
  from adj_seq_keeps [OF this assms(1)] have "rates_ok (snd (adj_seq ?gs (x, k))) \<and> tv_usec (snd (adj_seq ?gs (x, k))) = tv_usec k \<and>
    tv_sec (snd (adj_seq ?gs (x, k))) = tv_sec k" for x .
  moreover have "k' = k \<or> (\<exists>x. k' = snd (adj_seq ?gs (x, k)))"
    using assms(3) unfolding do_adjtimex_def Let_def by (auto split: if_splits prod.splits simp del: adj_seq.simps) (metis snd_conv)+
  ultimately show ?thesis using assms(1) by metis
qed

text \<open>The loop of ticks when only \<open>adjtime\<close> is at work.\<close>
lemma wall_ticks_adjtime:
  assumes "time_adj k = 0" "\<bar>time_phase k\<bar> < FINEUSEC"
  shows "tv_usec (wall_ticks n k) = tv_usec k + int n * tick k + (time_adjust k - time_adjust (wall_ticks n k))"
    "time_adjust (wall_ticks n k) = (if 0 \<le> time_adjust k then max 0 (time_adjust k - int n) else min 0 (time_adjust k + int n))"
proof -
  have "tv_usec (wall_ticks n k) = tv_usec k + int n * tick k + (time_adjust k - time_adjust (wall_ticks n k)) \<and>
    time_adjust (wall_ticks n k) = (if 0 \<le> time_adjust k then max 0 (time_adjust k - int n) else min 0 (time_adjust k + int n))"
    using assms
  proof (induction n arbitrary: k)
    case (Suc n)
    let ?k = "update_wall_time_one_tick k"
    have k: "?k = (adjtime_step k)\<lparr>tv_usec := tv_usec k + tick k + (time_adjust k - time_adjust (adjtime_step k))\<rparr>"
      using Suc.prems by (simp add: update_wall_time_one_tick_def advance_phase_def Let_def adjtime_step_simps abs_if split: if_splits)
    then have f: "time_adj ?k = 0" "\<bar>time_phase ?k\<bar> < FINEUSEC" "tick ?k = tick k" "time_adjust ?k = time_adjust (adjtime_step k)"
      "tv_usec ?k = tv_usec k + tick k + (time_adjust k - time_adjust ?k)"
      using Suc.prems by (simp_all add: adjtime_step_simps)
    show ?case using Suc.IH [OF f(1,2)] f(3,4,5) adjtime_step_simps(1) [of k] by (simp add: algebra_simps split: if_splits)
  qed simp
  then show "tv_usec (wall_ticks n k) = tv_usec k + int n * tick k + (time_adjust k - time_adjust (wall_ticks n k))"
    "time_adjust (wall_ticks n k) = (if 0 \<le> time_adjust k then max 0 (time_adjust k - int n) else min 0 (time_adjust k + int n))"
    by simp_all
qed

lemma leap_bits:
  "(w OR STA_UNSYNC) AND STA_INS = w AND STA_INS" "(w OR STA_UNSYNC) AND STA_DEL = w AND STA_DEL"
  "(w OR STA_UNSYNC) AND (STA_INS OR STA_DEL) = w AND (STA_INS OR STA_DEL)"
  "(w AND NOT (STA_PPSSIGNAL OR STA_PPSJITTER OR STA_PPSWANDER OR STA_PPSERROR)) AND (STA_INS OR STA_DEL) = w AND (STA_INS OR STA_DEL)"
  by (simp_all add: STA_UNSYNC_def STA_INS_def STA_DEL_def STA_PPSSIGNAL_def STA_PPSJITTER_def STA_PPSWANDER_def STA_PPSERROR_def
    bit.conj_disj_distrib bit.conj_disj_distrib2 and.assoc)

lemma bump_maxerror_simps:
  "tv_sec (bump_maxerror k) = tv_sec k" "time_state (bump_maxerror k) = time_state k"
  "time_status (bump_maxerror k) = time_status k \<or> time_status (bump_maxerror k) = time_status k OR STA_UNSYNC"
  by (simp_all add: bump_maxerror_def Let_def)

lemma leap_second_bump:
  "tv_sec (leap_second (bump_maxerror k)) = tv_sec (leap_second k)" "time_state (leap_second (bump_maxerror k)) = time_state (leap_second k)"
  using bump_maxerror_simps [of k] by (auto simp: leap_second_def leap_bits split: tstate.splits)

lemma phase_freq_simps:
  "tv_sec (freq_adjust k) = tv_sec k" "time_state (freq_adjust k) = time_state k"
  "tv_sec (phase_adjust k) = tv_sec k" "time_state (phase_adjust k) = time_state k" "time_status (phase_adjust k) = time_status k"
  "time_status (freq_adjust k) AND (STA_INS OR STA_DEL) = time_status k AND (STA_INS OR STA_DEL)"
  using leap_bits(4) [of "time_status k"] by (simp_all add: freq_adjust_def phase_adjust_def Let_def)

lemma second_overflow_leap:
  "tv_sec (second_overflow k) = tv_sec (leap_second k)" "time_state (second_overflow k) = time_state (leap_second k)"
  "time_status (second_overflow k) AND (STA_INS OR STA_DEL) = time_status k AND (STA_INS OR STA_DEL)"
proof -
  show "tv_sec (second_overflow k) = tv_sec (leap_second k)" "time_state (second_overflow k) = time_state (leap_second k)"
    by (simp_all add: second_overflow_def phase_freq_simps leap_second_bump)
  have "time_status (leap_second k) = time_status k" for k by (simp add: leap_second_def split: tstate.split)
  then show "time_status (second_overflow k) AND (STA_INS OR STA_DEL) = time_status k AND (STA_INS OR STA_DEL)"
    using bump_maxerror_simps(3) [of k] by (auto simp: second_overflow_def phase_freq_simps leap_bits)
qed

lemma next_second_leap:
  "tv_sec (next_second k) = tv_sec (leap_second (k\<lparr>tv_sec := s32 (tv_sec k + 1)\<rparr>))"
  "time_state (next_second k) = time_state (leap_second (k\<lparr>tv_sec := s32 (tv_sec k + 1)\<rparr>))"
  "time_status (next_second k) AND (STA_INS OR STA_DEL) = time_status k AND (STA_INS OR STA_DEL)"
  by (simp_all add: next_second_def second_overflow_leap leap_second_def split: tstate.split)

lemma waiting_seconds:
  assumes "time_state k = TIME_WAIT" "time_status k AND (STA_INS OR STA_DEL) \<noteq> 0" "0 \<le> tv_sec k" "tv_sec k + int n < 2 ^ 31"
  shows "tv_sec ((next_second ^^ n) k) = tv_sec k + int n \<and> time_state ((next_second ^^ n) k) = TIME_WAIT \<and>
    time_status ((next_second ^^ n) k) AND (STA_INS OR STA_DEL) \<noteq> 0"
  using assms(4)
proof (induction n)
  case (Suc n)
  then have IH: "tv_sec ((next_second ^^ n) k) = tv_sec k + int n" "time_state ((next_second ^^ n) k) = TIME_WAIT"
    "time_status ((next_second ^^ n) k) AND (STA_INS OR STA_DEL) \<noteq> 0" by simp_all
  have "s32 (tv_sec k + int n + 1) = tv_sec k + int n + 1" by (rule s32_id) (use assms(3) Suc.prems in simp_all)
  then show ?case using IH by (simp add: next_second_leap) (simp add: leap_second_def)
qed (use assms in simp)

fun prof_ticks :: "nat \<Rightarrow> ptimes \<Rightarrow> ptimes \<times> int list" where
  "prof_ticks 0 p = (p, [])"
| "prof_ticks (Suc n) p = (let (p, s) = do_it_prof p; (p, s') = prof_ticks n p in (p, s @ s'))"

lemma prof_ticks_off: "it_prof_value p = 0 \<Longrightarrow> prof_ticks n p = (p, [])"
  by (induction n) (simp_all add: do_it_prof_def)

lemma prof_ticks_count:
  assumes "it_prof_value p \<noteq> 0"
  shows "snd (prof_ticks n p) = replicate (if n < unat (it_prof_value p) then 0
    else if it_prof_incr p = 0 then 1 else Suc ((n - unat (it_prof_value p)) div unat (it_prof_incr p))) SIGPROF"
  using assms
proof (induction n arbitrary: p)
  case 0
  then show ?case by (simp add: unat_gt_0)
next
  case (Suc n)
  let ?v = "unat (it_prof_value p)" and ?i = "unat (it_prof_incr p)"
  have v: "0 < ?v" using Suc.prems by (simp add: unat_gt_0)
  have u: "unat (it_prof_value p - 1) = ?v - 1" using Suc.prems by (simp add: unat_minus_one)
  show ?case
  proof (cases "it_prof_value p = 1")
    case True
    let ?p = "p\<lparr>it_prof_value := it_prof_incr p\<rparr>"
    have s: "snd (prof_ticks (Suc n) p) = SIGPROF # snd (prof_ticks n ?p)"
      using True by (simp add: do_it_prof_def case_prod_beta)
    show ?thesis
    proof (cases "it_prof_incr p = 0")
      case True
      then show ?thesis using s prof_ticks_off [of ?p n] \<open>it_prof_value p = 1\<close> by simp
    next
      case False
      then have "0 < ?i" by (simp add: unat_gt_0)
      then have "n div ?i = (if n < ?i then 0 else Suc ((n - ?i) div ?i))" by (simp add: le_div_geq)
      then show ?thesis using s Suc.IH [of ?p] False \<open>it_prof_value p = 1\<close> by simp
    qed
  next
    case False
    let ?p = "p\<lparr>it_prof_value := it_prof_value p - 1\<rparr>"
    have nz: "it_prof_value p - 1 \<noteq> 0" using False by simp
    have s: "snd (prof_ticks (Suc n) p) = snd (prof_ticks n ?p)"
      using nz Suc.prems by (simp add: do_it_prof_def case_prod_beta)
    have "n < ?v - 1 \<longleftrightarrow> Suc n < ?v" "n - (?v - 1) = Suc n - ?v" using v by auto
    then show ?thesis using s Suc.IH [of ?p] nz u by simp
  qed
qed

section \<open>Properties\<close>

text \<open>
  C38. The variables of the clock keep their ranges and the microseconds stay normalised, through a
  tick and through every call of \<open>adjtimex\<close>, accepted or refused.
\<close>
theorem clock_type:
  assumes "clock_ok k"
  shows "clock_ok (update_wall_time 1 k) \<and> (timex_ok t \<longrightarrow> clock_ok (snd (snd (do_adjtimex c t k))))"
proof -
  have r: "rates_ok k" "0 \<le> tv_usec k" "tv_usec k < 1000000" using assms by (simp_all add: clock_ok_def)
  have "clock_ok (update_wall_time 1 k)"
    using update_wall_time_rates [OF r(1), of 1] wall_ticks_ok [OF r(1), of 1] r(2,3) by (simp add: clock_ok_def Let_def)
  moreover have "clock_ok (snd (snd (do_adjtimex c t k)))" if "timex_ok t"
    using do_adjtimex_keeps [OF r(1) that, of c] r(2,3) by (cases "do_adjtimex c t k") (simp add: clock_ok_def)
  ultimately show ?thesis by blast
qed

text \<open>The clock at boot.\<close>
definition boot_clock :: clock where
  "boot_clock = \<lparr>tv_sec = 0, tv_usec = 0, tick = 1953, time_state = TIME_OK, time_status = STA_UNSYNC, time_offset = 0,
     time_constant = 2, time_tolerance = MAXFREQ, time_maxerror = NTP_PHASE_LIMIT, time_esterror = NTP_PHASE_LIMIT,
     time_freq = 64 * 2 ^ 16, time_adj = 0, time_phase = 0, time_reftime = 0, time_adjust = 0, time_adjust_step = 0,
     pps_offset = 0, pps_freq = 0, pps_jitter = 200 * 2 ^ 2, pps_stabil = MAXFREQ, pps_valid = 120\<rparr>"

lemma boot_rates: "rates_ok boot_clock"
  by (simp add: rates_ok_def boot_clock_def clock_consts)

theorem clock_type_witness: "clock_ok (update_wall_time 1 boot_clock)"
  using clock_type [of boot_clock] boot_rates by (simp add: clock_ok_def boot_clock_def)

text \<open>
  After ticks of two seconds or more have been lost, \<open>update_wall_time\<close> carries one second only: the
  microseconds are left at a million or more.
\<close>
theorem lost_ticks_break:
  assumes "clock_ok k" "1184 \<le> unat ticks"
  shows "1000000 \<le> tv_usec (update_wall_time ticks k)"
proof -
  have r: "rates_ok k" "0 \<le> tv_usec k" "ticks \<noteq> 0" using assms by (auto simp: clock_ok_def)
  have "2000000 \<le> tv_usec (wall_ticks (unat ticks) k)" using wall_ticks_ok [OF r(1), of "unat ticks"] r(2) assms(2) by linarith
  then show ?thesis using update_wall_time_rates(2) [OF r(1,3)] by (simp add: Let_def)
qed

theorem lost_ticks_break_witness: "1000000 \<le> tv_usec (update_wall_time 2000 boot_clock)"
  using lost_ticks_break [of boot_clock 2000] boot_rates by (simp add: clock_ok_def boot_clock_def)

text \<open>
  C39. A leap second is inserted once: the second before midnight comes twice, then the time
  goes on by one each second for as long as the request is not withdrawn. A deleted one leaves out the second
  before midnight.
\<close>
theorem leap_second_once:
  assumes "time_status k AND (STA_INS OR STA_DEL) \<noteq> 0" "0 \<le> tv_sec k" "tv_sec k + int n + 3 < 2 ^ 31"
  shows "(time_state k = TIME_INS \<and> (tv_sec k + 1) mod 86400 = 0 \<longrightarrow>
      tv_sec (next_second k) = tv_sec k \<and> tv_sec ((next_second ^^ n) (next_second (next_second k))) = tv_sec k + int n + 1) \<and>
    (time_state k = TIME_DEL \<and> (tv_sec k + 2) mod 86400 = 0 \<longrightarrow>
      tv_sec (next_second k) = tv_sec k + 2 \<and> tv_sec ((next_second ^^ n) (next_second k)) = tv_sec k + int n + 2)"
proof (intro conjI impI)
  have s: "s32 x = x" if "0 \<le> x" "x \<le> tv_sec k + int n + 2" for x by (rule s32_id) (use that assms(3) in simp_all)
  have st: "time_status (next_second k) AND (STA_INS OR STA_DEL) \<noteq> 0"
    "time_status (next_second (next_second k)) AND (STA_INS OR STA_DEL) \<noteq> 0" using assms(1) by (simp_all add: next_second_leap)
  {
    assume i: "time_state k = TIME_INS \<and> (tv_sec k + 1) mod 86400 = 0"
    have k1: "tv_sec (next_second k) = tv_sec k" "time_state (next_second k) = TIME_OOP"
      using i s [of "tv_sec k + 1"] s [of "tv_sec k"] assms(2) by (simp_all add: next_second_leap) (simp_all add: leap_second_def)
    have k2: "tv_sec (next_second (next_second k)) = tv_sec k + 1" "time_state (next_second (next_second k)) = TIME_WAIT"
      unfolding next_second_leap [of "next_second k"] using k1 s [of "tv_sec k + 1"] assms(2) by (simp_all add: leap_second_def)
    show "tv_sec (next_second k) = tv_sec k" by (rule k1)
    show "tv_sec ((next_second ^^ n) (next_second (next_second k))) = tv_sec k + int n + 1"
      using waiting_seconds [OF k2(2) st(2), of n] k2(1) assms(2,3) by simp
  next
    assume d: "time_state k = TIME_DEL \<and> (tv_sec k + 2) mod 86400 = 0"
    have k1: "tv_sec (next_second k) = tv_sec k + 2" "time_state (next_second k) = TIME_WAIT"
      using d s [of "tv_sec k + 1"] s [of "2 + tv_sec k"] assms(2)
      by (simp_all add: next_second_leap) (simp_all add: leap_second_def add.commute)
    show "tv_sec (next_second k) = tv_sec k + 2" by (rule k1)
    show "tv_sec ((next_second ^^ n) (next_second k)) = tv_sec k + int n + 2"
      using waiting_seconds [OF k1(2) st(1), of n] k1(1) assms(2,3) by simp
  }
qed

definition leap_clock :: clock where
  "leap_clock = boot_clock\<lparr>tv_sec := 86399, time_state := TIME_INS, time_status := STA_INS\<rparr>"

theorem leap_second_once_witness: "tv_sec (next_second leap_clock) = 86399 \<and> tv_sec ((next_second ^^ 7) (next_second (next_second leap_clock))) = 86407"
  using leap_second_once [of leap_clock 7] by (simp add: leap_clock_def STA_INS_def STA_DEL_def)

text \<open>
  While the clock is not synchronised, as it is at boot, a request with a value out of range
  is refused, but the result is \<open>TIME_ERROR\<close> and not \<open>EINVAL\<close>: the code behind the label overwrites it.
\<close>
theorem adjtimex_hides_error:
  assumes "clock_error (time_status k)" "tx_modes t = ADJ_FREQUENCY" "MAXFREQ < tx_freq t"
  shows "fst (do_adjtimex True t k) = tstate_num TIME_ERROR \<and> snd (snd (do_adjtimex True t k)) = k \<and>
    tstate_num TIME_ERROR \<noteq> - EINVAL"
proof -
  have m: "ADJ_FREQUENCY \<noteq> 0" "ADJ_FREQUENCY AND ADJ_STATUS = 0" "ADJ_FREQUENCY AND ADJ_TICK = 0" "ADJ_FREQUENCY AND ADJ_OFFSET = 0"
    "ADJ_FREQUENCY AND ADJ_OFFSET_SINGLESHOT \<noteq> ADJ_OFFSET_SINGLESHOT" "ADJ_FREQUENCY \<noteq> ADJ_OFFSET_SINGLESHOT"
    by (simp_all add: ADJ_FREQUENCY_def ADJ_STATUS_def ADJ_TICK_def ADJ_OFFSET_def ADJ_OFFSET_SINGLESHOT_def)
  show ?thesis
    using assms m by (simp add: do_adjtimex_def adj_status_def adj_frequency_def EINVAL_def)
qed

definition bad_freq :: timex where
  "bad_freq = \<lparr>tx_modes = ADJ_FREQUENCY, tx_offset = 0, tx_freq = 2 ^ 30, tx_maxerror = 0, tx_esterror = 0, tx_status = 0, tx_constant = 0, tx_tick = 0\<rparr>"

theorem adjtimex_hides_error_witness: "fst (do_adjtimex True bad_freq boot_clock) = 5"
  using adjtimex_hides_error [of boot_clock bad_freq]
  by (simp add: boot_clock_def bad_freq_def clock_error_def STA_UNSYNC_def STA_CLOCKERR_def MAXFREQ_def)

text \<open>
  \<open>adjtime\<close> moves the clock by one microsecond per tick until the whole adjustment is used up, no
  more and no less.
\<close>
theorem adjtime_slews:
  assumes "time_adj k = 0" "\<bar>time_phase k\<bar> < FINEUSEC"
  shows "tv_usec (wall_ticks n k) = tv_usec k + int n * tick k + (time_adjust k - time_adjust (wall_ticks n k)) \<and>
    \<bar>time_adjust (wall_ticks n k)\<bar> = max 0 (\<bar>time_adjust k\<bar> - int n)"
  using wall_ticks_adjtime [OF assms, of n] by (auto simp: abs_if max_def min_def)

theorem adjtime_slews_witness: "time_adjust (wall_ticks 10 (boot_clock\<lparr>time_adjust := -4\<rparr>)) = 0"
  using adjtime_slews [of "boot_clock\<lparr>time_adjust := -4\<rparr>" 10] by (simp add: boot_clock_def FINEUSEC_def)

text \<open>
  The profiling timer of a process sends \<open>SIGPROF\<close> for the first time after as many ticks as its
  value says, then every time its interval has passed, and once only without an interval.
\<close>
theorem itimer_prof_fires:
  assumes "it_prof_value p \<noteq> 0"
  shows "snd (prof_ticks n p) = replicate (if n < unat (it_prof_value p) then 0
    else if it_prof_incr p = 0 then 1 else Suc ((n - unat (it_prof_value p)) div unat (it_prof_incr p))) SIGPROF"
  using assms by (rule prof_ticks_count)

definition demo_times :: ptimes where
  "demo_times = \<lparr>tms_utime = 0, tms_stime = 0, per_cpu_utime = 0, per_cpu_stime = 0, rlim_cpu_cur = -1, rlim_cpu_max = -1,
     it_virt_value = 0, it_virt_incr = 0, it_prof_value = 2, it_prof_incr = 5\<rparr>"

theorem itimer_prof_fires_witness: "snd (prof_ticks 12 demo_times) = replicate 3 SIGPROF"
  using itimer_prof_fires [of demo_times 12] by (simp add: demo_times_def numeral_3_eq_3)

end
