(* ===== verification/Spec2Isabelle.thy ===== *)
theory Spec2Isabelle
  imports Magic_Sched Magic_Api Repeated Asm_String Vsscanf Signal Timer_Run Timekeeping
begin

text \<open>
  \<^bold>\<open>A verification of the kernel code of OS-LAB-HW\<close>

  \<^bold>\<open>The program.\<close> The repository holds three assignments on the Linux kernel 2.4.18-14 for one i386
  processor. The first adds system calls with which processes carry wands, attack each other and steal
  secrets (\<open>magic_all.c\<close>, \<open>magic_api.h\<close>, and changes of \<open>fork.c\<close> and \<open>exit.c\<close>); the second adds a magic
  time to the scheduler, in which one process has the processor for itself (\<open>kernel/sched.c\<close>,
  \<open>sys_magic_clock\<close>); the third is a character device that repeats a string (\<open>repeated.c\<close>) with a program
  that uses it (\<open>two_processes.c\<close>). HW2 stands below for
  \<open>src/OS HW2/PRINTLESS VERSION [KNOWN WORKING]/SOURCES\<close>, K for \<open>src/OS HW1/linux-2.4.18-14custom\<close>, the
  kernel the assignments change.

  \<^bold>\<open>How the parts interact.\<close> All kernel parts work on one state, the record \<open>kst\<close> of the theory \<open>Task\<close>: the
  task structures, the heap of list nodes (\<open>lists\<close>), the runqueue, the hash table of process numbers, byte
  memory (\<open>mem\<close>), the variables of the magic mode, and the counters of \<open>sysst\<close>. The scheduler, the wait
  queues, the thread groups and the stolen secrets share the list operations of \<open>Klist\<close>; the wand calls use
  the string routines on \<open>mem\<close> and the hash table; \<open>do_fork\<close> uses the table, the runqueue and the tick;
  \<open>do_exit\<close> and \<open>sys_wait4\<close> use the secrets, the table, the wait queues and \<open>schedule()\<close>.

  \<^bold>\<open>Theories.\<close>
  \<^item> \<open>Prelude\<close>: machine types, error numbers, truncating division, shared lemmas.
  \<^item> \<open>Klist\<close> (K \<open>include/linux/list.h\<close>): the pointer operations on a heap of next and prev fields; \<open>dlist\<close>
    relates a circular list to a HOL list. The locale \<open>kernel_list\<close> states what clients rely on; it is
    interpreted on the pointer operations and used by every theory with queues.
  \<^item> \<open>Nlist\<close>: lists that end with NULL and have back pointers.
  \<^item> \<open>Bitmap\<close> (K \<open>include/asm-i386/bitops.h\<close>): the priority bitmap and the search for its first bit.
  \<^item> \<open>Task\<close> (HW2 \<open>include/linux/sched.h\<close>): the data model.
  \<^item> \<open>Runqueue\<close>, \<open>Sched\<close>, \<open>Magic_Sched\<close>, \<open>Sched_Calls\<close> (HW2 \<open>kernel/sched.c\<close>): the queues with the invariant
    \<open>rq_inv\<close>; wake-up, tick, \<open>schedule()\<close> split by its phases, \<open>sched_init\<close>; the magic mode as a labelled step
    relation \<open>kstep\<close> of ticks, calls of \<open>schedule()\<close> and of \<open>sys_magic_clock\<close>, wake-ups and changes of the state of
    the running task (any sleep, stopping, exiting), whose runs \<open>magic_run\<close> are compared with an abstract
    countdown; the scheduling system calls. The locale
    \<open>prio_arrays\<close> is the contract of the two priority arrays, interpreted on \<open>enqueue_task\<close> and
    \<open>dequeue_task\<close>; moving a task between queues is proved once in it.
  \<^item> \<open>Waitq\<close> (K \<open>include/linux/wait.h\<close>, \<open>completion.h\<close>; HW2 \<open>fork.c\<close>, \<open>sched.c\<close>): wait queues, wake-ups,
    completions and sleeps.
  \<^item> \<open>Ptable\<close> (HW2 \<open>sched.h\<close>, \<open>get_pid\<close> of \<open>fork.c\<close>): the list of processes, the family pointers, the hash
    table, with the invariant \<open>ptable\<close>, and the search for a free process number.
  \<^item> \<open>Fork\<close>, \<open>Exit\<close> (HW2 \<open>kernel/fork.c\<close>, \<open>kernel/exit.c\<close>): creation and end of processes, waiting.
  \<^item> \<open>Cstring\<close>, \<open>Asm_String\<close>, \<open>Uaccess\<close>, \<open>Kmalloc\<close> (K \<open>lib/string.c\<close>, \<open>include/asm-i386/string.h\<close>,
    \<open>include/asm-i386/uaccess.h\<close>, \<open>arch/i386/lib/usercopy.c\<close>): C strings and the inline assembly with its
    string instructions on byte memory, the range check and the copies with their fix-up code, and what is
    relied on of the allocator. \<open>User_String\<close> (also \<open>arch/i386/lib/getuser.S\<close>): the transfer of single values, strings
    from the user and the clearing of user memory.
  \<^item> \<open>Vsprintf\<close>, \<open>Vsscanf\<close> (K \<open>lib/vsprintf.c\<close>, \<open>include/linux/ctype.h\<close>, \<open>include/asm-i386/div64.h\<close>): printing and
    reading of numbers and formats on byte memory. \<open>number_text\<close> is the reference for what \<open>number\<close> prints, with the
    digits of positional notation. The arguments of a call are the list of its words; \<open>n_targets\<close> are the variables
    that the \<open>%n\<close> directives of a format take from them.
  \<^item> \<open>Sigqueue\<close>, \<open>Signal\<close> (K \<open>kernel/signal.c\<close>, \<open>include/linux/signal.h\<close>, \<open>include/asm-i386/signal.h\<close>): sets of
    signals, the queues of pending signals on a heap of \<open>struct sigqueue\<close> objects, and on top of them sending,
    blocking, taking and the actions, on the state \<open>sigst\<close> that adds the signal fields to \<open>kst\<close>. The locale
    \<open>keyed_queue\<close> is the contract of a queue with keys, interpreted on \<open>send_signal\<close> and \<open>collect_signal\<close>; first in, first
    out is proved in it. \<open>sigstep\<close> is the step relation of all operations, the ones on notifiers included,
    with the invariant \<open>ninv\<close>.
  \<^item> \<open>Magic\<close>, \<open>Magic_Api\<close> (\<open>magic_all.c\<close> in its three versions, \<open>magic_api.h\<close>): the five calls, the abstract
    wizards they implement (\<open>magic_rel\<close>), and the wrappers that set \<open>errno\<close>.
  \<^item> \<open>Timer\<close>, \<open>Timer_Run\<close> (K \<open>kernel/timer.c\<close>, \<open>include/linux/timer.h\<close>): the timer wheel on its own state
    \<open>timers\<close>, with the invariant \<open>wheel\<close> on the slot of each timer. The locale \<open>timer_service\<close> is what a client
    relies on, interpreted on the wheel for every handler that only starts timers (\<open>arming\<close>).
  \<^item> \<open>Timekeeping\<close> (K \<open>kernel/timer.c\<close>, \<open>kernel/time.c\<close>): the wall clock of a tick with the corrections of \<open>adjtime\<close> and
    \<open>adjtimex\<close> and the leap seconds, the load average, and the accounting of process times with its timers.
  \<^item> \<open>Devices\<close>, \<open>Repeated\<close> (K \<open>fs/devices.c\<close>, \<open>src/OS HW3\<close>): the table of character devices, the driver and
    the numbered parts of \<open>two_processes.c\<close>.

  \<^bold>\<open>What the lemmas show.\<close> Of the scheduler: \<open>schedule()\<close> switches to the best queued task and keeps \<open>rq_inv\<close>;
  from the call of \<open>schedule()\<close> that starts the magic mode, in every interleaving in which the process does not
  ask for zero jiffies, only it or the idle task runs and the countdown is the one it asked for. Of the wand
  calls: each implements its abstract call on every branch, for secrets that fit in 32 bytes; the first and the corrected version agree through their wrappers. Of processes: a fresh number is found
  whenever there is one, linking and unlinking keep the table, a fork gives a queued child that shares its
  parent's ticks and has no wand, an exit frees each secret once, a wait removes the zombie. Of timers: each is called in the
  round of its expiry, across the overflow of the tick counter. Of strings and
  copies: the routines meet their specifications; of the assembly ones \<open>strcpy\<close>, \<open>strchr\<close>, \<open>strnlen\<close>, \<open>memmove\<close>, \<open>memchr\<close>
  and \<open>memset\<close> are the C ones, \<open>memcpy\<close> is where the areas do not overlap, \<open>strcmp\<close> is in being zero. Of printing: the text is
  that of the reference, stays in the buffer, and reading it gives the number back. Of signals: in every interleaving
  \<open>SIGKILL\<close> and \<open>SIGSTOP\<close> stay deliverable, no deliverable signal of a task without a notifier is without its flag, and \<open>SIGCONT\<close> excludes the signals
  that stop; what is sent arrives and wakes its task. Of the clock: its variables keep their ranges, a leap
  second comes once. Of the driver: a
  read gives the repeated string. Theorems of the kind \<open>error\<close> and \<open>bounds\<close> state what the code does
  where it does not do what it means to: overruns, wrap-around, a queue broken by the end of the magic
  mode, memory that is not given back, the secret of a zombie that is read after \<open>do_exit\<close> freed it, a refused call that has its effect.

  \<^bold>\<open>Conventions.\<close> A function that can fail to return has an option result: \<open>None\<close> stands for an access to
  memory that is not mapped, a dereference of NULL, \<open>BUG()\<close> or \<open>panic\<close>, or a loop that does not end; loops are
  \<open>partial_function (option)\<close>, so no fuel is chosen, and that a result exists is proved. Integers keep their
  32 bits (\<open>u32\<close>, signed reading by \<open>sint\<close>); fields of type \<open>int\<close> that do not overflow are integers. A
  function that blocks is split at its call of \<open>schedule()\<close>: the part up to the switch and the part that
  runs when the process has the processor again. Locks and the disabling of interrupts have no effect on
  one processor and do not occur.

  \<^bold>\<open>Parameters.\<close> Code the modelled functions only call is an argument: \<open>kmalloc\<close> and \<open>kfree\<close> (with
  \<open>kmalloc_ok\<close>, \<open>kfree_ok\<close>: fresh mapped memory or NULL, unmapped after freeing), the allocation of a
  task structure, the copying and the release of the other resources of a process, resource usage, the
  functions that timers call, the allocation of queue objects (\<open>sq_alloc_ok\<close>), the notifiers of drivers, and in \<open>Fork\<close> and \<open>Exit\<close>
  the sending of signals, whose model in \<open>Signal\<close> has a state of its own. What a function reads of a structure on its
  stack that it has not initialised is an argument too. Each theorem with such a hypothesis has a witness with a concrete function.

  \<^bold>\<open>Not modelled.\<close> Of \<open>kernel/timer.c\<close> and \<open>kernel/time.c\<close> the sleeps with a timeout, the calls that read or set the
  time of day and the time stamp counter. Of \<open>kernel/signal.c\<close> the calls that wait for a signal, alternate stacks
  and those that copy a whole \<open>siginfo\<close> or \<open>sigaction\<close> structure from or to the user, whose layout is a matter of bytes;
  the entry of handlers is assembly-level code of the architecture. The slab allocator, virtual memory, file
  systems, drivers, the network and the other architectures are unchanged kernel code the assignments do
  not touch. The table of system calls in \<open>entry.S\<close> is assembly data. The version of HW2 with print statements
  differs in its output only. Load balancing and migration exist only for several processors.
\<close>

end
